(* ===== verification/Prelude.thy ===== *)
theory Prelude
  imports Main "HOL-Library.Word"
begin

text \<open>
  Shared vocabulary of the development: the C types the sources use, the error numbers, the
  pointer-to-handle type of the POSIX interfaces, the generic notion of a reachable state
  with the two locales that every step relation of the development interprets
  (\<open>transition_system\<close> for invariants, \<open>exclusion\<close> for locks), and the lemma collections.
\<close>

unbundle bit_operations_syntax

section \<open>C types\<close>

type_synonym u8 = "8 word"
type_synonym u32 = "32 word"
type_synonym u64 = "64 word"

text \<open>
  A C \<open>int\<close> is an \<open>int\<close> together with the range \<open>INT_MIN \<le> i \<le> INT_MAX\<close>; \<open>to_int\<close> is
  the two's complement reduction that a conversion or an overflowing addition performs on the
  target (AArch64, clang).
\<close>

abbreviation (input) INT_MAX :: int where "INT_MAX \<equiv> 2147483647"
abbreviation (input) INT_MIN :: int where "INT_MIN \<equiv> - 2147483648"

definition to_int :: "int \<Rightarrow> int" where
  "to_int i = (i + 2147483648) mod 4294967296 - 2147483648"

lemma to_int_range: "INT_MIN \<le> to_int i \<and> to_int i \<le> INT_MAX"
proof -
  have "0 \<le> (i + 2147483648) mod 4294967296" "(i + 2147483648) mod 4294967296 < 4294967296"
    by simp_all
  then show ?thesis by (simp add: to_int_def)
qed

lemma to_int_id [simp]: "INT_MIN \<le> i \<Longrightarrow> i \<le> INT_MAX \<Longrightarrow> to_int i = i"
  by (simp add: to_int_def)

section \<open>Error numbers\<close>

text \<open>
  The numbers of newlib's \<open>sys/errno.h\<close>. Nothing below depends on the values beyond their
  being non-zero and pairwise distinct; \<open>EWOULDBLOCK\<close> is \<open>EAGAIN\<close>, as newlib has it.
\<close>

abbreviation (input) EPERM :: int where "EPERM \<equiv> 1"
abbreviation (input) EINTR :: int where "EINTR \<equiv> 4"
abbreviation (input) EAGAIN :: int where "EAGAIN \<equiv> 11"
abbreviation (input) EWOULDBLOCK :: int where "EWOULDBLOCK \<equiv> 11"
abbreviation (input) ENOMEM :: int where "ENOMEM \<equiv> 12"
abbreviation (input) EBUSY :: int where "EBUSY \<equiv> 16"
abbreviation (input) EINVAL :: int where "EINVAL \<equiv> 22"
abbreviation (input) ENOSPC :: int where "ENOSPC \<equiv> 28"
abbreviation (input) EDEADLK :: int where "EDEADLK \<equiv> 45"
abbreviation (input) ENOSYS :: int where "ENOSYS \<equiv> 88"
abbreviation (input) ETIMEDOUT :: int where "ETIMEDOUT \<equiv> 116"
abbreviation (input) ENOTSUP :: int where "ENOTSUP \<equiv> 134"

section \<open>Pointers and handles\<close>

text \<open>
  A thread is named by a number; a \<open>pthread_t\<close> is a pointer to it, \<open>None\<close> being \<open>NULL\<close>.
  The POSIX objects are reached through a pointer to a handle: \<open>None\<close> is the pointer
  \<open>NULL\<close>, \<open>Some None\<close> a handle that holds \<open>NULL\<close> (the static initialiser), \<open>Some (Some x)\<close>
  a handle of the object \<open>x\<close>.
\<close>

type_synonym tid = nat
type_synonym pthread_t = "tid option"
type_synonym 'a handlep = "'a option option"

record timespec =
  tv_sec :: int
  tv_nsec :: int

section \<open>Outcomes of a call\<close>

text \<open>
  A C call returns a value, or it calls \<open>abort\<close>, never returns because it spins on a lock
  that nobody releases, or dereferences a null or freed pointer. \<open>bindR\<close> sequences calls.
\<close>

datatype 'a res = Ret 'a | Abort | Hang | Crash

fun bindR :: "'a res \<Rightarrow> ('a \<Rightarrow> 'b res) \<Rightarrow> 'b res" where
  "bindR (Ret x) f = f x"
| "bindR Abort f = Abort"
| "bindR Hang f = Hang"
| "bindR Crash f = Crash"

lemma bindR_cong [fundef_cong]:
  "m = m' \<Longrightarrow> (\<And>x. m' = Ret x \<Longrightarrow> f x = f' x) \<Longrightarrow> bindR m f = bindR m' f'"
  by (cases m') simp_all

lemma bindR_assoc: "bindR (bindR m f) g = bindR m (\<lambda>x. bindR (f x) g)"
  by (cases m) simp_all

lemma bindR_Ret_iff: "bindR m f = Ret y \<longleftrightarrow> (\<exists>x. m = Ret x \<and> f x = Ret y)"
  by (cases m) simp_all

text \<open>
  A call that may put the thread to sleep is cut at its blocking point: the part before it
  ends in \<open>Sleep\<close>, and a second definition resumes it with the code the wait returned.
\<close>

datatype 'a blocking = Done 'a | Sleep

section \<open>Step relations\<close>

text \<open>The states a step relation reaches from its initial states.\<close>

inductive reach :: "('s \<Rightarrow> bool) \<Rightarrow> ('s \<Rightarrow> 's \<Rightarrow> bool) \<Rightarrow> 's \<Rightarrow> bool"
  for init :: "'s \<Rightarrow> bool" and step :: "'s \<Rightarrow> 's \<Rightarrow> bool" where
  reach_init: "init s \<Longrightarrow> reach init step s"
| reach_step: "reach init step s \<Longrightarrow> step s s' \<Longrightarrow> reach init step s'"

text \<open>
  \<open>transition_system\<close> is the contract between a step relation and its invariant,
  \<open>exclusion\<close> adds a predicate that says which thread is inside and the law that the
  invariant lets in one thread only.
\<close>

locale transition_system =
  fixes init :: "'s \<Rightarrow> bool"
    and step :: "'s \<Rightarrow> 's \<Rightarrow> bool"
    and inv :: "'s \<Rightarrow> bool"
  assumes init_inv: "init s \<Longrightarrow> inv s"
    and step_inv: "step s s' \<Longrightarrow> inv s \<Longrightarrow> inv s'"
begin

lemma reach_inv: "reach init step s \<Longrightarrow> inv s"
  by (induction rule: reach.induct) (blast intro: init_inv step_inv)+

lemma steps_inv: "step\<^sup>*\<^sup>* s s' \<Longrightarrow> inv s \<Longrightarrow> inv s'"
  by (induction rule: rtranclp_induct) (blast intro: step_inv)+

lemma reach_steps: "reach init step s \<Longrightarrow> step\<^sup>*\<^sup>* s s' \<Longrightarrow> reach init step s'"
  by (rotate_tac, induction rule: rtranclp_induct) (blast intro: reach.reach_step)+

end

locale exclusion = transition_system init step inv
  for init :: "'s \<Rightarrow> bool" and step and inv +
  fixes inside :: "'s \<Rightarrow> tid \<Rightarrow> bool"
  assumes one_inside: "inv s \<Longrightarrow> inside s t \<Longrightarrow> inside s u \<Longrightarrow> t = u"
begin

lemma mutual_exclusion:
  "reach init step s \<Longrightarrow> inside s t \<Longrightarrow> inside s u \<Longrightarrow> t = u"
  by (blast intro: one_inside reach_inv)

end

section \<open>Lemma collections\<close>

named_theorems pthread_defs \<open>definitions of the pthread operations\<close>

end
