(* ===== verification/Spinlock.thy ===== *)
theory Spinlock
  imports Prelude
begin

text \<open>
  The lowest layer of \<open>src/pthread\<close>: the atomic lock of \<open>rthread_internal.c\<close>
  (\<open>_atomic_lock\<close>, \<open>_spinlock\<close>, \<open>_spinlocktry\<close>, \<open>_spinunlock\<close>) and the POSIX spin locks
  of \<open>rthread_spin_lock.c\<close> built on it. The operations come first as functions of the state
  one caller sees (a call that spins for ever on a lock nobody else releases is \<open>None\<close>),
  then as a step relation in which any number of threads interleave at every shared access.
\<close>

section \<open>The atomic lock\<close>

abbreviation (input) ATOMIC_LOCK_UNLOCKED :: int where "ATOMIC_LOCK_UNLOCKED \<equiv> 0"
abbreviation (input) ATOMIC_LOCK_LOCKED :: int where "ATOMIC_LOCK_LOCKED \<equiv> 1"

text \<open>
  The \<open>ldaxr\<close>/\<open>stlxr\<close> pair of \<open>_atomic_lock\<close> retries until the exclusive store succeeds,
  so the instruction sequence is an atomic swap with \<open>_ATOMIC_LOCK_LOCKED\<close>: the result says
  whether the old value was not \<open>_ATOMIC_LOCK_UNLOCKED\<close>.
\<close>

definition atomic_lock :: "int \<Rightarrow> bool \<times> int" where
  "atomic_lock lock = (let old = lock in (old \<noteq> ATOMIC_LOCK_UNLOCKED, ATOMIC_LOCK_LOCKED))"

text \<open>
  \<open>while (_atomic_lock(lock)) sched_yield();\<close> as one thread runs it with no other thread
  storing to the lock. \<open>None\<close>: the call does not return.
\<close>

partial_function (option) spinlock :: "int \<Rightarrow> int option" where
  "spinlock lock =
     (case atomic_lock lock of (busy, lock') \<Rightarrow> if busy then spinlock lock' else Some lock')"

definition spinlocktry :: "int \<Rightarrow> bool \<times> int" where
  "spinlocktry lock = (case atomic_lock lock of (busy, lock') \<Rightarrow> (\<not> busy, lock'))"

definition spinunlock :: "int \<Rightarrow> int" where
  "spinunlock lock = ATOMIC_LOCK_UNLOCKED"

lemma spinlock_returns: "spinlock lock = Some r \<Longrightarrow> lock = ATOMIC_LOCK_UNLOCKED"
proof -
  assume ret: "spinlock lock = Some r"
  have "lock = ATOMIC_LOCK_UNLOCKED \<and> r = ATOMIC_LOCK_LOCKED"
  proof (rule spinlock.raw_induct [where P = "\<lambda>l r. l = 0 \<and> r = 1", OF _ ret])
    fix f l r
    assume IH: "\<And>l r. f l = Some r \<Longrightarrow> l = 0 \<and> r = (1 :: int)"
      and eq: "(case atomic_lock l of (busy, l') \<Rightarrow> if busy then f l' else Some l') = Some r"
    show "l = 0 \<and> r = 1"
      using eq IH [of 1 r] by (auto simp: atomic_lock_def split: if_splits)
  qed
  then show ?thesis by simp
qed

lemma spinlock_eq [simp]:
  "spinlock lock = (if lock = ATOMIC_LOCK_UNLOCKED then Some ATOMIC_LOCK_LOCKED else None)"
proof (cases "lock = ATOMIC_LOCK_UNLOCKED")
  case True
  then show ?thesis by (subst spinlock.simps) (simp add: atomic_lock_def)
next
  case False
  then show ?thesis using spinlock_returns [of lock] by (cases "spinlock lock") auto
qed

lemma spinlocktry_eq [simp]:
  "spinlocktry lock = (lock = ATOMIC_LOCK_UNLOCKED, ATOMIC_LOCK_LOCKED)"
  by (simp add: spinlocktry_def atomic_lock_def)

lemma spinunlock_eq [simp]: "spinunlock lock = ATOMIC_LOCK_UNLOCKED"
  by (simp add: spinunlock_def)

text \<open>
  What the rest of the library relies on when it guards its data with an atomic lock: taking a
  free lock returns and leaves it taken, taking a taken lock does not return, releasing frees.
\<close>

locale raw_lock =
  fixes acquire :: "'l \<Rightarrow> 'l option"
    and release :: "'l \<Rightarrow> 'l"
    and free :: "'l \<Rightarrow> bool"
  assumes acquire_free: "free l \<Longrightarrow> \<exists>l'. acquire l = Some l' \<and> \<not> free l'"
    and acquire_taken: "\<not> free l \<Longrightarrow> acquire l = None"
    and release_free: "free (release l)"
begin

lemma reacquire: "acquire l = Some l' \<Longrightarrow> acquire l' = None"
  by (metis acquire_free acquire_taken option.sel option.distinct(1))

lemma acquire_release: "acquire l = Some l' \<Longrightarrow> \<exists>l''. acquire (release l') = Some l''"
  by (metis acquire_free release_free)

end

interpretation atomic: raw_lock spinlock spinunlock "\<lambda>l. l = ATOMIC_LOCK_UNLOCKED"
  by unfold_locales simp_all

section \<open>POSIX spin locks\<close>

abbreviation (input) PTHREAD_PROCESS_PRIVATE :: int where "PTHREAD_PROCESS_PRIVATE \<equiv> 0"
abbreviation (input) PTHREAD_PROCESS_SHARED :: int where "PTHREAD_PROCESS_SHARED \<equiv> 1"

record pthread_spinlock =
  sl_lock :: int
  sl_owner :: pthread_t

text \<open>\<open>alloc\<close> is the outcome of \<open>calloc\<close>, which is not the library's own.\<close>

definition pthread_spin_init ::
  "bool \<Rightarrow> pthread_spinlock handlep \<Rightarrow> int \<Rightarrow> int \<times> pthread_spinlock handlep" where
  "pthread_spin_init alloc lock pshared =
     (if lock = None then (EINVAL, lock)
      else if pshared \<noteq> PTHREAD_PROCESS_PRIVATE then (ENOTSUP, lock)
      else if \<not> alloc then (ENOMEM, lock)
      else (0, Some (Some \<lparr>sl_lock = ATOMIC_LOCK_UNLOCKED, sl_owner = None\<rparr>)))"

definition pthread_spin_destroy ::
  "pthread_spinlock handlep \<Rightarrow> int \<times> pthread_spinlock handlep" where
  "pthread_spin_destroy lock =
     (case lock of
        None \<Rightarrow> (EINVAL, lock)
      | Some None \<Rightarrow> (EINVAL, lock)
      | Some (Some l) \<Rightarrow> if sl_owner l \<noteq> None then (EBUSY, lock) else (0, Some None))"

definition pthread_spin_trylock ::
  "pthread_t \<Rightarrow> pthread_spinlock handlep \<Rightarrow> int \<times> pthread_spinlock handlep" where
  "pthread_spin_trylock self lock =
     (case lock of
        None \<Rightarrow> (EINVAL, lock)
      | Some None \<Rightarrow> (EINVAL, lock)
      | Some (Some l) \<Rightarrow>
          if sl_owner l = self then (EDEADLK, lock)
          else (case spinlocktry (sl_lock l) of (got, k) \<Rightarrow>
            let l = l\<lparr>sl_lock := k\<rparr> in
            if \<not> got then (EBUSY, Some (Some l))
            else (0, Some (Some (l\<lparr>sl_owner := self\<rparr>)))))"

definition pthread_spin_lock ::
  "pthread_t \<Rightarrow> pthread_spinlock handlep \<Rightarrow> (int \<times> pthread_spinlock handlep) option" where
  "pthread_spin_lock self lock =
     (case lock of
        None \<Rightarrow> Some (EINVAL, lock)
      | Some None \<Rightarrow> Some (EINVAL, lock)
      | Some (Some l) \<Rightarrow>
          if sl_owner l = self then Some (EDEADLK, lock)
          else (case spinlock (sl_lock l) of
              None \<Rightarrow> None
            | Some k \<Rightarrow> Some (0, Some (Some (l\<lparr>sl_lock := k, sl_owner := self\<rparr>)))))"

definition pthread_spin_unlock ::
  "pthread_t \<Rightarrow> pthread_spinlock handlep \<Rightarrow> int \<times> pthread_spinlock handlep" where
  "pthread_spin_unlock self lock =
     (case lock of
        None \<Rightarrow> (EINVAL, lock)
      | Some None \<Rightarrow> (EINVAL, lock)
      | Some (Some l) \<Rightarrow>
          if sl_owner l \<noteq> self then (EPERM, lock)
          else (let l = l\<lparr>sl_owner := None\<rparr> in
                (0, Some (Some (l\<lparr>sl_lock := spinunlock (sl_lock l)\<rparr>)))))"

lemmas [pthread_defs] = pthread_spin_init_def pthread_spin_destroy_def pthread_spin_trylock_def
  pthread_spin_lock_def pthread_spin_unlock_def

text \<open>Between two calls the word and the owner agree.\<close>

definition spin_wf :: "pthread_spinlock \<Rightarrow> bool" where
  "spin_wf l \<longleftrightarrow> (sl_owner l = None \<longleftrightarrow> sl_lock l = ATOMIC_LOCK_UNLOCKED)"

lemma spin_ops_wf:
  "spin_wf l \<Longrightarrow> pthread_spin_trylock (Some t) (Some (Some l)) = (r, Some (Some l')) \<Longrightarrow> spin_wf l'"
  "spin_wf l \<Longrightarrow> pthread_spin_lock (Some t) (Some (Some l)) = Some (r, Some (Some l')) \<Longrightarrow> spin_wf l'"
  "spin_wf l \<Longrightarrow> pthread_spin_unlock (Some t) (Some (Some l)) = (r, Some (Some l')) \<Longrightarrow> spin_wf l'"
  by (auto simp: spin_wf_def pthread_defs split: if_splits)

section \<open>Threads interleaving on a spin lock\<close>

text \<open>
  Where a thread stands in \<open>pthread_spin_lock\<close>, \<open>pthread_spin_trylock\<close> or
  \<open>pthread_spin_unlock\<close>: outside, in the loop of \<open>_spinlock\<close>, past the swap but before it has
  stored the owner, holding the lock, and between clearing the owner and \<open>_spinunlock\<close>.
\<close>

datatype spin_pc = SpOut | SpSpin | SpGot | SpIn | SpRel

record spin_sys =
  ss_obj :: pthread_spinlock
  ss_pc :: "tid \<Rightarrow> spin_pc"

definition spin_start :: "spin_sys \<Rightarrow> bool" where
  "spin_start s \<longleftrightarrow>
     (0, Some (Some (ss_obj s))) = pthread_spin_init True (Some None) PTHREAD_PROCESS_PRIVATE
     \<and> (\<forall>t. ss_pc s t = SpOut)"

inductive spin_step :: "spin_sys \<Rightarrow> spin_sys \<Rightarrow> bool" where
  spin_deadlk: "sl_owner (ss_obj s) = Some t \<Longrightarrow> ss_pc s t \<in> {SpOut, SpIn} \<Longrightarrow> spin_step s s"
| spin_call: "ss_pc s t = SpOut \<Longrightarrow> sl_owner (ss_obj s) \<noteq> Some t \<Longrightarrow>
    spin_step s (s\<lparr>ss_pc := (ss_pc s)(t := SpSpin)\<rparr>)"
| spin_turn: "ss_pc s t = SpSpin \<Longrightarrow> atomic_lock (sl_lock (ss_obj s)) = (busy, k) \<Longrightarrow>
    spin_step s (s\<lparr>ss_obj := (ss_obj s)\<lparr>sl_lock := k\<rparr>,
                   ss_pc := (ss_pc s)(t := if busy then SpSpin else SpGot)\<rparr>)"
| spin_try: "ss_pc s t = SpOut \<Longrightarrow> sl_owner (ss_obj s) \<noteq> Some t \<Longrightarrow>
    spinlocktry (sl_lock (ss_obj s)) = (got, k) \<Longrightarrow>
    spin_step s (s\<lparr>ss_obj := (ss_obj s)\<lparr>sl_lock := k\<rparr>,
                   ss_pc := (ss_pc s)(t := if got then SpGot else SpOut)\<rparr>)"
| spin_own: "ss_pc s t = SpGot \<Longrightarrow>
    spin_step s (s\<lparr>ss_obj := (ss_obj s)\<lparr>sl_owner := Some t\<rparr>, ss_pc := (ss_pc s)(t := SpIn)\<rparr>)"
| spin_eperm: "sl_owner (ss_obj s) \<noteq> Some t \<Longrightarrow> ss_pc s t \<in> {SpOut, SpIn} \<Longrightarrow> spin_step s s"
| spin_disown: "sl_owner (ss_obj s) = Some t \<Longrightarrow> ss_pc s t \<in> {SpOut, SpIn} \<Longrightarrow>
    spin_step s (s\<lparr>ss_obj := (ss_obj s)\<lparr>sl_owner := None\<rparr>, ss_pc := (ss_pc s)(t := SpRel)\<rparr>)"
| spin_rel: "ss_pc s t = SpRel \<Longrightarrow>
    spin_step s (s\<lparr>ss_obj := (ss_obj s)\<lparr>sl_lock := spinunlock (sl_lock (ss_obj s))\<rparr>,
                   ss_pc := (ss_pc s)(t := SpOut)\<rparr>)"

definition spin_inside :: "spin_sys \<Rightarrow> tid \<Rightarrow> bool" where
  "spin_inside s t \<longleftrightarrow> ss_pc s t \<in> {SpGot, SpIn, SpRel}"

definition spin_inv :: "spin_sys \<Rightarrow> bool" where
  "spin_inv s \<longleftrightarrow>
     (\<forall>t u. spin_inside s t \<longrightarrow> spin_inside s u \<longrightarrow> t = u)
     \<and> (\<forall>t. spin_inside s t \<longrightarrow> sl_lock (ss_obj s) = ATOMIC_LOCK_LOCKED)
     \<and> (\<forall>t. sl_owner (ss_obj s) = Some t \<longleftrightarrow> ss_pc s t = SpIn)"

lemma spin_start_inv: "spin_start s \<Longrightarrow> spin_inv s"
  by (auto simp: spin_start_def pthread_spin_init_def spin_inv_def spin_inside_def)

lemma spin_step_inv: "spin_step s s' \<Longrightarrow> spin_inv s \<Longrightarrow> spin_inv s'"
proof (induction rule: spin_step.induct)
  case (spin_own s t)
  then show ?case by (simp add: spin_inv_def spin_inside_def) (metis spin_pc.distinct)
qed (auto simp: spin_inv_def spin_inside_def atomic_lock_def)

interpretation spin: exclusion spin_start spin_step spin_inv spin_inside
  by unfold_locales (auto simp: spin_start_inv spin_step_inv, simp add: spin_inv_def)

section \<open>Properties\<close>

text \<open>
  C5: mutual exclusion of spin locks. However threads interleave in \<open>pthread_spin_lock\<close>,
  \<open>pthread_spin_trylock\<close> and \<open>pthread_spin_unlock\<close>, two threads past the atomic swap and not yet
  past \<open>_spinunlock\<close> are the same thread.
\<close>

theorem spin_mutual_exclusion:
  assumes "reach spin_start spin_step s" "spin_inside s t" "spin_inside s u"
  shows "t = u"
  using assms by (rule spin.mutual_exclusion)

theorem spin_mutual_exclusion_witness:
  "\<exists>s. reach spin_start spin_step s \<and> spin_inside s 5 \<and> (5::tid) = 5"
proof -
  let ?s = "\<lparr>ss_obj = \<lparr>sl_lock = ATOMIC_LOCK_UNLOCKED, sl_owner = None\<rparr>, ss_pc = (\<lambda>_. SpOut)\<rparr>"
  have "reach spin_start spin_step ?s"
    by (rule reach.reach_init) (simp add: spin_start_def pthread_spin_init_def)
  moreover have "spin_step ?s (?s\<lparr>ss_obj := (ss_obj ?s)\<lparr>sl_lock := ATOMIC_LOCK_LOCKED\<rparr>,
      ss_pc := (ss_pc ?s)(5 := if True then SpGot else SpOut)\<rparr>)"
    by (rule spin_step.spin_try) (simp_all add: spinlocktry_def atomic_lock_def)
  ultimately have r: "reach spin_start spin_step (?s\<lparr>ss_obj := (ss_obj ?s)\<lparr>sl_lock := ATOMIC_LOCK_LOCKED\<rparr>,
      ss_pc := (ss_pc ?s)(5 := if True then SpGot else SpOut)\<rparr>)"
    by (rule reach.reach_step)
  have i: "spin_inside (?s\<lparr>ss_obj := (ss_obj ?s)\<lparr>sl_lock := ATOMIC_LOCK_LOCKED\<rparr>,
      ss_pc := (ss_pc ?s)(5 := if True then SpGot else SpOut)\<rparr>) 5"
    by (simp add: spin_inside_def)
  show ?thesis using r i spin_mutual_exclusion [OF r i i] by blast
qed

end
