(* ===== verification/Semaphore_Core.thy ===== *)
theory Semaphore_Core
  imports Spinlock
begin

text \<open>
  The counting semaphore inside the library, \<open>struct __sem\<close> of \<open>thread_private.h\<close> with
  \<open>_sem_wait\<close> and \<open>_sem_post\<close> of \<open>rthread_sem.c\<close>, and the waiting primitive of the hardware
  abstraction layer it sleeps on (\<open>phal.h\<close>). The exported \<open>sem_*\<close> functions and the
  interleaving of threads are in the theory \<open>Semaphores\<close>.
\<close>

section \<open>The waiting primitive of phal.h\<close>

text \<open>
  A \<open>phal_semaphore\<close> remembers no signal: a signal wakes one of the threads asleep at that
  moment, if there is one, a broadcast all of them. \<open>woken\<close> holds the threads that were
  woken and have not yet returned from \<open>phal_semaphore_wait\<close>.
\<close>

record waitq =
  asleep :: "tid set"
  woken :: "tid set"

definition no_waiters :: waitq where
  "no_waiters = \<lparr>asleep = {}, woken = {}\<rparr>"

definition phal_wait :: "tid \<Rightarrow> waitq \<Rightarrow> waitq" where
  "phal_wait t q = q\<lparr>asleep := insert t (asleep q)\<rparr>"

inductive phal_signal :: "waitq \<Rightarrow> waitq \<Rightarrow> bool" where
  signal_none: "asleep q = {} \<Longrightarrow> phal_signal q q"
| signal_one: "t \<in> asleep q \<Longrightarrow>
    phal_signal q (q\<lparr>asleep := asleep q - {t}, woken := insert t (woken q)\<rparr>)"

definition phal_broadcast :: "waitq \<Rightarrow> waitq" where
  "phal_broadcast q = q\<lparr>asleep := {}, woken := woken q \<union> asleep q\<rparr>"

text \<open>A thread leaves the wait: it was woken, or the wait gave up (time-out, interruption).\<close>

definition phal_return :: "tid \<Rightarrow> waitq \<Rightarrow> waitq" where
  "phal_return t q = q\<lparr>asleep := asleep q - {t}, woken := woken q - {t}\<rparr>"

inductive_simps phal_signal_simps: "phal_signal q q'"

section \<open>The internal semaphore\<close>

record sem =
  waitcount :: int
  sem_value :: int
  shared :: int

definition sem_zero :: sem where
  "sem_zero = \<lparr>waitcount = 0, sem_value = 0, shared = 0\<rparr>"

text \<open>\<open>_sem_wait\<close> up to the call of \<open>phal_semaphore_wait\<close>.\<close>

definition internal_sem_wait :: "sem \<Rightarrow> bool \<Rightarrow> sem \<times> int blocking" where
  "internal_sem_wait sem tryonly =
     (if shared sem \<noteq> 0 then (sem, Done ENOSYS)
      else if sem_value sem \<noteq> 0
      then (sem\<lparr>sem_value := to_int (sem_value sem - 1)\<rparr>, Done 0)
      else if tryonly then (sem, Done EAGAIN)
      else (sem\<lparr>waitcount := to_int (waitcount sem + 1)\<rparr>, Sleep))"

text \<open>
  One turn of the loop after \<open>phal_semaphore_wait\<close> returned \<open>r\<close>; \<open>delayed_cancel\<close> is the
  pointer argument (\<open>None\<close> for \<open>NULL\<close>) with the value it points to.
\<close>

definition internal_sem_wake :: "sem \<Rightarrow> int \<Rightarrow> int option \<Rightarrow> sem \<times> int blocking" where
  "internal_sem_wake sem r delayed_cancel =
     (let r = (if r = EINTR \<and> (delayed_cancel = None \<or> delayed_cancel = Some 0) then 0 else r) in
      if r = 0 \<and> sem_value sem = 0 then (sem, Sleep)
      else let sem = sem\<lparr>waitcount := to_int (waitcount sem - 1)\<rparr>;
               sem = (if r = 0 then sem\<lparr>sem_value := to_int (sem_value sem - 1)\<rparr> else sem)
           in (sem, Done r))"

text \<open>\<open>_sem_post\<close>; the last component says that \<open>phal_semaphore_signal\<close> is called.\<close>

definition internal_sem_post :: "sem \<Rightarrow> sem \<times> int \<times> bool" where
  "internal_sem_post sem =
     (if shared sem \<noteq> 0 then (sem, ENOSYS, False)
      else let sem = sem\<lparr>sem_value := to_int (sem_value sem + 1)\<rparr> in
           if waitcount sem \<noteq> 0 then (sem, 1, True) else (sem, 0, False))"

lemmas [pthread_defs] = internal_sem_wait_def internal_sem_wake_def internal_sem_post_def

text \<open>The range in which the counters are used.\<close>

definition sem_wf :: "sem \<Rightarrow> bool" where
  "sem_wf s \<longleftrightarrow> shared s = 0 \<and> 0 \<le> sem_value s \<and> sem_value s \<le> INT_MAX
     \<and> 0 \<le> waitcount s \<and> waitcount s \<le> INT_MAX"

lemma internal_sem_wait_cases:
  assumes "sem_wf s"
  shows "internal_sem_wait s trywait =
     (if 0 < sem_value s then (s\<lparr>sem_value := sem_value s - 1\<rparr>, Done 0)
      else if trywait then (s, Done EAGAIN)
      else (s\<lparr>waitcount := to_int (waitcount s + 1)\<rparr>, Sleep))"
  using assms by (auto simp: sem_wf_def internal_sem_wait_def)

lemma internal_sem_wake_signalled:
  assumes "sem_wf s" "0 < waitcount s"
  shows "internal_sem_wake s 0 dc =
     (if sem_value s = 0 then (s, Sleep)
      else (s\<lparr>waitcount := waitcount s - 1, sem_value := sem_value s - 1\<rparr>, Done 0))"
  using assms by (auto simp: sem_wf_def internal_sem_wake_def)

end
