(* ===== verification/Rthread.thy ===== *)
theory Rthread
  imports Semaphore_Core
begin

text \<open>
  The state of the thread library: \<open>struct pthread\<close> and \<open>struct pthread_attr\<close>
  (\<open>thread_private.h\<close>), the global variables of \<open>rthread_thread.c\<close>, \<open>rthread_internal.c\<close>
  and \<open>rthread_tls.c\<close>, and the functions that set it up (\<open>_rthread_internal_init\<close>,
  \<open>pthread_self\<close>, \<open>_rthread_init\<close>). Fields of \<open>struct pthread\<close> that no function reads
  (\<open>stack\<close>, \<open>blocking_cond\<close>) are left out.
\<close>

section \<open>Attributes, threads, global variables\<close>

text \<open>A \<open>void *\<close> or function pointer is a number; 0 is \<open>NULL\<close>.\<close>

type_synonym ptr = nat

abbreviation (input) PTHREAD_CREATE_DETACHED :: int where "PTHREAD_CREATE_DETACHED \<equiv> 1"
abbreviation (input) PTHREAD_CREATE_JOINABLE :: int where "PTHREAD_CREATE_JOINABLE \<equiv> 0"
abbreviation (input) PTHREAD_SCOPE_SYSTEM :: int where "PTHREAD_SCOPE_SYSTEM \<equiv> 2"
abbreviation (input) PTHREAD_SCOPE_PROCESS :: int where "PTHREAD_SCOPE_PROCESS \<equiv> 0"
abbreviation (input) PTHREAD_INHERIT_SCHED :: int where "PTHREAD_INHERIT_SCHED \<equiv> 4"
abbreviation (input) PTHREAD_EXPLICIT_SCHED :: int where "PTHREAD_EXPLICIT_SCHED \<equiv> 0"
abbreviation (input) SCHED_OTHER :: int where "SCHED_OTHER \<equiv> 0"
abbreviation (input) SCHED_FIFO :: int where "SCHED_FIFO \<equiv> 1"
abbreviation (input) SCHED_RR :: int where "SCHED_RR \<equiv> 2"

record pthread_attr =
  stack_addr :: u64
  stack_size :: u64
  guard_size :: u64
  detach_state :: int
  contention_scope :: int
  sched_policy :: int
  sched_priority :: int
  sched_inherit :: int

text \<open>\<open>RTHREAD_STACK_SIZE_DEF\<close> is 512 KiB on an LP64 target; the guard size starts as 0.\<close>

definition rthread_attr_default :: pthread_attr where
  "rthread_attr_default =
     \<lparr>stack_addr = 0, stack_size = 512 * 1024, guard_size = 0,
      detach_state = PTHREAD_CREATE_JOINABLE, contention_scope = PTHREAD_SCOPE_SYSTEM,
      sched_policy = SCHED_OTHER, sched_priority = 0, sched_inherit = PTHREAD_INHERIT_SCHED\<rparr>"

record rthread_storage =
  keyid :: int
  data :: ptr

abbreviation (input) THREAD_DONE :: u32 where "THREAD_DONE \<equiv> 0x001"
abbreviation (input) THREAD_DETACHED :: u32 where "THREAD_DETACHED \<equiv> 0x002"
abbreviation (input) CANCEL_DISABLED :: u32 where "CANCEL_DISABLED \<equiv> 1"
abbreviation (input) CANCEL_DYING :: u32 where "CANCEL_DYING \<equiv> 2"
abbreviation (input) CANCEL_POINT_DELAYED :: u32 where "CANCEL_POINT_DELAYED \<equiv> 2"
abbreviation (input) TIB_THREAD_ASYNC_CANCEL :: u32 where "TIB_THREAD_ASYNC_CANCEL \<equiv> 0x001"
abbreviation (input) TIB_THREAD_INITIAL_STACK :: u32 where "TIB_THREAD_INITIAL_STACK \<equiv> 0x002"

record pthread =
  donesem :: sem
  flags :: u32
  flags_lock :: int
  retval :: ptr
  fn :: ptr
  arg :: ptr
  name :: string
  attr :: pthread_attr
  local_storage :: "rthread_storage list"
  cleanup_fns :: "(ptr \<times> ptr) list"
  tib_cantcancel :: u32
  tib_cancel_point :: u32
  tib_canceled :: u32
  tib_thread_flags :: u32
  tib_tid :: nat
  delayed_cancel :: int

definition attr_zero :: pthread_attr where
  "attr_zero =
     \<lparr>stack_addr = 0, stack_size = 0, guard_size = 0, detach_state = 0, contention_scope = 0,
      sched_policy = 0, sched_priority = 0, sched_inherit = 0\<rparr>"

text \<open>The structure as \<open>memset(thread, 0, sizeof(*thread))\<close> leaves it.\<close>

definition pthread_zero :: pthread where
  "pthread_zero =
     \<lparr>donesem = sem_zero, flags = 0, flags_lock = ATOMIC_LOCK_UNLOCKED, retval = 0, fn = 0,
      arg = 0, name = [], attr = attr_zero, local_storage = [], cleanup_fns = [],
      tib_cantcancel = 0, tib_cancel_point = 0, tib_canceled = 0, tib_thread_flags = 0,
      tib_tid = 0, delayed_cancel = 0\<rparr>"

text \<open>\<open>&_initial_thread\<close> is thread 0; every other number is a structure from \<open>malloc\<close>.\<close>

abbreviation (input) INITIAL :: tid where "INITIAL \<equiv> 0"

definition initial_thread :: pthread where
  "initial_thread = pthread_zero\<lparr>name := ''Original thread''\<rparr>"

abbreviation (input) PTHREAD_KEYS_MAX :: nat where "PTHREAD_KEYS_MAX \<equiv> 256"

record rthread_key =
  used :: int
  destructor :: ptr

record rthread =
  threads_inited :: bool
  threads_ready :: bool
  post_threaded :: bool
  thread_pagesize :: u64
  attr_default :: pthread_attr
  thread_list :: "tid list"
  thread_lock :: int
  thread_gc_list :: "tid list"
  thread_gc_lock :: int
  threads :: "tid \<Rightarrow> pthread option"
  rkeys :: "rthread_key list"
  rkeys_hint :: nat
  rkeyslock :: int
  concurrency_level :: int

text \<open>The program as it is loaded: static initialisers, everything else zero.\<close>

definition rthread_loaded :: rthread where
  "rthread_loaded =
     \<lparr>threads_inited = False, threads_ready = False, post_threaded = False,
      thread_pagesize = 0, attr_default = rthread_attr_default,
      thread_list = [], thread_lock = ATOMIC_LOCK_UNLOCKED,
      thread_gc_list = [], thread_gc_lock = ATOMIC_LOCK_UNLOCKED,
      threads = [INITIAL \<mapsto> initial_thread],
      rkeys = replicate PTHREAD_KEYS_MAX \<lparr>used = 0, destructor = 0\<rparr>, rkeys_hint = 0,
      rkeyslock = ATOMIC_LOCK_UNLOCKED, concurrency_level = 0\<rparr>"

section \<open>Access to threads and locks\<close>

text \<open>Reading or writing through a \<open>pthread_t\<close> crashes when it is null or freed.\<close>

definition deref :: "rthread \<Rightarrow> pthread_t \<Rightarrow> (tid \<times> pthread) res" where
  "deref rt p =
     (case p of None \<Rightarrow> Crash
      | Some t \<Rightarrow> (case threads rt t of None \<Rightarrow> Crash | Some th \<Rightarrow> Ret (t, th)))"

definition put :: "tid \<Rightarrow> pthread \<Rightarrow> rthread \<Rightarrow> rthread" where
  "put t th rt = rt\<lparr>threads := (threads rt)(t \<mapsto> th)\<rparr>"

definition spin :: "int \<Rightarrow> int res" where
  "spin lock = (case spinlock lock of None \<Rightarrow> Hang | Some k \<Rightarrow> Ret k)"

lemma spin_eq [simp]: "spin lock = (if lock = ATOMIC_LOCK_UNLOCKED then Ret ATOMIC_LOCK_LOCKED else Hang)"
  by (simp add: spin_def)

lemma deref_Some [simp]: "threads rt t = Some th \<Longrightarrow> deref rt (Some t) = Ret (t, th)"
  by (simp add: deref_def)

lemma deref_Ret_iff: "deref rt p = Ret (t, th) \<longleftrightarrow> p = Some t \<and> threads rt t = Some th"
  by (auto simp: deref_def split: option.splits)

lemma put_simps [simp]:
  "threads (put t th rt) = (threads rt)(t \<mapsto> th)"
  "threads_inited (put t th rt) = threads_inited rt"
  "threads_ready (put t th rt) = threads_ready rt"
  "post_threaded (put t th rt) = post_threaded rt"
  "thread_pagesize (put t th rt) = thread_pagesize rt"
  "attr_default (put t th rt) = attr_default rt"
  "thread_list (put t th rt) = thread_list rt"
  "thread_lock (put t th rt) = thread_lock rt"
  "thread_gc_list (put t th rt) = thread_gc_list rt"
  "thread_gc_lock (put t th rt) = thread_gc_lock rt"
  "rkeys (put t th rt) = rkeys rt"
  "rkeys_hint (put t th rt) = rkeys_hint rt"
  "rkeyslock (put t th rt) = rkeyslock rt"
  by (simp_all add: put_def)

lemma put_put [simp]: "put t th (put t th' rt) = put t th rt"
  by (simp add: put_def)

section \<open>Initialisation\<close>

text \<open>
  \<open>_rthread_internal_init\<close>: the thread pointer stored in \<open>*phal_get_tls()\<close> is the second
  component of the result (the first argument is its value before). Reading the debug level
  from the environment is left out.
\<close>

definition rthread_internal_init :: "pthread_t \<Rightarrow> rthread \<Rightarrow> nat \<Rightarrow> (rthread \<times> pthread_t) res" where
  "rthread_internal_init tls rt maintid =
     (if threads_inited rt then Ret (rt, tls)
      else bindR (deref rt (Some INITIAL)) (\<lambda>(t, th).
        Ret ((put t (th\<lparr>tib_tid := maintid, tib_thread_flags := TIB_THREAD_INITIAL_STACK\<rparr>) rt)
               \<lparr>threads_inited := True\<rparr>, Some INITIAL)))"

definition pthread_self :: "pthread_t \<Rightarrow> rthread \<Rightarrow> pthread_t" where
  "pthread_self tls rt = (if \<not> threads_inited rt then None else tls)"

definition pthread_equal :: "pthread_t \<Rightarrow> pthread_t \<Rightarrow> bool" where
  "pthread_equal t1 t2 \<longleftrightarrow> t1 = t2"

text \<open>
  \<open>_rthread_init\<close>, with \<open>self\<close> the value of \<open>pthread_self()\<close>. The page size stays what it was:
  the call of \<open>sysconf\<close> is commented out in the source. \<open>LIST_INSERT_HEAD\<close> through a null
  thread pointer crashes.
\<close>

definition rthread_init :: "pthread_t \<Rightarrow> rthread \<Rightarrow> rthread res" where
  "rthread_init self rt =
     (if threads_ready rt then Ret rt
      else bindR (deref rt self) (\<lambda>(t, th).
        let rt = rt\<lparr>thread_list := t # thread_list rt\<rparr>;
            rt = rt\<lparr>attr_default := (attr_default rt)\<lparr>guard_size := 0\<rparr>\<rparr>;
            rt = put t (th\<lparr>attr := attr_default rt\<rparr>) rt
        in Ret (rt\<lparr>threads_ready := True\<rparr>)))"

definition ensure_ready :: "pthread_t \<Rightarrow> rthread \<Rightarrow> rthread res" where
  "ensure_ready self rt = (if \<not> threads_ready rt then rthread_init self rt else Ret rt)"

lemma ensure_ready_eq [simp]: "ensure_ready self rt = rthread_init self rt"
  by (simp add: ensure_ready_def rthread_init_def)

lemma rthread_init_ready [simp]: "threads_ready rt \<Longrightarrow> rthread_init self rt = Ret rt"
  by (simp add: rthread_init_def)

lemma rthread_init_idem: "rthread_init self rt = Ret rt' \<Longrightarrow> rthread_init self rt' = Ret rt'"
  by (auto simp: rthread_init_def bindR_Ret_iff Let_def split: if_splits)

lemma rthread_init_pagesize: "rthread_init self rt = Ret rt' \<Longrightarrow> thread_pagesize rt' = thread_pagesize rt"
  by (auto simp: rthread_init_def bindR_Ret_iff Let_def split: if_splits)

section \<open>Cancellation state and cleanup handlers\<close>

abbreviation (input) PTHREAD_CANCEL_ENABLE :: int where "PTHREAD_CANCEL_ENABLE \<equiv> 0"
abbreviation (input) PTHREAD_CANCEL_DISABLE :: int where "PTHREAD_CANCEL_DISABLE \<equiv> 1"

text \<open>\<open>pthread_setcancelstate\<close>: the error number, the old state stored, the state.\<close>

definition pthread_setcancelstate ::
  "pthread_t \<Rightarrow> int \<Rightarrow> rthread \<Rightarrow> (int \<times> int option \<times> rthread) res" where
  "pthread_setcancelstate self state rt =
     (if self = None then Ret (EINVAL, None, rt)
      else bindR (deref rt self) (\<lambda>(t, th).
        let oldstate = (if tib_cantcancel th AND CANCEL_DISABLED \<noteq> 0
                        then PTHREAD_CANCEL_DISABLE else PTHREAD_CANCEL_ENABLE) in
        if state = PTHREAD_CANCEL_ENABLE then
          Ret (0, Some oldstate,
               put t (th\<lparr>tib_cantcancel := tib_cantcancel th AND NOT CANCEL_DISABLED\<rparr>) rt)
        else if state = PTHREAD_CANCEL_DISABLE then
          Ret (0, Some oldstate,
               put t (th\<lparr>tib_cantcancel := tib_cantcancel th OR CANCEL_DISABLED\<rparr>) rt)
        else Ret (EINVAL, None, rt)))"

text \<open>The cancellation signal handler: the new thread and whether it calls \<open>pthread_exit\<close>.\<close>

definition sigthr_handler :: "pthread \<Rightarrow> pthread \<times> bool" where
  "sigthr_handler self =
     (if tib_canceled self = 0 \<or> tib_cantcancel self \<noteq> 0 then (self, False)
      else if tib_cancel_point self AND CANCEL_POINT_DELAYED \<noteq> 0
      then (self\<lparr>delayed_cancel := 1\<rparr>, False)
      else (self, tib_cancel_point self \<noteq> 0
                  \<or> tib_thread_flags self AND TIB_THREAD_ASYNC_CANCEL \<noteq> 0))"

definition pthread_cleanup_push :: "bool \<Rightarrow> pthread_t \<Rightarrow> ptr \<Rightarrow> ptr \<Rightarrow> rthread \<Rightarrow> rthread res" where
  "pthread_cleanup_push alloc self f a rt =
     (if \<not> alloc then Ret rt
      else bindR (deref rt self) (\<lambda>(t, th).
        Ret (put t (th\<lparr>cleanup_fns := (f, a) # cleanup_fns th\<rparr>) rt)))"

text \<open>
  \<open>call f a (rt, w)\<close> is what the application's function \<open>f\<close> does when called with \<open>a\<close>: to the
  state of the library and to everything else, \<open>w\<close>.
\<close>

type_synonym 'w app_call = "ptr \<Rightarrow> ptr \<Rightarrow> rthread \<times> 'w \<Rightarrow> (rthread \<times> 'w) res"

definition pthread_cleanup_pop ::
  "'w app_call \<Rightarrow> pthread_t \<Rightarrow> bool \<Rightarrow> rthread \<times> 'w \<Rightarrow> (rthread \<times> 'w) res" where
  "pthread_cleanup_pop call self execute = (\<lambda>(rt, w).
     bindR (deref rt self) (\<lambda>(t, th).
       case cleanup_fns th of
         [] \<Rightarrow> Ret (rt, w)
       | (f, a) # rest \<Rightarrow>
           let rt = put t (th\<lparr>cleanup_fns := rest\<rparr>) rt in
           if execute then call f a (rt, w) else Ret (rt, w)))"

definition pthread_getconcurrency :: "rthread \<Rightarrow> int" where
  "pthread_getconcurrency rt = concurrency_level rt"

definition pthread_setconcurrency :: "int \<Rightarrow> rthread \<Rightarrow> int \<times> rthread" where
  "pthread_setconcurrency new_level rt =
     (if new_level < 0 then (EINVAL, rt) else (0, rt\<lparr>concurrency_level := new_level\<rparr>))"

text \<open>The four entry points the port only stubs.\<close>

definition pthread_kill :: "pthread_t \<Rightarrow> int \<Rightarrow> int" where
  "pthread_kill thread sig = ENOSYS"

definition pthread_cancel :: "pthread_t \<Rightarrow> int" where
  "pthread_cancel thread = ENOSYS"

definition pthread_setcanceltype :: "int \<Rightarrow> int" where
  "pthread_setcanceltype type = ENOSYS"

definition pthread_testcancel :: "rthread \<Rightarrow> rthread" where
  "pthread_testcancel rt = rt"

lemma cleanup_push_pop:
  assumes "threads rt t = Some th"
  shows "bindR (pthread_cleanup_push True (Some t) f a rt)
      (\<lambda>rt. pthread_cleanup_pop call (Some t) True (rt, w)) = call f a (rt, w)"
  using assms by (simp add: pthread_cleanup_push_def pthread_cleanup_pop_def put_def map_upd_triv)

end
