(* ===== verification/Attributes.thy ===== *)
theory Attributes
  imports Rthread
begin

text \<open>
  The attribute objects: thread attributes (\<open>rthread_attr.c\<close>, \<open>rthread_sched.c\<close>), mutex,
  condition variable, read-write lock and barrier attributes (\<open>rthread_mutexattr.c\<close>,
  \<open>rthread_condattr.c\<close>, \<open>rthread_rwlockattr.c\<close>, \<open>rthread_barrier_attr.c\<close>) and the priority
  bounds (\<open>sched_prio.c\<close>). Getters return the error number and the value they store.
\<close>

text \<open>\<open>(*attrp)->field\<close> crashes when \<open>attrp\<close> or \<open>*attrp\<close> is null.\<close>

definition obj :: "'a handlep \<Rightarrow> 'a res" where
  "obj p = (case p of Some (Some x) \<Rightarrow> Ret x | _ \<Rightarrow> Crash)"

lemma obj_Some [simp]: "obj (Some (Some x)) = Ret x"
  by (simp add: obj_def)

lemma obj_Ret_iff: "obj p = Ret x \<longleftrightarrow> p = Some (Some x)"
  by (auto simp: obj_def split: option.splits)

text \<open>\<open>free(*attrp); *attrp = NULL;\<close> shared by the destroy functions.\<close>

definition free_handle :: "'a handlep \<Rightarrow> (int \<times> 'a handlep) res" where
  "free_handle p = (case p of None \<Rightarrow> Crash | Some _ \<Rightarrow> Ret (0, Some None))"

section \<open>Thread attributes\<close>

abbreviation (input) PTHREAD_STACK_MIN :: u64 where "PTHREAD_STACK_MIN \<equiv> 2048"

definition ROUND_TO_PAGE :: "u64 \<Rightarrow> u64 \<Rightarrow> u64" where
  "ROUND_TO_PAGE pagesize sz = (sz + (pagesize - 1)) AND NOT (pagesize - 1)"

text \<open>
  \<open>alloc\<close> is the outcome of \<open>calloc\<close> and \<open>errno\<close> the value it leaves there when it fails.
\<close>

definition pthread_attr_init ::
  "bool \<Rightarrow> int \<Rightarrow> pthread_t \<Rightarrow> pthread_attr handlep \<Rightarrow> rthread \<Rightarrow>
   (int \<times> pthread_attr handlep \<times> rthread) res" where
  "pthread_attr_init alloc errno self attrp rt =
     bindR (ensure_ready self rt) (\<lambda>rt.
       if \<not> alloc then Ret (errno, attrp, rt)
       else if attrp = None then Crash
       else Ret (0, Some (Some (attr_default rt)), rt))"

definition pthread_attr_destroy :: "pthread_attr handlep \<Rightarrow> (int \<times> pthread_attr handlep) res" where
  "pthread_attr_destroy attrp = free_handle attrp"

definition pthread_attr_getguardsize :: "pthread_attr handlep \<Rightarrow> (int \<times> u64) res" where
  "pthread_attr_getguardsize attrp = bindR (obj attrp) (\<lambda>a. Ret (0, guard_size a))"

definition pthread_attr_setguardsize ::
  "pthread_attr handlep \<Rightarrow> u64 \<Rightarrow> (int \<times> pthread_attr handlep) res" where
  "pthread_attr_setguardsize attrp guardsize =
     bindR (obj attrp) (\<lambda>a. Ret (0, Some (Some (a\<lparr>guard_size := guardsize\<rparr>))))"

definition pthread_attr_getdetachstate :: "pthread_attr handlep \<Rightarrow> (int \<times> int) res" where
  "pthread_attr_getdetachstate attrp = bindR (obj attrp) (\<lambda>a. Ret (0, detach_state a))"

definition pthread_attr_setdetachstate ::
  "pthread_attr handlep \<Rightarrow> int \<Rightarrow> (int \<times> pthread_attr handlep) res" where
  "pthread_attr_setdetachstate attrp detachstate =
     (let error = (if detachstate = PTHREAD_CREATE_DETACHED
                      \<or> detachstate = PTHREAD_CREATE_JOINABLE then 0 else EINVAL) in
      if error = 0 then bindR (obj attrp) (\<lambda>a. Ret (error, Some (Some (a\<lparr>detach_state := detachstate\<rparr>))))
      else Ret (error, attrp))"

definition pthread_attr_getstack :: "pthread_attr handlep \<Rightarrow> (int \<times> u64 \<times> u64) res" where
  "pthread_attr_getstack attrp = bindR (obj attrp) (\<lambda>a. Ret (0, stack_addr a, stack_size a))"

definition pthread_attr_getstackaddr :: "pthread_attr handlep \<Rightarrow> (int \<times> u64) res" where
  "pthread_attr_getstackaddr attrp = bindR (obj attrp) (\<lambda>a. Ret (0, stack_addr a))"

definition pthread_attr_setstackaddr ::
  "pthread_t \<Rightarrow> pthread_attr handlep \<Rightarrow> u64 \<Rightarrow> rthread \<Rightarrow>
   (int \<times> pthread_attr handlep \<times> rthread) res" where
  "pthread_attr_setstackaddr self attrp stackaddr rt =
     bindR (ensure_ready self rt) (\<lambda>rt.
       if stackaddr = 0 \<or> stackaddr AND (thread_pagesize rt - 1) \<noteq> 0
       then Ret (EINVAL, attrp, rt)
       else bindR (obj attrp) (\<lambda>a. Ret (0, Some (Some (a\<lparr>stack_addr := stackaddr\<rparr>)), rt)))"

definition pthread_attr_setstack ::
  "pthread_t \<Rightarrow> pthread_attr handlep \<Rightarrow> u64 \<Rightarrow> u64 \<Rightarrow> rthread \<Rightarrow>
   (int \<times> pthread_attr handlep \<times> rthread) res" where
  "pthread_attr_setstack self attrp stackaddr stacksize rt =
     (if stacksize < PTHREAD_STACK_MIN then Ret (EINVAL, attrp, rt)
      else bindR (pthread_attr_setstackaddr self attrp stackaddr rt) (\<lambda>(error, attrp, rt).
        if error \<noteq> 0 then Ret (error, attrp, rt)
        else bindR (obj attrp) (\<lambda>a. Ret (0, Some (Some (a\<lparr>stack_size := stacksize\<rparr>)), rt))))"

definition pthread_attr_getstacksize :: "pthread_attr handlep \<Rightarrow> (int \<times> u64) res" where
  "pthread_attr_getstacksize attrp = bindR (obj attrp) (\<lambda>a. Ret (0, stack_size a))"

definition pthread_attr_setstacksize ::
  "pthread_t \<Rightarrow> pthread_attr handlep \<Rightarrow> u64 \<Rightarrow> rthread \<Rightarrow>
   (int \<times> pthread_attr handlep \<times> rthread) res" where
  "pthread_attr_setstacksize self attrp stacksize rt =
     bindR (ensure_ready self rt) (\<lambda>rt.
       if stacksize < PTHREAD_STACK_MIN \<or> stacksize > ROUND_TO_PAGE (thread_pagesize rt) stacksize
       then Ret (EINVAL, attrp, rt)
       else bindR (obj attrp) (\<lambda>a. Ret (0, Some (Some (a\<lparr>stack_size := stacksize\<rparr>)), rt)))"

definition pthread_attr_getscope :: "pthread_attr handlep \<Rightarrow> (int \<times> int) res" where
  "pthread_attr_getscope attrp = bindR (obj attrp) (\<lambda>a. Ret (0, contention_scope a))"

definition pthread_attr_setscope ::
  "pthread_attr handlep \<Rightarrow> int \<Rightarrow> (int \<times> pthread_attr handlep) res" where
  "pthread_attr_setscope attrp contentionscope =
     (if contentionscope \<noteq> PTHREAD_SCOPE_SYSTEM \<and> contentionscope \<noteq> PTHREAD_SCOPE_PROCESS
      then Ret (EINVAL, attrp)
      else bindR (obj attrp) (\<lambda>a. Ret (0, Some (Some (a\<lparr>contention_scope := contentionscope\<rparr>)))))"

section \<open>Scheduling\<close>

text \<open>A \<open>struct sched_param\<close> has the one field \<open>sched_priority\<close>.\<close>

definition pthread_getschedparam ::
  "pthread_t \<Rightarrow> pthread_t \<Rightarrow> rthread \<Rightarrow> (int \<times> int \<times> int \<times> rthread) res" where
  "pthread_getschedparam self thread rt =
     bindR (ensure_ready self rt) (\<lambda>rt. bindR (deref rt thread) (\<lambda>(t, th).
       Ret (0, sched_policy (attr th), sched_priority (attr th), rt)))"

definition pthread_setschedparam ::
  "pthread_t \<Rightarrow> pthread_t \<Rightarrow> int \<Rightarrow> int option \<Rightarrow> rthread \<Rightarrow> (int \<times> rthread) res" where
  "pthread_setschedparam self thread policy param rt =
     bindR (ensure_ready self rt) (\<lambda>rt.
       if policy \<noteq> SCHED_OTHER \<and> policy \<noteq> SCHED_FIFO \<and> policy \<noteq> SCHED_RR then Ret (EINVAL, rt)
       else bindR (deref rt thread) (\<lambda>(t, th).
         let a = (attr th)\<lparr>sched_policy := policy\<rparr>;
             a = (case param of None \<Rightarrow> a | Some p \<Rightarrow> a\<lparr>sched_priority := p\<rparr>)
         in Ret (0, put t (th\<lparr>attr := a\<rparr>) rt)))"

definition pthread_attr_getschedparam :: "pthread_attr handlep \<Rightarrow> (int \<times> int) res" where
  "pthread_attr_getschedparam attrp = bindR (obj attrp) (\<lambda>a. Ret (0, sched_priority a))"

definition pthread_attr_setschedparam ::
  "pthread_attr handlep \<Rightarrow> int \<Rightarrow> (int \<times> pthread_attr handlep) res" where
  "pthread_attr_setschedparam attrp param =
     bindR (obj attrp) (\<lambda>a. Ret (0, Some (Some (a\<lparr>sched_priority := param\<rparr>))))"

definition pthread_attr_getschedpolicy :: "pthread_attr handlep \<Rightarrow> (int \<times> int) res" where
  "pthread_attr_getschedpolicy attrp = bindR (obj attrp) (\<lambda>a. Ret (0, sched_policy a))"

definition pthread_attr_setschedpolicy ::
  "pthread_attr handlep \<Rightarrow> int \<Rightarrow> (int \<times> pthread_attr handlep) res" where
  "pthread_attr_setschedpolicy attrp policy =
     (if policy \<noteq> SCHED_OTHER \<and> policy \<noteq> SCHED_FIFO \<and> policy \<noteq> SCHED_RR then Ret (EINVAL, attrp)
      else bindR (obj attrp) (\<lambda>a. Ret (0, Some (Some (a\<lparr>sched_policy := policy\<rparr>)))))"

definition pthread_attr_getinheritsched :: "pthread_attr handlep \<Rightarrow> (int \<times> int) res" where
  "pthread_attr_getinheritsched attrp = bindR (obj attrp) (\<lambda>a. Ret (0, sched_inherit a))"

definition pthread_attr_setinheritsched ::
  "pthread_attr handlep \<Rightarrow> int \<Rightarrow> (int \<times> pthread_attr handlep) res" where
  "pthread_attr_setinheritsched attrp inherit =
     (if inherit \<noteq> PTHREAD_INHERIT_SCHED \<and> inherit \<noteq> PTHREAD_EXPLICIT_SCHED then Ret (EINVAL, attrp)
      else bindR (obj attrp) (\<lambda>a. Ret (0, Some (Some (a\<lparr>sched_inherit := inherit\<rparr>)))))"

definition pthread_getprio :: "pthread_t \<Rightarrow> pthread_t \<Rightarrow> rthread \<Rightarrow> (int \<times> rthread) res" where
  "pthread_getprio self thread rt =
     bindR (ensure_ready self rt) (\<lambda>rt. bindR (deref rt thread) (\<lambda>(t, th).
       Ret (sched_priority (attr th), rt)))"

definition pthread_setprio :: "pthread_t \<Rightarrow> pthread_t \<Rightarrow> int \<Rightarrow> rthread \<Rightarrow> (int \<times> rthread) res" where
  "pthread_setprio self thread priority rt =
     bindR (ensure_ready self rt) (\<lambda>rt. bindR (deref rt thread) (\<lambda>(t, th).
       Ret (0, put t (th\<lparr>attr := (attr th)\<lparr>sched_priority := priority\<rparr>\<rparr>) rt)))"

definition pthread_yield :: "rthread \<Rightarrow> rthread" where
  "pthread_yield rt = rt"

abbreviation (input) PTHREAD_MIN_PRIORITY :: int where "PTHREAD_MIN_PRIORITY \<equiv> 0"
abbreviation (input) PTHREAD_MAX_PRIORITY :: int where "PTHREAD_MAX_PRIORITY \<equiv> 31"

text \<open>The result and, on failure, the error number stored in \<open>errno\<close>.\<close>

definition sched_get_priority_max :: "int \<Rightarrow> int \<times> int option" where
  "sched_get_priority_max policy =
     (if policy < SCHED_FIFO \<or> policy > SCHED_RR then (-1, Some EINVAL)
      else (PTHREAD_MAX_PRIORITY, None))"

definition sched_get_priority_min :: "int \<Rightarrow> int \<times> int option" where
  "sched_get_priority_min policy =
     (if policy < SCHED_FIFO \<or> policy > SCHED_RR then (-1, Some EINVAL)
      else (PTHREAD_MIN_PRIORITY, None))"

section \<open>Mutex attributes\<close>

abbreviation (input) PTHREAD_MUTEX_ERRORCHECK :: int where "PTHREAD_MUTEX_ERRORCHECK \<equiv> 1"
abbreviation (input) PTHREAD_MUTEX_RECURSIVE :: int where "PTHREAD_MUTEX_RECURSIVE \<equiv> 2"
abbreviation (input) PTHREAD_MUTEX_NORMAL :: int where "PTHREAD_MUTEX_NORMAL \<equiv> 3"
abbreviation (input) PTHREAD_MUTEX_STRICT_NP :: int where "PTHREAD_MUTEX_STRICT_NP \<equiv> 4"
abbreviation (input) PTHREAD_MUTEX_TYPE_MAX :: int where "PTHREAD_MUTEX_TYPE_MAX \<equiv> 5"
abbreviation (input) PTHREAD_MUTEX_DEFAULT :: int where "PTHREAD_MUTEX_DEFAULT \<equiv> PTHREAD_MUTEX_STRICT_NP"
abbreviation (input) PTHREAD_PRIO_NONE :: int where "PTHREAD_PRIO_NONE \<equiv> 0"
abbreviation (input) PTHREAD_PRIO_PROTECT :: int where "PTHREAD_PRIO_PROTECT \<equiv> 2"

record pthread_mutex_attr =
  ma_type :: int
  ma_protocol :: int
  ma_prioceiling :: int

definition pthread_mutexattr_init ::
  "bool \<Rightarrow> int \<Rightarrow> pthread_mutex_attr handlep \<Rightarrow> (int \<times> pthread_mutex_attr handlep) res" where
  "pthread_mutexattr_init alloc errno attrp =
     (if \<not> alloc then Ret (errno, attrp)
      else if attrp = None then Crash
      else Ret (0, Some (Some \<lparr>ma_type = PTHREAD_MUTEX_DEFAULT, ma_protocol = 0, ma_prioceiling = 0\<rparr>)))"

definition pthread_mutexattr_destroy ::
  "pthread_mutex_attr handlep \<Rightarrow> (int \<times> pthread_mutex_attr handlep) res" where
  "pthread_mutexattr_destroy attrp = free_handle attrp"

definition pthread_mutexattr_settype ::
  "pthread_mutex_attr handlep \<Rightarrow> int \<Rightarrow> (int \<times> pthread_mutex_attr handlep) res" where
  "pthread_mutexattr_settype attrp type =
     (if type < PTHREAD_MUTEX_ERRORCHECK \<or> type \<ge> PTHREAD_MUTEX_TYPE_MAX then Ret (EINVAL, attrp)
      else bindR (obj attrp) (\<lambda>a. Ret (0, Some (Some (a\<lparr>ma_type := type\<rparr>)))))"

definition pthread_mutexattr_gettype :: "pthread_mutex_attr handlep \<Rightarrow> (int \<times> int) res" where
  "pthread_mutexattr_gettype attrp = bindR (obj attrp) (\<lambda>a. Ret (0, ma_type a))"

definition pthread_mutexattr_setprotocol ::
  "pthread_mutex_attr handlep \<Rightarrow> int \<Rightarrow> (int \<times> pthread_mutex_attr handlep) res" where
  "pthread_mutexattr_setprotocol attrp protocol =
     (if protocol < PTHREAD_PRIO_NONE \<or> protocol > PTHREAD_PRIO_PROTECT then Ret (EINVAL, attrp)
      else bindR (obj attrp) (\<lambda>a. Ret (0, Some (Some (a\<lparr>ma_protocol := protocol\<rparr>)))))"

definition pthread_mutexattr_getprotocol :: "pthread_mutex_attr handlep \<Rightarrow> (int \<times> int) res" where
  "pthread_mutexattr_getprotocol attrp = bindR (obj attrp) (\<lambda>a. Ret (0, ma_protocol a))"

definition pthread_mutexattr_setprioceiling ::
  "pthread_mutex_attr handlep \<Rightarrow> int \<Rightarrow> (int \<times> pthread_mutex_attr handlep) res" where
  "pthread_mutexattr_setprioceiling attrp prioceiling =
     (if prioceiling < PTHREAD_MIN_PRIORITY \<or> prioceiling > PTHREAD_MAX_PRIORITY
      then Ret (EINVAL, attrp)
      else bindR (obj attrp) (\<lambda>a. Ret (0, Some (Some (a\<lparr>ma_prioceiling := prioceiling\<rparr>)))))"

definition pthread_mutexattr_getprioceiling :: "pthread_mutex_attr handlep \<Rightarrow> (int \<times> int) res" where
  "pthread_mutexattr_getprioceiling attrp = bindR (obj attrp) (\<lambda>a. Ret (0, ma_prioceiling a))"

definition pthread_mutexattr_getkind_np :: "pthread_mutex_attr option \<Rightarrow> int" where
  "pthread_mutexattr_getkind_np attrp = (case attrp of None \<Rightarrow> EINVAL | Some a \<Rightarrow> ma_type a)"

definition pthread_mutexattr_setkind_np ::
  "pthread_mutex_attr handlep \<Rightarrow> int \<Rightarrow> int \<times> pthread_mutex_attr handlep" where
  "pthread_mutexattr_setkind_np attrp kind =
     (case attrp of
        Some (Some a) \<Rightarrow>
          if kind < PTHREAD_MUTEX_ERRORCHECK \<or> kind \<ge> PTHREAD_MUTEX_TYPE_MAX then (EINVAL, attrp)
          else (0, Some (Some (a\<lparr>ma_type := kind\<rparr>)))
      | _ \<Rightarrow> (EINVAL, attrp))"

section \<open>Condition variable attributes\<close>

abbreviation (input) CLOCK_REALTIME :: int where "CLOCK_REALTIME \<equiv> 1"

record pthread_cond_attr =
  ca_clock :: int

definition pthread_condattr_init ::
  "bool \<Rightarrow> int \<Rightarrow> pthread_cond_attr handlep \<Rightarrow> (int \<times> pthread_cond_attr handlep) res" where
  "pthread_condattr_init alloc errno attrp =
     (if \<not> alloc then Ret (errno, attrp)
      else if attrp = None then Crash
      else Ret (0, Some (Some \<lparr>ca_clock = CLOCK_REALTIME\<rparr>)))"

definition pthread_condattr_destroy ::
  "pthread_cond_attr handlep \<Rightarrow> (int \<times> pthread_cond_attr handlep) res" where
  "pthread_condattr_destroy attrp = free_handle attrp"

definition pthread_condattr_getclock :: "pthread_cond_attr handlep \<Rightarrow> (int \<times> int) res" where
  "pthread_condattr_getclock attrp = bindR (obj attrp) (\<lambda>a. Ret (0, ca_clock a))"

definition pthread_condattr_setclock ::
  "pthread_cond_attr handlep \<Rightarrow> int \<Rightarrow> (int \<times> pthread_cond_attr handlep) res" where
  "pthread_condattr_setclock attrp clock_id =
     (if clock_id \<noteq> CLOCK_REALTIME then Ret (EINVAL, attrp)
      else bindR (obj attrp) (\<lambda>a. Ret (0, Some (Some (a\<lparr>ca_clock := clock_id\<rparr>)))))"

section \<open>Read-write lock and barrier attributes\<close>

record pthread_rwlockattr =
  rw_pshared :: int

definition pthread_rwlockattr_init ::
  "bool \<Rightarrow> int \<Rightarrow> pthread_rwlockattr handlep \<Rightarrow> (int \<times> pthread_rwlockattr handlep) res" where
  "pthread_rwlockattr_init alloc errno attrp =
     (if \<not> alloc then Ret (errno, attrp)
      else if attrp = None then Crash
      else Ret (0, Some (Some \<lparr>rw_pshared = PTHREAD_PROCESS_PRIVATE\<rparr>)))"

definition pthread_rwlockattr_destroy ::
  "pthread_rwlockattr handlep \<Rightarrow> (int \<times> pthread_rwlockattr handlep) res" where
  "pthread_rwlockattr_destroy attrp = free_handle attrp"

definition pthread_rwlockattr_getpshared :: "pthread_rwlockattr handlep \<Rightarrow> (int \<times> int) res" where
  "pthread_rwlockattr_getpshared attrp = bindR (obj attrp) (\<lambda>a. Ret (0, rw_pshared a))"

definition pthread_rwlockattr_setpshared ::
  "pthread_rwlockattr handlep \<Rightarrow> int \<Rightarrow> (int \<times> pthread_rwlockattr handlep) res" where
  "pthread_rwlockattr_setpshared attrp pshared =
     (if pshared \<noteq> PTHREAD_PROCESS_PRIVATE then Ret (EINVAL, attrp)
      else bindR (obj attrp) (\<lambda>a. Ret (0, Some (Some (a\<lparr>rw_pshared := pshared\<rparr>)))))"

record pthread_barrierattr =
  ba_pshared :: int

definition pthread_barrierattr_init ::
  "bool \<Rightarrow> pthread_barrierattr handlep \<Rightarrow> int \<times> pthread_barrierattr handlep" where
  "pthread_barrierattr_init alloc attrp =
     (if attrp = None then (EINVAL, attrp)
      else if \<not> alloc then (ENOMEM, Some None)
      else (0, Some (Some \<lparr>ba_pshared = PTHREAD_PROCESS_PRIVATE\<rparr>)))"

text \<open>The handle keeps the freed pointer: the boolean says that its object was freed.\<close>

definition pthread_barrierattr_destroy :: "pthread_barrierattr handlep \<Rightarrow> int \<times> bool" where
  "pthread_barrierattr_destroy attrp =
     (case attrp of Some (Some a) \<Rightarrow> (0, True) | _ \<Rightarrow> (EINVAL, False))"

definition pthread_barrierattr_getpshared :: "pthread_barrierattr handlep \<Rightarrow> int \<times> int option" where
  "pthread_barrierattr_getpshared attrp =
     (case attrp of Some (Some a) \<Rightarrow> (0, Some (ba_pshared a)) | _ \<Rightarrow> (EINVAL, None))"

definition pthread_barrierattr_setpshared ::
  "pthread_barrierattr handlep \<Rightarrow> int \<Rightarrow> int \<times> pthread_barrierattr handlep" where
  "pthread_barrierattr_setpshared attrp pshared =
     (case attrp of
        Some (Some a) \<Rightarrow>
          if pshared \<noteq> PTHREAD_PROCESS_PRIVATE then (ENOTSUP, attrp)
          else (0, Some (Some (a\<lparr>ba_pshared := pshared\<rparr>)))
      | _ \<Rightarrow> (EINVAL, attrp))"

section \<open>What a setter and its getter promise\<close>

text \<open>
  \<open>attribute\<close> is the contract every pair of a setter and a getter keeps: on a live handle an
  accepted value is stored and read back, a refused one gives the error and leaves the object
  as it was. A null pointer or handle crashes both.
\<close>

locale attribute =
  fixes getter :: "'a handlep \<Rightarrow> (int \<times> 'v) res"
    and setter :: "'a handlep \<Rightarrow> 'v \<Rightarrow> (int \<times> 'a handlep) res"
    and valid :: "'v \<Rightarrow> bool"
    and err :: int
  assumes set_ok: "valid v \<Longrightarrow> \<exists>a'. setter (Some (Some a)) v = Ret (0, Some (Some a'))
      \<and> getter (Some (Some a')) = Ret (0, v)"
    and set_bad: "\<not> valid v \<Longrightarrow> setter p v = Ret (err, p)"
    and get_null: "getter None = Crash" "getter (Some None) = Crash"
begin

lemma set_get:
  "bindR (setter (Some (Some a)) v) (\<lambda>(e, p). bindR (getter p) (\<lambda>(_, w). Ret (e, w)))
   = (if valid v then Ret (0, v) else bindR (getter (Some (Some a))) (\<lambda>(_, w). Ret (err, w)))"
  using set_ok [of v a] set_bad [of v "Some (Some a)"] by (cases "valid v") auto

end

definition valid_policy :: "int \<Rightarrow> bool" where
  "valid_policy p \<longleftrightarrow> p \<in> {SCHED_OTHER, SCHED_FIFO, SCHED_RR}"

interpretation detachstate: attribute pthread_attr_getdetachstate pthread_attr_setdetachstate
  "\<lambda>v. v \<in> {PTHREAD_CREATE_DETACHED, PTHREAD_CREATE_JOINABLE}" EINVAL
  by unfold_locales
    (auto simp: pthread_attr_getdetachstate_def pthread_attr_setdetachstate_def obj_def)

interpretation scope: attribute pthread_attr_getscope pthread_attr_setscope
  "\<lambda>v. v \<in> {PTHREAD_SCOPE_SYSTEM, PTHREAD_SCOPE_PROCESS}" EINVAL
  by unfold_locales (auto simp: pthread_attr_getscope_def pthread_attr_setscope_def obj_def)

interpretation guardsize: attribute pthread_attr_getguardsize pthread_attr_setguardsize
  "\<lambda>v. True" EINVAL
  by unfold_locales (auto simp: pthread_attr_getguardsize_def pthread_attr_setguardsize_def obj_def)

interpretation schedpolicy: attribute pthread_attr_getschedpolicy pthread_attr_setschedpolicy
  valid_policy EINVAL
  by unfold_locales
    (auto simp: pthread_attr_getschedpolicy_def pthread_attr_setschedpolicy_def obj_def valid_policy_def)

interpretation schedparam: attribute pthread_attr_getschedparam pthread_attr_setschedparam
  "\<lambda>v. True" EINVAL
  by unfold_locales (auto simp: pthread_attr_getschedparam_def pthread_attr_setschedparam_def obj_def)

interpretation inheritsched: attribute pthread_attr_getinheritsched pthread_attr_setinheritsched
  "\<lambda>v. v \<in> {PTHREAD_INHERIT_SCHED, PTHREAD_EXPLICIT_SCHED}" EINVAL
  by unfold_locales
    (auto simp: pthread_attr_getinheritsched_def pthread_attr_setinheritsched_def obj_def)

interpretation mutextype: attribute pthread_mutexattr_gettype pthread_mutexattr_settype
  "\<lambda>v. PTHREAD_MUTEX_ERRORCHECK \<le> v \<and> v < PTHREAD_MUTEX_TYPE_MAX" EINVAL
  by unfold_locales (auto simp: pthread_mutexattr_gettype_def pthread_mutexattr_settype_def obj_def)

interpretation mutexprotocol: attribute pthread_mutexattr_getprotocol pthread_mutexattr_setprotocol
  "\<lambda>v. PTHREAD_PRIO_NONE \<le> v \<and> v \<le> PTHREAD_PRIO_PROTECT" EINVAL
  by unfold_locales
    (auto simp: pthread_mutexattr_getprotocol_def pthread_mutexattr_setprotocol_def obj_def)

interpretation mutexprioceiling: attribute
  pthread_mutexattr_getprioceiling pthread_mutexattr_setprioceiling
  "\<lambda>v. PTHREAD_MIN_PRIORITY \<le> v \<and> v \<le> PTHREAD_MAX_PRIORITY" EINVAL
  by unfold_locales
    (auto simp: pthread_mutexattr_getprioceiling_def pthread_mutexattr_setprioceiling_def obj_def)

interpretation condclock: attribute pthread_condattr_getclock pthread_condattr_setclock
  "\<lambda>v. v = CLOCK_REALTIME" EINVAL
  by unfold_locales (auto simp: pthread_condattr_getclock_def pthread_condattr_setclock_def obj_def)

interpretation rwpshared: attribute pthread_rwlockattr_getpshared pthread_rwlockattr_setpshared
  "\<lambda>v. v = PTHREAD_PROCESS_PRIVATE" EINVAL
  by unfold_locales
    (auto simp: pthread_rwlockattr_getpshared_def pthread_rwlockattr_setpshared_def obj_def)

section \<open>The page size\<close>

text \<open>
  With the page size that \<open>_rthread_init\<close> leaves (0, since \<open>sysconf\<close> is not called), the mask
  \<open>~(_thread_pagesize - 1)\<close> is 0 and \<open>_thread_pagesize - 1\<close> is all ones.
\<close>

lemma round_to_page_0: "ROUND_TO_PAGE 0 sz = 0"
  by (simp add: ROUND_TO_PAGE_def)

lemma page_mask_0: "(a :: u64) AND (0 - 1) = a"
  by simp

section \<open>Properties\<close>

definition set_then_get ::
  "('a handlep \<Rightarrow> 'v \<Rightarrow> (int \<times> 'a handlep) res) \<Rightarrow> ('a handlep \<Rightarrow> (int \<times> 'v) res) \<Rightarrow> 'a \<Rightarrow> 'v \<Rightarrow> (int \<times> 'v) res" where
  "set_then_get setter getter a v =
     bindR (setter (Some (Some a)) v) (\<lambda>(e, p). bindR (getter p) (\<lambda>(_, w). Ret (e, w)))"

text \<open>
  Attribute objects keep what they are given. A valid value is accepted and read back; any
  other value is refused with \<open>EINVAL\<close> and the value read back is the one from before. This holds
  for the detach state, the scope, the scheduling policy and inheritance of thread attributes and
  for the type, protocol and priority ceiling of mutex attributes.
\<close>

lemma attributes_round_trip:
  "set_then_get pthread_attr_setdetachstate pthread_attr_getdetachstate a v =
     (if v \<in> {PTHREAD_CREATE_DETACHED, PTHREAD_CREATE_JOINABLE} then Ret (0, v) else Ret (EINVAL, detach_state a))
   \<and> set_then_get pthread_attr_setscope pthread_attr_getscope a v =
     (if v \<in> {PTHREAD_SCOPE_SYSTEM, PTHREAD_SCOPE_PROCESS} then Ret (0, v) else Ret (EINVAL, contention_scope a))
   \<and> set_then_get pthread_attr_setschedpolicy pthread_attr_getschedpolicy a v =
     (if v \<in> {SCHED_OTHER, SCHED_FIFO, SCHED_RR} then Ret (0, v) else Ret (EINVAL, sched_policy a))
   \<and> set_then_get pthread_attr_setinheritsched pthread_attr_getinheritsched a v =
     (if v \<in> {PTHREAD_INHERIT_SCHED, PTHREAD_EXPLICIT_SCHED} then Ret (0, v) else Ret (EINVAL, sched_inherit a))
   \<and> set_then_get pthread_mutexattr_settype pthread_mutexattr_gettype ma v =
     (if PTHREAD_MUTEX_ERRORCHECK \<le> v \<and> v < PTHREAD_MUTEX_TYPE_MAX then Ret (0, v) else Ret (EINVAL, ma_type ma))
   \<and> set_then_get pthread_mutexattr_setprotocol pthread_mutexattr_getprotocol ma v =
     (if PTHREAD_PRIO_NONE \<le> v \<and> v \<le> PTHREAD_PRIO_PROTECT then Ret (0, v) else Ret (EINVAL, ma_protocol ma))
   \<and> set_then_get pthread_mutexattr_setprioceiling pthread_mutexattr_getprioceiling ma v =
     (if PTHREAD_MIN_PRIORITY \<le> v \<and> v \<le> PTHREAD_MAX_PRIORITY then Ret (0, v) else Ret (EINVAL, ma_prioceiling ma))"
  unfolding set_then_get_def detachstate.set_get scope.set_get schedpolicy.set_get inheritsched.set_get
    mutextype.set_get mutexprotocol.set_get mutexprioceiling.set_get
  by (simp add: valid_policy_def pthread_attr_getdetachstate_def pthread_attr_getscope_def
      pthread_attr_getschedpolicy_def pthread_attr_getinheritsched_def pthread_mutexattr_gettype_def
      pthread_mutexattr_getprotocol_def pthread_mutexattr_getprioceiling_def)

text \<open>
  No stack attribute can be set. With the page size the library has after its initialisation
  (it is never assigned, so it is 0), \<open>pthread_attr_setstacksize\<close>, \<open>pthread_attr_setstackaddr\<close> and
  \<open>pthread_attr_setstack\<close> refuse every size and address with \<open>EINVAL\<close> and leave the object alone.
\<close>

lemma stack_attributes_refused:
  assumes "threads_ready rt" "thread_pagesize rt = thread_pagesize rthread_loaded"
  shows "pthread_attr_setstacksize self attrp sz rt = Ret (EINVAL, attrp, rt)
    \<and> pthread_attr_setstackaddr self attrp addr rt = Ret (EINVAL, attrp, rt)
    \<and> pthread_attr_setstack self attrp addr sz rt = Ret (EINVAL, attrp, rt)"
proof -
  have p: "thread_pagesize rt = 0" using assms(2) by (simp add: rthread_loaded_def)
  have "sz < PTHREAD_STACK_MIN \<or> sz > 0" by (cases "sz = 0") (simp_all add: word_neq_0_conv)
  then have "pthread_attr_setstacksize self attrp sz rt = Ret (EINVAL, attrp, rt)"
    using assms(1) p by (simp add: pthread_attr_setstacksize_def round_to_page_0)
  moreover have "pthread_attr_setstackaddr self attrp addr rt = Ret (EINVAL, attrp, rt)"
    using assms(1) p by (simp add: pthread_attr_setstackaddr_def)
  ultimately show ?thesis by (simp add: pthread_attr_setstack_def)
qed

end
