(* ===== verification/Mutex.thy ===== *)
theory Mutex
  imports Attributes
begin

text \<open>
  Mutexes (\<open>rthread_mutex.c\<close>, \<open>rthread_mutex_prio.c\<close>) as one caller sees them: each call as a
  function of the mutex, cut at \<open>phal_semaphore_wait\<close> where it may sleep. The theory
  \<open>Mutex_Threads\<close> interleaves the same code over many threads.
\<close>

abbreviation (input) UNLOCKED :: int where "UNLOCKED \<equiv> 0"
abbreviation (input) LOCKED :: int where "LOCKED \<equiv> 1"
abbreviation (input) CONTENDED :: int where "CONTENDED \<equiv> 2"

record pthread_mutex =
  mtx_lock :: int
  mtx_type :: int
  mtx_owner :: pthread_t
  mtx_count :: int
  prioceiling :: int

definition pthread_mutex_init ::
  "bool \<Rightarrow> pthread_mutex handlep \<Rightarrow> pthread_mutex_attr handlep \<Rightarrow>
   (int \<times> pthread_mutex handlep) res" where
  "pthread_mutex_init alloc mutexp mattr =
     (if \<not> alloc then Ret (ENOMEM, mutexp)
      else let mutex = \<lparr>mtx_lock = 0, mtx_type = 0, mtx_owner = None, mtx_count = 0, prioceiling = 0\<rparr> in
        bindR
          (if mattr = None
           then Ret (mutex\<lparr>mtx_type := PTHREAD_MUTEX_DEFAULT, prioceiling := - 1\<rparr>)
           else bindR (obj mattr) (\<lambda>a.
             Ret (mutex\<lparr>mtx_type := ma_type a,
                        prioceiling := (if ma_protocol a = PTHREAD_PRIO_PROTECT
                                        then ma_prioceiling a else - 1)\<rparr>)))
          (\<lambda>mutex. if mutexp = None then Crash else Ret (0, Some (Some mutex))))"

definition pthread_mutex_destroy :: "pthread_mutex handlep \<Rightarrow> int \<times> pthread_mutex handlep" where
  "pthread_mutex_destroy mutexp =
     (case mutexp of
        Some (Some mutex) \<Rightarrow>
          if mtx_lock mutex \<noteq> UNLOCKED then (EBUSY, mutexp) else (0, Some None)
      | _ \<Rightarrow> (EINVAL, mutexp))"

text \<open>
  A locking call returns an error number, or sleeps: \<open>MWaitSelf\<close> in the self-deadlock branch of
  \<open>_rthread_mutex_trylock\<close>, \<open>MWait\<close> in the loop of \<open>_rthread_mutex_timedlock\<close>.
\<close>

datatype mutex_result = MRet int | MWaitSelf | MWait

text \<open>\<open>abst\<close> is the time-out argument, \<open>None\<close> for \<open>NULL\<close>.\<close>

definition rthread_mutex_trylock ::
  "pthread_t \<Rightarrow> pthread_mutex \<Rightarrow> bool \<Rightarrow> timespec option \<Rightarrow> (mutex_result \<times> pthread_mutex) res" where
  "rthread_mutex_trylock self mutex trywait abst =
     (if mtx_lock mutex = UNLOCKED
      then Ret (MRet 0, mutex\<lparr>mtx_lock := LOCKED, mtx_owner := self\<rparr>)
      else if mtx_owner mutex = self then
        (if mtx_type mutex \<noteq> PTHREAD_MUTEX_RECURSIVE then
           (if trywait \<or> mtx_type mutex = PTHREAD_MUTEX_ERRORCHECK
            then Ret (MRet (if trywait then EBUSY else EDEADLK), mutex)
            else if mtx_type mutex = PTHREAD_MUTEX_STRICT_NP \<and> abst = None then Abort
            else Ret (MWaitSelf, mutex))
         else if mtx_count mutex = INT_MAX then Ret (MRet EAGAIN, mutex)
         else Ret (MRet 0, mutex\<lparr>mtx_count := mtx_count mutex + 1\<rparr>))
      else Ret (MRet EBUSY, mutex))"

text \<open>The self-deadlock branch after its wait: the code of the wait is not looked at.\<close>

definition rthread_mutex_trylock_wake :: "int \<Rightarrow> mutex_result" where
  "rthread_mutex_trylock_wake error = MRet ETIMEDOUT"

text \<open>
  \<open>_rthread_mutex_timedlock\<close> on a mutex object up to the wait. The 128 turns of the spin loop
  only read the lock word; with no other thread storing to it they leave it as it was, so the
  second compare-and-exchange sees the value the first one saw.
\<close>

definition mutex_lock_object ::
  "pthread_t \<Rightarrow> pthread_mutex \<Rightarrow> bool \<Rightarrow> timespec option \<Rightarrow> (mutex_result \<times> pthread_mutex) res" where
  "mutex_lock_object self mutex trywait abst =
     bindR (rthread_mutex_trylock self mutex trywait abst) (\<lambda>(r, mutex).
       if r \<noteq> MRet EBUSY \<or> trywait then Ret (r, mutex)
       else let lock = mtx_lock mutex in
         if lock = UNLOCKED then Ret (MRet 0, mutex\<lparr>mtx_lock := LOCKED, mtx_owner := self\<rparr>)
         else let (lock, mutex) =
                (if lock \<noteq> CONTENDED then (mtx_lock mutex, mutex\<lparr>mtx_lock := CONTENDED\<rparr>)
                 else (lock, mutex)) in
           if lock \<noteq> UNLOCKED then Ret (MWait, mutex)
           else Ret (MRet 0, mutex\<lparr>mtx_owner := self\<rparr>))"

text \<open>One turn of the loop after \<open>phal_semaphore_wait\<close> returned \<open>error\<close>.\<close>

definition mutex_lock_wake :: "pthread_t \<Rightarrow> pthread_mutex \<Rightarrow> int \<Rightarrow> mutex_result \<times> pthread_mutex" where
  "mutex_lock_wake self mutex error =
     (if error = ETIMEDOUT then (MRet error, mutex)
      else let lock = mtx_lock mutex; mutex = mutex\<lparr>mtx_lock := CONTENDED\<rparr> in
        if lock \<noteq> UNLOCKED then (MWait, mutex)
        else (MRet 0, mutex\<lparr>mtx_owner := self\<rparr>))"

text \<open>
  The whole entry, with the initialisation of a statically initialised handle
  (\<open>static_init_lock\<close> is free whenever no call is inside that block).
\<close>

definition rthread_mutex_timedlock ::
  "bool \<Rightarrow> pthread_t \<Rightarrow> pthread_mutex handlep \<Rightarrow> bool \<Rightarrow> timespec option \<Rightarrow>
   (mutex_result \<times> pthread_mutex handlep) res" where
  "rthread_mutex_timedlock alloc self mutexp trywait abst =
     (if mutexp = None then Ret (MRet EINVAL, mutexp)
      else bindR (if mutexp = Some None then pthread_mutex_init alloc mutexp None else Ret (0, mutexp))
        (\<lambda>(error, mutexp).
          if error \<noteq> 0 then Ret (MRet EINVAL, mutexp)
          else bindR (obj mutexp) (\<lambda>mutex.
            bindR (mutex_lock_object self mutex trywait abst) (\<lambda>(r, mutex).
              Ret (r, Some (Some mutex))))))"

definition pthread_mutex_trylock ::
  "bool \<Rightarrow> pthread_t \<Rightarrow> pthread_mutex handlep \<Rightarrow> (mutex_result \<times> pthread_mutex handlep) res" where
  "pthread_mutex_trylock alloc self mutexp = rthread_mutex_timedlock alloc self mutexp True None"

definition pthread_mutex_timedlock ::
  "bool \<Rightarrow> pthread_t \<Rightarrow> pthread_mutex handlep \<Rightarrow> timespec option \<Rightarrow>
   (mutex_result \<times> pthread_mutex handlep) res" where
  "pthread_mutex_timedlock alloc self mutexp abst = rthread_mutex_timedlock alloc self mutexp False abst"

definition pthread_mutex_lock ::
  "bool \<Rightarrow> pthread_t \<Rightarrow> pthread_mutex handlep \<Rightarrow> (mutex_result \<times> pthread_mutex handlep) res" where
  "pthread_mutex_lock alloc self mutexp = rthread_mutex_timedlock alloc self mutexp False None"

text \<open>
  Unlocking an object; the boolean says that a waiter is signalled.
\<close>

definition mutex_unlock_object ::
  "pthread_t \<Rightarrow> pthread_mutex \<Rightarrow> (int \<times> pthread_mutex \<times> bool) res" where
  "mutex_unlock_object self mutex =
     (if mtx_owner mutex \<noteq> self then
        (if mtx_type mutex = PTHREAD_MUTEX_ERRORCHECK \<or> mtx_type mutex = PTHREAD_MUTEX_RECURSIVE
         then Ret (EPERM, mutex, False)
         else if mtx_owner mutex = None \<and> mtx_type mutex = PTHREAD_MUTEX_NORMAL
         then Ret (0, mutex, False)
         else Abort)
      else if mtx_type mutex = PTHREAD_MUTEX_RECURSIVE \<and> mtx_count mutex > 0
      then Ret (0, mutex\<lparr>mtx_count := mtx_count mutex - 1\<rparr>, False)
      else let mutex = mutex\<lparr>mtx_owner := None\<rparr>; old = mtx_lock mutex;
               mutex = mutex\<lparr>mtx_lock := to_int (old - 1)\<rparr> in
        if old \<noteq> UNLOCKED + 1 then Ret (0, mutex\<lparr>mtx_lock := UNLOCKED\<rparr>, True)
        else Ret (0, mutex, False))"

text \<open>
  The conditional compilation at the null handle compares \<open>PTHREAD_MUTEX_DEFAULT\<close> with
  \<open>PTHREAD_MUTEX_ERRORCHECK\<close> in the preprocessor. Both macros expand to enumeration constants,
  identifiers the preprocessor replaces by 0, so the first branch is the one compiled and the
  call returns \<open>EPERM\<close>.
\<close>

definition pthread_mutex_unlock ::
  "pthread_t \<Rightarrow> pthread_mutex handlep \<Rightarrow> (int \<times> pthread_mutex handlep \<times> bool) res" where
  "pthread_mutex_unlock self mutexp =
     (case mutexp of
        None \<Rightarrow> Ret (EINVAL, mutexp, False)
      | Some None \<Rightarrow> Ret (EPERM, mutexp, False)
      | Some (Some mutex) \<Rightarrow>
          bindR (mutex_unlock_object self mutex) (\<lambda>(e, mutex, wake). Ret (e, Some (Some mutex), wake)))"

section \<open>Priority ceilings\<close>

definition pthread_mutex_getprioceiling :: "pthread_mutex handlep \<Rightarrow> (int \<times> int option) res" where
  "pthread_mutex_getprioceiling mutexp =
     bindR (obj mutexp) (\<lambda>mutex.
       if prioceiling mutex = - 1 then Ret (EINVAL, None) else Ret (0, Some (prioceiling mutex)))"

text \<open>
  \<open>pthread_mutex_setprioceiling\<close>: the result, the old ceiling stored, the handle. When the lock
  call sleeps, \<open>mutex_prio_finish\<close> is what remains to be done once it has returned 0.
\<close>

definition mutex_prio_finish ::
  "pthread_t \<Rightarrow> pthread_mutex handlep \<Rightarrow> int \<Rightarrow> (mutex_result \<times> int option \<times> pthread_mutex handlep) res" where
  "mutex_prio_finish self mutexp ceiling =
     bindR (obj mutexp) (\<lambda>mutex.
       bindR (pthread_mutex_unlock self (Some (Some (mutex\<lparr>prioceiling := ceiling\<rparr>)))) (\<lambda>(_, mutexp, _).
         Ret (MRet 0, Some (prioceiling mutex), mutexp)))"

definition pthread_mutex_setprioceiling ::
  "pthread_t \<Rightarrow> pthread_mutex handlep \<Rightarrow> int \<Rightarrow>
   (mutex_result \<times> int option \<times> pthread_mutex handlep) res" where
  "pthread_mutex_setprioceiling self mutexp ceiling =
     bindR (obj mutexp) (\<lambda>mutex.
       if prioceiling mutex = - 1 \<or> ceiling < PTHREAD_MIN_PRIORITY \<or> ceiling > PTHREAD_MAX_PRIORITY
       then Ret (MRet EINVAL, None, mutexp)
       else bindR (pthread_mutex_lock True self mutexp) (\<lambda>(ret, mutexp).
         if ret = MRet 0 then mutex_prio_finish self mutexp ceiling
         else Ret (ret, None, mutexp)))"

lemmas mutex_defs [pthread_defs] = pthread_mutex_init_def pthread_mutex_destroy_def
  rthread_mutex_trylock_def mutex_lock_object_def mutex_lock_wake_def rthread_mutex_timedlock_def
  pthread_mutex_trylock_def pthread_mutex_timedlock_def pthread_mutex_lock_def
  mutex_unlock_object_def pthread_mutex_unlock_def

section \<open>The invariant between calls\<close>

definition mutex_wf :: "pthread_mutex \<Rightarrow> bool" where
  "mutex_wf m \<longleftrightarrow> mtx_lock m \<in> {UNLOCKED, LOCKED, CONTENDED}
     \<and> (mtx_owner m = None \<longleftrightarrow> mtx_lock m = UNLOCKED)
     \<and> 0 \<le> mtx_count m \<and> mtx_count m \<le> INT_MAX
     \<and> (mtx_count m \<noteq> 0 \<longrightarrow> mtx_type m = PTHREAD_MUTEX_RECURSIVE \<and> mtx_owner m \<noteq> None)"

lemma mutex_init_wf:
  "pthread_mutex_init True (Some h) mattr = Ret (0, Some (Some m)) \<Longrightarrow> mutex_wf m"
  by (auto simp: pthread_mutex_init_def mutex_wf_def bindR_Ret_iff Let_def split: if_splits)

lemma mutex_lock_object_wf:
  "mutex_wf m \<Longrightarrow> mutex_lock_object (Some t) m trywait abst = Ret (r, m') \<Longrightarrow> mutex_wf m'"
  by (auto simp: mutex_lock_object_def rthread_mutex_trylock_def mutex_wf_def Let_def split: if_splits)

lemma mutex_lock_wake_wf:
  "mutex_wf m \<Longrightarrow> mutex_lock_wake (Some t) m e = (r, m') \<Longrightarrow> mutex_wf m'"
  by (auto simp: mutex_lock_wake_def mutex_wf_def Let_def split: if_splits)

lemma mutex_unlock_object_wf:
  "mutex_wf m \<Longrightarrow> mutex_unlock_object (Some t) m = Ret (r, m', w) \<Longrightarrow> mutex_wf m'"
  by (auto simp: mutex_unlock_object_def mutex_wf_def Let_def split: if_splits)

section \<open>Abstract view: the owner and how often it holds the mutex\<close>

definition mutex_abs :: "pthread_mutex \<Rightarrow> (tid \<times> int) option" where
  "mutex_abs m = (case mtx_owner m of None \<Rightarrow> None | Some t \<Rightarrow> Some (t, mtx_count m))"

definition spec_lock :: "tid \<Rightarrow> (tid \<times> int) option \<Rightarrow> (tid \<times> int) option" where
  "spec_lock t s = (case s of None \<Rightarrow> Some (t, 0) | Some (u, n) \<Rightarrow> Some (u, n + 1))"

definition spec_unlock :: "(tid \<times> int) option \<Rightarrow> (tid \<times> int) option" where
  "spec_unlock s = (case s of None \<Rightarrow> None | Some (u, n) \<Rightarrow> if 0 < n then Some (u, n - 1) else None)"

lemma lock_refines:
  assumes "mutex_wf m" and "mutex_lock_object (Some t) m trywait abst = Ret (MRet 0, m')"
  shows "mutex_abs m' = spec_lock t (mutex_abs m) \<and> (mutex_abs m = None \<or> fst (the (mutex_abs m)) = t)"
  using assms
  by (auto simp: mutex_lock_object_def rthread_mutex_trylock_def mutex_wf_def mutex_abs_def
      spec_lock_def Let_def split: if_splits)

lemma unlock_refines:
  assumes "mutex_wf m" and "mtx_owner m = Some t" and "mutex_unlock_object (Some t) m = Ret (0, m', w)"
  shows "mutex_abs m' = spec_unlock (mutex_abs m)"
  using assms
  by (auto simp: mutex_unlock_object_def mutex_wf_def mutex_abs_def spec_unlock_def Let_def
      split: if_splits)

section \<open>Recursion\<close>

text \<open>\<open>n\<close> calls in a row.\<close>

fun lock_n :: "nat \<Rightarrow> tid \<Rightarrow> pthread_mutex \<Rightarrow> pthread_mutex res" where
  "lock_n 0 t m = Ret m"
| "lock_n (Suc n) t m = bindR (mutex_lock_object (Some t) m False None) (\<lambda>(r, m').
     if r = MRet 0 then lock_n n t m' else Hang)"

fun unlock_n :: "nat \<Rightarrow> tid \<Rightarrow> pthread_mutex \<Rightarrow> pthread_mutex res" where
  "unlock_n 0 t m = Ret m"
| "unlock_n (Suc n) t m = bindR (mutex_unlock_object (Some t) m) (\<lambda>(r, m', _).
     if r = 0 then unlock_n n t m' else Hang)"

lemma relock_recursive:
  assumes "mutex_wf m" "mtx_type m = PTHREAD_MUTEX_RECURSIVE" "mtx_owner m = Some t"
    "mtx_count m < INT_MAX"
  shows "mutex_lock_object (Some t) m trywait abst = Ret (MRet 0, m\<lparr>mtx_count := mtx_count m + 1\<rparr>)"
  using assms by (auto simp: mutex_lock_object_def rthread_mutex_trylock_def mutex_wf_def)

lemma lock_n_recursive:
  assumes "mutex_wf m" "mtx_type m = PTHREAD_MUTEX_RECURSIVE" "mtx_owner m = Some t"
    "mtx_count m + int n \<le> INT_MAX"
  shows "lock_n n t m = Ret (m\<lparr>mtx_count := mtx_count m + int n\<rparr>)"
  using assms
proof (induction n arbitrary: m)
  case (Suc n)
  let ?m = "m\<lparr>mtx_count := mtx_count m + 1\<rparr>"
  have lk: "mutex_lock_object (Some t) m False None = Ret (MRet 0, ?m)"
    by (rule relock_recursive) (use Suc.prems in auto)
  have "mutex_wf ?m" using Suc.prems by (auto simp: mutex_wf_def)
  then have "lock_n n t ?m = Ret (?m\<lparr>mtx_count := mtx_count ?m + int n\<rparr>)"
    using Suc.prems by (intro Suc.IH) auto
  then show ?case using lk by (simp add: algebra_simps)
qed simp

lemma unlock_n_recursive:
  assumes "mutex_wf m" "mtx_type m = PTHREAD_MUTEX_RECURSIVE" "mtx_owner m = Some t"
    "int n \<le> mtx_count m"
  shows "unlock_n n t m = Ret (m\<lparr>mtx_count := mtx_count m - int n\<rparr>)"
  using assms
proof (induction n arbitrary: m)
  case (Suc n)
  let ?m = "m\<lparr>mtx_count := mtx_count m - 1\<rparr>"
  have ul: "mutex_unlock_object (Some t) m = Ret (0, ?m, False)"
    using Suc.prems by (auto simp: mutex_unlock_object_def)
  have "mutex_wf ?m" using Suc.prems by (auto simp: mutex_wf_def)
  then have "unlock_n n t ?m = Ret (?m\<lparr>mtx_count := mtx_count ?m - int n\<rparr>)"
    using Suc.prems by (intro Suc.IH) auto
  then show ?case using ul by (simp add: algebra_simps)
qed simp

lemma lock_free:
  assumes "mutex_wf m" "mtx_owner m = None"
  shows "mutex_lock_object (Some t) m trywait abst
       = Ret (MRet 0, m\<lparr>mtx_lock := LOCKED, mtx_owner := Some t\<rparr>)"
  using assms by (auto simp: mutex_lock_object_def rthread_mutex_trylock_def mutex_wf_def)

lemma unlock_n_snoc: "unlock_n (Suc n) t m = bindR (unlock_n n t m) (unlock_n 1 t)"
proof (induction n arbitrary: m)
  case (Suc n)
  show ?case
  proof (cases "mutex_unlock_object (Some t) m")
    case (Ret x)
    obtain r m' w where "x = (r, m', w)" by (cases x)
    with Ret Suc.IH [of m'] show ?thesis
      by (simp only: unlock_n.simps(2) [of "Suc n" t m] unlock_n.simps(2) [of n t m]) simp
  qed simp_all
qed simp

text \<open>A mutex call returns or aborts.\<close>

lemma mutex_outcome:
  "mutex_lock_object self m trywait abst \<notin> {Hang, Crash}" "mutex_unlock_object self m \<notin> {Hang, Crash}"
  by (auto simp: mutex_lock_object_def rthread_mutex_trylock_def mutex_unlock_object_def Let_def)

lemma unlock_by_owner:
  assumes "mtx_owner m = Some t"
  shows "\<exists>m' w. mutex_unlock_object (Some t) m = Ret (0, m', w)"
  using assms by (simp add: mutex_unlock_object_def Let_def) blast

section \<open>Properties\<close>

text \<open>
  Every mutex operation keeps the mutex well-formed: the lock word is one of the three states
  and non-zero exactly when an owner is recorded, and only a held recursive mutex has a count.
\<close>

lemma mutex_operations_keep_wf:
  assumes "mutex_wf m"
  shows "mutex_lock_object (Some t) m trywait abst \<in> {Ret (r, m') |r m'. mutex_wf m'} \<union> {Abort}
    \<and> mutex_wf (snd (mutex_lock_wake (Some t) m e))
    \<and> mutex_unlock_object (Some t) m \<in> {Ret (r, m', w) |r m' w. mutex_wf m'} \<union> {Abort}"
proof -
  have "mutex_lock_object (Some t) m trywait abst \<in> {Ret (r, m') |r m'. mutex_wf m'} \<union> {Abort}"
    using mutex_lock_object_wf [OF assms, of t trywait abst] mutex_outcome(1) [of "Some t" m trywait abst]
    by (cases "mutex_lock_object (Some t) m trywait abst") auto
  moreover have "mutex_wf (snd (mutex_lock_wake (Some t) m e))"
    using mutex_lock_wake_wf [OF assms, of t e] by (cases "mutex_lock_wake (Some t) m e") simp
  moreover have "mutex_unlock_object (Some t) m \<in> {Ret (r, m', w) |r m' w. mutex_wf m'} \<union> {Abort}"
    using mutex_unlock_object_wf [OF assms, of t] mutex_outcome(2) [of "Some t" m]
    by (cases "mutex_unlock_object (Some t) m") auto
  ultimately show ?thesis by blast
qed

definition free_mutex :: "int \<Rightarrow> pthread_mutex" where
  "free_mutex ty = \<lparr>mtx_lock = UNLOCKED, mtx_type = ty, mtx_owner = None, mtx_count = 0, prioceiling = - 1\<rparr>"

lemma free_mutex_wf: "mutex_wf (free_mutex ty)"
  by (simp add: mutex_wf_def free_mutex_def)

lemma mutex_operations_keep_wf_instance:
  "mutex_wf (free_mutex PTHREAD_MUTEX_NORMAL)
   \<and> mutex_wf (snd (mutex_lock_wake (Some 1) (free_mutex PTHREAD_MUTEX_NORMAL) 0))"
  using mutex_operations_keep_wf [OF free_mutex_wf] free_mutex_wf by blast

text \<open>
  A recursive mutex counts. From a free recursive mutex one thread may lock it \<open>n + 1\<close> times
  and unlock it \<open>n + 1\<close> times (as long as the count fits in an \<open>int\<close>): every call returns 0, in
  between the count is \<open>n\<close>, and the mutex ends as it started.
\<close>

lemma mutex_recursive_round_trip:
  assumes "mutex_wf m" "mtx_owner m = None" "mtx_type m = PTHREAD_MUTEX_RECURSIVE" "int n \<le> INT_MAX"
  shows "\<exists>m'. lock_n (Suc n) t m = Ret m' \<and> mutex_abs m' = Some (t, int n) \<and> unlock_n (Suc n) t m' = Ret m"
proof -
  let ?m = "m\<lparr>mtx_lock := LOCKED, mtx_owner := Some t\<rparr>" and ?held = "m\<lparr>mtx_lock := LOCKED, mtx_owner := Some t, mtx_count := int n\<rparr>"
  have free: "mtx_lock m = UNLOCKED" "mtx_count m = 0" using assms by (auto simp: mutex_wf_def)
  have wf: "mutex_wf ?m" "mutex_wf ?held" using assms by (auto simp: mutex_wf_def)
  have "lock_n n t ?m = Ret (?m\<lparr>mtx_count := mtx_count ?m + int n\<rparr>)"
    by (rule lock_n_recursive) (use assms wf free in simp_all)
  then have lock: "lock_n (Suc n) t m = Ret ?held"
    using lock_free [OF assms(1,2), of t False None] free by simp
  have "unlock_n n t ?held = Ret (?held\<lparr>mtx_count := mtx_count ?held - int n\<rparr>)"
    by (rule unlock_n_recursive) (use assms wf in simp_all)
  moreover have "unlock_n 1 t (?held\<lparr>mtx_count := 0\<rparr>) = Ret m"
    using free assms(2) by (simp add: mutex_unlock_object_def Let_def)
  ultimately have "unlock_n (Suc n) t ?held = Ret m" by (simp add: unlock_n_snoc del: unlock_n.simps)
  then show ?thesis using lock by (intro exI [of _ ?held]) (simp add: mutex_abs_def)
qed

lemma mutex_recursive_round_trip_instance:
  "\<exists>m'. lock_n 3 7 (free_mutex PTHREAD_MUTEX_RECURSIVE) = Ret m' \<and> mutex_abs m' = Some (7, 2)
     \<and> unlock_n 3 7 m' = Ret (free_mutex PTHREAD_MUTEX_RECURSIVE)"
  using mutex_recursive_round_trip [OF free_mutex_wf, of PTHREAD_MUTEX_RECURSIVE 2 7]
  by (simp add: free_mutex_def eval_nat_numeral del: lock_n.simps unlock_n.simps)

text \<open>
  What a call on the abstract mutex \<open>s\<close> of type \<open>ty\<close> returns, \<open>None\<close> for an abort.
\<close>

definition spec_lock_result :: "int \<Rightarrow> tid \<Rightarrow> (tid \<times> int) option \<Rightarrow> bool \<Rightarrow> bool \<Rightarrow> mutex_result option" where
  "spec_lock_result ty t s trywait timed =
     (case s of
        None \<Rightarrow> Some (MRet 0)
      | Some (u, n) \<Rightarrow>
          if u \<noteq> t then Some (if trywait then MRet EBUSY else MWait)
          else if ty = PTHREAD_MUTEX_RECURSIVE then Some (MRet (if n = INT_MAX then EAGAIN else 0))
          else if trywait then Some (MRet EBUSY)
          else if ty = PTHREAD_MUTEX_ERRORCHECK then Some (MRet EDEADLK)
          else if ty = PTHREAD_MUTEX_STRICT_NP \<and> \<not> timed then None
          else Some MWaitSelf)"

definition spec_unlock_result :: "int \<Rightarrow> tid \<Rightarrow> (tid \<times> int) option \<Rightarrow> int option" where
  "spec_unlock_result ty t s =
     (if (case s of None \<Rightarrow> False | Some (u, n) \<Rightarrow> u = t) then Some 0
      else if ty = PTHREAD_MUTEX_ERRORCHECK \<or> ty = PTHREAD_MUTEX_RECURSIVE then Some EPERM
      else if s = None \<and> ty = PTHREAD_MUTEX_NORMAL then Some 0
      else None)"

lemma lock_total:
  assumes "mutex_wf m"
  shows "\<exists>m1. mutex_lock_object (Some t) m trywait abst
          = (case spec_lock_result (mtx_type m) t (mutex_abs m) trywait (abst \<noteq> None) of
               None \<Rightarrow> Abort | Some r \<Rightarrow> Ret (r, m1))
      \<and> mutex_wf m1 \<and> mtx_type m1 = mtx_type m
      \<and> mutex_abs m1 = (if spec_lock_result (mtx_type m) t (mutex_abs m) trywait (abst \<noteq> None) = Some (MRet 0)
                        then spec_lock t (mutex_abs m) else mutex_abs m)
      \<and> mtx_lock m1 = (if mutex_abs m = None then LOCKED
                       else if spec_lock_result (mtx_type m) t (mutex_abs m) trywait (abst \<noteq> None) = Some MWait
                       then CONTENDED else mtx_lock m)"
proof (cases "mutex_lock_object (Some t) m trywait abst")
  case (Ret x)
  obtain r m1 where "x = (r, m1)" by (cases x)
  with Ret assms show ?thesis
    by (intro exI [of _ m1])
      (auto simp: spec_lock_result_def mutex_lock_object_def rthread_mutex_trylock_def mutex_wf_def
        mutex_abs_def spec_lock_def Let_def split: if_splits option.splits)
next
  case Abort
  with assms show ?thesis
    by (intro exI [of _ m])
      (auto simp: spec_lock_result_def mutex_lock_object_def rthread_mutex_trylock_def mutex_wf_def
        mutex_abs_def spec_lock_def Let_def split: if_splits option.splits)
qed (use mutex_outcome(1) [of "Some t" m trywait abst] in simp_all)

lemma unlock_total:
  assumes "mutex_wf m"
  shows "\<exists>m2 w. mutex_unlock_object (Some t) m
          = (case spec_unlock_result (mtx_type m) t (mutex_abs m) of None \<Rightarrow> Abort | Some e \<Rightarrow> Ret (e, m2, w))
      \<and> mutex_wf m2 \<and> mtx_type m2 = mtx_type m
      \<and> mutex_abs m2 = (if mtx_owner m = Some t then spec_unlock (mutex_abs m) else mutex_abs m)
      \<and> mtx_lock m2 = (if mutex_abs m2 = None then UNLOCKED else mtx_lock m)
      \<and> w = (mutex_abs m \<noteq> None \<and> mutex_abs m2 = None \<and> mtx_lock m = CONTENDED)"
proof (cases "mutex_unlock_object (Some t) m")
  case (Ret x)
  obtain e m2 w where "x = (e, m2, w)" by (cases x)
  with Ret assms show ?thesis
    by (intro exI [of _ m2] exI [of _ w])
      (auto simp: spec_unlock_result_def mutex_unlock_object_def mutex_wf_def
        mutex_abs_def spec_unlock_def Let_def split: if_splits option.splits)
next
  case Abort
  with assms show ?thesis
    by (intro exI [of _ m] exI [of _ False])
      (auto simp: spec_unlock_result_def mutex_unlock_object_def mutex_wf_def
        mutex_abs_def spec_unlock_def Let_def split: if_splits option.splits)
qed (use mutex_outcome(2) [of "Some t" m] in simp_all)

text \<open>
  C2: locking and unlocking refine the abstract mutex, a record of who holds it and how often. On
  every well-formed mutex a lock call (plain, \<open>try\<close> or timed) returns, sleeps or aborts exactly
  as the abstract mutex says; it adds one hold when it returns 0 and changes no hold otherwise;
  the lock word is \<open>LOCKED\<close> when the mutex was free, \<open>CONTENDED\<close> before a sleep and else
  unchanged. An unlock call returns or aborts as the abstract mutex says; by the holder it takes
  one hold away; the lock word is \<open>UNLOCKED\<close> as soon as there is no holder and else unchanged; a
  waiter is signalled exactly when the last hold of a contended mutex goes.
\<close>

theorem mutex_refines_holds:
  assumes "mutex_wf m"
  shows "(\<exists>m1. mutex_lock_object (Some t) m trywait abst
          = (case spec_lock_result (mtx_type m) t (mutex_abs m) trywait (abst \<noteq> None) of
               None \<Rightarrow> Abort | Some r \<Rightarrow> Ret (r, m1))
      \<and> mutex_wf m1 \<and> mtx_type m1 = mtx_type m
      \<and> mutex_abs m1 = (if spec_lock_result (mtx_type m) t (mutex_abs m) trywait (abst \<noteq> None) = Some (MRet 0)
                        then spec_lock t (mutex_abs m) else mutex_abs m)
      \<and> mtx_lock m1 = (if mutex_abs m = None then LOCKED
                       else if spec_lock_result (mtx_type m) t (mutex_abs m) trywait (abst \<noteq> None) = Some MWait
                       then CONTENDED else mtx_lock m))
    \<and> (\<exists>m2 w. mutex_unlock_object (Some t) m
          = (case spec_unlock_result (mtx_type m) t (mutex_abs m) of None \<Rightarrow> Abort | Some e \<Rightarrow> Ret (e, m2, w))
      \<and> mutex_wf m2 \<and> mtx_type m2 = mtx_type m
      \<and> mutex_abs m2 = (if mtx_owner m = Some t then spec_unlock (mutex_abs m) else mutex_abs m)
      \<and> mtx_lock m2 = (if mutex_abs m2 = None then UNLOCKED else mtx_lock m)
      \<and> w = (mutex_abs m \<noteq> None \<and> mutex_abs m2 = None \<and> mtx_lock m = CONTENDED))"
  using lock_total [OF assms] unlock_total [OF assms] by (rule conjI)

text \<open>A mutex held once by thread 4 and waited for: thread 5 sleeps, thread 4 unlocks and signals.\<close>

theorem mutex_refines_holds_witness:
  "\<exists>m1 m2. mutex_lock_object (Some 5) ((free_mutex PTHREAD_MUTEX_NORMAL)\<lparr>mtx_lock := CONTENDED, mtx_owner := Some 4\<rparr>)
         False None = Ret (MWait, m1) \<and> mutex_abs m1 = Some (4, 0) \<and> mtx_lock m1 = CONTENDED
     \<and> mutex_unlock_object (Some 4) ((free_mutex PTHREAD_MUTEX_NORMAL)\<lparr>mtx_lock := CONTENDED, mtx_owner := Some 4\<rparr>)
         = Ret (0, m2, True) \<and> mutex_abs m2 = None \<and> mtx_lock m2 = UNLOCKED"
proof -
  let ?m = "(free_mutex PTHREAD_MUTEX_NORMAL)\<lparr>mtx_lock := CONTENDED, mtx_owner := Some 4\<rparr>"
  have wf: "mutex_wf ?m" by (simp add: mutex_wf_def free_mutex_def)
  have fields: "mutex_abs ?m = Some (4, 0)" "mtx_owner ?m = Some 4" "mtx_lock ?m = CONTENDED"
    "mtx_type ?m = PTHREAD_MUTEX_NORMAL"
    by (simp_all add: mutex_abs_def free_mutex_def)
  have res: "spec_lock_result PTHREAD_MUTEX_NORMAL 5 (Some (4, 0)) False False = Some MWait"
    "spec_unlock_result PTHREAD_MUTEX_NORMAL 4 (Some (4, 0)) = Some 0" "spec_unlock (Some (4, 0)) = None"
    by (simp_all add: spec_lock_result_def spec_unlock_result_def spec_unlock_def)
  show ?thesis
    using mutex_refines_holds [OF wf, of 5 False None] mutex_refines_holds [OF wf, of 4 False None]
    unfolding fields by (auto simp: res)
qed

end
