(* ===== verification/Mutex_Threads.thy ===== *)
theory Mutex_Threads
  imports Mutex
begin

text \<open>
  The code of \<open>rthread_mutex.c\<close> with any number of threads interleaving at every access to
  the mutex: one rule per atomic operation of \<open>_rthread_mutex_trylock\<close>,
  \<open>_rthread_mutex_timedlock\<close> and \<open>pthread_mutex_unlock\<close>. \<open>my_in\<close> is a ghost set: the threads
  that have taken the lock word and not yet released it.
\<close>

text \<open>
  Where a thread stands: idle (outside the library); before the first compare-and-exchange;
  before the owner check; in the spin loop with the number of turns left; before the second
  compare-and-exchange; before the exchange with \<open>CONTENDED\<close>; before and inside
  \<open>phal_semaphore_wait\<close>; in the self-deadlock wait; before \<open>mutex->owner = self\<close>; in unlock
  before the fetch-and-subtract, before the store of \<open>UNLOCKED\<close>, before the signal; aborted.
  The booleans are the \<open>trywait\<close> argument and whether a time-out was given.
\<close>

datatype mutex_pc =
    MIdle | LCas bool bool | LCheck bool bool | LSpin nat bool | LCas2 bool | LXchg bool
  | LWait bool | LAsleep bool | LSelf bool | LOwn | USub | UStore | USignal | MAborted

record mutex_sys =
  my_mutex :: pthread_mutex
  my_q :: waitq
  my_pc :: "tid \<Rightarrow> mutex_pc"
  my_in :: "tid set"

abbreviation SPIN_COUNT :: nat where "SPIN_COUNT \<equiv> 128"

definition goto :: "tid \<Rightarrow> mutex_pc \<Rightarrow> mutex_sys \<Rightarrow> mutex_sys" where
  "goto t pc s = s\<lparr>my_pc := (my_pc s)(t := pc)\<rparr>"

definition mutex_start :: "pthread_mutex \<Rightarrow> mutex_sys \<Rightarrow> bool" where
  "mutex_start m s \<longleftrightarrow> mtx_lock m = UNLOCKED \<and> mtx_owner m = None \<and>
     s = \<lparr>my_mutex = m, my_q = no_waiters, my_pc = (\<lambda>_. MIdle), my_in = {}\<rparr>"

text \<open>
  \<open>spurious\<close> allows \<open>phal_semaphore_wait\<close> to return to a thread that was not signalled.
\<close>

inductive mutex_step :: "bool \<Rightarrow> mutex_sys \<Rightarrow> mutex_sys \<Rightarrow> bool" for spurious :: bool where
  call_lock: "my_pc s t = MIdle \<Longrightarrow> mutex_step spurious s (goto t (LCas trywait timed) s)"
| cas_free: "my_pc s t = LCas trywait timed \<Longrightarrow> mtx_lock (my_mutex s) = UNLOCKED \<Longrightarrow>
    mutex_step spurious s (goto t LOwn
      (s\<lparr>my_mutex := (my_mutex s)\<lparr>mtx_lock := LOCKED\<rparr>, my_in := insert t (my_in s)\<rparr>))"
| cas_taken: "my_pc s t = LCas trywait timed \<Longrightarrow> mtx_lock (my_mutex s) \<noteq> UNLOCKED \<Longrightarrow>
    mutex_step spurious s (goto t (LCheck trywait timed) s)"
| self_error: "my_pc s t = LCheck trywait timed \<Longrightarrow> mtx_owner (my_mutex s) = Some t \<Longrightarrow>
    mtx_type (my_mutex s) \<noteq> PTHREAD_MUTEX_RECURSIVE \<Longrightarrow>
    trywait \<or> mtx_type (my_mutex s) = PTHREAD_MUTEX_ERRORCHECK \<Longrightarrow>
    mutex_step spurious s (goto t MIdle s)"
| self_abort: "my_pc s t = LCheck False False \<Longrightarrow> mtx_owner (my_mutex s) = Some t \<Longrightarrow>
    mtx_type (my_mutex s) = PTHREAD_MUTEX_STRICT_NP \<Longrightarrow>
    mutex_step spurious s (goto t MAborted s)"
| self_wait: "my_pc s t = LCheck False timed \<Longrightarrow> mtx_owner (my_mutex s) = Some t \<Longrightarrow>
    mtx_type (my_mutex s) \<noteq> PTHREAD_MUTEX_RECURSIVE \<Longrightarrow>
    mtx_type (my_mutex s) \<noteq> PTHREAD_MUTEX_ERRORCHECK \<Longrightarrow>
    \<not> (mtx_type (my_mutex s) = PTHREAD_MUTEX_STRICT_NP \<and> \<not> timed) \<Longrightarrow>
    mutex_step spurious s (goto t (LSelf timed) (s\<lparr>my_q := phal_wait t (my_q s)\<rparr>))"
| self_return: "my_pc s t = LSelf timed \<Longrightarrow> t \<in> woken (my_q s) \<or> timed \<or> spurious \<Longrightarrow>
    mutex_step spurious s (goto t MIdle (s\<lparr>my_q := phal_return t (my_q s)\<rparr>))"
| self_full: "my_pc s t = LCheck trywait timed \<Longrightarrow> mtx_owner (my_mutex s) = Some t \<Longrightarrow>
    mtx_type (my_mutex s) = PTHREAD_MUTEX_RECURSIVE \<Longrightarrow> mtx_count (my_mutex s) = INT_MAX \<Longrightarrow>
    mutex_step spurious s (goto t MIdle s)"
| self_again: "my_pc s t = LCheck trywait timed \<Longrightarrow> mtx_owner (my_mutex s) = Some t \<Longrightarrow>
    mtx_type (my_mutex s) = PTHREAD_MUTEX_RECURSIVE \<Longrightarrow> mtx_count (my_mutex s) \<noteq> INT_MAX \<Longrightarrow>
    mutex_step spurious s (goto t MIdle
      (s\<lparr>my_mutex := (my_mutex s)\<lparr>mtx_count := mtx_count (my_mutex s) + 1\<rparr>\<rparr>))"
| busy: "my_pc s t = LCheck True timed \<Longrightarrow> mtx_owner (my_mutex s) \<noteq> Some t \<Longrightarrow>
    mutex_step spurious s (goto t MIdle s)"
| start_spin: "my_pc s t = LCheck False timed \<Longrightarrow> mtx_owner (my_mutex s) \<noteq> Some t \<Longrightarrow>
    mutex_step spurious s (goto t (LSpin SPIN_COUNT timed) s)"
| spin_more: "my_pc s t = LSpin (Suc n) timed \<Longrightarrow> mtx_lock (my_mutex s) \<noteq> UNLOCKED \<Longrightarrow>
    mutex_step spurious s (goto t (LSpin n timed) s)"
| spin_end: "my_pc s t = LSpin n timed \<Longrightarrow> n = 0 \<or> mtx_lock (my_mutex s) = UNLOCKED \<Longrightarrow>
    mutex_step spurious s (goto t (LCas2 timed) s)"
| cas2_free: "my_pc s t = LCas2 timed \<Longrightarrow> mtx_lock (my_mutex s) = UNLOCKED \<Longrightarrow>
    mutex_step spurious s (goto t LOwn
      (s\<lparr>my_mutex := (my_mutex s)\<lparr>mtx_lock := LOCKED\<rparr>, my_in := insert t (my_in s)\<rparr>))"
| cas2_contended: "my_pc s t = LCas2 timed \<Longrightarrow> mtx_lock (my_mutex s) = CONTENDED \<Longrightarrow>
    mutex_step spurious s (goto t (LWait timed) s)"
| cas2_locked: "my_pc s t = LCas2 timed \<Longrightarrow> mtx_lock (my_mutex s) \<noteq> UNLOCKED \<Longrightarrow>
    mtx_lock (my_mutex s) \<noteq> CONTENDED \<Longrightarrow> mutex_step spurious s (goto t (LXchg timed) s)"
| xchg_free: "my_pc s t = LXchg timed \<Longrightarrow> mtx_lock (my_mutex s) = UNLOCKED \<Longrightarrow>
    mutex_step spurious s (goto t LOwn
      (s\<lparr>my_mutex := (my_mutex s)\<lparr>mtx_lock := CONTENDED\<rparr>, my_in := insert t (my_in s)\<rparr>))"
| xchg_taken: "my_pc s t = LXchg timed \<Longrightarrow> mtx_lock (my_mutex s) \<noteq> UNLOCKED \<Longrightarrow>
    mutex_step spurious s (goto t (LWait timed)
      (s\<lparr>my_mutex := (my_mutex s)\<lparr>mtx_lock := CONTENDED\<rparr>\<rparr>))"
| fall_asleep: "my_pc s t = LWait timed \<Longrightarrow>
    mutex_step spurious s (goto t (LAsleep timed) (s\<lparr>my_q := phal_wait t (my_q s)\<rparr>))"
| wake_up: "my_pc s t = LAsleep timed \<Longrightarrow> t \<in> woken (my_q s) \<or> spurious \<Longrightarrow>
    mutex_step spurious s (goto t (LXchg timed) (s\<lparr>my_q := phal_return t (my_q s)\<rparr>))"
| time_out: "my_pc s t = LAsleep True \<Longrightarrow> t \<in> asleep (my_q s) \<Longrightarrow>
    mutex_step spurious s (goto t MIdle (s\<lparr>my_q := phal_return t (my_q s)\<rparr>))"
| set_owner: "my_pc s t = LOwn \<Longrightarrow>
    mutex_step spurious s (goto t MIdle (s\<lparr>my_mutex := (my_mutex s)\<lparr>mtx_owner := Some t\<rparr>\<rparr>))"
| unlock_not_owner: "my_pc s t = MIdle \<Longrightarrow> mtx_owner (my_mutex s) \<noteq> Some t \<Longrightarrow>
    mtx_type (my_mutex s) \<in> {PTHREAD_MUTEX_ERRORCHECK, PTHREAD_MUTEX_RECURSIVE}
      \<or> mtx_owner (my_mutex s) = None \<and> mtx_type (my_mutex s) = PTHREAD_MUTEX_NORMAL \<Longrightarrow>
    mutex_step spurious s s"
| unlock_abort: "my_pc s t = MIdle \<Longrightarrow> mtx_owner (my_mutex s) \<noteq> Some t \<Longrightarrow>
    mtx_type (my_mutex s) \<notin> {PTHREAD_MUTEX_ERRORCHECK, PTHREAD_MUTEX_RECURSIVE} \<Longrightarrow>
    \<not> (mtx_owner (my_mutex s) = None \<and> mtx_type (my_mutex s) = PTHREAD_MUTEX_NORMAL) \<Longrightarrow>
    mutex_step spurious s (goto t MAborted s)"
| unlock_count: "my_pc s t = MIdle \<Longrightarrow> mtx_owner (my_mutex s) = Some t \<Longrightarrow>
    mtx_type (my_mutex s) = PTHREAD_MUTEX_RECURSIVE \<Longrightarrow> mtx_count (my_mutex s) > 0 \<Longrightarrow>
    mutex_step spurious s
      (s\<lparr>my_mutex := (my_mutex s)\<lparr>mtx_count := mtx_count (my_mutex s) - 1\<rparr>\<rparr>)"
| unlock_disown: "my_pc s t = MIdle \<Longrightarrow> mtx_owner (my_mutex s) = Some t \<Longrightarrow>
    \<not> (mtx_type (my_mutex s) = PTHREAD_MUTEX_RECURSIVE \<and> mtx_count (my_mutex s) > 0) \<Longrightarrow>
    mutex_step spurious s (goto t USub (s\<lparr>my_mutex := (my_mutex s)\<lparr>mtx_owner := None\<rparr>\<rparr>))"
| sub_last: "my_pc s t = USub \<Longrightarrow> mtx_lock (my_mutex s) = UNLOCKED + 1 \<Longrightarrow>
    mutex_step spurious s (goto t MIdle
      (s\<lparr>my_mutex := (my_mutex s)\<lparr>mtx_lock := UNLOCKED\<rparr>, my_in := my_in s - {t}\<rparr>))"
| sub_contended: "my_pc s t = USub \<Longrightarrow> mtx_lock (my_mutex s) \<noteq> UNLOCKED + 1 \<Longrightarrow>
    mutex_step spurious s (goto t UStore
      (s\<lparr>my_mutex := (my_mutex s)\<lparr>mtx_lock := to_int (mtx_lock (my_mutex s) - 1)\<rparr>\<rparr>))"
| store_unlocked: "my_pc s t = UStore \<Longrightarrow>
    mutex_step spurious s (goto t USignal
      (s\<lparr>my_mutex := (my_mutex s)\<lparr>mtx_lock := UNLOCKED\<rparr>, my_in := my_in s - {t}\<rparr>))"
| unlock_signal: "my_pc s t = USignal \<Longrightarrow> phal_signal (my_q s) q \<Longrightarrow>
    mutex_step spurious s (goto t MIdle (s\<lparr>my_q := q\<rparr>))"

lemma goto_simps [simp]:
  "my_mutex (goto t pc s) = my_mutex s"
  "my_q (goto t pc s) = my_q s"
  "my_in (goto t pc s) = my_in s"
  "my_pc (goto t pc s) = (my_pc s)(t := pc)"
  by (simp_all add: goto_def)

section \<open>Mutual exclusion\<close>

definition in_transit :: "mutex_pc \<Rightarrow> bool" where
  "in_transit pc \<longleftrightarrow> pc \<in> {LOwn, USub, UStore}"

definition mutex_inside :: "mutex_sys \<Rightarrow> tid \<Rightarrow> bool" where
  "mutex_inside s t \<longleftrightarrow> t \<in> my_in s"

text \<open>
  Either the lock word is 0, nobody is inside and no owner is recorded, or the word is not 0 and
  exactly one thread is inside: the recorded owner, or, with no owner recorded, a thread between
  taking the word and storing the owner or between clearing the owner and releasing the word.
\<close>

definition mutex_ok :: "int \<Rightarrow> pthread_t \<Rightarrow> tid set \<Rightarrow> tid set \<Rightarrow> bool" where
  "mutex_ok lock owner ins transit \<longleftrightarrow>
     lock \<in> {UNLOCKED, LOCKED, CONTENDED} \<and>
     (if lock = UNLOCKED then ins = {} \<and> owner = None \<and> transit = {}
      else \<exists>t. ins = {t} \<and> (owner = Some t \<and> transit = {} \<or> owner = None \<and> transit = {t}))"

definition mutex_inv :: "mutex_sys \<Rightarrow> bool" where
  "mutex_inv s \<longleftrightarrow>
     mutex_ok (mtx_lock (my_mutex s)) (mtx_owner (my_mutex s)) (my_in s) {t. in_transit (my_pc s t)}"

lemma transit_upd [simp]:
  "{u. in_transit (if u = t then pc else f u)}
   = (if in_transit pc then insert t {u. in_transit (f u)} else {u. in_transit (f u)} - {t})"
  by auto

lemma in_transit_simps [simp]:
  "in_transit LOwn" "in_transit USub" "in_transit UStore"
  "\<not> in_transit MIdle" "\<not> in_transit (LCas a b)" "\<not> in_transit (LCheck a b)"
  "\<not> in_transit (LSpin n b)" "\<not> in_transit (LCas2 b)" "\<not> in_transit (LXchg b)"
  "\<not> in_transit (LWait b)" "\<not> in_transit (LAsleep b)" "\<not> in_transit (LSelf b)"
  "\<not> in_transit USignal" "\<not> in_transit MAborted"
  by (simp_all add: in_transit_def)

text \<open>
  Three kinds of step keep the invariant: one that moves a thread between two places where it is
  not in transit (and at most marks a taken word as contended), one that takes the free word, and
  the steps of the thread inside.
\<close>

lemma mutex_inv_move:
  assumes "mutex_inv s" "\<not> in_transit (my_pc s t)" "\<not> in_transit pc"
    and "my_pc s' = (my_pc s)(t := pc)" "my_in s' = my_in s"
    and "mtx_owner (my_mutex s') = mtx_owner (my_mutex s)"
    and "mtx_lock (my_mutex s') = mtx_lock (my_mutex s)
      \<or> mtx_lock (my_mutex s) \<noteq> UNLOCKED \<and> mtx_lock (my_mutex s') = CONTENDED"
  shows "mutex_inv s'"
proof -
  from assms(2) have "{u. in_transit (my_pc s u)} - {t} = {u. in_transit (my_pc s u)}" by auto
  with assms show ?thesis by (auto simp: mutex_inv_def mutex_ok_def)
qed

lemma mutex_inv_enter:
  assumes "mutex_inv s" "mtx_lock (my_mutex s) = UNLOCKED"
    and "my_pc s' = (my_pc s)(t := LOwn)" "my_in s' = insert t (my_in s)"
      "mtx_owner (my_mutex s') = mtx_owner (my_mutex s)"
      "mtx_lock (my_mutex s') \<in> {LOCKED, CONTENDED}"
  shows "mutex_inv s'"
  using assms by (auto simp: mutex_inv_def mutex_ok_def)

lemma mutex_ok_transit:
  assumes "mutex_ok lock owner ins transit" "t \<in> transit"
  shows "ins = {t} \<and> owner = None \<and> transit = {t} \<and> lock \<in> {LOCKED, CONTENDED}"
  using assms by (auto simp: mutex_ok_def split: if_splits)

lemma mutex_inv_transit:
  assumes "mutex_inv s" "in_transit (my_pc s t)"
  shows "my_in s = {t} \<and> mtx_owner (my_mutex s) = None \<and> {u. in_transit (my_pc s u)} = {t}
    \<and> mtx_lock (my_mutex s) \<in> {LOCKED, CONTENDED}"
  by (rule mutex_ok_transit) (use assms in \<open>simp_all add: mutex_inv_def\<close>)

lemma mutex_inv_owned:
  assumes "mutex_inv s" "mtx_owner (my_mutex s) = Some t"
  shows "my_in s = {t} \<and> {u. in_transit (my_pc s u)} = {}
    \<and> mtx_lock (my_mutex s) \<in> {LOCKED, CONTENDED}"
  using assms by (auto simp: mutex_inv_def mutex_ok_def split: if_splits)

lemma mutex_inv_one: "mutex_inv s \<Longrightarrow> t \<in> my_in s \<Longrightarrow> u \<in> my_in s \<Longrightarrow> t = u"
  by (auto simp: mutex_inv_def mutex_ok_def split: if_splits)

lemma mutex_inv_inside:
  assumes "{u. in_transit (my_pc s u)} \<subseteq> {t}" "my_pc s' = (my_pc s)(t := pc)" "my_in s' = {t}"
    and "mtx_owner (my_mutex s') = (if in_transit pc then None else Some t)"
    and "mtx_lock (my_mutex s') \<in> {LOCKED, CONTENDED}"
  shows "mutex_inv s'"
proof -
  have "{u. in_transit (my_pc s' u)} = (if in_transit pc then {t} else {})"
    using assms(1,2) by (auto split: if_splits)
  with assms(3-) show ?thesis by (cases "in_transit pc") (auto simp add: mutex_inv_def mutex_ok_def)
qed

lemma mutex_inv_leave:
  assumes "{u. in_transit (my_pc s u)} \<subseteq> {t}" "my_pc s' = (my_pc s)(t := pc)" "\<not> in_transit pc"
    and "my_in s' = {}" "mtx_owner (my_mutex s') = None" "mtx_lock (my_mutex s') = UNLOCKED"
  shows "mutex_inv s'"
proof -
  have "{u. in_transit (my_pc s' u)} = {}" using assms(1-3) by (auto split: if_splits)
  with assms(4-) show ?thesis by (simp add: mutex_inv_def mutex_ok_def)
qed

lemma mutex_start_inv: "mutex_start m s \<Longrightarrow> mutex_inv s"
  by (auto simp: mutex_start_def mutex_inv_def mutex_ok_def)

lemma mutex_step_inv: "mutex_step sp s s' \<Longrightarrow> mutex_inv s \<Longrightarrow> mutex_inv s'"
proof (induction rule: mutex_step.induct)
  case (cas_free s t trywait timed)
  show ?case by (rule mutex_inv_enter [of s _ t]) (use cas_free in auto)
next
  case (cas2_free s t timed)
  show ?case by (rule mutex_inv_enter [of s _ t]) (use cas2_free in auto)
next
  case (xchg_free s t timed)
  show ?case by (rule mutex_inv_enter [of s _ t]) (use xchg_free in auto)
next
  case (set_owner s t)
  then have "in_transit (my_pc s t)" by simp
  note tr = mutex_inv_transit [OF set_owner.prems this]
  show ?case by (rule mutex_inv_inside [of s t _ MIdle]) (use tr in auto)
next
  case (unlock_disown s t)
  note ow = mutex_inv_owned [OF unlock_disown.prems unlock_disown.hyps(2)]
  show ?case by (rule mutex_inv_inside [of s t _ USub]) (use ow in auto)
next
  case (sub_last s t)
  then have "in_transit (my_pc s t)" by simp
  note tr = mutex_inv_transit [OF sub_last.prems this]
  show ?case by (rule mutex_inv_leave [of s t _ MIdle]) (use tr in auto)
next
  case (store_unlocked s t)
  then have "in_transit (my_pc s t)" by simp
  note tr = mutex_inv_transit [OF store_unlocked.prems this]
  show ?case by (rule mutex_inv_leave [of s t _ USignal]) (use tr in auto)
next
  case (sub_contended s t)
  then have "in_transit (my_pc s t)" by simp
  note tr = mutex_inv_transit [OF sub_contended.prems this]
  show ?case by (rule mutex_inv_inside [of s t _ UStore]) (use tr sub_contended.hyps in auto)
next
  case (unlock_count s t)
  show ?case by (rule mutex_inv_move [of s t MIdle]) (use unlock_count in auto)
qed (erule mutex_inv_move; auto)+

interpretation mutex: exclusion "mutex_start m" "mutex_step sp" mutex_inv mutex_inside
  by unfold_locales (auto simp: mutex_start_inv mutex_step_inv mutex_inside_def dest: mutex_inv_one)

section \<open>A thread running alone performs the sequential call\<close>

definition pc_after :: "mutex_result \<Rightarrow> timespec option \<Rightarrow> mutex_pc" where
  "pc_after r abst = (case r of MRet _ \<Rightarrow> MIdle | MWaitSelf \<Rightarrow> LSelf (abst \<noteq> None)
                              | MWait \<Rightarrow> LWait (abst \<noteq> None))"

lemma goto_goto [simp]: "goto t a (goto t b s) = goto t a s"
  by (simp add: goto_def)

lemma goto_idle [simp]: "my_pc s t = MIdle \<Longrightarrow> goto t MIdle s = s"
  by (simp add: goto_def fun_upd_idem)

lemma goto_updates [simp]:
  "(goto t pc s)\<lparr>my_mutex := m\<rparr> = goto t pc (s\<lparr>my_mutex := m\<rparr>)"
  "(goto t pc s)\<lparr>my_in := i\<rparr> = goto t pc (s\<lparr>my_in := i\<rparr>)"
  "(goto t pc s)\<lparr>my_q := q\<rparr> = goto t pc (s\<lparr>my_q := q\<rparr>)"
  by (simp_all add: goto_def)

lemma goto_step:
  "mutex_step sp (goto t a s) s' \<Longrightarrow> (mutex_step sp)\<^sup>*\<^sup>* s' s'' \<Longrightarrow> (mutex_step sp)\<^sup>*\<^sup>* (goto t a s) s''"
  by (rule converse_rtranclp_into_rtranclp)

lemma spin_down:
  assumes "mtx_lock (my_mutex s) \<noteq> UNLOCKED"
  shows "(mutex_step sp)\<^sup>*\<^sup>* (goto t (LSpin n timed) s) (goto t (LCas2 timed) s)"
proof (induction n)
  case 0
  show ?case using mutex_step.spin_end [of "goto t (LSpin 0 timed) s" t 0 timed sp] by simp
next
  case (Suc n)
  have "mutex_step sp (goto t (LSpin (Suc n) timed) s) (goto t (LSpin n timed) s)"
    using assms mutex_step.spin_more [of "goto t (LSpin (Suc n) timed) s" t n timed sp] by simp
  then show ?case using Suc by (rule goto_step)
qed

text \<open>From the owner check of a thread that is not the owner to the wait.\<close>

lemma contended_path:
  assumes "mtx_lock (my_mutex s) \<noteq> UNLOCKED" "mtx_owner (my_mutex s) \<noteq> Some t"
  shows "(mutex_step sp)\<^sup>*\<^sup>* (goto t (LCheck False timed) s)
           (goto t (LWait timed) (s\<lparr>my_mutex := (my_mutex s)\<lparr>mtx_lock := CONTENDED\<rparr>\<rparr>))"
proof -
  let ?s = "\<lambda>pc. goto t pc s"
  have "mutex_step sp (?s (LCheck False timed)) (?s (LSpin SPIN_COUNT timed))"
    using assms mutex_step.start_spin [of "?s (LCheck False timed)" t timed sp] by simp
  moreover have "(mutex_step sp)\<^sup>*\<^sup>* (?s (LSpin SPIN_COUNT timed)) (?s (LCas2 timed))"
    by (rule spin_down) (rule assms(1))
  moreover have "(mutex_step sp)\<^sup>*\<^sup>* (?s (LCas2 timed))
      (goto t (LWait timed) (s\<lparr>my_mutex := (my_mutex s)\<lparr>mtx_lock := CONTENDED\<rparr>\<rparr>))"
  proof (cases "mtx_lock (my_mutex s) = CONTENDED")
    case True
    then have "my_mutex s = (my_mutex s)\<lparr>mtx_lock := CONTENDED\<rparr>"
      by (metis pthread_mutex.surjective pthread_mutex.update_convs(1))
    with True mutex_step.cas2_contended [of "?s (LCas2 timed)" t timed sp] show ?thesis
      by (metis (no_types) goto_simps(1,4) fun_upd_same mutex_sys.surjective
          mutex_sys.update_convs(1) goto_goto r_into_rtranclp)
  next
    case False
    have "mutex_step sp (?s (LCas2 timed)) (?s (LXchg timed))"
      using assms False mutex_step.cas2_locked [of "?s (LCas2 timed)" t timed sp] by simp
    moreover have "mutex_step sp (?s (LXchg timed))
        (goto t (LWait timed) (s\<lparr>my_mutex := (my_mutex s)\<lparr>mtx_lock := CONTENDED\<rparr>\<rparr>))"
      using assms mutex_step.xchg_taken [of "?s (LXchg timed)" t timed sp] by simp
    ultimately show ?thesis by (meson goto_step r_into_rtranclp)
  qed
  ultimately show ?thesis by (meson goto_step rtranclp_trans)
qed

lemma lock_alone:
  assumes idle: "my_pc s t = MIdle"
    and call: "mutex_lock_object (Some t) (my_mutex s) trywait abst = Ret (r, m)"
    and r: "r \<noteq> MWaitSelf"
  shows "\<exists>ins. (mutex_step sp)\<^sup>*\<^sup>* s (goto t (pc_after r abst) (s\<lparr>my_mutex := m, my_in := ins\<rparr>))"
proof -
  let ?timed = "abst \<noteq> None" and ?m = "my_mutex s"
  let ?s = "\<lambda>pc. goto t pc s"
  have c0: "mutex_step sp s (?s (LCas trywait ?timed))"
    by (rule mutex_step.call_lock) (rule idle)
  show ?thesis
  proof (cases "mtx_lock ?m = UNLOCKED")
    case True
    with call have m: "r = MRet 0" "m = ?m\<lparr>mtx_lock := LOCKED, mtx_owner := Some t\<rparr>"
      by (auto simp: mutex_lock_object_def rthread_mutex_trylock_def)
    let ?u = "s\<lparr>my_mutex := ?m\<lparr>mtx_lock := LOCKED\<rparr>, my_in := insert t (my_in s)\<rparr>"
    have "mutex_step sp (?s (LCas trywait ?timed)) (goto t LOwn ?u)"
      using True mutex_step.cas_free [of "?s (LCas trywait ?timed)" t trywait ?timed sp] by simp
    moreover have "mutex_step sp (goto t LOwn ?u) (goto t MIdle (?u\<lparr>my_mutex := m\<rparr>))"
      using mutex_step.set_owner [of "goto t LOwn ?u" t sp] by (simp add: m)
    ultimately have "(mutex_step sp)\<^sup>*\<^sup>* s (goto t MIdle (?u\<lparr>my_mutex := m\<rparr>))"
      using c0 by (meson converse_rtranclp_into_rtranclp r_into_rtranclp)
    moreover have "?u\<lparr>my_mutex := m\<rparr> = s\<lparr>my_mutex := m, my_in := insert t (my_in s)\<rparr>" by simp
    ultimately show ?thesis
      by (intro exI [of _ "insert t (my_in s)"]) (simp only: pc_after_def m mutex_result.case)
  next
    case taken: False
    have c1: "mutex_step sp (?s (LCas trywait ?timed)) (?s (LCheck trywait ?timed))"
      using taken mutex_step.cas_taken [of "?s (LCas trywait ?timed)" t trywait ?timed sp] by simp
    have "(mutex_step sp)\<^sup>*\<^sup>* (?s (LCheck trywait ?timed)) (goto t (pc_after r abst) (s\<lparr>my_mutex := m\<rparr>))"
    proof (cases "mtx_owner ?m = Some t")
      case own: True
      show ?thesis
      proof (cases "mtx_type ?m = PTHREAD_MUTEX_RECURSIVE")
        case True
        with call own taken show ?thesis
          using mutex_step.self_full [of "?s (LCheck trywait ?timed)" t trywait ?timed sp]
            mutex_step.self_again [of "?s (LCheck trywait ?timed)" t trywait ?timed sp]
          by (cases "mtx_count ?m = INT_MAX")
            (auto simp: mutex_lock_object_def rthread_mutex_trylock_def pc_after_def)
      next
        case False
        with call own taken r show ?thesis
          using mutex_step.self_error [of "?s (LCheck trywait ?timed)" t trywait ?timed sp]
          by (auto simp: mutex_lock_object_def rthread_mutex_trylock_def pc_after_def
              split: if_splits)
      qed
    next
      case other: False
      show ?thesis
      proof (cases trywait)
        case True
        with call other taken show ?thesis
          using mutex_step.busy [of "?s (LCheck trywait ?timed)" t ?timed sp]
          by (auto simp: mutex_lock_object_def rthread_mutex_trylock_def pc_after_def)
      next
        case False
        with call other taken have "r = MWait" "m = ?m\<lparr>mtx_lock := CONTENDED\<rparr>"
          by (auto simp: mutex_lock_object_def rthread_mutex_trylock_def Let_def split: if_splits)
        with False contended_path [OF taken other, of sp ?timed] show ?thesis
          by (simp add: pc_after_def)
      qed
    qed
    with c0 c1 have "(mutex_step sp)\<^sup>*\<^sup>* s (goto t (pc_after r abst) (s\<lparr>my_mutex := m\<rparr>))"
      by (meson converse_rtranclp_into_rtranclp)
    then show ?thesis by (intro exI [of _ "my_in s"]) simp
  qed
qed

lemma unlock_alone:
  assumes idle: "my_pc s t = MIdle" and inv: "mutex_inv s"
    and call: "mutex_unlock_object (Some t) (my_mutex s) = Ret (e, m, False)"
  shows "\<exists>ins. (mutex_step sp)\<^sup>*\<^sup>* s (s\<lparr>my_mutex := m, my_in := ins\<rparr>)"
proof -
  let ?m = "my_mutex s"
  consider (other) "mtx_owner ?m \<noteq> Some t"
    | (count) "mtx_owner ?m = Some t" "mtx_type ?m = PTHREAD_MUTEX_RECURSIVE" "mtx_count ?m > 0"
    | (last) "mtx_owner ?m = Some t" "\<not> (mtx_type ?m = PTHREAD_MUTEX_RECURSIVE \<and> mtx_count ?m > 0)"
    by blast
  then show ?thesis
  proof cases
    case other
    with call have "m = ?m" by (auto simp: mutex_unlock_object_def split: if_splits)
    then show ?thesis by (intro exI [of _ "my_in s"]) simp
  next
    case count
    with call have "m = ?m\<lparr>mtx_count := mtx_count ?m - 1\<rparr>"
      by (auto simp: mutex_unlock_object_def)
    with mutex_step.unlock_count [OF idle count, of sp] show ?thesis
      by (intro exI [of _ "my_in s"]) simp
  next
    case last
    then have call': "mtx_lock ?m = LOCKED" "m = ?m\<lparr>mtx_owner := None, mtx_lock := UNLOCKED\<rparr>"
      using call by (auto simp: mutex_unlock_object_def Let_def split: if_splits)
    let ?u = "s\<lparr>my_mutex := ?m\<lparr>mtx_owner := None\<rparr>\<rparr>"
    have "mutex_step sp s (goto t USub ?u)"
      using mutex_step.unlock_disown [OF idle last, of sp] .
    moreover have "mutex_step sp (goto t USub ?u) (goto t MIdle (?u\<lparr>my_mutex := m, my_in := my_in s - {t}\<rparr>))"
      using mutex_step.sub_last [of "goto t USub ?u" t sp] by (simp add: call')
    moreover have "goto t MIdle (?u\<lparr>my_mutex := m, my_in := my_in s - {t}\<rparr>)
        = s\<lparr>my_mutex := m, my_in := my_in s - {t}\<rparr>"
      using idle by (simp add: goto_def fun_upd_idem)
    ultimately show ?thesis by (metis converse_rtranclp_into_rtranclp r_into_rtranclp)
  qed
qed

section \<open>A wake-up that is lost\<close>

text \<open>
  Two threads: the second marks the mutex as contended and is about to sleep, the first unlocks
  and signals while nobody is asleep, then the second falls asleep. \<open>two\<close> spells such a state.
\<close>

definition two :: "pthread_mutex \<Rightarrow> int \<Rightarrow> pthread_t \<Rightarrow> mutex_pc \<Rightarrow> mutex_pc \<Rightarrow> waitq \<Rightarrow> tid set \<Rightarrow> mutex_sys" where
  "two m lock owner pc0 pc1 q ins =
     \<lparr>my_mutex = m\<lparr>mtx_lock := lock, mtx_owner := owner\<rparr>, my_q = q,
      my_pc = (\<lambda>_. MIdle)(0 := pc0, 1 := pc1), my_in = ins\<rparr>"

lemma two_simps [simp]:
  "my_pc (two m l ow a b q i) 0 = a" "my_pc (two m l ow a b q i) (Suc 0) = b"
  "mtx_lock (my_mutex (two m l ow a b q i)) = l" "mtx_owner (my_mutex (two m l ow a b q i)) = ow"
  "mtx_type (my_mutex (two m l ow a b q i)) = mtx_type m"
  "mtx_count (my_mutex (two m l ow a b q i)) = mtx_count m"
  "my_q (two m l ow a b q i) = q" "my_in (two m l ow a b q i) = i"
  by (simp_all add: two_def)

lemma two_goto [simp]:
  "goto 0 pc (two m l ow a b q i) = two m l ow pc b q i"
  "goto (Suc 0) pc (two m l ow a b q i) = two m l ow a pc q i"
  by (simp_all add: two_def goto_def fun_upd_twist)

lemma two_upd [simp]:
  "(two m l ow a b q i)\<lparr>my_mutex := (my_mutex (two m l ow a b q i))\<lparr>mtx_lock := l'\<rparr>\<rparr> = two m l' ow a b q i"
  "(two m l ow a b q i)\<lparr>my_mutex := (my_mutex (two m l ow a b q i))\<lparr>mtx_owner := ow'\<rparr>\<rparr> = two m l ow' a b q i"
  "(two m l ow a b q i)\<lparr>my_q := q'\<rparr> = two m l ow a b q' i"
  "(two m l ow a b q i)\<lparr>my_in := i'\<rparr> = two m l ow a b q i'"
  by (simp_all add: two_def)

lemma two_upd2 [simp]:
  "(two m l ow a b q i)\<lparr>my_mutex := (my_mutex (two m l ow a b q i))\<lparr>mtx_lock := l'\<rparr>, my_in := i'\<rparr>
   = two m l' ow a b q i'"
  by (simp add: two_def)

lemma lock_by_first:
  assumes "mtx_lock m = UNLOCKED" "mtx_owner m = None"
  shows "reach (mutex_start m) (mutex_step sp) (two m LOCKED (Some 0) MIdle MIdle no_waiters {0})"
proof -
  let ?T = "\<lambda>l ow pc i. two m l ow pc MIdle no_waiters i"
  have "mutex_start m (?T UNLOCKED None MIdle {})"
    using assms by (simp add: mutex_start_def two_def fun_upd_idem)
  then have "reach (mutex_start m) (mutex_step sp) (?T UNLOCKED None MIdle {})"
    by (rule reach.reach_init)
  moreover have "mutex_step sp (?T UNLOCKED None MIdle {}) (?T UNLOCKED None (LCas False False) {})"
    using mutex_step.call_lock [of "?T UNLOCKED None MIdle {}" 0 sp False False] by simp
  moreover have "mutex_step sp (?T UNLOCKED None (LCas False False) {}) (?T LOCKED None LOwn {0})"
    using mutex_step.cas_free [of "?T UNLOCKED None (LCas False False) {}" 0 False False sp] by simp
  moreover have "mutex_step sp (?T LOCKED None LOwn {0}) (?T LOCKED (Some 0) MIdle {0})"
    using mutex_step.set_owner [of "?T LOCKED None LOwn {0}" 0 sp] by simp
  ultimately show ?thesis by (meson reach.reach_step)
qed

lemma second_contends:
  "(mutex_step sp)\<^sup>*\<^sup>* (two m LOCKED (Some 0) MIdle MIdle q i)
     (two m CONTENDED (Some 0) MIdle (LWait False) q i)"
proof -
  let ?s = "two m LOCKED (Some 0) MIdle MIdle q i"
  have "mutex_step sp ?s (two m LOCKED (Some 0) MIdle (LCas False False) q i)"
    using mutex_step.call_lock [of ?s "Suc 0" sp False False] by simp
  moreover have "mutex_step sp (two m LOCKED (Some 0) MIdle (LCas False False) q i)
      (two m LOCKED (Some 0) MIdle (LCheck False False) q i)"
    using mutex_step.cas_taken
      [of "two m LOCKED (Some 0) MIdle (LCas False False) q i" "Suc 0" False False sp] by simp
  moreover have "(mutex_step sp)\<^sup>*\<^sup>* (two m LOCKED (Some 0) MIdle (LCheck False False) q i)
      (two m CONTENDED (Some 0) MIdle (LWait False) q i)"
    using contended_path [of ?s "Suc 0" sp False] by simp
  ultimately show ?thesis by (meson converse_rtranclp_into_rtranclp)
qed

lemma first_unlocks:
  assumes "mtx_count m = 0"
  shows "(mutex_step sp)\<^sup>*\<^sup>* (two m CONTENDED (Some 0) MIdle b no_waiters {0})
     (two m UNLOCKED None MIdle b no_waiters {})"
proof -
  let ?T = "\<lambda>l ow pc i. two m l ow pc b no_waiters i"
  have "mutex_step sp (?T CONTENDED (Some 0) MIdle {0}) (?T CONTENDED None USub {0})"
    using assms mutex_step.unlock_disown [of "?T CONTENDED (Some 0) MIdle {0}" 0 sp] by simp
  moreover have "mutex_step sp (?T CONTENDED None USub {0}) (?T LOCKED None UStore {0})"
    using mutex_step.sub_contended [of "?T CONTENDED None USub {0}" 0 sp] by simp
  moreover have "mutex_step sp (?T LOCKED None UStore {0}) (?T UNLOCKED None USignal {})"
    using mutex_step.store_unlocked [of "?T LOCKED None UStore {0}" 0 sp] by simp
  moreover have "mutex_step sp (?T UNLOCKED None USignal {}) (?T UNLOCKED None MIdle {})"
    using mutex_step.unlock_signal [of "?T UNLOCKED None USignal {}" 0 no_waiters sp]
    by (simp add: no_waiters_def phal_signal.signal_none)
  ultimately show ?thesis by (meson converse_rtranclp_into_rtranclp r_into_rtranclp)
qed

lemma second_sleeps:
  "mutex_step sp (two m l ow a (LWait False) no_waiters i)
     (two m l ow a (LAsleep False) \<lparr>asleep = {1}, woken = {}\<rparr> i)"
  using mutex_step.fall_asleep [of "two m l ow a (LWait False) no_waiters i" "Suc 0" False sp]
  by (simp add: phal_wait_def no_waiters_def)

text \<open>No step of the system moves the sleeper: nobody has a signal to give.\<close>

lemma sleeper_stays:
  assumes "mutex_step False s s'" and "s = two m l ow MIdle (LAsleep False) \<lparr>asleep = {1}, woken = {}\<rparr> i"
  shows "my_pc s' 1 = LAsleep False"
  using assms by (induction rule: mutex_step.induct) (auto simp: two_def split: if_splits)

section \<open>Properties\<close>

text \<open>
  C1: mutual exclusion. In every state that any number of threads can reach by interleaving the
  atomic operations of the mutex code, whatever the type of the mutex and with or without
  spurious wake-ups, two threads that have taken the lock word and not released it are the same.
\<close>

theorem mutex_mutual_exclusion:
  assumes "reach (mutex_start m) (mutex_step sp) s" "mutex_inside s t" "mutex_inside s u"
  shows "t = u"
  using assms by (rule mutex.mutual_exclusion)

definition mutex_example :: pthread_mutex where
  "mutex_example = \<lparr>mtx_lock = UNLOCKED, mtx_type = PTHREAD_MUTEX_NORMAL, mtx_owner = None, mtx_count = 0,
     prioceiling = - 1\<rparr>"

theorem mutex_mutual_exclusion_witness:
  "\<exists>s. reach (mutex_start mutex_example) (mutex_step False) s \<and> mutex_inside s 0 \<and> (0::tid) = 0"
proof -
  have r: "reach (mutex_start mutex_example) (mutex_step False)
      (two mutex_example LOCKED (Some 0) MIdle MIdle no_waiters {0})"
    by (rule lock_by_first) (simp_all add: mutex_example_def)
  moreover have i: "mutex_inside (two mutex_example LOCKED (Some 0) MIdle MIdle no_waiters {0}) 0"
    by (simp add: mutex_inside_def)
  ultimately show ?thesis using mutex_mutual_exclusion [OF r i i] by blast
qed

text \<open>
  C3: a wake-up can be lost. Starting from any unlocked mutex there is a run of two threads, with
  no spurious wake-ups, after which the mutex is unlocked and every thread but one is idle, while
  that one sleeps in \<open>pthread_mutex_lock\<close> (no time-out) and no step of the system moves it.
\<close>

theorem mutex_lost_wakeup:
  assumes "mtx_lock m = UNLOCKED" "mtx_owner m = None" "mtx_count m = 0"
  shows "\<exists>s. reach (mutex_start m) (mutex_step False) s \<and> mtx_lock (my_mutex s) = UNLOCKED
     \<and> my_pc s = (\<lambda>_. MIdle)(1 := LAsleep False)
     \<and> {s'. mutex_step False s s' \<and> my_pc s' 1 \<noteq> LAsleep False} = {}"
proof -
  let ?s = "two m UNLOCKED None MIdle (LAsleep False) \<lparr>asleep = {1}, woken = {}\<rparr> {}"
  have "(mutex_step False)\<^sup>*\<^sup>* (two m LOCKED (Some 0) MIdle MIdle no_waiters {0}) ?s"
    using second_contends [of False m no_waiters "{0}"] first_unlocks [OF assms(3), of False "LWait False"]
      second_sleeps [of False m UNLOCKED None MIdle "{}"]
    by (meson rtranclp.rtrancl_into_rtrancl rtranclp_trans)
  with lock_by_first [OF assms(1,2)] have "reach (mutex_start m) (mutex_step False) ?s"
    by (rule mutex.reach_steps)
  moreover have "my_pc ?s = (\<lambda>_. MIdle)(1 := LAsleep False)" by (auto simp: two_def)
  moreover have "{s'. mutex_step False ?s s' \<and> my_pc s' 1 \<noteq> LAsleep False} = {}"
    using sleeper_stays by blast
  ultimately show ?thesis by (intro exI [of _ ?s]) simp
qed

theorem mutex_lost_wakeup_witness:
  "\<exists>s. reach (mutex_start mutex_example) (mutex_step False) s
     \<and> my_pc s = (\<lambda>_. MIdle)(1 := LAsleep False)"
  using mutex_lost_wakeup [of mutex_example] by (auto simp: mutex_example_def)

end
