(* ===== verification/Semaphores.thy ===== *)
theory Semaphores
  imports Rthread
begin

text \<open>
  The exported semaphore functions of \<open>rthread_sem.c\<close> and the system of threads that wait on
  and post one semaphore. A result \<open>(r, e, \<dots>)\<close> is the returned \<open>int\<close> and what the call stores
  in \<open>errno\<close>.
\<close>

section \<open>The exported functions\<close>

abbreviation (input) SEM_VALUE_MAX :: int where "SEM_VALUE_MAX \<equiv> 4294967295"

definition sem_init :: "bool \<Rightarrow> sem handlep \<Rightarrow> int \<Rightarrow> u32 \<Rightarrow> (int \<times> int option \<times> sem handlep) res" where
  "sem_init alloc semp pshared value =
     (if uint value > SEM_VALUE_MAX then Ret (- 1, Some EINVAL, semp)
      else if pshared \<noteq> 0 then Ret (- 1, Some EPERM, semp)
      else if \<not> alloc then Ret (- 1, Some ENOSPC, semp)
      else if semp = None then Crash
      else Ret (0, None, Some (Some (sem_zero\<lparr>sem_value := to_int (uint value)\<rparr>))))"

definition sem_destroy ::
  "pthread_t \<Rightarrow> sem handlep \<Rightarrow> rthread \<Rightarrow> (int \<times> int option \<times> sem handlep \<times> rthread) res" where
  "sem_destroy self semp rt =
     bindR (ensure_ready self rt) (\<lambda>rt.
       case semp of
         Some (Some sem) \<Rightarrow>
           if waitcount sem \<noteq> 0 then Ret (- 1, Some EBUSY, semp, rt)
           else if shared sem \<noteq> 0 then Ret (ENOSYS, None, Some None, rt)
           else Ret (0, None, Some None, rt)
       | _ \<Rightarrow> Ret (- 1, Some EINVAL, semp, rt))"

text \<open>The value stored through \<open>sval\<close> is the last component.\<close>

definition sem_getvalue :: "sem handlep \<Rightarrow> int \<times> int option \<times> int option" where
  "sem_getvalue semp =
     (case semp of
        Some (Some sem) \<Rightarrow> (0, None, Some (sem_value sem))
      | _ \<Rightarrow> (- 1, Some EINVAL, None))"

definition sem_post :: "sem handlep \<Rightarrow> int \<times> int option \<times> sem handlep \<times> bool" where
  "sem_post semp =
     (case semp of
        Some (Some sem) \<Rightarrow>
          (case internal_sem_post sem of (sem, _, wake) \<Rightarrow> (0, None, Some (Some sem), wake))
      | _ \<Rightarrow> (- 1, Some EINVAL, semp, False))"

text \<open>
  The code \<open>_sem_wait\<close> returns becomes the result: 0, or \<open>-1\<close> and the code in \<open>errno\<close>.
\<close>

definition sem_result :: "(int \<Rightarrow> int) \<Rightarrow> int blocking \<Rightarrow> (int \<times> int option) blocking" where
  "sem_result conv b =
     (case b of Sleep \<Rightarrow> Sleep
      | Done r \<Rightarrow> Done (if r \<noteq> 0 then (- 1, Some (conv r)) else (0, None)))"

definition sem_wait ::
  "pthread_t \<Rightarrow> sem handlep \<Rightarrow> rthread \<Rightarrow>
   ((int \<times> int option) blocking \<times> sem handlep \<times> rthread) res" where
  "sem_wait self semp rt =
     bindR (ensure_ready self rt) (\<lambda>rt.
       case semp of
         Some (Some sem) \<Rightarrow>
           (case internal_sem_wait sem False of (sem, b) \<Rightarrow>
              Ret (sem_result (\<lambda>r. r) b, Some (Some sem), rt))
       | _ \<Rightarrow> Ret (Done (- 1, Some EINVAL), semp, rt))"

definition sem_wait_wake :: "pthread_t \<Rightarrow> rthread \<Rightarrow> sem \<Rightarrow> int \<Rightarrow> ((int \<times> int option) blocking \<times> sem) res" where
  "sem_wait_wake self rt sem r =
     bindR (deref rt self) (\<lambda>(_, th).
       case internal_sem_wake sem r (Some (delayed_cancel th)) of (sem, b) \<Rightarrow>
         Ret (sem_result (\<lambda>r. r) b, sem))"

definition timedwait_errno :: "int \<Rightarrow> int" where
  "timedwait_errno r = (if r = EWOULDBLOCK then ETIMEDOUT else r)"

definition sem_timedwait ::
  "pthread_t \<Rightarrow> sem handlep \<Rightarrow> timespec option \<Rightarrow> rthread \<Rightarrow>
   ((int \<times> int option) blocking \<times> sem handlep \<times> rthread) res" where
  "sem_timedwait self semp abstime rt =
     bindR (ensure_ready self rt) (\<lambda>rt.
       case semp of
         Some (Some sem) \<Rightarrow>
           (case internal_sem_wait sem False of (sem, b) \<Rightarrow>
              Ret (sem_result timedwait_errno b, Some (Some sem), rt))
       | _ \<Rightarrow> Ret (Done (- 1, Some EINVAL), semp, rt))"

definition sem_timedwait_wake ::
  "pthread_t \<Rightarrow> rthread \<Rightarrow> sem \<Rightarrow> int \<Rightarrow> ((int \<times> int option) blocking \<times> sem) res" where
  "sem_timedwait_wake self rt sem r =
     bindR (deref rt self) (\<lambda>(_, th).
       case internal_sem_wake sem r (Some (delayed_cancel th)) of (sem, b) \<Rightarrow>
         Ret (sem_result timedwait_errno b, sem))"

definition sem_trywait :: "sem handlep \<Rightarrow> (int \<times> int option) blocking \<times> sem handlep" where
  "sem_trywait semp =
     (case semp of
        Some (Some sem) \<Rightarrow>
          (case internal_sem_wait sem True of (sem, b) \<Rightarrow> (sem_result (\<lambda>r. r) b, Some (Some sem)))
      | _ \<Rightarrow> (Done (- 1, Some EINVAL), semp))"

text \<open>Named semaphores are stubs: \<open>SEM_FAILED\<close> is the null pointer.\<close>

definition sem_open :: "string \<Rightarrow> int \<Rightarrow> sem handlep \<times> int option" where
  "sem_open nm oflag = (None, Some ENOSYS)"

definition sem_close :: "sem handlep \<Rightarrow> int \<times> int option" where
  "sem_close semp =
     (case semp of
        Some (Some sem) \<Rightarrow> if shared sem = 0 then (- 1, Some EINVAL) else (ENOSYS, None)
      | _ \<Rightarrow> (- 1, Some EINVAL))"

definition sem_unlink :: "string \<Rightarrow> int" where
  "sem_unlink nm = ENOSYS"

lemma sem_init_wf:
  assumes "sem_init True (Some h) 0 v = Ret (0, None, Some (Some s))" and "uint v \<le> INT_MAX"
  shows "sem_wf s \<and> sem_value s = uint v"
proof -
  have "INT_MIN \<le> uint v" by (rule order_trans [OF _ uint_ge_0]) simp
  then show ?thesis
    using assms uint_ge_0 [of v] by (auto simp: sem_init_def sem_wf_def sem_zero_def split: if_splits)
qed

section \<open>Threads on one semaphore\<close>

text \<open>
  Every critical section of \<open>_sem_wait\<close> and \<open>_sem_post\<close> runs under the lock of the
  \<open>phal_semaphore\<close>, so it is one step. A thread is idle, asleep, or woken and about to run the
  rest of its loop. \<open>sy_posts\<close> and \<open>sy_taken\<close> count the posts and the waits that returned 0.
\<close>

record sem_sys =
  sy_sem :: sem
  sy_q :: waitq
  sy_posts :: int
  sy_taken :: int

definition waiting :: "waitq \<Rightarrow> tid set" where
  "waiting q = asleep q \<union> woken q"

text \<open>What a \<open>blocking\<close> result does to the queue and the count.\<close>

definition settle :: "tid \<Rightarrow> int blocking \<Rightarrow> sem_sys \<Rightarrow> sem_sys" where
  "settle t b s =
     (case b of
        Sleep \<Rightarrow> s\<lparr>sy_q := phal_wait t (phal_return t (sy_q s))\<rparr>
      | Done r \<Rightarrow> s\<lparr>sy_q := phal_return t (sy_q s), sy_taken := sy_taken s + (if r = 0 then 1 else 0)\<rparr>)"

text \<open>
  The guards \<open>< INT_MAX\<close> keep the two counters away from signed overflow, which C leaves
  undefined: fewer than 2^31 threads wait, and nobody posts a semaphore that is full.
\<close>

inductive sem_step :: "sem_sys \<Rightarrow> sem_sys \<Rightarrow> bool" where
  s_wait: "t \<notin> waiting (sy_q s) \<Longrightarrow> waitcount (sy_sem s) < INT_MAX \<Longrightarrow>
    internal_sem_wait (sy_sem s) tryonly = (sm, b) \<Longrightarrow>
    sem_step s (settle t b (s\<lparr>sy_sem := sm\<rparr>))"
| s_wake: "t \<in> woken (sy_q s) \<Longrightarrow> internal_sem_wake (sy_sem s) 0 dc = (sm, b) \<Longrightarrow>
    sem_step s (settle t b (s\<lparr>sy_sem := sm\<rparr>))"
| s_giveup: "t \<in> asleep (sy_q s) \<Longrightarrow> r \<noteq> 0 \<Longrightarrow> internal_sem_wake (sy_sem s) r dc = (sm, b) \<Longrightarrow>
    sem_step s (settle t b (s\<lparr>sy_sem := sm\<rparr>))"
| s_post: "sem_value (sy_sem s) < INT_MAX \<Longrightarrow> internal_sem_post (sy_sem s) = (sm, rv, wake) \<Longrightarrow>
    (if wake then phal_signal (sy_q s) q else q = sy_q s) \<Longrightarrow>
    sem_step s (s\<lparr>sy_sem := sm, sy_q := q, sy_posts := sy_posts s + 1\<rparr>)"

definition sem_start :: "int \<Rightarrow> sem_sys \<Rightarrow> bool" where
  "sem_start v s \<longleftrightarrow> 0 \<le> v \<and> v \<le> INT_MAX \<and>
     s = \<lparr>sy_sem = sem_zero\<lparr>sem_value := v\<rparr>, sy_q = no_waiters, sy_posts = 0, sy_taken = 0\<rparr>"

text \<open>
  The value is what was put in less what was taken out; the waiters are counted; and while a
  thread sleeps there are at least as many woken threads as units to take, so no unit waits for a
  wake-up that was lost.
\<close>

definition sem_inv :: "int \<Rightarrow> sem_sys \<Rightarrow> bool" where
  "sem_inv v s \<longleftrightarrow> sem_wf (sy_sem s)
     \<and> finite (asleep (sy_q s)) \<and> finite (woken (sy_q s)) \<and> asleep (sy_q s) \<inter> woken (sy_q s) = {}
     \<and> waitcount (sy_sem s) = int (card (asleep (sy_q s))) + int (card (woken (sy_q s)))
     \<and> sem_value (sy_sem s) + sy_taken s = v + sy_posts s
     \<and> (asleep (sy_q s) \<noteq> {} \<longrightarrow> sem_value (sy_sem s) \<le> int (card (woken (sy_q s))))"

lemma sem_start_inv: "sem_start v s \<Longrightarrow> sem_inv v s"
  by (auto simp: sem_start_def sem_inv_def sem_wf_def sem_zero_def no_waiters_def)

lemma card_pos_mem: "finite A \<Longrightarrow> t \<in> A \<Longrightarrow> 0 < card A"
  by (auto simp: card_gt_0_iff)

lemma int_card_remove: "finite A \<Longrightarrow> t \<in> A \<Longrightarrow> int (card (A - {t})) = int (card A) - 1"
  by (simp add: card_Diff_singleton of_nat_diff card_pos_mem Suc_leI)

lemma sem_inv_wait:
  assumes inv: "sem_inv v s" and t: "t \<notin> waiting (sy_q s)" and bound: "waitcount (sy_sem s) < INT_MAX"
    and call: "internal_sem_wait (sy_sem s) tryonly = (sm, b)"
  shows "sem_inv v (settle t b (s\<lparr>sy_sem := sm\<rparr>))"
proof -
  have wf: "sem_wf (sy_sem s)" using inv by (simp add: sem_inv_def)
  show ?thesis
    using inv t bound call internal_sem_wait_cases [OF wf, of tryonly]
    by (auto simp: sem_inv_def sem_wf_def settle_def waiting_def phal_wait_def phal_return_def
        split: if_splits)
qed

lemma sem_inv_wake:
  assumes inv: "sem_inv v s" and t: "t \<in> woken (sy_q s)"
    and call: "internal_sem_wake (sy_sem s) 0 dc = (sm, b)"
  shows "sem_inv v (settle t b (s\<lparr>sy_sem := sm\<rparr>))"
proof -
  have wf: "sem_wf (sy_sem s)" and c: "0 < card (woken (sy_q s))" and na: "t \<notin> asleep (sy_q s)"
    using inv t card_pos_mem [of "woken (sy_q s)" t] by (auto simp: sem_inv_def)
  then have w: "0 < waitcount (sy_sem s)" using inv by (simp add: sem_inv_def)
  show ?thesis
  proof (cases "sem_value (sy_sem s) = 0")
    case True
    with call internal_sem_wake_signalled [OF wf w, of dc] have "sm = sy_sem s" "b = Sleep" by simp_all
    with True inv t c na show ?thesis
      by (simp add: sem_inv_def settle_def phal_wait_def phal_return_def int_card_remove) blast
  next
    case False
    with call internal_sem_wake_signalled [OF wf w, of dc]
    have "sm = (sy_sem s)\<lparr>waitcount := waitcount (sy_sem s) - 1, sem_value := sem_value (sy_sem s) - 1\<rparr>"
      "b = Done 0" by simp_all
    moreover have "int (card (woken (sy_q s) - {t})) = int (card (woken (sy_q s))) - 1"
      by (rule int_card_remove) (use inv t in \<open>simp_all add: sem_inv_def\<close>)
    moreover have "asleep (sy_q s) - {t} = asleep (sy_q s)" using na by simp
    moreover have "asleep (sy_q s) \<inter> (woken (sy_q s) - {t}) = {}" using inv by (auto simp: sem_inv_def)
    moreover have "asleep (sy_q s) = {} \<or> sem_value (sy_sem s) - 1 < int (card (woken (sy_q s)))"
      using inv by (auto simp: sem_inv_def)
    ultimately show ?thesis using False inv w
      by (simp add: sem_inv_def sem_wf_def settle_def phal_return_def) blast
  qed
qed

lemma sem_inv_giveup:
  assumes inv: "sem_inv v s" and t: "t \<in> asleep (sy_q s)" and r: "r \<noteq> 0"
    and call: "internal_sem_wake (sy_sem s) r dc = (sm, b)"
  shows "sem_inv v (settle t b (s\<lparr>sy_sem := sm\<rparr>))"
proof -
  have c: "0 < card (asleep (sy_q s))" using inv t card_pos_mem [of "asleep (sy_q s)" t] by (simp add: sem_inv_def)
  have nw: "t \<notin> woken (sy_q s)" using inv t by (auto simp: sem_inv_def)
  have eq: "insert t (asleep (sy_q s)) = asleep (sy_q s)" using t by auto
  have w: "waitcount (sy_sem s) - 1 \<in> {0..INT_MAX}" using inv c by (auto simp: sem_inv_def sem_wf_def)
  consider (again) "sm = sy_sem s" "b = Sleep"
    | (gave_up) "sm = (sy_sem s)\<lparr>waitcount := waitcount (sy_sem s) - 1\<rparr>" "b = Done r"
    | (took) "sm = (sy_sem s)\<lparr>waitcount := waitcount (sy_sem s) - 1, sem_value := sem_value (sy_sem s) - 1\<rparr>"
        "b = Done 0" "0 < sem_value (sy_sem s)"
    using call r w inv
    by (simp add: internal_sem_wake_def Let_def sem_inv_def sem_wf_def split: if_splits)
  then show ?thesis
  proof cases
    case again
    then show ?thesis using inv t nw eq
      by (simp add: sem_inv_def settle_def phal_wait_def phal_return_def)
  next
    case gave_up
    then show ?thesis using inv t nw c r w
      by (auto simp: sem_inv_def sem_wf_def settle_def phal_return_def int_card_remove)
  next
    case took
    then show ?thesis using inv t nw c r w
      by (auto simp: sem_inv_def sem_wf_def settle_def phal_return_def int_card_remove)
  qed
qed

lemma sem_inv_post:
  assumes inv: "sem_inv v s" and bound: "sem_value (sy_sem s) < INT_MAX"
    and call: "internal_sem_post (sy_sem s) = (sm, rv, wake)"
    and q: "if wake then phal_signal (sy_q s) q else q = sy_q s"
  shows "sem_inv v (s\<lparr>sy_sem := sm, sy_q := q, sy_posts := sy_posts s + 1\<rparr>)"
proof (cases wake)
  case True
  with q have "phal_signal (sy_q s) q" by simp
  then show ?thesis
  proof cases
    case signal_none
    then show ?thesis using inv bound call
      by (auto simp: sem_inv_def sem_wf_def internal_sem_post_def Let_def split: if_splits)
  next
    case (signal_one t)
    then have "0 < card (asleep (sy_q s))" using inv card_pos_mem [of "asleep (sy_q s)" t] by (simp add: sem_inv_def)
    moreover have "t \<notin> woken (sy_q s)" using inv signal_one by (auto simp: sem_inv_def)
    ultimately show ?thesis using inv bound call signal_one
      by (auto simp: sem_inv_def sem_wf_def internal_sem_post_def Let_def int_card_remove
          split: if_splits)
  qed
next
  case False
  with call have "sm = (sy_sem s)\<lparr>sem_value := to_int (sem_value (sy_sem s) + 1)\<rparr>"
    "waitcount (sy_sem s) = 0"
    using inv by (auto simp: internal_sem_post_def sem_inv_def sem_wf_def Let_def split: if_splits)
  moreover have "asleep (sy_q s) = {}"
  proof -
    have "int (card (asleep (sy_q s))) + int (card (woken (sy_q s))) = 0"
      using inv \<open>waitcount (sy_sem s) = 0\<close> by (simp add: sem_inv_def)
    then have "card (asleep (sy_q s)) = 0" by linarith
    then show ?thesis using inv by (simp add: sem_inv_def)
  qed
  ultimately show ?thesis using False q inv bound by (simp add: sem_inv_def sem_wf_def)
qed

lemma sem_step_inv: "sem_step s s' \<Longrightarrow> sem_inv v s \<Longrightarrow> sem_inv v s'"
  by (induction rule: sem_step.induct)
    (auto intro: sem_inv_wait sem_inv_wake sem_inv_giveup sem_inv_post)

interpretation semaphore: transition_system "sem_start v" sem_step "sem_inv v"
  by unfold_locales (auto simp: sem_start_inv sem_step_inv)

section \<open>Properties\<close>

text \<open>
  C4: the semaphore is exact and loses no wake-up. In every state that threads reach by waiting,
  posting, timing out and being interrupted on a semaphore initialised with \<open>v\<close>, the value is \<open>v\<close>
  plus the posts less the waits that returned 0 and is never negative, the waiters are counted,
  and while some thread sleeps there are no more units than threads already woken to take them.
\<close>

theorem semaphore_exact:
  assumes "reach (sem_start v) sem_step s"
  shows "sem_value (sy_sem s) = v + sy_posts s - sy_taken s \<and> 0 \<le> sem_value (sy_sem s)
    \<and> waitcount (sy_sem s) = int (card (asleep (sy_q s))) + int (card (woken (sy_q s)))
    \<and> (asleep (sy_q s) = {} \<or> sem_value (sy_sem s) \<le> int (card (woken (sy_q s))))"
  using semaphore.reach_inv [OF assms] by (auto simp: sem_inv_def sem_wf_def)

theorem semaphore_exact_witness:
  "\<exists>s. reach (sem_start 2) sem_step s \<and> sem_value (sy_sem s) = 2 + sy_posts s - sy_taken s"
proof -
  have "reach (sem_start 2) sem_step
      \<lparr>sy_sem = sem_zero\<lparr>sem_value := 2\<rparr>, sy_q = no_waiters, sy_posts = 0, sy_taken = 0\<rparr>"
    by (rule reach.reach_init) (simp add: sem_start_def)
  with semaphore_exact [OF this] show ?thesis by blast
qed

text \<open>
  \<open>sem_post\<close> then \<open>sem_wait\<close> on a semaphore nobody waits for returns at once with 0 and leaves
  the semaphore as it was; \<open>sem_trywait\<close> on an empty one fails with \<open>EAGAIN\<close> and changes nothing.
\<close>

lemma semaphore_post_wait:
  assumes "sem_wf s" "waitcount s = 0" "sem_value s < INT_MAX"
  shows "internal_sem_post s = (s\<lparr>sem_value := sem_value s + 1\<rparr>, 0, False)
    \<and> internal_sem_wait (s\<lparr>sem_value := sem_value s + 1\<rparr>) tryonly = (s, Done 0)
    \<and> sem_trywait (Some (Some (s\<lparr>sem_value := 0\<rparr>)))
        = (Done (- 1, Some EAGAIN), Some (Some (s\<lparr>sem_value := 0\<rparr>)))"
  using assms
  by (simp add: sem_wf_def internal_sem_post_def internal_sem_wait_def sem_trywait_def sem_result_def)

lemma semaphore_post_wait_instance:
  "internal_sem_post sem_zero = (sem_zero\<lparr>sem_value := 1\<rparr>, 0, False)"
  using semaphore_post_wait [of sem_zero True] by (simp add: sem_zero_def sem_wf_def)

end
