(* ===== verification/Cond.thy ===== *)
theory Cond
  imports Mutex
begin

text \<open>
  Condition variables (\<open>rthread_cond.c\<close>): the calls of one thread, cut at the wait, and the
  protocol of the two locks involved (the user's mutex and the lock of the condition's
  \<open>phal_semaphore\<close>) with any number of threads.
\<close>

section \<open>The operations\<close>

text \<open>\<open>cond_mutex\<close> is the pointer \<open>mutex\<close> of the structure, which nothing sets.\<close>

record pthread_cond =
  cond_clock :: int
  cond_mutex :: ptr

definition pthread_cond_init ::
  "bool \<Rightarrow> pthread_cond handlep \<Rightarrow> pthread_cond_attr handlep \<Rightarrow> (int \<times> pthread_cond handlep) res" where
  "pthread_cond_init alloc condp cattr =
     (if \<not> alloc then Ret (ENOMEM, condp)
      else bindR (if cattr = None then Ret CLOCK_REALTIME else bindR (obj cattr) (\<lambda>a. Ret (ca_clock a)))
        (\<lambda>clock. if condp = None then Crash
                 else Ret (0, Some (Some \<lparr>cond_clock = clock, cond_mutex = 0\<rparr>))))"

definition pthread_cond_destroy :: "pthread_cond handlep \<Rightarrow> (int \<times> pthread_cond handlep) res" where
  "pthread_cond_destroy condp =
     (case condp of
        None \<Rightarrow> Abort
      | Some None \<Rightarrow> Ret (0, Some None)
      | Some (Some c) \<Rightarrow> if cond_mutex c \<noteq> 0 then Ret (EBUSY, condp) else Ret (0, Some None))"

text \<open>
  \<open>_rthread_cond_timedwait\<close> up to its wait: the count kept in \<open>mutex_count\<close>, the mutex after
  \<open>pthread_mutex_unlock\<close> (whose error number is dropped) and whether that call signalled.
\<close>

definition rthread_cond_timedwait ::
  "pthread_t \<Rightarrow> pthread_mutex handlep \<Rightarrow> (int \<times> pthread_mutex handlep \<times> bool) res" where
  "rthread_cond_timedwait self mutexp =
     bindR (obj mutexp) (\<lambda>mutex.
       let mutex_count = (if mtx_type mutex = PTHREAD_MUTEX_RECURSIVE then mtx_count mutex else 0) in
       bindR (pthread_mutex_unlock self mutexp) (\<lambda>(_, mutexp, wake). Ret (mutex_count, mutexp, wake)))"

text \<open>
  The loop around \<open>phal_semaphore_wait\<close> once it returned \<open>error\<close>: back to sleep after an
  interruption that is not a cancellation, otherwise the value of \<open>rv\<close>.
\<close>

definition cond_wait_return :: "pthread \<Rightarrow> int \<Rightarrow> int blocking" where
  "cond_wait_return self error =
     (if error = EINTR \<and> (tib_canceled self = 0 \<or> tib_cantcancel self AND CANCEL_DISABLED \<noteq> 0)
      then Sleep else if error = EINTR then Done 0 else Done error)"

text \<open>Once \<open>pthread_mutex_lock\<close> has returned, whatever its error number.\<close>

definition cond_restore :: "int \<Rightarrow> pthread_mutex handlep \<Rightarrow> pthread_mutex handlep res" where
  "cond_restore mutex_count mutexp =
     bindR (obj mutexp) (\<lambda>mutex.
       Ret (Some (Some (if mtx_type mutex = PTHREAD_MUTEX_RECURSIVE
                        then mutex\<lparr>mtx_count := mutex_count\<rparr> else mutex))))"

text \<open>
  The code after the wait: lock the mutex again (the result says whether that sleeps), restore
  the count.
\<close>

definition cond_relock ::
  "bool \<Rightarrow> pthread_t \<Rightarrow> int \<Rightarrow> pthread_mutex handlep \<Rightarrow> (mutex_result \<times> pthread_mutex handlep) res" where
  "cond_relock alloc self mutex_count mutexp =
     bindR (pthread_mutex_lock alloc self mutexp) (\<lambda>(r, mutexp).
       case r of
         MRet _ \<Rightarrow> bindR (cond_restore mutex_count mutexp) (\<lambda>mutexp. Ret (r, mutexp))
       | _ \<Rightarrow> Ret (r, mutexp))"

datatype cond_result = CRet int | CWait int

text \<open>\<open>pthread_cond_wait\<close> and \<open>pthread_cond_timedwait\<close> up to the wait.\<close>

definition pthread_cond_wait ::
  "bool \<Rightarrow> pthread_t \<Rightarrow> pthread_cond handlep \<Rightarrow> pthread_mutex handlep \<Rightarrow>
   (cond_result \<times> pthread_cond handlep \<times> pthread_mutex handlep \<times> bool) res" where
  "pthread_cond_wait alloc self condp mutexp =
     (if condp = None then Crash
      else bindR (if condp = Some None then pthread_cond_init alloc condp None else Ret (0, condp))
        (\<lambda>(error, condp).
          if error \<noteq> 0 then Ret (CRet error, condp, mutexp, False)
          else bindR (rthread_cond_timedwait self mutexp) (\<lambda>(n, mutexp, wake).
            Ret (CWait n, condp, mutexp, wake))))"

definition bad_timespec :: "timespec option \<Rightarrow> bool" where
  "bad_timespec abst \<longleftrightarrow>
     (case abst of None \<Rightarrow> True
      | Some ts \<Rightarrow> tv_sec ts < 0 \<or> tv_nsec ts < 0 \<or> tv_nsec ts \<ge> 1000000000)"

definition pthread_cond_timedwait ::
  "bool \<Rightarrow> pthread_t \<Rightarrow> pthread_cond handlep \<Rightarrow> pthread_mutex handlep \<Rightarrow> timespec option \<Rightarrow>
   (cond_result \<times> pthread_cond handlep \<times> pthread_mutex handlep \<times> bool) res" where
  "pthread_cond_timedwait alloc self condp mutexp abst =
     (if condp = None then Crash
      else bindR (if condp = Some None then pthread_cond_init alloc condp None else Ret (0, condp))
        (\<lambda>(error, condp).
          if error \<noteq> 0 then Ret (CRet error, condp, mutexp, False)
          else if bad_timespec abst then Ret (CRet EINVAL, condp, mutexp, False)
          else bindR (rthread_cond_timedwait self mutexp) (\<lambda>(n, mutexp, wake).
            Ret (CWait n, condp, mutexp, wake))))"

text \<open>What a signalling call does to the waiters.\<close>

datatype wake = WakeNone | WakeOne | WakeAll

definition pthread_cond_signal :: "pthread_cond handlep \<Rightarrow> (int \<times> wake) res" where
  "pthread_cond_signal condp =
     (case condp of None \<Rightarrow> Crash | Some None \<Rightarrow> Ret (0, WakeNone) | Some (Some c) \<Rightarrow> Ret (0, WakeOne))"

definition pthread_cond_broadcast :: "pthread_cond handlep \<Rightarrow> (int \<times> wake) res" where
  "pthread_cond_broadcast condp =
     (case condp of None \<Rightarrow> Crash | Some None \<Rightarrow> Ret (0, WakeNone) | Some (Some c) \<Rightarrow> Ret (0, WakeAll))"

fun phal_wake :: "wake \<Rightarrow> waitq \<Rightarrow> waitq \<Rightarrow> bool" where
  "phal_wake WakeNone q q' \<longleftrightarrow> q' = q"
| "phal_wake WakeOne q q' \<longleftrightarrow> phal_signal q q'"
| "phal_wake WakeAll q q' \<longleftrightarrow> q' = phal_broadcast q"

section \<open>Waiting gives the mutex back as it was\<close>

text \<open>
  A thread that owns a mutex with no recursive hold releases it for the wait, and relocking the
  free mutex gives it back.
\<close>

lemma cond_wait_releases:
  assumes "mutex_wf m" "mtx_owner m = Some t" "mtx_count m = 0"
  shows "\<exists>m' w. rthread_cond_timedwait (Some t) (Some (Some m)) = Ret (0, Some (Some m'), w)
     \<and> mutex_wf m' \<and> mutex_abs m' = None \<and> mtx_type m' = mtx_type m"
  using assms
  by (auto simp: rthread_cond_timedwait_def pthread_mutex_unlock_def mutex_unlock_object_def
      mutex_wf_def mutex_abs_def Let_def)

lemma cond_relock_free:
  assumes "mutex_wf m" "mutex_abs m = None"
  shows "cond_relock alloc (Some t) 0 (Some (Some m))
       = Ret (MRet 0, Some (Some (m\<lparr>mtx_lock := LOCKED, mtx_owner := Some t, mtx_count := 0\<rparr>)))"
  using assms
  by (auto simp: cond_relock_def cond_restore_def pthread_mutex_lock_def rthread_mutex_timedlock_def
      mutex_lock_object_def rthread_mutex_trylock_def mutex_wf_def mutex_abs_def split: option.splits)

text \<open>A mutex held recursively stays locked: one unlock only lowers its count.\<close>

lemma cond_wait_keeps_recursive:
  assumes "mutex_wf m" "mtx_owner m = Some t" "0 < mtx_count m"
  shows "rthread_cond_timedwait (Some t) (Some (Some m))
       = Ret (mtx_count m, Some (Some (m\<lparr>mtx_count := mtx_count m - 1\<rparr>)), False)"
  using assms
  by (auto simp: rthread_cond_timedwait_def pthread_mutex_unlock_def mutex_unlock_object_def
      mutex_wf_def Let_def)

section \<open>Properties\<close>

text \<open>
  C7: waiting on a condition gives the mutex up and gives it back. A thread that holds the mutex
  once reaches its sleep with the mutex free, and when nobody else has taken it the code after the
  wait leaves the mutex with the same holder and the same count as before.
\<close>

theorem cond_wait_round_trip:
  assumes "mutex_wf m" "mutex_abs m = Some (t, 0)"
  shows "\<exists>m1 w m2. pthread_cond_wait alloc (Some t) (Some (Some c)) (Some (Some m))
           = Ret (CWait 0, Some (Some c), Some (Some m1), w)
     \<and> mutex_wf m1 \<and> mutex_abs m1 = None
     \<and> cond_relock alloc (Some t) 0 (Some (Some m1)) = Ret (MRet 0, Some (Some m2))
     \<and> mutex_wf m2 \<and> mutex_abs m2 = mutex_abs m"
proof -
  have owner: "mtx_owner m = Some t" "mtx_count m = 0"
    using assms(2) by (auto simp: mutex_abs_def split: option.splits)
  obtain m1 w where 1: "rthread_cond_timedwait (Some t) (Some (Some m)) = Ret (0, Some (Some m1), w)"
    "mutex_wf m1" "mutex_abs m1 = None"
    using cond_wait_releases [OF assms(1) owner] by blast
  have 2: "cond_relock alloc (Some t) 0 (Some (Some m1))
      = Ret (MRet 0, Some (Some (m1\<lparr>mtx_lock := LOCKED, mtx_owner := Some t, mtx_count := 0\<rparr>)))"
    using 1(2,3) by (rule cond_relock_free)
  have 3: "mutex_wf (m1\<lparr>mtx_lock := LOCKED, mtx_owner := Some t, mtx_count := 0\<rparr>)"
    "mutex_abs (m1\<lparr>mtx_lock := LOCKED, mtx_owner := Some t, mtx_count := 0\<rparr>) = Some (t, 0)"
    by (simp_all add: mutex_wf_def mutex_abs_def)
  show ?thesis using 1 2 3 assms(2)
    by (intro exI [of _ m1] exI [of _ w] exI [of _ "m1\<lparr>mtx_lock := LOCKED, mtx_owner := Some t, mtx_count := 0\<rparr>"])
      (simp add: pthread_cond_wait_def)
qed

theorem cond_wait_round_trip_witness:
  "\<exists>m1 w. pthread_cond_wait True (Some 3) (Some (Some \<lparr>cond_clock = 1, cond_mutex = 0\<rparr>))
      (Some (Some ((free_mutex PTHREAD_MUTEX_NORMAL)\<lparr>mtx_lock := LOCKED, mtx_owner := Some 3\<rparr>)))
    = Ret (CWait 0, Some (Some \<lparr>cond_clock = 1, cond_mutex = 0\<rparr>), Some (Some m1), w) \<and> mutex_abs m1 = None"
  using cond_wait_round_trip [of "(free_mutex PTHREAD_MUTEX_NORMAL)\<lparr>mtx_lock := LOCKED, mtx_owner := Some 3\<rparr>" 3 True
      "\<lparr>cond_clock = 1, cond_mutex = 0\<rparr>"]
  by (fastforce simp: mutex_wf_def mutex_abs_def free_mutex_def)

text \<open>
  C8: a mutex that its owner has locked more than once is not released by
  \<open>pthread_cond_wait\<close>: the thread goes to sleep still owning it, and every other thread's
  \<open>pthread_mutex_lock\<close> has to wait.
\<close>

theorem cond_wait_holds_recursive_mutex:
  assumes "mutex_wf m" "mutex_abs m = Some (t, n)" "0 < n" "u \<noteq> t"
  shows "\<exists>m1 m2. pthread_cond_wait alloc (Some t) (Some (Some c)) (Some (Some m))
           = Ret (CWait n, Some (Some c), Some (Some m1), False)
     \<and> mutex_abs m1 = Some (t, n - 1) \<and> pthread_mutex_lock alloc (Some u) (Some (Some m1)) = Ret (MWait, Some (Some m2))"
proof -
  have owner: "mtx_owner m = Some t" "mtx_count m = n"
    using assms(2) by (auto simp: mutex_abs_def split: option.splits)
  then have wait: "rthread_cond_timedwait (Some t) (Some (Some m)) = Ret (n, Some (Some (m\<lparr>mtx_count := n - 1\<rparr>)), False)"
    using cond_wait_keeps_recursive [OF assms(1) owner(1)] assms(3) by simp
  have "mtx_lock m \<in> {LOCKED, CONTENDED}" using assms(1) owner by (auto simp: mutex_wf_def)
  then have "\<exists>m2. pthread_mutex_lock alloc (Some u) (Some (Some (m\<lparr>mtx_count := n - 1\<rparr>))) = Ret (MWait, Some (Some m2))"
    using owner assms(4) by (auto simp: mutex_defs Let_def)
  with wait owner show ?thesis by (auto simp: pthread_cond_wait_def mutex_abs_def)
qed

theorem cond_wait_holds_recursive_mutex_witness:
  "\<exists>m1 m2. pthread_cond_wait True (Some 3) (Some (Some \<lparr>cond_clock = 1, cond_mutex = 0\<rparr>))
      (Some (Some ((free_mutex PTHREAD_MUTEX_RECURSIVE)\<lparr>mtx_lock := LOCKED, mtx_owner := Some 3, mtx_count := 1\<rparr>)))
    = Ret (CWait 1, Some (Some \<lparr>cond_clock = 1, cond_mutex = 0\<rparr>), Some (Some m1), False)
    \<and> pthread_mutex_lock True (Some 4) (Some (Some m1)) = Ret (MWait, Some (Some m2))"
  using cond_wait_holds_recursive_mutex
    [of "(free_mutex PTHREAD_MUTEX_RECURSIVE)\<lparr>mtx_lock := LOCKED, mtx_owner := Some 3, mtx_count := 1\<rparr>" 3 1 4 True
      "\<lparr>cond_clock = 1, cond_mutex = 0\<rparr>"]
  by (fastforce simp: mutex_wf_def mutex_abs_def free_mutex_def)

end
