(* ===== verification/Cond_Threads.thy ===== *)
theory Cond_Threads
  imports Cond
begin

text \<open>
  Many threads on one condition variable and its mutex, at the granularity of the lock
  operations of \<open>_rthread_cond_timedwait\<close>, \<open>pthread_cond_signal\<close> and \<open>pthread_cond_broadcast\<close>.
  The mutex is the abstract mutex of the theory \<open>Mutex\<close> held at most once: its owner or nobody.
\<close>

text \<open>
  Where a thread stands: outside; before \<open>phal_semaphore_lock\<close>, before \<open>pthread_mutex_unlock\<close>,
  before \<open>phal_semaphore_wait\<close>, inside it; before \<open>pthread_mutex_lock\<close>, before
  \<open>phal_semaphore_unlock\<close>; in a signalling call before the lock, the signal, the unlock.
\<close>

datatype cond_pc =
    CIdle | WLock | WUnlock | WSleep | WAsleep | WRelock | WDone
  | SLock wake | SWake wake | SUnlock

record cond_sys =
  cy_owner :: "tid option"
  cy_sem :: "tid option"
  cy_q :: waitq
  cy_pc :: "tid \<Rightarrow> cond_pc"

definition cgoto :: "tid \<Rightarrow> cond_pc \<Rightarrow> cond_sys \<Rightarrow> cond_sys" where
  "cgoto t pc s = s\<lparr>cy_pc := (cy_pc s)(t := pc)\<rparr>"

definition cond_start :: "cond_sys \<Rightarrow> bool" where
  "cond_start s \<longleftrightarrow> s = \<lparr>cy_owner = None, cy_sem = None, cy_q = no_waiters, cy_pc = (\<lambda>_. CIdle)\<rparr>"

text \<open>
  \<open>phal_semaphore_wait\<close> releases the semaphore's lock as it goes to sleep and takes it before it
  returns, as \<open>phal.h\<close> has it; \<open>w_again\<close> is the loop around it on an interruption that is not a
  cancellation, \<open>w_wake\<close> its end on a signal, a time-out or a cancellation.
\<close>

inductive cond_step :: "cond_sys \<Rightarrow> cond_sys \<Rightarrow> bool" where
  m_lock: "cy_pc s t = CIdle \<Longrightarrow> cy_owner s = None \<Longrightarrow> cond_step s (s\<lparr>cy_owner := Some t\<rparr>)"
| m_unlock: "cy_pc s t = CIdle \<Longrightarrow> cy_owner s = Some t \<Longrightarrow> cond_step s (s\<lparr>cy_owner := None\<rparr>)"
| w_call: "cy_pc s t = CIdle \<Longrightarrow> cy_owner s = Some t \<Longrightarrow> cond_step s (cgoto t WLock s)"
| w_lock: "cy_pc s t = WLock \<Longrightarrow> cy_sem s = None \<Longrightarrow>
    cond_step s (cgoto t WUnlock (s\<lparr>cy_sem := Some t\<rparr>))"
| w_unlock: "cy_pc s t = WUnlock \<Longrightarrow> cond_step s (cgoto t WSleep (s\<lparr>cy_owner := None\<rparr>))"
| w_sleep: "cy_pc s t = WSleep \<Longrightarrow>
    cond_step s (cgoto t WAsleep (s\<lparr>cy_sem := None, cy_q := phal_wait t (cy_q s)\<rparr>))"
| w_wake: "cy_pc s t = WAsleep \<Longrightarrow> cy_sem s = None \<Longrightarrow> t \<in> woken (cy_q s) \<or> may_time_out \<Longrightarrow>
    cond_step s (cgoto t WRelock (s\<lparr>cy_sem := Some t, cy_q := phal_return t (cy_q s)\<rparr>))"
| w_again: "cy_pc s t = WAsleep \<Longrightarrow> cy_sem s = None \<Longrightarrow> t \<in> asleep (cy_q s) \<Longrightarrow>
    cond_step s (cgoto t WSleep (s\<lparr>cy_sem := Some t, cy_q := phal_return t (cy_q s)\<rparr>))"
| w_relock: "cy_pc s t = WRelock \<Longrightarrow> cy_owner s = None \<Longrightarrow>
    cond_step s (cgoto t WDone (s\<lparr>cy_owner := Some t\<rparr>))"
| w_done: "cy_pc s t = WDone \<Longrightarrow> cond_step s (cgoto t CIdle (s\<lparr>cy_sem := None\<rparr>))"
| s_call: "cy_pc s t = CIdle \<Longrightarrow> cond_step s (cgoto t (SLock w) s)"
| s_lock: "cy_pc s t = SLock w \<Longrightarrow> cy_sem s = None \<Longrightarrow>
    cond_step s (cgoto t (SWake w) (s\<lparr>cy_sem := Some t\<rparr>))"
| s_wake: "cy_pc s t = SWake w \<Longrightarrow> phal_wake w (cy_q s) q \<Longrightarrow>
    cond_step s (cgoto t SUnlock (s\<lparr>cy_q := q\<rparr>))"
| s_unlock: "cy_pc s t = SUnlock \<Longrightarrow> cond_step s (cgoto t CIdle (s\<lparr>cy_sem := None\<rparr>))"

section \<open>The invariant\<close>

definition holds_sem :: "cond_pc \<Rightarrow> bool" where
  "holds_sem pc \<longleftrightarrow> pc \<in> {WUnlock, WSleep, WRelock, WDone, SUnlock} \<or> (\<exists>w. pc = SWake w)"

definition cond_inv :: "cond_sys \<Rightarrow> bool" where
  "cond_inv s \<longleftrightarrow>
     (\<forall>t. holds_sem (cy_pc s t) \<longleftrightarrow> cy_sem s = Some t)
     \<and> (\<forall>t. cy_pc s t \<in> {WLock, WUnlock, WDone} \<longrightarrow> cy_owner s = Some t)
     \<and> (\<forall>t. cy_pc s t \<in> {WSleep, WAsleep, WRelock} \<longrightarrow> cy_owner s \<noteq> Some t)
     \<and> (\<forall>t. cy_pc s t = WAsleep \<longleftrightarrow> t \<in> asleep (cy_q s) \<union> woken (cy_q s))"

lemma cond_start_inv: "cond_start s \<Longrightarrow> cond_inv s"
  by (simp add: cond_start_def cond_inv_def no_waiters_def holds_sem_def)

lemma phal_wake_waiting: "phal_wake w q q' \<Longrightarrow> asleep q' \<union> woken q' = asleep q \<union> woken q"
  by (cases w) (auto simp: phal_broadcast_def phal_signal_simps)

lemma holds_sem_simps [simp]:
  "\<not> holds_sem CIdle" "\<not> holds_sem WLock" "\<not> holds_sem WAsleep" "\<not> holds_sem (SLock w)"
  "holds_sem WUnlock" "holds_sem WSleep" "holds_sem WRelock" "holds_sem WDone" "holds_sem SUnlock"
  "holds_sem (SWake w)"
  by (simp_all add: holds_sem_def)

lemma cond_step_inv:
  assumes "cond_step s s'" "cond_inv s"
  shows "cond_inv s'"
  using assms
proof (induction rule: cond_step.induct)
  case (s_wake s t w q)
  then show ?case using phal_wake_waiting [OF s_wake.hyps(2)]
    by (auto simp: cond_inv_def cgoto_def) (metis cond_pc.distinct)+
qed (auto simp: cond_inv_def cgoto_def phal_wait_def phal_return_def split: if_splits; metis holds_sem_simps cond_pc.distinct option.inject option.distinct)+

interpretation condvar: exclusion cond_start cond_step cond_inv "\<lambda>s t. holds_sem (cy_pc s t)"
proof
  show "t = u" if "cond_inv s" "holds_sem (cy_pc s t)" "holds_sem (cy_pc s u)" for s t u
    using that by (metis cond_inv_def option.inject)
qed (auto simp: cond_start_inv cond_step_inv)

section \<open>What a signal finds\<close>

lemma wake_none_before_sleep:
  assumes "cond_inv s" "cy_pc s t = SWake w"
  shows "cy_pc s u \<noteq> WSleep"
  using assms condvar.one_inside [of s t u] by (metis cond_pc.distinct holds_sem_simps)

text \<open>The threads that have called the wait and given up the mutex for it.\<close>

definition waiters :: "cond_sys \<Rightarrow> tid set" where
  "waiters s = {u. cy_pc s u \<in> {WLock, WUnlock, WSleep, WAsleep} \<and> cy_owner s \<noteq> Some u}"

lemma waiters_are_queued:
  assumes "cond_inv s" "cy_pc s t = SWake w"
  shows "waiters s = asleep (cy_q s) \<union> woken (cy_q s)"
  using assms wake_none_before_sleep [OF assms] by (auto simp: waiters_def cond_inv_def)

section \<open>Two threads waiting for each other\<close>

text \<open>A state in which every thread but 0 and 1 is outside.\<close>

definition pair :: "tid option \<Rightarrow> tid option \<Rightarrow> waitq \<Rightarrow> cond_pc \<Rightarrow> cond_pc \<Rightarrow> cond_sys" where
  "pair ow sm q pc0 pc1 =
     \<lparr>cy_owner = ow, cy_sem = sm, cy_q = q, cy_pc = (\<lambda>_. CIdle)(0 := pc0, 1 := pc1)\<rparr>"

lemma pair_simps [simp]:
  "cy_owner (pair ow sm q a b) = ow" "cy_sem (pair ow sm q a b) = sm" "cy_q (pair ow sm q a b) = q"
  "cy_pc (pair ow sm q a b) 0 = a" "cy_pc (pair ow sm q a b) (Suc 0) = b"
  "(pair ow sm q a b)\<lparr>cy_owner := ow'\<rparr> = pair ow' sm q a b"
  "(pair ow sm q a b)\<lparr>cy_sem := sm'\<rparr> = pair ow sm' q a b"
  "(pair ow sm q a b)\<lparr>cy_q := q'\<rparr> = pair ow sm q' a b"
  "(pair ow sm q a b)\<lparr>cy_sem := sm', cy_q := q'\<rparr> = pair ow sm' q' a b"
  "cgoto 0 pc (pair ow sm q a b) = pair ow sm q pc b"
  "cgoto (Suc 0) pc (pair ow sm q a b) = pair ow sm q a pc"
  by (simp_all add: pair_def cgoto_def fun_upd_twist)

abbreviation creach :: "cond_sys \<Rightarrow> bool" where
  "creach \<equiv> reach cond_start cond_step"

lemma creach_sleeper: "creach (pair None None \<lparr>asleep = {0}, woken = {}\<rparr> WAsleep CIdle)"
proof -
  let ?P = "\<lambda>ow sm. pair ow sm no_waiters"
  have "creach (?P None None CIdle CIdle)"
    by (rule reach.reach_init) (simp add: cond_start_def pair_def fun_upd_idem)
  moreover have "cond_step (?P None None CIdle CIdle) (?P (Some 0) None CIdle CIdle)"
    using cond_step.m_lock [of "?P None None CIdle CIdle" 0] by simp
  moreover have "cond_step (?P (Some 0) None CIdle CIdle) (?P (Some 0) None WLock CIdle)"
    using cond_step.w_call [of "?P (Some 0) None CIdle CIdle" 0] by simp
  moreover have "cond_step (?P (Some 0) None WLock CIdle) (?P (Some 0) (Some 0) WUnlock CIdle)"
    using cond_step.w_lock [of "?P (Some 0) None WLock CIdle" 0] by simp
  moreover have "cond_step (?P (Some 0) (Some 0) WUnlock CIdle) (?P None (Some 0) WSleep CIdle)"
    using cond_step.w_unlock [of "?P (Some 0) (Some 0) WUnlock CIdle" 0] by simp
  moreover have "cond_step (?P None (Some 0) WSleep CIdle)
      (pair None None \<lparr>asleep = {0}, woken = {}\<rparr> WAsleep CIdle)"
    using cond_step.w_sleep [of "?P None (Some 0) WSleep CIdle" 0] by (simp add: phal_wait_def no_waiters_def)
  ultimately show ?thesis by (meson reach.reach_step)
qed

text \<open>The second thread takes the mutex and calls \<open>pthread_cond_signal\<close> while it holds it.\<close>

lemma creach_signal:
  "creach (pair (Some 1) (Some 1) \<lparr>asleep = {0}, woken = {}\<rparr> WAsleep (SWake WakeOne))"
proof -
  let ?P = "\<lambda>ow sm. pair ow sm \<lparr>asleep = {0}, woken = {}\<rparr> WAsleep"
  have "cond_step (?P None None CIdle) (?P (Some 1) None CIdle)"
    using cond_step.m_lock [of "?P None None CIdle" 1] by simp
  moreover have "cond_step (?P (Some 1) None CIdle) (?P (Some 1) None (SLock WakeOne))"
    using cond_step.s_call [of "?P (Some 1) None CIdle" 1] by simp
  moreover have "cond_step (?P (Some 1) None (SLock WakeOne)) (?P (Some 1) (Some 1) (SWake WakeOne))"
    using cond_step.s_lock [of "?P (Some 1) None (SLock WakeOne)" 1 WakeOne] by simp
  ultimately show ?thesis using creach_sleeper by (meson reach.reach_step)
qed

text \<open>
  The sleeper returns from the wait with the semaphore locked and asks for the mutex; the second
  thread, still holding the mutex, signals again.
\<close>

lemma creach_deadlock: "creach (pair (Some 1) (Some 0) no_waiters WRelock (SLock WakeOne))"
proof -
  let ?q = "\<lparr>asleep = {}, woken = {0::tid}\<rparr>"
  have "phal_signal \<lparr>asleep = {0}, woken = {}\<rparr> ?q"
    using phal_signal.signal_one [of 0 "\<lparr>asleep = {0}, woken = {}\<rparr>"] by simp
  then have "cond_step (pair (Some 1) (Some 1) \<lparr>asleep = {0}, woken = {}\<rparr> WAsleep (SWake WakeOne))
      (pair (Some 1) (Some 1) ?q WAsleep SUnlock)"
    using cond_step.s_wake [of "pair (Some 1) (Some 1) \<lparr>asleep = {0}, woken = {}\<rparr> WAsleep (SWake WakeOne)"
        1 WakeOne ?q] by simp
  moreover have "cond_step (pair (Some 1) (Some 1) ?q WAsleep SUnlock) (pair (Some 1) None ?q WAsleep CIdle)"
    using cond_step.s_unlock [of "pair (Some 1) (Some 1) ?q WAsleep SUnlock" 1] by simp
  moreover have "cond_step (pair (Some 1) None ?q WAsleep CIdle) (pair (Some 1) (Some 0) no_waiters WRelock CIdle)"
    using cond_step.w_wake [of "pair (Some 1) None ?q WAsleep CIdle" 0]
    by (simp add: phal_return_def no_waiters_def)
  moreover have "cond_step (pair (Some 1) (Some 0) no_waiters WRelock CIdle)
      (pair (Some 1) (Some 0) no_waiters WRelock (SLock WakeOne))"
    using cond_step.s_call [of "pair (Some 1) (Some 0) no_waiters WRelock CIdle" 1] by simp
  ultimately show ?thesis using creach_signal by (meson reach.reach_step)
qed

definition embraced :: "cond_sys \<Rightarrow> bool" where
  "embraced s \<longleftrightarrow> cond_inv s \<and> cy_owner s = Some 1 \<and> cy_sem s = Some 0
     \<and> cy_pc s 0 = WRelock \<and> (\<exists>w. cy_pc s 1 = SLock w)"

lemma embraced_step:
  assumes "cond_step s s'" "embraced s"
  shows "embraced s'"
proof -
  have inv: "cond_inv s'" using assms by (simp add: embraced_def cond_step_inv)
  have only: "holds_sem (cy_pc s t) \<Longrightarrow> t = 0" for t
    using assms(2) by (auto simp: embraced_def cond_inv_def)
  have no: "cy_pc s t \<noteq> WUnlock" "cy_pc s t \<noteq> WSleep" "cy_pc s t \<noteq> WDone" "cy_pc s t \<noteq> SUnlock"
    "cy_pc s t \<noteq> SWake w" for t w
    using assms(2) only [of t] by (auto simp: embraced_def)
  from assms(1) show ?thesis
    by (cases rule: cond_step.cases)
      (use assms(2) inv in \<open>auto simp: embraced_def cgoto_def no intro: gr0I split: if_splits\<close>)
qed

lemma embraced_for_ever: "cond_step\<^sup>*\<^sup>* s s' \<Longrightarrow> embraced s \<Longrightarrow> embraced s'"
  by (induction rule: rtranclp_induct) (auto intro: embraced_step)

section \<open>Properties\<close>

text \<open>
  C6: giving up the mutex and going to sleep is atomic for signallers. In every reachable state in
  which a thread is about to signal, the threads that have called the wait and no longer own the
  mutex are exactly those the semaphore knows as waiting, and none is between giving up the mutex
  and sleeping; a broadcast leaves all of them woken, and a signal moves one of the sleepers to
  the woken, if there is one, and touches no other.
\<close>

theorem cond_signal_finds_waiters:
  assumes "reach cond_start cond_step s" "cy_pc s t = SWake w" "phal_wake w (cy_q s) q"
  shows "waiters s = asleep (cy_q s) \<union> woken (cy_q s) \<and> {u. cy_pc s u = WSleep} = {}
    \<and> (w \<noteq> WakeAll \<or> asleep q = {} \<and> woken q = waiters s)
    \<and> (w \<noteq> WakeOne \<or> asleep (cy_q s) = {} \<and> q = cy_q s
       \<or> (\<exists>u \<in> waiters s. u \<in> asleep (cy_q s) \<and> asleep q = asleep (cy_q s) - {u} \<and> woken q = insert u (woken (cy_q s))))"
proof -
  have inv: "cond_inv s" using assms(1) by (rule condvar.reach_inv)
  have "{u. cy_pc s u = WSleep} = {}" using wake_none_before_sleep [OF inv assms(2)] by simp
  moreover note q = waiters_are_queued [OF inv assms(2)]
  moreover have "w \<noteq> WakeAll \<or> asleep q = {} \<and> woken q = waiters s"
    using assms(3) q by (cases w) (auto simp: phal_broadcast_def)
  moreover have "w \<noteq> WakeOne \<or> asleep (cy_q s) = {} \<and> q = cy_q s
       \<or> (\<exists>u \<in> waiters s. u \<in> asleep (cy_q s) \<and> asleep q = asleep (cy_q s) - {u} \<and> woken q = insert u (woken (cy_q s)))"
    using assms(3) q by (cases w) (auto simp: phal_signal_simps)
  ultimately show ?thesis by simp
qed

theorem cond_signal_finds_waiters_witness:
  "\<exists>s (q :: waitq). reach cond_start cond_step s \<and> cy_pc s 1 = SWake WakeOne \<and> waiters s = {0}
     \<and> phal_wake WakeOne (cy_q s) q \<and> woken q = {0}"
proof -
  let ?s = "pair (Some 1) (Some 1) \<lparr>asleep = {0}, woken = {}\<rparr> WAsleep (SWake WakeOne)"
  have w: "phal_wake WakeOne (cy_q ?s) \<lparr>asleep = {}, woken = {0}\<rparr>"
    using phal_signal.signal_one [of 0 "\<lparr>asleep = {0}, woken = {}\<rparr>"] by simp
  have p: "cy_pc ?s 1 = SWake WakeOne" by simp
  show ?thesis
  proof (intro exI conjI)
    show "creach ?s" by (rule creach_signal)
    show "cy_pc ?s 1 = SWake WakeOne" by (rule p)
    show "waiters ?s = {0}"
      using cond_signal_finds_waiters [OF creach_signal p w] by simp
    show "phal_wake WakeOne (cy_q ?s) \<lparr>asleep = {}, woken = {0}\<rparr>" by (rule w)
    show "woken \<lparr>asleep = {}, woken = {0}\<rparr> = {0::tid}" by simp
  qed
qed

text \<open>
  C9: two threads can block each other for ever. There is a reachable state in which a waiter woken
  from \<open>pthread_cond_wait\<close> holds the semaphore's lock and waits for the mutex, while the owner of
  the mutex waits for the semaphore's lock in \<open>pthread_cond_signal\<close>; in every state reached from
  it both are still there.
\<close>

theorem cond_signal_deadlock:
  "\<exists>s. reach cond_start cond_step s \<and> cy_pc s 0 = WRelock \<and> cy_pc s 1 = SLock WakeOne
     \<and> cy_owner s = Some 1 \<and> cy_sem s = Some 0
     \<and> {s'. cond_step\<^sup>*\<^sup>* s s' \<and> \<not> (cy_pc s' 0 = WRelock \<and> cy_owner s' = Some 1 \<and> cy_sem s' = Some 0)} = {}"
proof -
  let ?s = "pair (Some 1) (Some 0) no_waiters WRelock (SLock WakeOne)"
  have "embraced ?s"
    using condvar.reach_inv [OF creach_deadlock] by (simp add: embraced_def)
  then have "{s'. cond_step\<^sup>*\<^sup>* ?s s' \<and> \<not> (cy_pc s' 0 = WRelock \<and> cy_owner s' = Some 1 \<and> cy_sem s' = Some 0)} = {}"
    using embraced_for_ever by (auto simp: embraced_def)
  with creach_deadlock show ?thesis by (intro exI [of _ ?s]) simp
qed

end
