(* ===== verification/Rwlock.thy ===== *)
theory Rwlock
  imports Attributes
begin

text \<open>
  Read-write locks (\<open>rthread_rwlock.c\<close>). The calls that would sleep are unfinished in the port:
  a reader that has to wait takes the spin lock it already holds, a writer that has to wait and
  a writer that unlocks return \<open>ENOSYS\<close>. The model follows each path; a call that spins on a
  lock nobody can release is \<open>Hang\<close>.
\<close>

section \<open>The operations\<close>

record pthread_rwlock =
  rw_lock :: int
  rw_owner :: pthread_t
  rw_writers :: "tid list"
  rw_readers :: int

definition rwlock_fresh :: pthread_rwlock where
  "rwlock_fresh =
     \<lparr>rw_lock = ATOMIC_LOCK_UNLOCKED, rw_owner = None, rw_writers = [], rw_readers = 0\<rparr>"

definition pthread_rwlock_init ::
  "bool \<Rightarrow> int \<Rightarrow> pthread_rwlock handlep \<Rightarrow> (int \<times> pthread_rwlock handlep) res" where
  "pthread_rwlock_init alloc errno lockp =
     (if \<not> alloc then Ret (errno, lockp)
      else if lockp = None then Crash else Ret (0, Some (Some rwlock_fresh)))"

definition pthread_rwlock_destroy :: "pthread_rwlock handlep \<Rightarrow> (int \<times> pthread_rwlock handlep) res" where
  "pthread_rwlock_destroy lockp =
     (case lockp of
        None \<Rightarrow> Abort
      | Some None \<Rightarrow> Ret (0, Some None)
      | Some (Some l) \<Rightarrow>
          if rw_readers l \<noteq> 0 \<or> rw_writers l \<noteq> [] then Ret (EBUSY, lockp) else Ret (0, Some None))"

text \<open>\<open>rwlock_init_lock\<close> is free whenever no call is inside the guarded block.\<close>

definition rthread_rwlock_ensure_init ::
  "bool \<Rightarrow> int \<Rightarrow> pthread_rwlock handlep \<Rightarrow> (int \<times> pthread_rwlock handlep) res" where
  "rthread_rwlock_ensure_init alloc errno lockp =
     (case lockp of
        None \<Rightarrow> Crash
      | Some None \<Rightarrow> pthread_rwlock_init alloc errno lockp
      | Some (Some l) \<Rightarrow> Ret (0, lockp))"

text \<open>The loop of a reader that has to wait.\<close>

partial_function (option) rdlock_wait :: "pthread_rwlock \<Rightarrow> pthread_rwlock option" where
  "rdlock_wait l =
     Option.bind (spinlock (rw_lock l)) (\<lambda>k.
       let l = l\<lparr>rw_lock := k\<rparr> in
       if rw_owner l \<noteq> None \<or> rw_writers l \<noteq> [] then rdlock_wait l
       else Some (l\<lparr>rw_readers := to_int (rw_readers l + 1)\<rparr>))"

definition rw_release :: "pthread_rwlock \<Rightarrow> pthread_rwlock" where
  "rw_release l = l\<lparr>rw_lock := spinunlock (rw_lock l)\<rparr>"

definition rthread_rwlock_rdlock ::
  "bool \<Rightarrow> int \<Rightarrow> pthread_t \<Rightarrow> pthread_rwlock handlep \<Rightarrow> bool \<Rightarrow> (int \<times> pthread_rwlock handlep) res" where
  "rthread_rwlock_rdlock alloc errno thread lockp tryonly =
     bindR (rthread_rwlock_ensure_init alloc errno lockp) (\<lambda>(error, lockp).
       if error \<noteq> 0 then Ret (error, lockp)
       else bindR (obj lockp) (\<lambda>l.
         bindR (spin (rw_lock l)) (\<lambda>k.
           let l = l\<lparr>rw_lock := k\<rparr> in
           if rw_owner l = None \<and> rw_writers l = []
           then Ret (0, Some (Some (rw_release (l\<lparr>rw_readers := to_int (rw_readers l + 1)\<rparr>))))
           else if tryonly then Ret (EBUSY, Some (Some (rw_release l)))
           else if rw_owner l = thread then Ret (EDEADLK, Some (Some (rw_release l)))
           else (case rdlock_wait l of
               None \<Rightarrow> Hang
             | Some l \<Rightarrow> Ret (0, Some (Some (rw_release l)))))))"

definition pthread_rwlock_rdlock ::
  "bool \<Rightarrow> int \<Rightarrow> pthread_t \<Rightarrow> pthread_rwlock handlep \<Rightarrow> (int \<times> pthread_rwlock handlep) res" where
  "pthread_rwlock_rdlock alloc errno thread lockp = rthread_rwlock_rdlock alloc errno thread lockp False"

definition pthread_rwlock_tryrdlock ::
  "bool \<Rightarrow> int \<Rightarrow> pthread_t \<Rightarrow> pthread_rwlock handlep \<Rightarrow> (int \<times> pthread_rwlock handlep) res" where
  "pthread_rwlock_tryrdlock alloc errno thread lockp = rthread_rwlock_rdlock alloc errno thread lockp True"

definition rw_bad_time :: "timespec option \<Rightarrow> bool" where
  "rw_bad_time abstime \<longleftrightarrow>
     (case abstime of None \<Rightarrow> True
      | Some ts \<Rightarrow> tv_sec ts < 0 \<or> tv_nsec ts < 0 \<or> tv_nsec ts > 1000000000)"

definition pthread_rwlock_timedrdlock ::
  "bool \<Rightarrow> int \<Rightarrow> pthread_t \<Rightarrow> pthread_rwlock handlep \<Rightarrow> timespec option \<Rightarrow>
   (int \<times> pthread_rwlock handlep) res" where
  "pthread_rwlock_timedrdlock alloc errno thread lockp abstime =
     (if rw_bad_time abstime then Ret (EINVAL, lockp)
      else rthread_rwlock_rdlock alloc errno thread lockp False)"

text \<open>
  A writer that has to wait queues itself and returns \<open>ENOSYS\<close> with the spin lock held: the rest
  of its loop is dead code. \<open>TAILQ_INSERT_TAIL\<close> through a null thread pointer crashes.
\<close>

definition rthread_rwlock_wrlock ::
  "bool \<Rightarrow> int \<Rightarrow> pthread_t \<Rightarrow> pthread_rwlock handlep \<Rightarrow> bool \<Rightarrow> (int \<times> pthread_rwlock handlep) res" where
  "rthread_rwlock_wrlock alloc errno thread lockp tryonly =
     bindR (rthread_rwlock_ensure_init alloc errno lockp) (\<lambda>(error, lockp).
       if error \<noteq> 0 then Ret (error, lockp)
       else bindR (obj lockp) (\<lambda>l.
         bindR (spin (rw_lock l)) (\<lambda>k.
           let l = l\<lparr>rw_lock := k\<rparr> in
           if rw_readers l = 0 \<and> rw_owner l = None
           then Ret (0, Some (Some (rw_release (l\<lparr>rw_owner := thread\<rparr>))))
           else if tryonly then Ret (EBUSY, Some (Some (rw_release l)))
           else if rw_owner l = thread then Ret (EDEADLK, Some (Some (rw_release l)))
           else (case thread of
               None \<Rightarrow> Crash
             | Some t \<Rightarrow> Ret (ENOSYS, Some (Some (l\<lparr>rw_writers := rw_writers l @ [t]\<rparr>)))))))"

definition pthread_rwlock_wrlock ::
  "bool \<Rightarrow> int \<Rightarrow> pthread_t \<Rightarrow> pthread_rwlock handlep \<Rightarrow> (int \<times> pthread_rwlock handlep) res" where
  "pthread_rwlock_wrlock alloc errno thread lockp = rthread_rwlock_wrlock alloc errno thread lockp False"

definition pthread_rwlock_trywrlock ::
  "bool \<Rightarrow> int \<Rightarrow> pthread_t \<Rightarrow> pthread_rwlock handlep \<Rightarrow> (int \<times> pthread_rwlock handlep) res" where
  "pthread_rwlock_trywrlock alloc errno thread lockp = rthread_rwlock_wrlock alloc errno thread lockp True"

definition pthread_rwlock_timedwrlock ::
  "bool \<Rightarrow> int \<Rightarrow> pthread_t \<Rightarrow> pthread_rwlock handlep \<Rightarrow> timespec option \<Rightarrow>
   (int \<times> pthread_rwlock handlep) res" where
  "pthread_rwlock_timedwrlock alloc errno thread lockp abstime =
     (if rw_bad_time abstime then Ret (EINVAL, lockp)
      else rthread_rwlock_wrlock alloc errno thread lockp False)"

text \<open>
  Unlocking: a failed assertion aborts; handing over to a queued writer returns \<open>ENOSYS\<close> after
  releasing the spin lock; a writer with nobody queued returns \<open>ENOSYS\<close> without releasing it.
\<close>

definition rw_handover :: "bool \<Rightarrow> pthread_rwlock \<Rightarrow> int \<times> pthread_rwlock" where
  "rw_handover was_writer l =
     (case rw_writers l of
        next # rest \<Rightarrow> (ENOSYS, rw_release (l\<lparr>rw_owner := Some next, rw_writers := rest\<rparr>))
      | [] \<Rightarrow> let l = l\<lparr>rw_owner := None\<rparr> in
              if was_writer then (ENOSYS, l) else (0, rw_release l))"

definition pthread_rwlock_unlock ::
  "pthread_t \<Rightarrow> pthread_rwlock handlep \<Rightarrow> (int \<times> pthread_rwlock handlep) res" where
  "pthread_rwlock_unlock thread lockp =
     bindR (obj lockp) (\<lambda>l.
       bindR (spin (rw_lock l)) (\<lambda>k.
         let l = l\<lparr>rw_lock := k\<rparr> in
         if rw_owner l \<noteq> None then
           (if rw_owner l \<noteq> thread then Abort
            else let (e, l) = rw_handover True l in Ret (e, Some (Some l)))
         else if \<not> 0 < rw_readers l then Abort
         else let l = l\<lparr>rw_readers := rw_readers l - 1\<rparr> in
           if 0 < rw_readers l then Ret (0, Some (Some (rw_release l)))
           else let (e, l) = rw_handover False l in Ret (e, Some (Some l))))"

lemmas rw_defs = rthread_rwlock_rdlock_def rthread_rwlock_wrlock_def rthread_rwlock_ensure_init_def
  pthread_rwlock_rdlock_def pthread_rwlock_tryrdlock_def pthread_rwlock_timedrdlock_def
  pthread_rwlock_wrlock_def pthread_rwlock_trywrlock_def pthread_rwlock_timedwrlock_def
  pthread_rwlock_unlock_def rw_release_def rw_handover_def pthread_rwlock_init_def
  pthread_rwlock_destroy_def

section \<open>The lock as readers and writers see it\<close>

text \<open>The states from which the port's operations work: spin lock free and nobody queued.\<close>

datatype rw_state = RwFree | RwRead int | RwWrite tid

definition rw_wf :: "pthread_rwlock \<Rightarrow> bool" where
  "rw_wf l \<longleftrightarrow> rw_lock l = ATOMIC_LOCK_UNLOCKED \<and> rw_writers l = []
     \<and> 0 \<le> rw_readers l \<and> rw_readers l \<le> INT_MAX \<and> (rw_owner l \<noteq> None \<longrightarrow> rw_readers l = 0)"

definition rw_abs :: "pthread_rwlock \<Rightarrow> rw_state" where
  "rw_abs l = (case rw_owner l of Some t \<Rightarrow> RwWrite t
               | None \<Rightarrow> if rw_readers l = 0 then RwFree else RwRead (rw_readers l))"

lemma rdlock_wait_held: "rw_lock l = ATOMIC_LOCK_LOCKED \<Longrightarrow> rdlock_wait l = None"
  by (subst rdlock_wait.simps) simp

lemma rw_wf_fresh [simp]: "rw_wf rwlock_fresh" "rw_abs rwlock_fresh = RwFree"
  by (simp_all add: rw_wf_def rw_abs_def rwlock_fresh_def)

text \<open>Taking the lock for reading and for writing without waiting, on every state.\<close>

lemma tryrdlock_spec:
  assumes "rw_wf l" "rw_readers l < INT_MAX"
  shows "\<exists>l'. pthread_rwlock_tryrdlock alloc errno (Some t) (Some (Some l)) =
      Ret (case rw_abs l of RwWrite _ \<Rightarrow> EBUSY | _ \<Rightarrow> 0, Some (Some l'))
    \<and> rw_wf l' \<and> rw_abs l' = (case rw_abs l of RwFree \<Rightarrow> RwRead 1 | RwRead n \<Rightarrow> RwRead (n + 1) | w \<Rightarrow> w)"
  using assms
  by (cases "rw_owner l") (auto simp: rw_defs rw_wf_def rw_abs_def Let_def)

lemma trywrlock_spec:
  assumes "rw_wf l"
  shows "\<exists>l'. pthread_rwlock_trywrlock alloc errno (Some t) (Some (Some l)) =
      Ret (if rw_abs l = RwFree then 0 else EBUSY, Some (Some l'))
    \<and> rw_wf l' \<and> rw_abs l' = (if rw_abs l = RwFree then RwWrite t else rw_abs l)"
  using assms
  by (cases "rw_owner l") (auto simp: rw_defs rw_wf_def rw_abs_def Let_def)

lemma unlock_reader_spec:
  assumes "rw_wf l" "rw_abs l = RwRead n"
  shows "\<exists>l'. pthread_rwlock_unlock self (Some (Some l)) = Ret (0, Some (Some l'))
    \<and> rw_wf l' \<and> rw_abs l' = (if n = 1 then RwFree else RwRead (n - 1))"
  using assms
  by (cases "rw_owner l") (auto simp: rw_defs rw_wf_def rw_abs_def Let_def split: if_splits)

section \<open>The paths that wedge the lock\<close>

text \<open>Once the spin lock is left held, no call on the lock returns.\<close>

lemma wedged:
  assumes "rw_lock l = ATOMIC_LOCK_LOCKED"
  shows "rthread_rwlock_rdlock alloc errno self (Some (Some l)) b = Hang"
    "rthread_rwlock_wrlock alloc errno self (Some (Some l)) b = Hang"
    "pthread_rwlock_unlock self (Some (Some l)) = Hang"
  using assms by (simp_all add: rw_defs)

lemma writer_unlock_wedges:
  assumes "rw_wf l" "rw_abs l = RwWrite t"
  shows "\<exists>l'. pthread_rwlock_unlock (Some t) (Some (Some l)) = Ret (ENOSYS, Some (Some l'))
    \<and> rw_lock l' = ATOMIC_LOCK_LOCKED"
  using assms
  by (cases "rw_owner l") (auto simp: rw_defs rw_wf_def rw_abs_def Let_def split: if_splits)

lemma blocked_writer_wedges:
  assumes "rw_wf l" "rw_abs l = RwRead n"
  shows "\<exists>l'. pthread_rwlock_wrlock alloc errno (Some t) (Some (Some l)) = Ret (ENOSYS, Some (Some l'))
    \<and> rw_lock l' = ATOMIC_LOCK_LOCKED"
  using assms
  by (cases "rw_owner l") (auto simp: rw_defs rw_wf_def rw_abs_def Let_def split: if_splits)

lemma blocked_reader_hangs:
  assumes "rw_wf l" "rw_abs l = RwWrite u" "t \<noteq> u"
  shows "pthread_rwlock_rdlock alloc errno (Some t) (Some (Some l)) = Hang"
  using assms
  by (cases "rw_owner l")
    (auto simp: rw_defs rw_wf_def rw_abs_def Let_def rdlock_wait_held split: if_splits)

section \<open>Properties\<close>

text \<open>
  C16: the calls that do not wait are right. On a lock with its spin lock free and nobody queued,
  \<open>pthread_rwlock_tryrdlock\<close> succeeds unless there is a writer, \<open>pthread_rwlock_trywrlock\<close>
  succeeds exactly on a free lock, and a reader's \<open>pthread_rwlock_unlock\<close> takes one reader away;
  each leaves such a lock again.
\<close>

theorem rwlock_without_waiting:
  assumes "rw_wf l" "rw_readers l < INT_MAX"
  shows "(\<exists>l'. pthread_rwlock_tryrdlock alloc errno (Some t) (Some (Some l)) =
            Ret (case rw_abs l of RwWrite _ \<Rightarrow> EBUSY | _ \<Rightarrow> 0, Some (Some l')) \<and> rw_wf l'
          \<and> rw_abs l' = (case rw_abs l of RwFree \<Rightarrow> RwRead 1 | RwRead n \<Rightarrow> RwRead (n + 1) | w \<Rightarrow> w))
    \<and> (\<exists>l'. pthread_rwlock_trywrlock alloc errno (Some t) (Some (Some l)) =
            Ret (if rw_abs l = RwFree then 0 else EBUSY, Some (Some l')) \<and> rw_wf l'
          \<and> rw_abs l' = (if rw_abs l = RwFree then RwWrite t else rw_abs l))
    \<and> (rw_abs l \<in> {RwRead n |n. True} \<longrightarrow> (\<exists>l'. pthread_rwlock_unlock (Some t) (Some (Some l)) = Ret (0, Some (Some l'))
          \<and> rw_wf l' \<and> rw_abs l' = (if rw_abs l = RwRead 1 then RwFree else RwRead (rw_readers l - 1))))"
proof (intro conjI impI)
  assume "rw_abs l \<in> {RwRead n |n. True}"
  then have r: "rw_abs l = RwRead (rw_readers l)"
    by (auto simp: rw_abs_def split: option.splits if_splits)
  from unlock_reader_spec [OF assms(1) r, of "Some t"]
  show "\<exists>l'. pthread_rwlock_unlock (Some t) (Some (Some l)) = Ret (0, Some (Some l'))
      \<and> rw_wf l' \<and> rw_abs l' = (if rw_abs l = RwRead 1 then RwFree else RwRead (rw_readers l - 1))"
    by (simp add: r)
qed (rule tryrdlock_spec [OF assms], rule trywrlock_spec [OF assms(1)])

theorem rwlock_without_waiting_witness:
  "\<exists>l'. pthread_rwlock_tryrdlock True 12 (Some 1) (Some (Some rwlock_fresh)) = Ret (0, Some (Some l'))
     \<and> rw_abs l' = RwRead 1"
proof -
  have "rw_readers rwlock_fresh < INT_MAX" by (simp add: rwlock_fresh_def)
  from rwlock_without_waiting [OF rw_wf_fresh(1) this, of True 12 1] show ?thesis by auto
qed

text \<open>
  C17: the paths the port leaves unfinished. A writer's \<open>pthread_rwlock_unlock\<close> and a
  \<open>pthread_rwlock_wrlock\<close> that meets a reader both return \<open>ENOSYS\<close> with the spin lock held, after
  which no call on the lock returns; a \<open>pthread_rwlock_rdlock\<close> that meets a writer never returns.
\<close>

theorem rwlock_wedges:
  assumes "rw_wf l" "rw_wf k" "rw_abs l = RwWrite t" "rw_abs k = RwRead n" "u \<noteq> t"
  shows "(\<exists>l'. pthread_rwlock_unlock (Some t) (Some (Some l)) = Ret (ENOSYS, Some (Some l'))
          \<and> pthread_rwlock_rdlock alloc errno self (Some (Some l')) = Hang
          \<and> pthread_rwlock_trywrlock alloc errno self (Some (Some l')) = Hang
          \<and> pthread_rwlock_unlock self (Some (Some l')) = Hang)
    \<and> (\<exists>k'. pthread_rwlock_wrlock alloc errno (Some u) (Some (Some k)) = Ret (ENOSYS, Some (Some k'))
          \<and> pthread_rwlock_tryrdlock alloc errno self (Some (Some k')) = Hang
          \<and> pthread_rwlock_unlock self (Some (Some k')) = Hang)
    \<and> pthread_rwlock_rdlock alloc errno (Some u) (Some (Some l)) = Hang"
proof -
  obtain l' where l': "pthread_rwlock_unlock (Some t) (Some (Some l)) = Ret (ENOSYS, Some (Some l'))"
    "rw_lock l' = ATOMIC_LOCK_LOCKED" using writer_unlock_wedges [OF assms(1,3)] by blast
  obtain k' where k': "pthread_rwlock_wrlock alloc errno (Some u) (Some (Some k)) = Ret (ENOSYS, Some (Some k'))"
    "rw_lock k' = ATOMIC_LOCK_LOCKED" using blocked_writer_wedges [OF assms(2,4)] by blast
  show ?thesis using l' k' wedged [OF l'(2)] wedged [OF k'(2)] blocked_reader_hangs [OF assms(1,3,5)]
    by (auto simp: pthread_rwlock_rdlock_def pthread_rwlock_trywrlock_def pthread_rwlock_tryrdlock_def)
qed

theorem rwlock_wedges_witness:
  "\<exists>l'. pthread_rwlock_unlock (Some 1) (Some (Some (rwlock_fresh\<lparr>rw_owner := Some 1\<rparr>))) = Ret (ENOSYS, Some (Some l'))
     \<and> pthread_rwlock_rdlock True 12 (Some 2) (Some (Some l')) = Hang"
  using rwlock_wedges [of "rwlock_fresh\<lparr>rw_owner := Some 1\<rparr>" "rwlock_fresh\<lparr>rw_readers := 1\<rparr>" 1 1 2 True 12 "Some 2"]
  by (fastforce simp: rwlock_fresh_def rw_wf_def rw_abs_def)

end
