(* ===== verification/Barrier.thy ===== *)
theory Barrier
  imports Cond
begin

text \<open>
  Barriers (\<open>rthread_barrier.c\<close>): the calls, cut where the mutex or the condition variable makes
  them sleep, and the counting under the barrier's mutex with any number of threads.
\<close>

section \<open>The operations\<close>

record pthread_barrier =
  b_mutex :: "pthread_mutex option"
  b_cond :: "pthread_cond option"
  b_threshold :: int
  b_in :: int
  b_out :: int
  b_generation :: int

abbreviation (input) PTHREAD_BARRIER_SERIAL_THREAD :: int where
  "PTHREAD_BARRIER_SERIAL_THREAD \<equiv> - 1"

definition handle_of :: "'a handlep \<Rightarrow> 'a option" where
  "handle_of p = (case p of None \<Rightarrow> None | Some h \<Rightarrow> h)"

text \<open>
  The three booleans are the outcomes of the allocations for the barrier, its mutex and its
  condition variable; \<open>to_int (uint count)\<close> is the assignment of an unsigned to an \<open>int\<close>.
\<close>

definition pthread_barrier_init ::
  "bool \<Rightarrow> bool \<Rightarrow> bool \<Rightarrow> pthread_barrier handlep \<Rightarrow> pthread_barrierattr handlep \<Rightarrow> u32 \<Rightarrow>
   (int \<times> pthread_barrier handlep) res" where
  "pthread_barrier_init alloc allocm allocc barrier attrp count =
     (if barrier = None then Ret (EINVAL, barrier)
      else case attrp of
        Some None \<Rightarrow> Ret (EINVAL, barrier)
      | _ \<Rightarrow>
        if (case attrp of Some (Some a) \<Rightarrow> ba_pshared a \<noteq> PTHREAD_PROCESS_PRIVATE | _ \<Rightarrow> False)
        then Ret (ENOTSUP, barrier)
        else if \<not> alloc then Ret (ENOMEM, barrier)
        else bindR (pthread_mutex_init allocm (Some None) None) (\<lambda>(rc, m).
          if rc \<noteq> 0 then Ret (rc, barrier)
          else bindR (pthread_cond_init allocc (Some None) None) (\<lambda>(rc, c).
            if rc \<noteq> 0 then Ret (rc, barrier)
            else Ret (0, Some (Some
              \<lparr>b_mutex = handle_of m, b_cond = handle_of c, b_threshold = to_int (uint count),
               b_in = 0, b_out = 0, b_generation = 0\<rparr>)))))"

datatype barrier_result = BRet int | BLock | BWait int int

text \<open>\<open>pthread_barrier_destroy\<close>; \<open>BLock\<close> when it has to wait for the mutex.\<close>

definition pthread_barrier_destroy ::
  "bool \<Rightarrow> pthread_t \<Rightarrow> pthread_barrier handlep \<Rightarrow> (barrier_result \<times> pthread_barrier handlep) res" where
  "pthread_barrier_destroy alloc self barrier =
     (case barrier of
        Some (Some b) \<Rightarrow>
          bindR (pthread_mutex_lock alloc self (Some (b_mutex b))) (\<lambda>(r, m).
            let b = b\<lparr>b_mutex := handle_of m\<rparr> in
            case r of
              MRet rc \<Rightarrow>
                if rc \<noteq> 0 then Ret (BRet rc, Some (Some b))
                else bindR (pthread_mutex_unlock self (Some (b_mutex b))) (\<lambda>(_, m, _).
                  let b = b\<lparr>b_mutex := handle_of m\<rparr> in
                  if b_out b > 0 \<or> b_in b > 0 then Ret (BRet EBUSY, Some (Some b))
                  else bindR (pthread_cond_destroy (Some (b_cond b))) (\<lambda>_. Ret (BRet 0, Some None)))
            | _ \<Rightarrow> Ret (BLock, Some (Some b)))
      | _ \<Rightarrow> Ret (BRet EINVAL, barrier))"

text \<open>
  \<open>pthread_barrier_wait\<close> with the mutex held. On arrival the last thread opens the next
  generation (\<open>None\<close>: it does not wait), the others wait for the one they read. \<open>barrier_resume\<close>
  is the end of the \<open>do\<close> loop: \<open>False\<close> means another turn.
\<close>

definition barrier_arrive :: "pthread_barrier \<Rightarrow> pthread_barrier \<times> int option" where
  "barrier_arrive b =
     (let b = b\<lparr>b_in := to_int (b_in b + 1)\<rparr> in
      if b_in b = b_threshold b
      then (b\<lparr>b_out := b_in b - 1, b_in := 0, b_generation := to_int (b_generation b + 1)\<rparr>, None)
      else (b, Some (b_generation b)))"

definition barrier_resume :: "int \<Rightarrow> pthread_barrier \<Rightarrow> pthread_barrier \<times> bool" where
  "barrier_resume gen b =
     (if gen = b_generation b then (b, False) else (b\<lparr>b_out := to_int (b_out b - 1)\<rparr>, True))"

text \<open>
  The labels \<open>cancel\<close> and \<open>err\<close>: \<open>rc\<close> is assigned again at each, so what it held is lost.
\<close>

definition barrier_cancel :: "pthread_t \<Rightarrow> int \<Rightarrow> bool \<Rightarrow> rthread \<Rightarrow> (int \<times> rthread) res" where
  "barrier_cancel self old_state dn rt =
     bindR (pthread_setcancelstate self old_state rt) (\<lambda>(rc, _, rt).
       Ret (if rc = 0 \<and> dn then PTHREAD_BARRIER_SERIAL_THREAD else rc, rt))"

definition barrier_err ::
  "pthread_t \<Rightarrow> int \<Rightarrow> bool \<Rightarrow> pthread_barrier \<Rightarrow> rthread \<Rightarrow> (barrier_result \<times> pthread_barrier \<times> rthread) res" where
  "barrier_err self old_state dn b rt =
     bindR (pthread_mutex_unlock self (Some (b_mutex b))) (\<lambda>(rc, m, _).
       let b = b\<lparr>b_mutex := handle_of m\<rparr> in
       if rc \<noteq> 0 then Ret (BRet rc, b, rt)
       else bindR (barrier_cancel self old_state dn rt) (\<lambda>(rc, rt). Ret (BRet rc, b, rt)))"

text \<open>From the call of \<open>pthread_cond_wait\<close>: \<open>BWait\<close> carries the generation and the saved count.\<close>

definition barrier_sleep ::
  "bool \<Rightarrow> pthread_t \<Rightarrow> int \<Rightarrow> int \<Rightarrow> pthread_barrier \<Rightarrow> rthread \<Rightarrow>
   (barrier_result \<times> pthread_barrier \<times> rthread) res" where
  "barrier_sleep alloc self old_state gen b rt =
     bindR (pthread_cond_wait alloc self (Some (b_cond b)) (Some (b_mutex b))) (\<lambda>(r, c, m, _).
       let b = b\<lparr>b_cond := handle_of c, b_mutex := handle_of m\<rparr> in
       case r of
         CRet _ \<Rightarrow> barrier_err self old_state False b rt
       | CWait n \<Rightarrow> Ret (BWait gen n, b, rt))"

text \<open>With the mutex taken, and once \<open>pthread_cond_wait\<close> has returned 0 or an error.\<close>

definition barrier_locked ::
  "bool \<Rightarrow> pthread_t \<Rightarrow> int \<Rightarrow> pthread_barrier \<Rightarrow> rthread \<Rightarrow>
   (barrier_result \<times> pthread_barrier \<times> rthread) res" where
  "barrier_locked alloc self old_state b rt =
     (case barrier_arrive b of
        (b, None) \<Rightarrow> bindR (pthread_cond_signal (Some (b_cond b))) (\<lambda>_. barrier_err self old_state True b rt)
      | (b, Some gen) \<Rightarrow> barrier_sleep alloc self old_state gen b rt)"

definition barrier_woken ::
  "bool \<Rightarrow> pthread_t \<Rightarrow> int \<Rightarrow> int \<Rightarrow> int \<Rightarrow> pthread_barrier \<Rightarrow> rthread \<Rightarrow>
   (barrier_result \<times> pthread_barrier \<times> rthread) res" where
  "barrier_woken alloc self old_state gen rc b rt =
     (if rc \<noteq> 0 then barrier_err self old_state False b rt
      else case barrier_resume gen b of
        (b, False) \<Rightarrow> barrier_sleep alloc self old_state gen b rt
      | (b, True) \<Rightarrow> bindR (pthread_cond_signal (Some (b_cond b))) (\<lambda>_. barrier_err self old_state False b rt))"

definition pthread_barrier_wait ::
  "bool \<Rightarrow> pthread_t \<Rightarrow> pthread_barrier handlep \<Rightarrow> rthread \<Rightarrow>
   (barrier_result \<times> pthread_barrier handlep \<times> rthread) res" where
  "pthread_barrier_wait alloc self barrier rt =
     (case barrier of
        Some (Some b) \<Rightarrow>
          bindR (pthread_setcancelstate self PTHREAD_CANCEL_DISABLE rt) (\<lambda>(rc, old, rt).
            if rc \<noteq> 0 then Ret (BRet rc, barrier, rt)
            else let old_state = (case old of None \<Rightarrow> 0 | Some st \<Rightarrow> st) in
              bindR (pthread_mutex_lock alloc self (Some (b_mutex b))) (\<lambda>(r, m).
                let b = b\<lparr>b_mutex := handle_of m\<rparr> in
                case r of
                  MRet rc \<Rightarrow>
                    if rc \<noteq> 0
                    then bindR (barrier_cancel self old_state False rt) (\<lambda>(rc, rt). Ret (BRet rc, Some (Some b), rt))
                    else bindR (barrier_locked alloc self old_state b rt) (\<lambda>(r, b, rt). Ret (r, Some (Some b), rt))
                | _ \<Rightarrow> Ret (BLock, Some (Some b), rt)))
      | _ \<Rightarrow> Ret (BRet EINVAL, barrier, rt))"

section \<open>Threads at a barrier\<close>

text \<open>
  Every critical section runs under the barrier's mutex and is one step. \<open>by_gen t\<close> is the
  generation a waiting thread read. Ghost state: the number of generations opened, \<open>by_round t\<close>
  the one in which a waiting thread arrived, \<open>by_arrived r\<close> the arrivals in round \<open>r\<close>,
  \<open>by_serial r\<close> how many of them got \<open>PTHREAD_BARRIER_SERIAL_THREAD\<close>.
\<close>

record barrier_sys =
  by_b :: pthread_barrier
  by_q :: waitq
  by_gen :: "tid \<Rightarrow> int option"
  by_now :: nat
  by_round :: "tid \<Rightarrow> nat"
  by_arrived :: "nat \<Rightarrow> nat"
  by_serial :: "nat \<Rightarrow> nat"

definition barrier_start :: "int \<Rightarrow> barrier_sys \<Rightarrow> bool" where
  "barrier_start n s \<longleftrightarrow> 0 < n \<and> n \<le> INT_MAX \<and>
     s = \<lparr>by_b = \<lparr>b_mutex = None, b_cond = None, b_threshold = n, b_in = 0, b_out = 0, b_generation = 0\<rparr>,
          by_q = no_waiters, by_gen = (\<lambda>_. None), by_now = 0, by_round = (\<lambda>_. 0),
          by_arrived = (\<lambda>_. 0), by_serial = (\<lambda>_. 0)\<rparr>"

text \<open>
  \<open>P\<close> is the set of threads that use the barrier. The guards on the generation keep it from
  wrapping round. With \<open>errs\<close>, \<open>pthread_cond_wait\<close> may also return an error number (what
  \<open>phal_semaphore_wait\<close> gave it), in any turn of the loop and whether or not the thread was woken:
  the thread then goes to \<open>err\<close> and leaves without counting itself out and without a signal.
\<close>

inductive barrier_step :: "bool \<Rightarrow> tid set \<Rightarrow> barrier_sys \<Rightarrow> barrier_sys \<Rightarrow> bool" for errs P where
  arrive_wait: "t \<in> P \<Longrightarrow> by_gen s t = None \<Longrightarrow> barrier_arrive (by_b s) = (b, Some g) \<Longrightarrow>
    barrier_step errs P s (s\<lparr>by_b := b, by_q := phal_wait t (by_q s), by_gen := (by_gen s)(t := Some g),
      by_round := (by_round s)(t := by_now s),
      by_arrived := (by_arrived s)(by_now s := Suc (by_arrived s (by_now s)))\<rparr>)"
| arrive_last: "t \<in> P \<Longrightarrow> by_gen s t = None \<Longrightarrow> barrier_arrive (by_b s) = (b, None) \<Longrightarrow>
    b_generation (by_b s) < INT_MAX \<Longrightarrow> phal_signal (by_q s) q \<Longrightarrow>
    barrier_step errs P s (s\<lparr>by_b := b, by_q := q, by_now := Suc (by_now s),
      by_arrived := (by_arrived s)(by_now s := Suc (by_arrived s (by_now s))),
      by_serial := (by_serial s)(by_now s := Suc (by_serial s (by_now s)))\<rparr>)"
| resume_wait: "t \<in> woken (by_q s) \<Longrightarrow> by_gen s t = Some g \<Longrightarrow> barrier_resume g (by_b s) = (b, False) \<Longrightarrow>
    barrier_step errs P s (s\<lparr>by_b := b, by_q := phal_wait t (phal_return t (by_q s))\<rparr>)"
| resume_leave: "t \<in> woken (by_q s) \<Longrightarrow> by_gen s t = Some g \<Longrightarrow> barrier_resume g (by_b s) = (b, True) \<Longrightarrow>
    phal_signal (phal_return t (by_q s)) q \<Longrightarrow>
    barrier_step errs P s (s\<lparr>by_b := b, by_q := q, by_gen := (by_gen s)(t := None)\<rparr>)"
| resume_error: "errs \<Longrightarrow> t \<in> asleep (by_q s) \<union> woken (by_q s) \<Longrightarrow> by_gen s t = Some g \<Longrightarrow>
    barrier_step errs P s (s\<lparr>by_q := phal_return t (by_q s), by_gen := (by_gen s)(t := None)\<rparr>)"

text \<open>
  A closed round has had exactly the threshold's arrivals and one serial thread; the open one has
  had the arrivals counted in \<open>in\<close>, fewer than the threshold; a waiting thread holds the number of
  its round.
\<close>

definition barrier_inv :: "int \<Rightarrow> barrier_sys \<Rightarrow> bool" where
  "barrier_inv n s \<longleftrightarrow>
     b_threshold (by_b s) = n \<and> 0 < n \<and> n \<le> INT_MAX
     \<and> b_generation (by_b s) = int (by_now s) \<and> int (by_now s) \<le> INT_MAX
     \<and> 0 \<le> b_in (by_b s) \<and> b_in (by_b s) < n \<and> int (by_arrived s (by_now s)) = b_in (by_b s)
     \<and> (\<forall>r < by_now s. int (by_arrived s r) = n \<and> by_serial s r = 1)
     \<and> by_serial s (by_now s) = 0
     \<and> (\<forall>r > by_now s. by_arrived s r = 0 \<and> by_serial s r = 0)
     \<and> (\<forall>t g. by_gen s t = Some g \<longrightarrow> g = int (by_round s t) \<and> by_round s t \<le> by_now s)"

lemma barrier_start_inv: "barrier_start n s \<Longrightarrow> barrier_inv n s"
  by (simp add: barrier_start_def barrier_inv_def)

lemma barrier_step_inv: "barrier_step errs P s s' \<Longrightarrow> barrier_inv n s \<Longrightarrow> barrier_inv n s'"
proof (induction rule: barrier_step.induct)
  case (arrive_wait t s b g)
  then show ?case
    by (auto simp: barrier_inv_def barrier_arrive_def Let_def split: if_splits)
next
  case (arrive_last t s b q)
  then have "b_in (by_b s) + 1 = n" "b = (by_b s)\<lparr>b_in := 0, b_out := n - 1, b_generation := int (by_now s) + 1\<rparr>"
    by (auto simp: barrier_inv_def barrier_arrive_def Let_def split: if_splits)
  with arrive_last show ?case
    by (auto simp: barrier_inv_def less_Suc_eq intro: le_SucI)
next
  case (resume_wait t s g b)
  then show ?case by (auto simp: barrier_inv_def barrier_resume_def split: if_splits)
next
  case (resume_leave t s g b q)
  then show ?case by (auto simp: barrier_inv_def barrier_resume_def split: if_splits)
next
  case (resume_error t s g)
  then show ?case by (auto simp: barrier_inv_def)
qed

interpretation barrier: transition_system "barrier_start n" "barrier_step errs P" "barrier_inv n"
  by unfold_locales (auto simp: barrier_start_inv barrier_step_inv)

section \<open>A wake-up taken by the wrong thread\<close>

text \<open>
  Three threads, threshold 3. The last arriver wakes thread 0 and arrives again; thread 0 leaves
  and its signal goes to that new waiter, which goes back to sleep without passing it on; thread 0
  arrives again. Thread 1 still sleeps in the closed round, and nobody is left to signal.
\<close>

abbreviation breach :: "barrier_sys \<Rightarrow> bool" where
  "breach \<equiv> reach (barrier_start 3) (barrier_step False {0, 1, 2})"

definition bstate ::
  "int \<Rightarrow> int \<Rightarrow> int \<Rightarrow> waitq \<Rightarrow> (tid \<Rightarrow> int option) \<Rightarrow> nat \<Rightarrow> (tid \<Rightarrow> nat) \<Rightarrow> (nat \<Rightarrow> nat) \<Rightarrow> (nat \<Rightarrow> nat) \<Rightarrow> barrier_sys" where
  "bstate i u g q gn nw rd ar sr =
     \<lparr>by_b = \<lparr>b_mutex = None, b_cond = None, b_threshold = 3, b_in = i, b_out = u, b_generation = g\<rparr>,
      by_q = q, by_gen = gn, by_now = nw, by_round = rd, by_arrived = ar, by_serial = sr\<rparr>"

lemma b_arrive:
  assumes "breach (bstate i u g q gn nw rd ar sr)" "t \<in> {0, 1, 2}" "gn t = None" "0 \<le> i" "i < 2"
  shows "breach (bstate (i + 1) u g (phal_wait t q) (gn(t := Some g)) nw (rd(t := nw)) (ar(nw := Suc (ar nw))) sr)"
proof -
  have "barrier_arrive (by_b (bstate i u g q gn nw rd ar sr))
      = (by_b (bstate (i + 1) u g q gn nw rd ar sr), Some g)"
    using assms by (simp add: bstate_def barrier_arrive_def Let_def)
  then have "barrier_step False {0, 1, 2} (bstate i u g q gn nw rd ar sr)
      (bstate (i + 1) u g (phal_wait t q) (gn(t := Some g)) nw (rd(t := nw)) (ar(nw := Suc (ar nw))) sr)"
    using assms barrier_step.arrive_wait [of t "{0, 1, 2}" "bstate i u g q gn nw rd ar sr"]
    by (simp add: bstate_def)
  with assms(1) show ?thesis by (rule reach.reach_step)
qed

lemma b_last:
  assumes "breach (bstate 2 u g q gn nw rd ar sr)" "t \<in> {0, 1, 2}" "gn t = None" "phal_signal q q'"
    "0 \<le> g" "g < INT_MAX"
  shows "breach (bstate 0 2 (g + 1) q' gn (Suc nw) rd (ar(nw := Suc (ar nw))) (sr(nw := Suc (sr nw))))"
proof -
  have "barrier_arrive (by_b (bstate 2 u g q gn nw rd ar sr))
      = (by_b (bstate 0 2 (g + 1) q gn nw rd ar sr), None)"
    using assms by (simp add: bstate_def barrier_arrive_def Let_def)
  then have "barrier_step False {0, 1, 2} (bstate 2 u g q gn nw rd ar sr)
      (bstate 0 2 (g + 1) q' gn (Suc nw) rd (ar(nw := Suc (ar nw))) (sr(nw := Suc (sr nw))))"
    using assms barrier_step.arrive_last [of t "{0, 1, 2}" "bstate 2 u g q gn nw rd ar sr"]
    by (simp add: bstate_def)
  with assms(1) show ?thesis by (rule reach.reach_step)
qed

lemma b_leave:
  assumes "breach (bstate i u g q gn nw rd ar sr)" "t \<in> woken q" "gn t = Some h" "h \<noteq> g"
    "phal_signal (phal_return t q) q'" "0 < u" "u \<le> INT_MAX"
  shows "breach (bstate i (u - 1) g q' (gn(t := None)) nw rd ar sr)"
proof -
  have "barrier_resume h (by_b (bstate i u g q gn nw rd ar sr)) = (by_b (bstate i (u - 1) g q gn nw rd ar sr), True)"
    using assms by (simp add: bstate_def barrier_resume_def)
  then have "barrier_step False {0, 1, 2} (bstate i u g q gn nw rd ar sr) (bstate i (u - 1) g q' (gn(t := None)) nw rd ar sr)"
    using assms barrier_step.resume_leave [of t "bstate i u g q gn nw rd ar sr" h] by (simp add: bstate_def)
  with assms(1) show ?thesis by (rule reach.reach_step)
qed

lemma b_again:
  assumes "breach (bstate i u g q gn nw rd ar sr)" "t \<in> woken q" "gn t = Some g"
  shows "breach (bstate i u g (phal_wait t (phal_return t q)) gn nw rd ar sr)"
proof -
  have "barrier_step False {0, 1, 2} (bstate i u g q gn nw rd ar sr)
      (bstate i u g (phal_wait t (phal_return t q)) gn nw rd ar sr)"
    using assms barrier_step.resume_wait [of t "bstate i u g q gn nw rd ar sr" g]
    by (simp add: bstate_def barrier_resume_def)
  with assms(1) show ?thesis by (rule reach.reach_step)
qed

lemma signal_to:
  "t \<in> A \<Longrightarrow> phal_signal \<lparr>asleep = A, woken = W\<rparr> \<lparr>asleep = A - {t}, woken = insert t W\<rparr>"
  using phal_signal.signal_one [of t "\<lparr>asleep = A, woken = W\<rparr>"] by simp

lemma barrier_stolen:
  "\<exists>rd ar sr. breach (bstate 2 1 1 \<lparr>asleep = {0, 1, 2}, woken = {}\<rparr>
     ((\<lambda>_. None)(0 := Some 1, 1 := Some 0, 2 := Some 1)) 1 rd ar sr)"
proof -
  have set2: "{1, 2} - {2} = {1::nat}" by auto
  have "breach (bstate 0 0 0 no_waiters (\<lambda>_. None) 0 (\<lambda>_. 0) (\<lambda>_. 0) (\<lambda>_. 0))"
    by (rule reach.reach_init) (simp add: barrier_start_def bstate_def)
  from b_arrive [OF this, of 0] obtain rd ar sr where
    "breach (bstate 1 0 0 \<lparr>asleep = {0}, woken = {}\<rparr> ((\<lambda>_. None)(0 := Some 0)) 0 rd ar sr)"
    by (auto simp: phal_wait_def no_waiters_def)
  from b_arrive [OF this, of 1] obtain rd ar sr where
    "breach (bstate 2 0 0 \<lparr>asleep = {0, 1}, woken = {}\<rparr> ((\<lambda>_. None)(0 := Some 0, 1 := Some 0)) 0 rd ar sr)"
    by (auto simp: phal_wait_def insert_commute)
  from b_last [OF this, of 2 "\<lparr>asleep = {0, 1} - {0}, woken = insert 0 {}\<rparr>"] signal_to [of 0 "{0, 1}" "{}"]
  obtain rd ar sr where
    "breach (bstate 0 2 1 \<lparr>asleep = {1}, woken = {0}\<rparr> ((\<lambda>_. None)(0 := Some 0, 1 := Some 0)) 1 rd ar sr)"
    by auto
  from b_arrive [OF this, of 2] obtain rd ar sr where
    "breach (bstate 1 2 1 \<lparr>asleep = {1, 2}, woken = {0}\<rparr>
       ((\<lambda>_. None)(0 := Some 0, 1 := Some 0, 2 := Some 1)) 1 rd ar sr)"
    by (auto simp: phal_wait_def insert_commute)
  from b_leave [OF this, of 0 0 "\<lparr>asleep = {1}, woken = {2}\<rparr>"] signal_to [of 2 "{1, 2}" "{}"] set2
  obtain rd ar sr where
    "breach (bstate 1 1 1 \<lparr>asleep = {1}, woken = {2}\<rparr> ((\<lambda>_. None)(1 := Some 0, 2 := Some 1)) 1 rd ar sr)"
    by (auto simp: phal_return_def fun_upd_twist)
  from b_again [OF this, of 2] obtain rd ar sr where
    "breach (bstate 1 1 1 \<lparr>asleep = {1, 2}, woken = {}\<rparr> ((\<lambda>_. None)(1 := Some 0, 2 := Some 1)) 1 rd ar sr)"
    by (auto simp: phal_return_def phal_wait_def insert_commute)
  from b_arrive [OF this, of 0] show ?thesis
    by (auto simp: phal_wait_def fun_upd_twist)
qed

section \<open>Properties\<close>



text \<open>
  C19: the chain of single signals can break. Three threads on a barrier of threshold 3 can reach a
  state in which all of them sleep, none is woken and no step is possible, although thread 1
  waits for a round that is closed.
\<close>

theorem barrier_stolen_wakeup:
  "\<exists>s. reach (barrier_start 3) (barrier_step False {0, 1, 2}) s \<and> asleep (by_q s) = {0, 1, 2}
     \<and> by_gen s 1 = Some 0 \<and> b_generation (by_b s) = 1 \<and> {s'. barrier_step False {0, 1, 2} s s'} = {}"
proof -
  obtain rd ar sr where r: "breach (bstate 2 1 1 \<lparr>asleep = {0, 1, 2}, woken = {}\<rparr>
      ((\<lambda>_. None)(0 := Some 1, 1 := Some 0, 2 := Some 1)) 1 rd ar sr)" (is "breach ?s")
    using barrier_stolen by blast
  have "\<not> barrier_step False {0, 1, 2} ?s s'" for s'
    by (auto simp: bstate_def elim: barrier_step.cases)
  with r show ?thesis by (intro exI [of _ ?s]) (simp add: bstate_def)
qed

end
