(* ===== verification/Once.thy ===== *)
theory Once
  imports Mutex
begin

text \<open>
  One-time initialisation (\<open>rthread_once.c\<close>): \<open>pthread_once\<close> runs the routine under the control's
  own mutex. First one call after the other, with \<open>routine\<close> the application's function on the world
  \<open>'w\<close>; then the calls of any number of threads that overlap, as a step relation.
\<close>

abbreviation (input) PTHREAD_NEEDS_INIT :: int where "PTHREAD_NEEDS_INIT \<equiv> 0"
abbreviation (input) PTHREAD_DONE_INIT :: int where "PTHREAD_DONE_INIT \<equiv> 1"

record pthread_once_control =
  once_state :: int
  once_mutex :: "pthread_mutex option"

definition once_init :: pthread_once_control where
  "once_init = \<lparr>once_state = PTHREAD_NEEDS_INIT, once_mutex = None\<rparr>"

text \<open>With the mutex taken (or not: the error numbers of the mutex calls are dropped).\<close>

definition once_locked ::
  "pthread_t \<Rightarrow> ('w \<Rightarrow> 'w res) \<Rightarrow> pthread_once_control \<Rightarrow> 'w \<Rightarrow> (int \<times> pthread_once_control \<times> 'w) res" where
  "once_locked self routine oc w =
     bindR (if once_state oc = PTHREAD_NEEDS_INIT
            then bindR (routine w) (\<lambda>w. Ret (oc\<lparr>once_state := PTHREAD_DONE_INIT\<rparr>, w))
            else Ret (oc, w)) (\<lambda>(oc, w).
       bindR (pthread_mutex_unlock self (Some (once_mutex oc))) (\<lambda>(_, m, _).
         Ret (0, oc\<lparr>once_mutex := (case m of None \<Rightarrow> None | Some h \<Rightarrow> h)\<rparr>, w)))"

definition pthread_once ::
  "bool \<Rightarrow> pthread_t \<Rightarrow> ('w \<Rightarrow> 'w res) \<Rightarrow> pthread_once_control \<Rightarrow> 'w \<Rightarrow>
   (int blocking \<times> pthread_once_control \<times> 'w) res" where
  "pthread_once alloc self routine oc w =
     bindR (pthread_mutex_lock alloc self (Some (once_mutex oc))) (\<lambda>(r, m).
       let oc = oc\<lparr>once_mutex := (case m of None \<Rightarrow> None | Some h \<Rightarrow> h)\<rparr> in
       case r of
         MRet _ \<Rightarrow> bindR (once_locked self routine oc w) (\<lambda>(e, oc, w). Ret (Done e, oc, w))
       | _ \<Rightarrow> Ret (Sleep, oc, w))"

text \<open>The control between calls: its mutex is absent or free.\<close>

definition once_idle :: "pthread_once_control \<Rightarrow> bool" where
  "once_idle oc \<longleftrightarrow>
     (case once_mutex oc of None \<Rightarrow> True
      | Some m \<Rightarrow> mutex_wf m \<and> mtx_owner m = None \<and> mtx_type m = PTHREAD_MUTEX_DEFAULT)"

lemma once_idle_init: "once_idle once_init"
  by (simp add: once_idle_def once_init_def)

lemma once_call:
  assumes "once_idle oc"
  shows "\<exists>oc'. pthread_once True (Some t) (\<lambda>w. Ret (f w)) oc w =
       Ret (Done 0, oc', if once_state oc = PTHREAD_NEEDS_INIT then f w else w)
     \<and> once_idle oc' \<and> once_state oc' \<noteq> PTHREAD_NEEDS_INIT"
proof (cases "once_mutex oc")
  case None
  then show ?thesis
    by (auto simp: pthread_once_def once_locked_def mutex_defs once_idle_def mutex_wf_def Let_def)
next
  case (Some m)
  with assms have "mtx_lock m = UNLOCKED" "mtx_owner m = None" "mtx_count m = 0" "mtx_type m = PTHREAD_MUTEX_DEFAULT"
    by (auto simp: once_idle_def mutex_wf_def)
  with Some show ?thesis
    by (auto simp: pthread_once_def once_locked_def mutex_defs once_idle_def mutex_wf_def Let_def)
qed

text \<open>A sequence of calls by any threads.\<close>

fun once_calls :: "tid list \<Rightarrow> ('w \<Rightarrow> 'w) \<Rightarrow> pthread_once_control \<Rightarrow> 'w \<Rightarrow> (pthread_once_control \<times> 'w) res" where
  "once_calls [] f oc w = Ret (oc, w)"
| "once_calls (t # ts) f oc w =
     bindR (pthread_once True (Some t) (\<lambda>w. Ret (f w)) oc w) (\<lambda>(_, oc, w). once_calls ts f oc w)"

lemma once_calls_done:
  assumes "once_idle oc" "once_state oc \<noteq> PTHREAD_NEEDS_INIT"
  shows "\<exists>oc'. once_calls ts f oc w = Ret (oc', w) \<and> once_idle oc' \<and> once_state oc' \<noteq> PTHREAD_NEEDS_INIT"
  using assms
proof (induction ts arbitrary: oc)
  case (Cons t ts)
  obtain oc' where "pthread_once True (Some t) (\<lambda>w. Ret (f w)) oc w = Ret (Done 0, oc', w)"
    "once_idle oc'" "once_state oc' \<noteq> PTHREAD_NEEDS_INIT"
    using once_call [OF Cons.prems(1), of t f w] Cons.prems(2) by auto
  with Cons.IH show ?case by simp
qed simp

text \<open>
  However many threads call \<open>pthread_once\<close> one after the other on a fresh control, every call
  returns and together they run the routine once.
\<close>

lemma once_one_after_the_other:
  "\<exists>oc. once_calls (t # ts) f once_init w = Ret (oc, f w) \<and> once_calls us f oc w' \<in> {Ret (oc', w') |oc'. True}"
proof -
  obtain oc1 where 1: "pthread_once True (Some t) (\<lambda>w. Ret (f w)) once_init w = Ret (Done 0, oc1, f w)"
    "once_idle oc1" "once_state oc1 \<noteq> PTHREAD_NEEDS_INIT"
    using once_call [OF once_idle_init, of t f w] by (auto simp: once_init_def)
  obtain oc2 where 2: "once_calls ts f oc1 (f w) = Ret (oc2, f w)" "once_idle oc2"
    "once_state oc2 \<noteq> PTHREAD_NEEDS_INIT"
    using once_calls_done [OF 1(2,3), of ts f "f w"] by blast
  obtain oc3 where "once_calls us f oc2 w' = Ret (oc3, w')"
    using once_calls_done [OF 2(2,3), of us f w'] by blast
  with 1 2 show ?thesis by auto
qed

section \<open>Calls that overlap\<close>

text \<open>
  Where a thread stands: outside; before \<open>pthread_mutex_lock\<close>, asleep in it; before the test of the
  state, in the routine, before the store of the state, before \<open>pthread_mutex_unlock\<close>. Ghost
  state: how often the routine was entered and left, how many calls have returned.
\<close>

datatype once_pc = OIdle | OLock | OAsleep | OCheck | ORun | OStore | OUnlock

record once_sys =
  oy_ctl :: pthread_once_control
  oy_pc :: "tid \<Rightarrow> once_pc"
  oy_started :: nat
  oy_finished :: nat
  oy_returned :: nat

definition once_goto :: "tid \<Rightarrow> once_pc \<Rightarrow> pthread_mutex option \<Rightarrow> once_sys \<Rightarrow> once_sys" where
  "once_goto t pc h s = s\<lparr>oy_ctl := (oy_ctl s)\<lparr>once_mutex := h\<rparr>, oy_pc := (oy_pc s)(t := pc)\<rparr>"

definition once_start :: "once_sys \<Rightarrow> bool" where
  "once_start s \<longleftrightarrow> s = \<lparr>oy_ctl = once_init, oy_pc = (\<lambda>_. OIdle), oy_started = 0, oy_finished = 0, oy_returned = 0\<rparr>"

text \<open>
  One step of one thread: a mutex call, a turn of its loop after a wake-up (the theory
  \<open>Mutex_Threads\<close> has the atomic steps inside), or one access to the state. With \<open>fails\<close> the
  allocation of the statically initialised mutex may fail; the error number that
  \<open>pthread_mutex_lock\<close> then returns is dropped, as any other.
\<close>

inductive once_step :: "bool \<Rightarrow> once_sys \<Rightarrow> once_sys \<Rightarrow> bool" for fails where
  o_call: "oy_pc s t = OIdle \<Longrightarrow> once_step fails s (s\<lparr>oy_pc := (oy_pc s)(t := OLock)\<rparr>)"
| o_lock: "oy_pc s t = OLock \<Longrightarrow> alloc \<or> fails \<Longrightarrow>
    pthread_mutex_lock alloc (Some t) (Some (once_mutex (oy_ctl s))) = Ret (MRet e, Some h) \<Longrightarrow>
    once_step fails s (once_goto t OCheck h s)"
| o_sleep: "oy_pc s t = OLock \<Longrightarrow> alloc \<or> fails \<Longrightarrow>
    pthread_mutex_lock alloc (Some t) (Some (once_mutex (oy_ctl s))) = Ret (MWait, Some h) \<Longrightarrow>
    once_step fails s (once_goto t OAsleep h s)"
| o_wake: "oy_pc s t = OAsleep \<Longrightarrow> once_mutex (oy_ctl s) = Some m \<Longrightarrow> e \<noteq> ETIMEDOUT \<Longrightarrow>
    mutex_lock_wake (Some t) m e = (r, m') \<Longrightarrow>
    once_step fails s (once_goto t (if r = MWait then OAsleep else OCheck) (Some m') s)"
| o_first: "oy_pc s t = OCheck \<Longrightarrow> once_state (oy_ctl s) = PTHREAD_NEEDS_INIT \<Longrightarrow>
    once_step fails s (s\<lparr>oy_pc := (oy_pc s)(t := ORun), oy_started := Suc (oy_started s)\<rparr>)"
| o_later: "oy_pc s t = OCheck \<Longrightarrow> once_state (oy_ctl s) \<noteq> PTHREAD_NEEDS_INIT \<Longrightarrow>
    once_step fails s (s\<lparr>oy_pc := (oy_pc s)(t := OUnlock)\<rparr>)"
| o_routine: "oy_pc s t = ORun \<Longrightarrow>
    once_step fails s (s\<lparr>oy_pc := (oy_pc s)(t := OStore), oy_finished := Suc (oy_finished s)\<rparr>)"
| o_store: "oy_pc s t = OStore \<Longrightarrow>
    once_step fails s (s\<lparr>oy_ctl := (oy_ctl s)\<lparr>once_state := PTHREAD_DONE_INIT\<rparr>, oy_pc := (oy_pc s)(t := OUnlock)\<rparr>)"
| o_unlock: "oy_pc s t = OUnlock \<Longrightarrow>
    pthread_mutex_unlock (Some t) (Some (once_mutex (oy_ctl s))) = Ret (e, Some h, w) \<Longrightarrow>
    once_step fails s (once_goto t OIdle h (s\<lparr>oy_returned := Suc (oy_returned s)\<rparr>))"

definition once_inside :: "once_sys \<Rightarrow> tid set" where
  "once_inside s = {t. oy_pc s t \<in> {OCheck, ORun, OStore, OUnlock}}"

text \<open>The mutex is owned by exactly the thread between its lock and unlock.\<close>

definition once_excl :: "once_sys \<Rightarrow> bool" where
  "once_excl s \<longleftrightarrow>
     (case once_mutex (oy_ctl s) of
        None \<Rightarrow> once_inside s = {}
      | Some m \<Rightarrow> mutex_wf m \<and> mtx_type m = PTHREAD_MUTEX_DEFAULT
          \<and> once_inside s = (case mtx_owner m of None \<Rightarrow> {} | Some t \<Rightarrow> {t}))"

definition once_at :: "once_pc \<Rightarrow> once_sys \<Rightarrow> tid set" where
  "once_at pc s = {t. oy_pc s t = pc}"

definition once_count :: "once_sys \<Rightarrow> bool" where
  "once_count s \<longleftrightarrow>
     (if once_state (oy_ctl s) = PTHREAD_NEEDS_INIT
      then oy_returned s = 0 \<and> once_at OUnlock s = {}
        \<and> oy_started s = (if once_at ORun s = {} \<and> once_at OStore s = {} then 0 else 1)
        \<and> oy_finished s = (if once_at OStore s = {} then 0 else 1)
      else once_state (oy_ctl s) = PTHREAD_DONE_INIT \<and> oy_started s = 1 \<and> oy_finished s = 1
        \<and> once_at ORun s = {} \<and> once_at OStore s = {})"

definition once_inv :: "once_sys \<Rightarrow> bool" where
  "once_inv s \<longleftrightarrow> once_excl s \<and> once_count s"

lemma once_start_inv: "once_start s \<Longrightarrow> once_inv s"
  by (simp add: once_start_def once_inv_def once_excl_def once_count_def once_inside_def once_at_def once_init_def)

text \<open>The mutex calls on the control's mutex.\<close>

lemma once_lock_cases:
  assumes "pthread_mutex_lock True (Some t) (Some h) = Ret (r, Some h')"
    and "\<And>m. h = Some m \<Longrightarrow> mutex_wf m \<and> mtx_type m = PTHREAD_MUTEX_DEFAULT \<and> mtx_owner m \<noteq> Some t"
  shows "\<exists>m'. h' = Some m' \<and> mutex_wf m' \<and> mtx_type m' = PTHREAD_MUTEX_DEFAULT
     \<and> (if r = MWait then (\<exists>m. h = Some m \<and> mtx_owner m' = mtx_owner m) else
          mtx_owner m' = Some t \<and> (\<forall>m. h = Some m \<longrightarrow> mtx_owner m = None))"
proof (cases h)
  case None
  with assms(1) show ?thesis by (auto simp: mutex_defs mutex_wf_def Let_def)
next
  case (Some m)
  with assms show ?thesis
    by (auto simp: mutex_defs mutex_wf_def Let_def split: if_splits)
qed

lemma once_wake_cases:
  assumes "mutex_lock_wake (Some t) m e = (r, m')" "e \<noteq> ETIMEDOUT" "mutex_wf m" "mtx_type m = PTHREAD_MUTEX_DEFAULT"
  shows "mutex_wf m' \<and> mtx_type m' = PTHREAD_MUTEX_DEFAULT
     \<and> (if r = MWait then mtx_owner m' = mtx_owner m else mtx_owner m' = Some t \<and> mtx_owner m = None)"
  using assms by (auto simp: mutex_lock_wake_def mutex_wf_def Let_def split: if_splits)

lemma once_unlock_cases:
  assumes "pthread_mutex_unlock (Some t) (Some (Some m)) = Ret (e, Some h, w)"
    and "mutex_wf m" "mtx_type m = PTHREAD_MUTEX_DEFAULT" "mtx_owner m = Some t"
  shows "\<exists>m'. h = Some m' \<and> mutex_wf m' \<and> mtx_type m' = PTHREAD_MUTEX_DEFAULT \<and> mtx_owner m' = None"
  using assms by (auto simp: mutex_defs mutex_wf_def Let_def split: if_splits)

lemma once_inside_simps [simp]:
  "once_inside (s\<lparr>oy_ctl := c\<rparr>) = once_inside s" "once_inside (s\<lparr>oy_started := a\<rparr>) = once_inside s"
  "once_inside (s\<lparr>oy_finished := b\<rparr>) = once_inside s" "once_inside (s\<lparr>oy_returned := d\<rparr>) = once_inside s"
  by (simp_all add: once_inside_def)

lemma once_inside_goto:
  "once_inside (once_goto t pc h s)
     = (if pc \<in> {OCheck, ORun, OStore, OUnlock} then insert t (once_inside s) else once_inside s - {t})"
  by (auto simp: once_inside_def once_goto_def)

lemma once_goto_ctl [simp]:
  "once_mutex (oy_ctl (once_goto t pc h s)) = h" "once_state (oy_ctl (once_goto t pc h s)) = once_state (oy_ctl s)"
  "oy_pc (once_goto t pc h s) = (oy_pc s)(t := pc)" "oy_started (once_goto t pc h s) = oy_started s"
  "oy_finished (once_goto t pc h s) = oy_finished s" "oy_returned (once_goto t pc h s) = oy_returned s"
  by (simp_all add: once_goto_def)

lemma once_excl_not_owner:
  "once_excl s \<Longrightarrow> t \<notin> once_inside s \<Longrightarrow> once_mutex (oy_ctl s) = Some m \<Longrightarrow>
   mutex_wf m \<and> mtx_type m = PTHREAD_MUTEX_DEFAULT \<and> mtx_owner m \<noteq> Some t"
  by (auto simp: once_excl_def)

lemma once_excl_owner:
  assumes "once_excl s" "t \<in> once_inside s"
  shows "\<exists>m. once_mutex (oy_ctl s) = Some m \<and> mutex_wf m \<and> mtx_type m = PTHREAD_MUTEX_DEFAULT
     \<and> mtx_owner m = Some t \<and> once_inside s = {t}"
  using assms by (auto simp: once_excl_def split: option.splits)

lemma once_excl_locked:
  assumes "once_excl s" "oy_pc s t = OLock"
    "pthread_mutex_lock True (Some t) (Some (once_mutex (oy_ctl s))) = Ret (r, Some h)"
  shows "once_excl (once_goto t (if r = MWait then OAsleep else OCheck) h s)"
    and "r \<noteq> MWait \<Longrightarrow> once_inside s = {}"
proof -
  have out: "t \<notin> once_inside s" using assms(2) by (simp add: once_inside_def)
  obtain m' where m': "h = Some m'" "mutex_wf m'" "mtx_type m' = PTHREAD_MUTEX_DEFAULT"
    "if r = MWait then (\<exists>m. once_mutex (oy_ctl s) = Some m \<and> mtx_owner m' = mtx_owner m)
     else mtx_owner m' = Some t \<and> (\<forall>m. once_mutex (oy_ctl s) = Some m \<longrightarrow> mtx_owner m = None)"
    using once_lock_cases [OF assms(3) once_excl_not_owner [OF assms(1) out]] by blast
  show "once_excl (once_goto t (if r = MWait then OAsleep else OCheck) h s)"
    using m' out assms(1)
    by (auto simp: once_excl_def once_inside_goto split: if_splits option.splits)
  show "once_inside s = {}" if "r \<noteq> MWait"
    using that m' assms(1) by (auto simp: once_excl_def split: option.splits)
qed

lemma once_excl_woken:
  assumes "once_excl s" "oy_pc s t = OAsleep" "once_mutex (oy_ctl s) = Some m" "e \<noteq> ETIMEDOUT"
    "mutex_lock_wake (Some t) m e = (r, m')"
  shows "once_excl (once_goto t (if r = MWait then OAsleep else OCheck) (Some m') s)"
    and "r \<noteq> MWait \<Longrightarrow> once_inside s = {}"
proof -
  have out: "t \<notin> once_inside s" using assms(2) by (simp add: once_inside_def)
  have m: "mutex_wf m" "mtx_type m = PTHREAD_MUTEX_DEFAULT"
    using once_excl_not_owner [OF assms(1) out assms(3)] by auto
  note w = once_wake_cases [OF assms(5,4) m]
  show "once_excl (once_goto t (if r = MWait then OAsleep else OCheck) (Some m') s)"
    using w out assms(1,3) by (auto simp: once_excl_def once_inside_goto split: if_splits option.splits)
  show "once_inside s = {}" if "r \<noteq> MWait"
    using that w assms(1,3) by (auto simp: once_excl_def)
qed

lemma once_excl_unlocked:
  assumes "once_excl s" "oy_pc s t = OUnlock"
    "pthread_mutex_unlock (Some t) (Some (once_mutex (oy_ctl s))) = Ret (e, Some h, w)"
  shows "once_excl (once_goto t OIdle h s)"
proof -
  obtain m where m: "once_mutex (oy_ctl s) = Some m" "mutex_wf m" "mtx_type m = PTHREAD_MUTEX_DEFAULT"
    "mtx_owner m = Some t" "once_inside s = {t}"
    using once_excl_owner [OF assms(1), of t] assms(2) by (auto simp: once_inside_def)
  obtain m' where "h = Some m'" "mutex_wf m'" "mtx_type m' = PTHREAD_MUTEX_DEFAULT" "mtx_owner m' = None"
    using once_unlock_cases [OF _ m(2-4)] assms(3) m(1) by metis
  with m(5) show ?thesis by (simp add: once_excl_def once_inside_goto)
qed

text \<open>A thread that moves among the points between lock and unlock is the only one there.\<close>

lemma once_excl_move:
  assumes "once_excl s" "oy_pc s t \<in> {OCheck, ORun, OStore, OUnlock}" "oy_pc s' = (oy_pc s)(t := pc)"
    "pc \<in> {OCheck, ORun, OStore, OUnlock}" "once_mutex (oy_ctl s') = once_mutex (oy_ctl s)"
  shows "once_excl s'"
proof -
  have t: "t \<in> once_inside s" using assms(2) by (simp add: once_inside_def)
  have "once_inside s' = insert t (once_inside s)" using assms(2,3,4) by (auto simp: once_inside_def)
  with t have "once_inside s' = once_inside s" by (simp add: insert_absorb)
  with assms(1,5) show ?thesis by (auto simp: once_excl_def split: option.splits)
qed

lemma once_at_upd [simp]:
  "oy_pc s' = (oy_pc s)(t := pc) \<Longrightarrow> once_at x s' = (if x = pc then insert t (once_at x s) else once_at x s - {t})"
  by (auto simp: once_at_def)

lemma once_at_other [simp]: "oy_pc s t \<noteq> x \<Longrightarrow> once_at x s - {t} = once_at x s"
  by (auto simp: once_at_def)

lemma once_alone:
  assumes "once_excl s" "t \<in> once_inside s"
  shows "x \<in> {OCheck, ORun, OStore, OUnlock} \<Longrightarrow> once_at x s = (if oy_pc s t = x then {t} else {})"
  using once_excl_owner [OF assms(1,2)] by (auto simp: once_inside_def once_at_def)

lemma once_returned [simp]:
  "once_goto t pc h (s\<lparr>oy_returned := n\<rparr>) = (once_goto t pc h s)\<lparr>oy_returned := n\<rparr>"
  "once_excl (s\<lparr>oy_returned := n\<rparr>) = once_excl s"
  by (simp_all add: once_goto_def once_excl_def split: option.split)

lemma once_step_excl:
  assumes "once_step False s s'" "once_excl s"
  shows "once_excl s'"
  using assms
proof (induction rule: once_step.induct)
  case (o_call s t)
  then have "once_inside (s\<lparr>oy_pc := (oy_pc s)(t := OLock)\<rparr>) = once_inside s"
    by (auto simp: once_inside_def)
  with o_call.prems show ?case by (auto simp: once_excl_def split: option.splits)
next
  case (o_lock s t alloc e h)
  then show ?case using once_excl_locked(1) [of s t "MRet e" h] by simp
next
  case (o_sleep s t alloc h)
  then show ?case using once_excl_locked(1) [of s t MWait h] by simp
next
  case (o_wake s t m e r m')
  then show ?case using once_excl_woken(1) [of s t m e r m'] by simp
next
  case (o_unlock s t e h w)
  then have "once_excl (once_goto t OIdle h s)" by (blast intro: once_excl_unlocked)
  then show ?case by simp
next
  case (o_first s t)
  then show ?case by (auto elim!: once_excl_move [of s t _ ORun])
next
  case (o_later s t)
  then show ?case by (auto elim!: once_excl_move [of s t _ OUnlock])
next
  case (o_routine s t)
  then show ?case by (auto elim!: once_excl_move [of s t _ OStore])
next
  case (o_store s t)
  then show ?case by (auto elim!: once_excl_move [of s t _ OUnlock])
qed

lemma once_step_count:
  assumes "once_step False s s'" "once_inv s"
  shows "once_count s'"
proof -
  have ex: "once_excl s" and cnt: "once_count s" using assms(2) by (simp_all add: once_inv_def)
  have in_at: "oy_pc s t \<in> {OCheck, ORun, OStore, OUnlock} \<Longrightarrow> x \<in> {ORun, OStore, OUnlock} \<Longrightarrow>
      once_at x s = (if oy_pc s t = x then {t} else {})" for t x
    using once_alone [OF ex, of t x] by (auto simp: once_inside_def)
  from assms(1) show ?thesis
  proof cases
    case (o_call t)
    with cnt show ?thesis by (simp add: once_count_def once_at_upd [of _ s t])
  next
    case (o_lock t alloc e h)
    with cnt show ?thesis by (simp add: once_count_def once_at_upd [of _ s t])
  next
    case (o_sleep t alloc h)
    with cnt show ?thesis by (simp add: once_count_def once_at_upd [of _ s t])
  next
    case (o_wake t m e r m')
    with cnt show ?thesis by (simp add: once_count_def once_at_upd [of _ s t])
  next
    case (o_first t)
    with in_at [of t] cnt show ?thesis by (simp add: once_count_def once_at_upd [of _ s t])
  next
    case (o_later t)
    with in_at [of t] cnt show ?thesis by (simp add: once_count_def once_at_upd [of _ s t] split: if_splits)
  next
    case (o_routine t)
    with in_at [of t] cnt show ?thesis by (simp add: once_count_def once_at_upd [of _ s t] split: if_splits)
  next
    case (o_store t)
    with in_at [of t] cnt show ?thesis by (simp add: once_count_def once_at_upd [of _ s t] split: if_splits)
  next
    case (o_unlock t e h w)
    with in_at [of t] cnt show ?thesis by (simp add: once_count_def once_at_upd [of _ s t] split: if_splits)
  qed
qed

interpretation once: transition_system once_start "once_step False" once_inv
proof
  show "once_inv s'" if "once_inv s" "once_step False s s'" for s s'
    using that once_step_excl [of s s'] once_step_count [of s s'] by (simp add: once_inv_def)
qed (rule once_start_inv)

section \<open>Runs of two threads\<close>

text \<open>A state in which every thread but 0 and 1 is outside.\<close>

definition once_pcs :: "once_pc \<Rightarrow> once_pc \<Rightarrow> tid \<Rightarrow> once_pc" where
  "once_pcs p q = (\<lambda>_. OIdle)(0 := p, 1 := q)"

definition once_two :: "int \<Rightarrow> pthread_mutex option \<Rightarrow> once_pc \<Rightarrow> once_pc \<Rightarrow> nat \<Rightarrow> nat \<Rightarrow> nat \<Rightarrow> once_sys" where
  "once_two st h p q a b c =
     \<lparr>oy_ctl = \<lparr>once_state = st, once_mutex = h\<rparr>, oy_pc = once_pcs p q,
      oy_started = a, oy_finished = b, oy_returned = c\<rparr>"

lemma once_pcs_simps [simp]:
  "once_pcs p q 0 = p" "once_pcs p q (Suc 0) = q"
  "(once_pcs p q)(0 := p') = once_pcs p' q" "(once_pcs p q)(Suc 0 := q') = once_pcs p q'"
  by (simp_all add: once_pcs_def fun_upd_twist)

lemma once_two_simps [simp]:
  "oy_ctl (once_two st h p q a b c) = \<lparr>once_state = st, once_mutex = h\<rparr>"
  "oy_pc (once_two st h p q a b c) = once_pcs p q" "oy_started (once_two st h p q a b c) = a"
  "oy_finished (once_two st h p q a b c) = b" "oy_returned (once_two st h p q a b c) = c"
  "(once_two st h p q a b c)\<lparr>oy_ctl := \<lparr>once_state = st', once_mutex = h'\<rparr>\<rparr> = once_two st' h' p q a b c"
  "(once_two st h p q a b c)\<lparr>oy_pc := once_pcs p' q'\<rparr> = once_two st h p' q' a b c"
  "(once_two st h p q a b c)\<lparr>oy_started := a'\<rparr> = once_two st h p q a' b c"
  "(once_two st h p q a b c)\<lparr>oy_finished := b'\<rparr> = once_two st h p q a b' c"
  "(once_two st h p q a b c)\<lparr>oy_returned := c'\<rparr> = once_two st h p q a b c'"
  by (simp_all add: once_two_def)

lemma once_two_goto [simp]:
  "once_goto 0 p' h' (once_two st h p q a b c) = once_two st h' p' q a b c"
  "once_goto (Suc 0) q' h' (once_two st h p q a b c) = once_two st h' p q' a b c"
  by (simp_all add: once_two_def once_goto_def)

abbreviation once_reach :: "bool \<Rightarrow> once_sys \<Rightarrow> bool" where
  "once_reach fails \<equiv> reach once_start (once_step fails)"

text \<open>The calls of both threads, and the moves of thread 0 through the routine.\<close>

lemma once_two_called: "once_reach fails (once_two 0 None OLock OLock 0 0 0)"
proof -
  have "once_reach fails (once_two 0 None OIdle OIdle 0 0 0)"
    by (rule reach.reach_init) (simp add: once_start_def once_two_def once_pcs_def once_init_def fun_upd_idem)
  moreover have "once_step fails (once_two 0 None OIdle OIdle 0 0 0) (once_two 0 None OLock OIdle 0 0 0)"
    using once_step.o_call [of "once_two 0 None OIdle OIdle 0 0 0" 0 fails] by simp
  moreover have "once_step fails (once_two 0 None OLock OIdle 0 0 0) (once_two 0 None OLock OLock 0 0 0)"
    using once_step.o_call [of "once_two 0 None OLock OIdle 0 0 0" 1 fails] by simp
  ultimately show ?thesis by (meson reach.reach_step)
qed

text \<open>Memory is short: both calls of \<open>pthread_mutex_lock\<close> fail, and both threads run the routine.\<close>

lemma once_two_running: "once_reach True (once_two 0 None ORun ORun 2 0 0)"
proof -
  let ?S = "\<lambda>p q a. once_two 0 None p q a 0 0"
  have fail: "pthread_mutex_lock False (Some t) (Some None) = Ret (MRet EINVAL, Some None)" for t
    by (simp add: mutex_defs)
  have "once_step True (?S OLock OLock 0) (?S OCheck OLock 0)"
    using once_step.o_lock [of "?S OLock OLock 0" 0 False True EINVAL None] fail
    by simp
  moreover have "once_step True (?S OCheck OLock 0) (?S OCheck OCheck 0)"
    using once_step.o_lock [of "?S OCheck OLock 0" 1 False True EINVAL None] fail
    by simp
  moreover have "once_step True (?S OCheck OCheck 0) (?S ORun OCheck 1)"
    using once_step.o_first [of "?S OCheck OCheck 0" 0 True] by simp
  moreover have "once_step True (?S ORun OCheck 1) (?S ORun ORun 2)"
    using once_step.o_first [of "?S ORun OCheck 1" 1 True] by (simp add: numeral_2_eq_2)
  ultimately show ?thesis using once_two_called [of True] by (meson reach.reach_step)
qed

text \<open>Thread 1 finds the mutex taken and sleeps while thread 0 runs the routine and returns.\<close>

definition once_held :: "int \<Rightarrow> pthread_t \<Rightarrow> pthread_mutex" where
  "once_held l ow = \<lparr>mtx_lock = l, mtx_type = PTHREAD_MUTEX_DEFAULT, mtx_owner = ow, mtx_count = 0, prioceiling = - 1\<rparr>"

lemma once_two_asleep: "once_reach False (once_two 0 (Some (once_held CONTENDED (Some 0))) OCheck OAsleep 0 0 0)"
proof -
  let ?S = "\<lambda>h p q. once_two 0 h p q 0 0 0"
  have l0: "pthread_mutex_lock True (Some 0) (Some None) = Ret (MRet 0, Some (Some (once_held LOCKED (Some 0))))"
    by (simp add: mutex_defs once_held_def Let_def)
  have l1: "pthread_mutex_lock True (Some 1) (Some (Some (once_held LOCKED (Some 0))))
      = Ret (MWait, Some (Some (once_held CONTENDED (Some 0))))"
    by (simp add: mutex_defs once_held_def Let_def)
  have "once_step False (?S None OLock OLock) (?S (Some (once_held LOCKED (Some 0))) OCheck OLock)"
    using once_step.o_lock [of "?S None OLock OLock" 0 True False 0 "Some (once_held LOCKED (Some 0))"] l0
    by simp
  moreover have "once_step False (?S (Some (once_held LOCKED (Some 0))) OCheck OLock)
      (?S (Some (once_held CONTENDED (Some 0))) OCheck OAsleep)"
    using once_step.o_sleep [of "?S (Some (once_held LOCKED (Some 0))) OCheck OLock" 1 True False
        "Some (once_held CONTENDED (Some 0))"] l1
    by simp
  ultimately show ?thesis using once_two_called [of False] by (meson reach.reach_step)
qed

lemma once_two_returned:
  "once_reach False (once_two 1 (Some (once_held UNLOCKED None)) OIdle OAsleep 1 1 1)"
proof -
  let ?h = "Some (once_held CONTENDED (Some 0))"
  let ?S = "\<lambda>st h p. once_two st h p OAsleep"
  have u: "pthread_mutex_unlock (Some 0) (Some ?h) = Ret (0, Some (Some (once_held UNLOCKED None)), True)"
    by (simp add: mutex_defs once_held_def Let_def)
  have "once_step False (?S 0 ?h OCheck 0 0 0) (?S 0 ?h ORun 1 0 0)"
    using once_step.o_first [of "?S 0 ?h OCheck 0 0 0" 0 False] by simp
  moreover have "once_step False (?S 0 ?h ORun 1 0 0) (?S 0 ?h OStore 1 1 0)"
    using once_step.o_routine [of "?S 0 ?h ORun 1 0 0" 0 False] by simp
  moreover have "once_step False (?S 0 ?h OStore 1 1 0) (?S 1 ?h OUnlock 1 1 0)"
    using once_step.o_store [of "?S 0 ?h OStore 1 1 0" 0 False] by simp
  moreover have "once_step False (?S 1 ?h OUnlock 1 1 0) (?S 1 (Some (once_held UNLOCKED None)) OIdle 1 1 1)"
    using once_step.o_unlock [of "?S 1 ?h OUnlock 1 1 0" 0 0 "Some (once_held UNLOCKED None)" True False] u
    by simp
  ultimately show ?thesis using once_two_asleep by (meson reach.reach_step)
qed

section \<open>Properties\<close>

text \<open>
  C20: the routine runs exactly once, however the calls of any number of threads overlap. In every
  state they can reach while the mutex can be allocated, at most one thread is between the lock
  and the unlock, the routine was entered at most once and left at most once, and when a call has
  returned, or is about to (it stands before the unlock), the routine has run to its end and the
  state says so.
\<close>

theorem once_runs_once:
  assumes "reach once_start (once_step False) s"
  shows "(\<forall>t \<in> once_inside s. once_inside s = {t})
    \<and> oy_started s \<le> 1 \<and> oy_finished s \<le> oy_started s
    \<and> (oy_returned s = 0 \<and> once_at OUnlock s = {}
       \<or> oy_started s = 1 \<and> oy_finished s = 1 \<and> once_state (oy_ctl s) = PTHREAD_DONE_INIT)"
proof -
  have ex: "once_excl s" and cnt: "once_count s"
    using once.reach_inv [OF assms] by (simp_all add: once_inv_def)
  have "\<forall>t \<in> once_inside s. once_inside s = {t}" using once_excl_owner [OF ex] by blast
  then show ?thesis using cnt by (auto simp: once_count_def split: if_splits)
qed

theorem once_runs_once_witness:
  "\<exists>s. reach once_start (once_step False) s \<and> oy_returned s = 1 \<and> oy_pc s 1 = OAsleep
     \<and> oy_started s = 1 \<and> oy_finished s = 1 \<and> once_state (oy_ctl s) = PTHREAD_DONE_INIT"
proof -
  let ?s = "once_two 1 (Some (once_held UNLOCKED None)) OIdle OAsleep 1 1 1"
  have "oy_returned ?s = 1" "oy_pc ?s 1 = OAsleep" by simp_all
  with once_two_returned once_runs_once [OF once_two_returned] show ?thesis
    by (intro exI [of _ ?s]) simp
qed

text \<open>
  C21: the error number of \<open>pthread_mutex_lock\<close> is dropped, and with it the exclusion. When the
  statically initialised mutex of a fresh control cannot be allocated, the call returns
  \<open>EINVAL\<close> and \<open>pthread_once\<close> goes on: two threads can be in the routine at the same time.
\<close>

theorem once_runs_twice_without_memory:
  "\<exists>s. reach once_start (once_step True) s \<and> oy_pc s 0 = ORun \<and> oy_pc s 1 = ORun \<and> oy_started s = 2
     \<and> pthread_mutex_lock False (Some 0) (Some (once_mutex once_init)) = Ret (MRet EINVAL, Some (once_mutex once_init))"
  using once_two_running by (intro exI [of _ "once_two 0 None ORun ORun 2 0 0"])
    (simp add: mutex_defs once_init_def)

end
