(* ===== verification/Tls.thy ===== *)
theory Tls
  imports Rthread
begin

text \<open>
  Thread-specific storage (\<open>rthread_tls.c\<close>): keys, the per-thread list of values and the
  destructors a thread runs when it exits. Keys are C \<open>int\<close>s; \<open>rkeys\<close> has
  \<open>PTHREAD_KEYS_MAX\<close> entries in every state \<open>keys_wf\<close> describes.
\<close>

section \<open>Keys\<close>

definition key_at :: "rthread \<Rightarrow> nat \<Rightarrow> rthread_key" where
  "key_at rt i = rkeys rt ! i"

text \<open>The search loop: the first free key, if there is one.\<close>

fun find_free :: "rthread_key list \<Rightarrow> nat \<Rightarrow> nat option" where
  "find_free [] i = None"
| "find_free (k # ks) i = (if used k = 0 then Some i else find_free ks (i + 1))"

definition take_key :: "nat \<Rightarrow> ptr \<Rightarrow> rthread \<Rightarrow> int \<times> int option \<times> rthread" where
  "take_key i d rt =
     (0, Some (int i),
      rt\<lparr>rkeys := (rkeys rt)[i := \<lparr>used = 1, destructor = d\<rparr>],
         rkeys_hint := (if i + 1 \<ge> PTHREAD_KEYS_MAX then 0 else i + 1),
         rkeyslock := spinunlock (rkeyslock rt)\<rparr>)"

text \<open>\<open>pthread_key_create\<close>: the error number, the key stored, the state.\<close>

definition pthread_key_create :: "ptr \<Rightarrow> rthread \<Rightarrow> (int \<times> int option \<times> rthread) res" where
  "pthread_key_create d rt =
     bindR (spin (rkeyslock rt)) (\<lambda>k.
       let rt = rt\<lparr>rkeyslock := k\<rparr> in
       if used (key_at rt (rkeys_hint rt)) \<noteq> 0 then
         (case find_free (rkeys rt) 0 of
            None \<Rightarrow> Ret (EAGAIN, None, rt\<lparr>rkeyslock := spinunlock (rkeyslock rt)\<rparr>)
          | Some i \<Rightarrow> Ret (take_key i d rt))
       else Ret (take_key (rkeys_hint rt) d rt))"

definition clear_key :: "int \<Rightarrow> rthread_storage list \<Rightarrow> rthread_storage list" where
  "clear_key key = map (\<lambda>rs. if keyid rs = key then rs\<lparr>data := 0\<rparr> else rs)"

definition pthread_key_delete :: "int \<Rightarrow> rthread \<Rightarrow> (int \<times> rthread) res" where
  "pthread_key_delete key rt =
     (if key < 0 \<or> key \<ge> int PTHREAD_KEYS_MAX then Ret (EINVAL, rt)
      else bindR (spin (rkeyslock rt)) (\<lambda>k.
        let rt = rt\<lparr>rkeyslock := k\<rparr> in
        if used (key_at rt (nat key)) = 0
        then Ret (EINVAL, rt\<lparr>rkeyslock := spinunlock (rkeyslock rt)\<rparr>)
        else bindR (deref rt (Some INITIAL)) (\<lambda>(t, th).
          let rt = rt\<lparr>rkeys := (rkeys rt)[nat key := \<lparr>used = 0, destructor = 0\<rparr>]\<rparr>;
              rt = put t (th\<lparr>local_storage := clear_key key (local_storage th)\<rparr>) rt
          in Ret (0, rt\<lparr>rkeyslock := spinunlock (rkeyslock rt)\<rparr>))))"

section \<open>Values\<close>

definition lookup_storage :: "int \<Rightarrow> rthread_storage list \<Rightarrow> rthread_storage option" where
  "lookup_storage key = find (\<lambda>rs. keyid rs = key)"

text \<open>\<open>_rthread_findstorage\<close>: the node found or added, \<open>None\<close> for \<open>NULL\<close>.\<close>

definition rthread_findstorage ::
  "bool \<Rightarrow> pthread_t \<Rightarrow> int \<Rightarrow> rthread \<Rightarrow> (rthread \<times> rthread_storage option) res" where
  "rthread_findstorage alloc self key rt =
     (if used (key_at rt (nat key)) = 0 then Ret (rt, None)
      else bindR (deref rt self) (\<lambda>(t, th).
        case lookup_storage key (local_storage th) of
          Some rs \<Rightarrow> Ret (rt, Some rs)
        | None \<Rightarrow>
            if \<not> alloc then Ret (rt, None)
            else let rs = \<lparr>keyid = key, data = 0\<rparr>
                 in Ret (put t (th\<lparr>local_storage := rs # local_storage th\<rparr>) rt, Some rs)))"

definition pthread_getspecific :: "bool \<Rightarrow> pthread_t \<Rightarrow> int \<Rightarrow> rthread \<Rightarrow> (ptr \<times> rthread) res" where
  "pthread_getspecific alloc self key rt =
     (if key < 0 \<or> key \<ge> int PTHREAD_KEYS_MAX then Ret (0, rt)
      else bindR (rthread_findstorage alloc self key rt) (\<lambda>(rt, rs).
        case rs of None \<Rightarrow> Ret (0, rt) | Some rs \<Rightarrow> Ret (data rs, rt)))"

text \<open>\<open>rs->data = v\<close> through the node that \<open>_rthread_findstorage\<close> returned.\<close>

fun set_storage :: "int \<Rightarrow> ptr \<Rightarrow> rthread_storage list \<Rightarrow> rthread_storage list" where
  "set_storage key v [] = []"
| "set_storage key v (rs # rest) =
     (if keyid rs = key then rs\<lparr>data := v\<rparr> # rest else rs # set_storage key v rest)"

definition pthread_setspecific :: "bool \<Rightarrow> pthread_t \<Rightarrow> int \<Rightarrow> ptr \<Rightarrow> rthread \<Rightarrow> (int \<times> rthread) res" where
  "pthread_setspecific alloc self key v rt =
     (if key < 0 \<or> key \<ge> int PTHREAD_KEYS_MAX then Ret (EINVAL, rt)
      else bindR (rthread_findstorage alloc self key rt) (\<lambda>(rt, rs).
        case rs of
          None \<Rightarrow> Ret (ENOMEM, rt)
        | Some _ \<Rightarrow> bindR (deref rt self) (\<lambda>(t, th).
            Ret (0, put t (th\<lparr>local_storage := set_storage key v (local_storage th)\<rparr>) rt))))"

section \<open>Destructors\<close>

text \<open>
  One pass over the list. A destructor may add nodes, which go to the front, so the pass is
  counted from the end: \<open>n\<close> nodes are left, the current one is the first of the last \<open>n\<close>.
  Fewer nodes than that means the current one was freed.
\<close>

fun tls_pass :: "'w app_call \<Rightarrow> pthread_t \<Rightarrow> nat \<Rightarrow> rthread \<times> 'w \<Rightarrow> (rthread \<times> 'w) res" where
  "tls_pass call self 0 s = Ret s"
| "tls_pass call self (Suc n) (rt, w) =
     bindR (deref rt self) (\<lambda>(t, th).
       if length (local_storage th) < Suc n then Crash
       else let i = length (local_storage th) - Suc n; rs = local_storage th ! i;
                d = destructor (key_at rt (nat (keyid rs))) in
         if data rs = 0 \<or> d = 0 then tls_pass call self n (rt, w)
         else let rt = put t (th\<lparr>local_storage := (local_storage th)[i := rs\<lparr>data := 0\<rparr>]\<rparr>) rt;
                  rt = rt\<lparr>rkeyslock := spinunlock (rkeyslock rt)\<rparr> in
           bindR (call d (data rs) (rt, w)) (\<lambda>(rt, w).
             bindR (spin (rkeyslock rt)) (\<lambda>k. tls_pass call self n (rt\<lparr>rkeyslock := k\<rparr>, w))))"

abbreviation (input) PTHREAD_DESTRUCTOR_ITERATIONS :: nat where "PTHREAD_DESTRUCTOR_ITERATIONS \<equiv> 4"

fun tls_passes :: "nat \<Rightarrow> 'w app_call \<Rightarrow> pthread_t \<Rightarrow> rthread \<times> 'w \<Rightarrow> (rthread \<times> 'w) res" where
  "tls_passes 0 call self s = Ret s"
| "tls_passes (Suc m) call self (rt, w) =
     bindR (deref rt self) (\<lambda>(t, th).
       bindR (tls_pass call self (length (local_storage th)) (rt, w)) (tls_passes m call self))"

definition rthread_tls_destructors :: "'w app_call \<Rightarrow> pthread_t \<Rightarrow> rthread \<times> 'w \<Rightarrow> (rthread \<times> 'w) res" where
  "rthread_tls_destructors call self = (\<lambda>(rt, w).
     bindR (spin (rkeyslock rt)) (\<lambda>k.
       bindR (tls_passes PTHREAD_DESTRUCTOR_ITERATIONS call self (rt\<lparr>rkeyslock := k\<rparr>, w)) (\<lambda>(rt, w).
         bindR (deref rt self) (\<lambda>(t, th).
           let rt = put t (th\<lparr>local_storage := []\<rparr>) rt in
           Ret (rt\<lparr>rkeyslock := spinunlock (rkeyslock rt)\<rparr>, w)))))"

section \<open>Keys: lemmas\<close>

definition keys_wf :: "rthread \<Rightarrow> bool" where
  "keys_wf rt \<longleftrightarrow> length (rkeys rt) = PTHREAD_KEYS_MAX \<and> rkeys_hint rt < PTHREAD_KEYS_MAX
     \<and> rkeyslock rt = ATOMIC_LOCK_UNLOCKED"

definition key_used :: "rthread \<Rightarrow> nat \<Rightarrow> bool" where
  "key_used rt i \<longleftrightarrow> i < PTHREAD_KEYS_MAX \<and> used (key_at rt i) \<noteq> 0"

lemma find_free_Some:
  "find_free ks i = Some j \<Longrightarrow> i \<le> j \<and> j < i + length ks \<and> used (ks ! (j - i)) = 0"
  by (induction ks i rule: find_free.induct)
    (auto split: if_splits simp: nth_Cons' Suc_diff_le)

lemma find_free_None: "find_free ks i = None \<longleftrightarrow> (\<forall>k \<in> set ks. used k \<noteq> 0)"
  by (induction ks i rule: find_free.induct) auto

lemma key_create_cases:
  assumes "keys_wf rt"
  shows "(\<exists>i rt'. i < PTHREAD_KEYS_MAX \<and> \<not> key_used rt i \<and> pthread_key_create d rt = Ret (0, Some (int i), rt')
            \<and> keys_wf rt' \<and> key_at rt' i = \<lparr>used = 1, destructor = d\<rparr>
            \<and> (\<forall>j. j \<noteq> i \<longrightarrow> key_at rt' j = key_at rt j) \<and> threads rt' = threads rt)
       \<or> (\<forall>i < PTHREAD_KEYS_MAX. key_used rt i) \<and> pthread_key_create d rt = Ret (EAGAIN, None, rt)"
proof (cases "used (key_at rt (rkeys_hint rt)) \<noteq> 0 \<and> find_free (rkeys rt) 0 = None")
  case True
  then have "\<forall>i < PTHREAD_KEYS_MAX. key_used rt i"
    using assms by (auto simp: find_free_None keys_wf_def key_used_def key_at_def)
  with True assms show ?thesis by (auto simp: pthread_key_create_def keys_wf_def key_at_def Let_def)
next
  case False
  obtain i where i: "i < PTHREAD_KEYS_MAX" "used (key_at rt i) = 0"
    "pthread_key_create d rt = Ret (take_key i d (rt\<lparr>rkeyslock := ATOMIC_LOCK_LOCKED\<rparr>))"
  proof (cases "used (key_at rt (rkeys_hint rt)) = 0")
    case True
    then show ?thesis using assms
      by (intro that [of "rkeys_hint rt"]) (simp_all add: pthread_key_create_def keys_wf_def key_at_def)
  next
    case used: False
    with False obtain j where "find_free (rkeys rt) 0 = Some j" by auto
    with used assms show ?thesis
      using find_free_Some [of "rkeys rt" 0 j]
      by (intro that [of j]) (simp_all add: pthread_key_create_def keys_wf_def key_at_def)
  qed
  with assms show ?thesis
    by (intro disjI1 exI [of _ i]) (auto simp: take_key_def keys_wf_def key_used_def key_at_def)
qed

lemma key_create_None:
  "keys_wf rt \<Longrightarrow> pthread_key_create d rt = Ret (e, None, rt') \<Longrightarrow>
   e = EAGAIN \<and> rt' = rt \<and> (\<forall>i < PTHREAD_KEYS_MAX. key_used rt i)"
  using key_create_cases [of rt d] by auto

section \<open>Values: lemmas\<close>

lemma lookup_set_storage:
  "lookup_storage k (set_storage key v xs) =
     (if k = key then map_option (\<lambda>rs. rs\<lparr>data := v\<rparr>) (lookup_storage k xs) else lookup_storage k xs)"
  by (induction xs) (auto simp: lookup_storage_def)

lemma lookup_storage_Cons [simp]:
  "lookup_storage key (rs # xs) = (if keyid rs = key then Some rs else lookup_storage key xs)"
  by (simp add: lookup_storage_def)

text \<open>The value a thread has stored under a key, 0 when it has stored none.\<close>

definition storage_value :: "rthread_storage list \<Rightarrow> int \<Rightarrow> ptr" where
  "storage_value xs key = (case lookup_storage key xs of None \<Rightarrow> 0 | Some rs \<Rightarrow> data rs)"

definition tls_value :: "rthread \<Rightarrow> tid \<Rightarrow> int \<Rightarrow> ptr" where
  "tls_value rt t =
     (case threads rt t of None \<Rightarrow> (\<lambda>_. 0) | Some th \<Rightarrow> storage_value (local_storage th))"

lemma tls_value_put [simp]: "tls_value (put t th rt) = (tls_value rt)(t := storage_value (local_storage th))"
  by (auto simp: tls_value_def fun_eq_iff)

lemma tls_value_thread: "threads rt t = Some th \<Longrightarrow> tls_value rt t = storage_value (local_storage th)"
  by (simp add: tls_value_def)

lemma storage_value_new:
  "lookup_storage key xs = None \<Longrightarrow> storage_value (\<lparr>keyid = key, data = 0\<rparr> # xs) = storage_value xs"
  by (auto simp: storage_value_def fun_eq_iff)

lemma storage_value_set:
  "lookup_storage key xs \<noteq> None \<Longrightarrow>
   storage_value (set_storage key v xs) = (storage_value xs)(key := v)"
  by (auto simp: storage_value_def lookup_set_storage fun_eq_iff split: option.splits)

text \<open>What \<open>_rthread_findstorage\<close> promises its callers when \<open>calloc\<close> succeeds.\<close>

lemma findstorage_spec:
  assumes "threads rt t = Some th" "used (key_at rt (nat key)) \<noteq> 0"
  shows "\<exists>xs rs. rthread_findstorage True (Some t) key rt = Ret (put t (th\<lparr>local_storage := xs\<rparr>) rt, Some rs)
     \<and> lookup_storage key xs = Some rs \<and> storage_value xs = storage_value (local_storage th)"
proof (cases "lookup_storage key (local_storage th)")
  case None
  then show ?thesis using assms
    by (intro exI [of _ "\<lparr>keyid = key, data = 0\<rparr> # local_storage th"])
      (simp add: rthread_findstorage_def storage_value_new Let_def)
next
  case (Some rs)
  moreover have "put t (th\<lparr>local_storage := local_storage th\<rparr>) rt = rt"
    using assms by (simp add: put_def map_upd_triv)
  ultimately show ?thesis using assms
    by (intro exI [of _ "local_storage th"] exI [of _ rs]) (simp add: rthread_findstorage_def)
qed

lemma getspecific_value:
  assumes "threads rt t = Some th" "0 \<le> key" "key_used rt (nat key)"
  shows "\<exists>rt'. pthread_getspecific True (Some t) key rt = Ret (tls_value rt t key, rt')
     \<and> tls_value rt' = tls_value rt \<and> rkeys rt' = rkeys rt \<and> dom (threads rt') = dom (threads rt)"
proof -
  obtain xs rs where "rthread_findstorage True (Some t) key rt = Ret (put t (th\<lparr>local_storage := xs\<rparr>) rt, Some rs)"
    and "lookup_storage key xs = Some rs" and xs: "storage_value xs = storage_value (local_storage th)"
    using findstorage_spec [OF assms(1), of key] assms(3) by (auto simp: key_used_def)
  moreover from this(2) have "storage_value xs key = data rs" by (simp add: storage_value_def)
  ultimately show ?thesis using assms
    by (auto simp: pthread_getspecific_def key_used_def nat_less_iff tls_value_thread)
qed

lemma setspecific_value:
  assumes "threads rt t = Some th" "0 \<le> key" "key_used rt (nat key)"
  shows "\<exists>rt'. pthread_setspecific True (Some t) key v rt = Ret (0, rt')
     \<and> tls_value rt' = (tls_value rt)(t := (tls_value rt t)(key := v))
     \<and> rkeys rt' = rkeys rt \<and> dom (threads rt') = dom (threads rt)"
proof -
  obtain xs rs where "rthread_findstorage True (Some t) key rt = Ret (put t (th\<lparr>local_storage := xs\<rparr>) rt, Some rs)"
    and "lookup_storage key xs = Some rs" and xs: "storage_value xs = storage_value (local_storage th)"
    using findstorage_spec [OF assms(1), of key] assms(3) by (auto simp: key_used_def)
  then show ?thesis using assms
    by (auto simp: pthread_setspecific_def key_used_def nat_less_iff tls_value_thread storage_value_set)
qed

text \<open>
  The interface the rest of a program uses, thread-specific storage as one cell per thread and
  key: what it reads back after a store, whatever other keys and threads do.
\<close>

locale specific_storage =
  fixes live :: "'s \<Rightarrow> 't \<Rightarrow> 'k \<Rightarrow> bool"
    and setter :: "'t \<Rightarrow> 'k \<Rightarrow> 'v \<Rightarrow> 's \<Rightarrow> 's"
    and getter :: "'t \<Rightarrow> 'k \<Rightarrow> 's \<Rightarrow> 'v"
  assumes live_set: "live s t k \<Longrightarrow> live (setter t k v s) t' k' = live s t' k'"
    and get_set: "live s t k \<Longrightarrow> live s t' k' \<Longrightarrow>
      getter t' k' (setter t k v s) = (if t' = t \<and> k' = k then v else getter t' k' s)"
begin

lemma live_after_sets:
  "(\<forall>(t', k', v') \<in> set ops. live s t' k') \<Longrightarrow>
   live (fold (\<lambda>(t', k', v'). setter t' k' v') ops s) u j = live s u j"
  by (induction ops arbitrary: u j rule: rev_induct) (auto simp: live_set)

lemma get_after_sets:
  "live s t k \<Longrightarrow> (\<forall>(t', k', v') \<in> set ops. live s t' k' \<and> (t', k') \<noteq> (t, k)) \<Longrightarrow>
   getter t k (fold (\<lambda>(t', k', v'). setter t' k' v') ops s) = getter t k s"
proof (induction ops rule: rev_induct)
  case (snoc op ops)
  have "live (fold (\<lambda>(t', k', v'). setter t' k' v') ops s) u j = live s u j" for u j
    by (rule live_after_sets) (use snoc.prems in auto)
  then show ?case using snoc by (auto simp: get_set)
qed simp

end

definition tls_live :: "rthread \<Rightarrow> tid \<Rightarrow> int \<Rightarrow> bool" where
  "tls_live rt t key \<longleftrightarrow> threads rt t \<noteq> None \<and> 0 \<le> key \<and> key_used rt (nat key)"

definition tls_set :: "tid \<Rightarrow> int \<Rightarrow> ptr \<Rightarrow> rthread \<Rightarrow> rthread" where
  "tls_set t key v rt =
     (case pthread_setspecific True (Some t) key v rt of Ret (_, rt') \<Rightarrow> rt' | _ \<Rightarrow> rt)"

definition tls_get :: "tid \<Rightarrow> int \<Rightarrow> rthread \<Rightarrow> ptr" where
  "tls_get t key rt =
     (case pthread_getspecific True (Some t) key rt of Ret (v, _) \<Rightarrow> v | _ \<Rightarrow> 0)"

lemma tls_get_value: "tls_live rt t key \<Longrightarrow> tls_get t key rt = tls_value rt t key"
  using getspecific_value [of rt t _ key] by (fastforce simp: tls_live_def tls_get_def)

lemma tls_set_value:
  assumes "tls_live rt t key"
  shows "tls_value (tls_set t key v rt) = (tls_value rt)(t := (tls_value rt t)(key := v))"
    and "tls_live (tls_set t key v rt) = tls_live rt"
proof -
  obtain th rt' where "threads rt t = Some th"
    and "pthread_setspecific True (Some t) key v rt = Ret (0, rt')"
    and *: "tls_value rt' = (tls_value rt)(t := (tls_value rt t)(key := v))"
      "rkeys rt' = rkeys rt" "dom (threads rt') = dom (threads rt)"
    using assms setspecific_value [of rt t _ key v] by (auto simp: tls_live_def)
  moreover from * have "(threads rt' u \<noteq> None) = (threads rt u \<noteq> None)" for u by blast
  ultimately show "tls_value (tls_set t key v rt) = (tls_value rt)(t := (tls_value rt t)(key := v))"
    and "tls_live (tls_set t key v rt) = tls_live rt"
    by (simp_all add: tls_set_def tls_live_def key_used_def key_at_def fun_eq_iff)
qed

interpretation tls: specific_storage tls_live tls_set tls_get
  by unfold_locales (auto simp: tls_set_value tls_get_value)

section \<open>Destructors: lemmas\<close>

text \<open>
  Two kinds of destructors, both recording each call with its argument: \<open>log_call\<close> leaves the
  library's state alone; \<open>store_call\<close> calls \<open>pthread_setspecific\<close> and stores \<open>next d v\<close> anew under
  the key \<open>key_of d\<close>.
\<close>

definition log_call :: "(ptr \<times> ptr) list app_call" where
  "log_call d v = (\<lambda>(rt, w). Ret (rt, w @ [(d, v)]))"

definition store_call :: "pthread_t \<Rightarrow> (ptr \<Rightarrow> int) \<Rightarrow> (ptr \<Rightarrow> ptr \<Rightarrow> ptr) \<Rightarrow> (ptr \<times> ptr) list app_call" where
  "store_call self key_of next d v = (\<lambda>(rt, w).
     bindR (pthread_setspecific True self (key_of d) (next d v) rt) (\<lambda>(_, rt). Ret (rt, w @ [(d, v)])))"

text \<open>A node's destructor; whether it is due a call; the calls of a pass; the list after it.\<close>

definition dtor :: "rthread \<Rightarrow> rthread_storage \<Rightarrow> ptr" where
  "dtor rt rs = destructor (key_at rt (nat (keyid rs)))"

definition due :: "rthread \<Rightarrow> rthread_storage \<Rightarrow> bool" where
  "due rt rs \<longleftrightarrow> data rs \<noteq> 0 \<and> dtor rt rs \<noteq> 0"

definition due_calls :: "rthread \<Rightarrow> rthread_storage list \<Rightarrow> (ptr \<times> ptr) list" where
  "due_calls rt xs = map (\<lambda>rs. (dtor rt rs, data rs)) (filter (due rt) xs)"

definition renewed ::
  "(ptr \<Rightarrow> ptr \<Rightarrow> ptr) \<Rightarrow> rthread \<Rightarrow> rthread_storage list \<Rightarrow> rthread_storage list" where
  "renewed next rt = map (\<lambda>rs. if due rt rs then rs\<lparr>data := next (dtor rt rs) (data rs)\<rparr> else rs)"

text \<open>The calls of \<open>m\<close> passes.\<close>

definition pass_calls ::
  "(ptr \<Rightarrow> ptr \<Rightarrow> ptr) \<Rightarrow> rthread \<Rightarrow> nat \<Rightarrow> rthread_storage list \<Rightarrow> (ptr \<times> ptr) list" where
  "pass_calls next rt m xs = concat (map (\<lambda>i. due_calls rt ((renewed next rt ^^ i) xs)) [0..<m])"

text \<open>Every node is a used key's, one node to a key, and each destructor stores under its own key.\<close>

definition own_keys :: "(ptr \<Rightarrow> int) \<Rightarrow> rthread \<Rightarrow> int list \<Rightarrow> bool" where
  "own_keys key_of rt ks \<longleftrightarrow> distinct ks \<and>
     (\<forall>k \<in> set ks. 0 \<le> k \<and> key_used rt (nat k) \<and> key_of (destructor (key_at rt (nat k))) = k)"

lemma key_at_put [simp]: "key_at (put t th rt) = key_at rt"
  by (simp add: key_at_def fun_eq_iff)

lemma key_at_lock [simp]: "key_at (rt\<lparr>rkeyslock := k\<rparr>) = key_at rt"
  by (simp add: key_at_def fun_eq_iff)

lemma same_keys:
  assumes "key_at rt' = key_at rt"
  shows "dtor rt' = dtor rt" "due rt' = due rt" "due_calls rt' = due_calls rt"
    "renewed next rt' = renewed next rt" "own_keys key_of rt' = own_keys key_of rt"
proof -
  show d: "dtor rt' = dtor rt" by (simp add: dtor_def assms fun_eq_iff)
  then show e: "due rt' = due rt" by (simp add: due_def fun_eq_iff)
  show "due_calls rt' = due_calls rt" by (simp add: due_calls_def d e fun_eq_iff)
  show "renewed next rt' = renewed next rt" by (simp add: renewed_def d e fun_eq_iff)
  show "own_keys key_of rt' = own_keys key_of rt"
    by (simp add: own_keys_def key_used_def assms fun_eq_iff)
qed

lemma due_calls_put [simp]: "due_calls (put t th rt) = due_calls rt"
  by (rule same_keys(3)) simp

lemma same_pass_calls:
  assumes "key_at rt' = key_at rt"
  shows "pass_calls next rt' = pass_calls next rt"
  by (simp add: pass_calls_def same_keys(3,4) [OF assms] fun_eq_iff)

lemma renewed_keys [simp]: "map keyid (renewed next rt xs) = map keyid xs"
  by (simp add: renewed_def)

lemma pass_calls_Suc: "pass_calls next rt (Suc m) xs = due_calls rt xs @ pass_calls next rt m (renewed next rt xs)"
proof -
  have "[0..<Suc m] = 0 # map Suc [0..<m]" by (simp add: map_Suc_upt upt_conv_Cons del: upt_Suc)
  then show ?thesis
    by (simp add: pass_calls_def comp_def funpow_swap1 del: upt_Suc)
qed

lemma pass_calls_0 [simp]: "pass_calls next rt 0 xs = []"
  by (simp add: pass_calls_def)

lemma not_due_renewed: "\<not> due rt rs" if "rs \<in> set (renewed (\<lambda>_ _. 0) rt xs)"
  using that by (auto simp: renewed_def due_def)

lemma pass_calls_settled: "due_calls rt xs = [] \<Longrightarrow> renewed next rt xs = xs"
  by (induction xs) (auto simp: due_calls_def renewed_def split: if_splits)

lemma pass_calls_none: "due_calls rt xs = [] \<Longrightarrow> pass_calls next rt m xs = []"
  by (induction m) (simp_all add: pass_calls_Suc pass_calls_settled)

lemma pass_calls_once: "pass_calls (\<lambda>_ _. 0) rt (Suc m) xs = due_calls rt xs"
proof -
  have "due_calls rt (renewed (\<lambda>_ _. 0) rt xs) = []"
    using not_due_renewed by (auto simp: due_calls_def filter_empty_conv)
  then show ?thesis by (simp add: pass_calls_Suc pass_calls_none)
qed

text \<open>
  What the passes need to know of a destructor: called with the node's value already cleared, it
  leaves \<open>next\<close> of it in the node, logs the call and changes nothing else.
\<close>

locale destructors =
  fixes call :: "(ptr \<times> ptr) list app_call" and t :: tid and nxt :: "ptr \<Rightarrow> ptr \<Rightarrow> ptr"
    and ok :: "rthread \<Rightarrow> int list \<Rightarrow> bool"
  assumes ok_keys: "key_at rt' = key_at rt \<Longrightarrow> ok rt' ks = ok rt ks"
    and one_call: "threads rt t = Some (th\<lparr>local_storage := xs @ y\<lparr>data := 0\<rparr> # ys\<rparr>) \<Longrightarrow>
      ok rt (map keyid (xs @ y # ys)) \<Longrightarrow>
      call (dtor rt y) (data y) (rt, w)
        = Ret (put t (th\<lparr>local_storage := xs @ y\<lparr>data := nxt (dtor rt y) (data y)\<rparr> # ys\<rparr>) rt,
               w @ [(dtor rt y, data y)])"
begin

lemma pass_skip:
  assumes "threads rt t = Some (th\<lparr>local_storage := xs @ y # ys\<rparr>)" "\<not> due rt y"
  shows "tls_pass call (Some t) (Suc (length ys)) (rt, w) = tls_pass call (Some t) (length ys) (rt, w)"
  using assms by (auto simp: due_def dtor_def nth_append)

lemma pass_call:
  assumes "threads rt t = Some (th\<lparr>local_storage := xs @ y # ys\<rparr>)" "due rt y"
    "rkeyslock rt = ATOMIC_LOCK_LOCKED" "ok rt (map keyid (xs @ y # ys))"
  shows "tls_pass call (Some t) (Suc (length ys)) (rt, w)
       = tls_pass call (Some t) (length ys)
           (put t (th\<lparr>local_storage := xs @ y\<lparr>data := nxt (dtor rt y) (data y)\<rparr> # ys\<rparr>) rt,
            w @ [(dtor rt y, data y)])"
proof -
  let ?rt = "(put t (th\<lparr>local_storage := xs @ y\<lparr>data := 0\<rparr> # ys\<rparr>) rt)\<lparr>rkeyslock := ATOMIC_LOCK_UNLOCKED\<rparr>"
  have k: "key_at ?rt = key_at rt" by simp
  have "call (dtor ?rt y) (data y) (?rt, w)
      = Ret (put t (th\<lparr>local_storage := xs @ y\<lparr>data := nxt (dtor ?rt y) (data y)\<rparr> # ys\<rparr>) ?rt,
             w @ [(dtor ?rt y, data y)])"
    by (rule one_call) (use assms(4) ok_keys [OF k] in simp_all)
  moreover have "(put t a ?rt)\<lparr>rkeyslock := ATOMIC_LOCK_LOCKED\<rparr> = put t a rt" for a
    using assms(3) by (simp add: put_def)
  moreover have "data y \<noteq> 0" "dtor rt y \<noteq> 0" using assms(2) by (simp_all add: due_def)
  ultimately show ?thesis
    using assms(1,3) by (simp add: Let_def same_keys(1) [OF k] flip: dtor_def)
qed

lemma pass_all:
  assumes "threads rt t = Some (th\<lparr>local_storage := xs @ ys\<rparr>)" "rkeyslock rt = ATOMIC_LOCK_LOCKED"
    "ok rt (map keyid (xs @ ys))"
  shows "tls_pass call (Some t) (length ys) (rt, w)
       = Ret (put t (th\<lparr>local_storage := xs @ renewed nxt rt ys\<rparr>) rt, w @ due_calls rt ys)"
  using assms
proof (induction ys arbitrary: xs rt w)
  case Nil
  then show ?case by (simp add: renewed_def due_calls_def put_def map_upd_triv)
next
  case (Cons y ys)
  show ?case
  proof (cases "due rt y")
    case False
    have "tls_pass call (Some t) (length (y # ys)) (rt, w) = tls_pass call (Some t) (length ys) (rt, w)"
      by (simp only: list.size add_Suc_right add_0_right pass_skip [OF Cons.prems(1) False])
    also have "\<dots> = Ret (put t (th\<lparr>local_storage := (xs @ [y]) @ renewed nxt rt ys\<rparr>) rt, w @ due_calls rt ys)"
      by (rule Cons.IH) (use Cons.prems in simp_all)
    finally show ?thesis using False by (simp add: renewed_def due_calls_def)
  next
    case True
    let ?y = "y\<lparr>data := nxt (dtor rt y) (data y)\<rparr>"
    let ?rt = "put t (th\<lparr>local_storage := xs @ ?y # ys\<rparr>) rt"
    have kk: "key_at ?rt = key_at rt" by simp
    note k = same_keys [OF kk]
    have "tls_pass call (Some t) (length (y # ys)) (rt, w)
        = tls_pass call (Some t) (length ys) (?rt, w @ [(dtor rt y, data y)])"
      by (simp only: list.size add_Suc_right add_0_right pass_call [OF Cons.prems(1) True Cons.prems(2,3)])
    also have "\<dots> = Ret (put t (th\<lparr>local_storage := (xs @ [?y]) @ renewed nxt ?rt ys\<rparr>) ?rt,
        (w @ [(dtor rt y, data y)]) @ due_calls ?rt ys)"
      by (rule Cons.IH) (use Cons.prems ok_keys [of ?rt rt] in simp_all)
    finally show ?thesis using True by (simp add: k) (simp add: renewed_def due_calls_def)
  qed
qed

lemma passes_all:
  assumes "threads rt t = Some (th\<lparr>local_storage := xs\<rparr>)" "rkeyslock rt = ATOMIC_LOCK_LOCKED"
    "ok rt (map keyid xs)"
  shows "tls_passes m call (Some t) (rt, w)
       = Ret (put t (th\<lparr>local_storage := (renewed nxt rt ^^ m) xs\<rparr>) rt, w @ pass_calls nxt rt m xs)"
  using assms
proof (induction m arbitrary: xs rt w)
  case 0
  then show ?case by (simp add: put_def map_upd_triv)
next
  case (Suc m)
  let ?rt = "put t (th\<lparr>local_storage := renewed nxt rt xs\<rparr>) rt"
  have kk: "key_at ?rt = key_at rt" by simp
  note k = same_keys [OF kk] same_pass_calls [OF kk]
  have "tls_passes (Suc m) call (Some t) (rt, w) = tls_passes m call (Some t) (?rt, w @ due_calls rt xs)"
    using Suc.prems pass_all [where rt = rt and th = th and xs = "[]" and ys = xs and w = w] by simp
  also have "\<dots> = Ret (put t (th\<lparr>local_storage := (renewed nxt ?rt ^^ m) (renewed nxt rt xs)\<rparr>) ?rt,
      (w @ due_calls rt xs) @ pass_calls nxt ?rt m (renewed nxt rt xs))"
    by (rule Suc.IH) (use Suc.prems ok_keys [of ?rt rt] in simp_all)
  finally show ?case by (simp add: k pass_calls_Suc funpow_swap1)
qed

lemma run_all:
  assumes "threads rt t = Some th" "rkeyslock rt = ATOMIC_LOCK_UNLOCKED" "ok rt (map keyid (local_storage th))"
  shows "rthread_tls_destructors call (Some t) (rt, w)
       = Ret (put t (th\<lparr>local_storage := []\<rparr>) rt,
              w @ pass_calls nxt rt PTHREAD_DESTRUCTOR_ITERATIONS (local_storage th))"
proof -
  let ?rt = "rt\<lparr>rkeyslock := ATOMIC_LOCK_LOCKED\<rparr>"
  have k: "key_at ?rt = key_at rt" by simp
  have "tls_passes PTHREAD_DESTRUCTOR_ITERATIONS call (Some t) (?rt, w)
      = Ret (put t (th\<lparr>local_storage := (renewed nxt ?rt ^^ PTHREAD_DESTRUCTOR_ITERATIONS) (local_storage th)\<rparr>) ?rt,
             w @ pass_calls nxt ?rt PTHREAD_DESTRUCTOR_ITERATIONS (local_storage th))"
    by (rule passes_all) (use assms ok_keys [OF k] in simp_all)
  then show ?thesis using assms(2)
    by (simp add: rthread_tls_destructors_def same_pass_calls [OF k] put_def del: tls_passes.simps)
qed

end

interpretation logged: destructors log_call t "\<lambda>_ _. 0" "\<lambda>_ _. True"
  by unfold_locales (auto simp: log_call_def put_def map_upd_triv)

text \<open>\<open>pthread_setspecific\<close> on a key whose node is in the list.\<close>

lemma set_storage_own:
  "keyid y = key \<Longrightarrow> key \<notin> keyid ` set xs \<Longrightarrow> set_storage key v (xs @ y # ys) = xs @ y\<lparr>data := v\<rparr> # ys"
  by (induction xs) auto

lemma lookup_storage_own:
  "keyid y = key \<Longrightarrow> key \<notin> keyid ` set xs \<Longrightarrow> lookup_storage key (xs @ y # ys) = Some y"
  by (induction xs) (auto simp: lookup_storage_def)

interpretation stored: destructors "store_call (Some t) key_of next" t "next" "own_keys key_of"
proof
  fix rt :: rthread and th xs y ys w
  assume th: "threads rt t = Some (th\<lparr>local_storage := xs @ y\<lparr>data := 0\<rparr> # ys\<rparr>)"
    and ok: "own_keys key_of rt (map keyid (xs @ y # ys))"
  from ok have key: "key_of (dtor rt y) = keyid y" "0 \<le> keyid y" "key_used rt (nat (keyid y))"
    "keyid y \<notin> keyid ` set xs"
    by (auto simp: own_keys_def dtor_def)
  then show "store_call (Some t) key_of next (dtor rt y) (data y) (rt, w)
        = Ret (put t (th\<lparr>local_storage := xs @ y\<lparr>data := next (dtor rt y) (data y)\<rparr> # ys\<rparr>) rt,
               w @ [(dtor rt y, data y)])"
    using th
    by (auto simp: store_call_def pthread_setspecific_def rthread_findstorage_def key_used_def nat_less_iff
        lookup_storage_own set_storage_own)
qed (simp add: own_keys_def key_used_def)

text \<open>Every value with a destructor is handed to it once, and the list is freed.\<close>

lemma tls_destructors_log:
  assumes "threads rt t = Some th" "rkeyslock rt = ATOMIC_LOCK_UNLOCKED"
  shows "rthread_tls_destructors log_call (Some t) (rt, w)
       = Ret (put t (th\<lparr>local_storage := []\<rparr>) rt, w @ due_calls rt (local_storage th))"
  using logged.run_all [OF assms TrueI, of w] by (simp add: eval_nat_numeral pass_calls_once)

section \<open>Properties\<close>

text \<open>
  \<open>pthread_key_create\<close> hands out a key nobody uses, marks it used with the given destructor and
  touches no other key and no stored value; it fails with \<open>EAGAIN\<close>, changing nothing, when all
  \<open>PTHREAD_KEYS_MAX\<close> keys are in use, and only then.
\<close>

lemma key_create_fresh:
  assumes "keys_wf rt"
  shows "if {i. i < PTHREAD_KEYS_MAX \<and> \<not> key_used rt i} = {}
     then pthread_key_create d rt = Ret (EAGAIN, None, rt)
     else \<exists>i rt'. i < PTHREAD_KEYS_MAX \<and> \<not> key_used rt i
       \<and> pthread_key_create d rt = Ret (0, Some (int i), rt')
       \<and> key_at rt' = (key_at rt)(i := \<lparr>used = 1, destructor = d\<rparr>) \<and> threads rt' = threads rt \<and> keys_wf rt'"
proof -
  consider (ok) i rt1 where "i < PTHREAD_KEYS_MAX" "\<not> key_used rt i"
      "pthread_key_create d rt = Ret (0, Some (int i), rt1)" "keys_wf rt1"
      "key_at rt1 i = \<lparr>used = 1, destructor = d\<rparr>" "\<forall>j. j \<noteq> i \<longrightarrow> key_at rt1 j = key_at rt j"
      "threads rt1 = threads rt"
    | (full) "\<forall>i < PTHREAD_KEYS_MAX. key_used rt i" "pthread_key_create d rt = Ret (EAGAIN, None, rt)"
    using key_create_cases [OF assms, of d] by blast
  then show ?thesis
  proof cases
    case ok
    then have "key_at rt1 = (key_at rt)(i := \<lparr>used = 1, destructor = d\<rparr>)" by (auto simp: fun_eq_iff)
    moreover have "{i. i < PTHREAD_KEYS_MAX \<and> \<not> key_used rt i} \<noteq> {}" using ok(1,2) by blast
    ultimately show ?thesis using ok by (subst if_not_P) blast+
  next
    case full
    then have "{i. i < PTHREAD_KEYS_MAX \<and> \<not> key_used rt i} = {}" by blast
    with full(2) show ?thesis by simp
  qed
qed

lemma keys_wf_loaded: "keys_wf rthread_loaded"
  by (simp add: keys_wf_def rthread_loaded_def)

lemma key_0_unused: "\<not> key_used rthread_loaded 0"
  by (simp add: key_used_def key_at_def rthread_loaded_def)

lemma key_create_fresh_instance:
  "\<exists>i rt'. i < PTHREAD_KEYS_MAX \<and> pthread_key_create 9 rthread_loaded = Ret (0, Some (int i), rt')"
proof -
  have "{i. i < PTHREAD_KEYS_MAX \<and> \<not> key_used rthread_loaded i} \<noteq> {}" using key_0_unused by force
  with key_create_fresh [OF keys_wf_loaded, of 9] show ?thesis by (simp only: if_False) blast
qed

text \<open>
  C13: thread-specific values are one cell per thread and key. After a thread stores a value under a
  key, and any other threads and keys are stored to in any order, it reads that value back.
\<close>

theorem tls_cells:
  assumes "tls_live rt t key" "list_all (\<lambda>(t', k', v'). tls_live rt t' k' \<and> (t', k') \<noteq> (t, key)) ops"
  shows "tls_get t key (fold (\<lambda>(t', k', v'). tls_set t' k' v') ops (tls_set t key v rt)) = v"
proof -
  have "tls_live (tls_set t key v rt) = tls_live rt" using assms(1) by (rule tls_set_value)
  then have "tls_get t key (fold (\<lambda>(t', k', v'). tls_set t' k' v') ops (tls_set t key v rt))
      = tls_get t key (tls_set t key v rt)"
    using assms by (intro tls.get_after_sets) (auto simp: list_all_iff)
  also have "\<dots> = v" using assms(1) by (simp add: tls.get_set)
  finally show ?thesis .
qed

definition two_keys :: rthread where
  "two_keys = rthread_loaded\<lparr>rkeys := [\<lparr>used = 1, destructor = 0\<rparr>, \<lparr>used = 1, destructor = 0\<rparr>]
     @ replicate 254 \<lparr>used = 0, destructor = 0\<rparr>, threads := [0 \<mapsto> initial_thread, 5 \<mapsto> pthread_zero]\<rparr>"

theorem tls_cells_witness:
  "tls_get 5 0 (tls_set 0 0 33 (tls_set 5 1 44 (tls_set 5 0 77 two_keys))) = 77"
  using tls_cells [of two_keys 5 0 "[(5, 1, 44), (0, 0, 33)]" 77]
  by (simp add: tls_live_def key_used_def key_at_def two_keys_def)

text \<open>
  C15: deleting a key clears the values of the initial thread only. Another thread that had stored
  a value under the key reads that stale value when the key is created anew.
\<close>

theorem tls_stale_value:
  assumes "keys_wf rt" "0 \<le> key" "key_used rt (nat key)" "rkeys_hint rt = nat key"
    "threads rt INITIAL \<noteq> None" "threads rt t \<noteq> None" "t \<noteq> INITIAL"
  shows "\<exists>rt1 rt2 rt3. pthread_key_delete key rt = Ret (0, rt1) \<and> pthread_key_create d rt1 = Ret (0, Some key, rt2)
     \<and> pthread_getspecific True (Some t) key rt2 = Ret (tls_value rt t key, rt3)"
proof -
  obtain th0 where th0: "threads rt INITIAL = Some th0" using assms(5) by blast
  have k: "nat key < PTHREAD_KEYS_MAX" "key < int PTHREAD_KEYS_MAX" "used (key_at rt (nat key)) \<noteq> 0"
    using assms(2,3) by (auto simp: key_used_def)
  let ?rt1 = "(put INITIAL (th0\<lparr>local_storage := clear_key key (local_storage th0)\<rparr>) rt)
      \<lparr>rkeys := (rkeys rt)[nat key := \<lparr>used = 0, destructor = 0\<rparr>]\<rparr>"
  let ?rt2 = "snd (snd (take_key (nat key) d ?rt1))"
  have len: "length (rkeys rt) = PTHREAD_KEYS_MAX" "rkeyslock rt = ATOMIC_LOCK_UNLOCKED"
    using assms(1) by (auto simp: keys_wf_def)
  have 1: "pthread_key_delete key rt = Ret (0, ?rt1)"
    using th0 k assms(2) len by (simp add: pthread_key_delete_def put_def Let_def key_at_def)
  have 2: "pthread_key_create d ?rt1 = Ret (0, Some key, ?rt2)"
    using len k assms(2,4) by (simp add: pthread_key_create_def take_key_def key_at_def Let_def)
  obtain th where th: "threads rt t = Some th" using assms(6) by blast
  then have th2: "threads ?rt2 t = Some th" using assms(7) by (simp add: take_key_def)
  have used: "key_used ?rt2 (nat key)" using k len by (simp add: key_used_def key_at_def take_key_def)
  have "tls_value ?rt2 t key = tls_value rt t key" using th th2 by (simp add: tls_value_thread)
  with getspecific_value [OF th2 assms(2) used] 1 2 show ?thesis by metis
qed

theorem tls_stale_value_witness:
  "\<exists>rt1 rt2 rt3. pthread_key_delete 0 (tls_set 5 0 77 two_keys) = Ret (0, rt1)
     \<and> pthread_key_create 9 rt1 = Ret (0, Some 0, rt2) \<and> pthread_getspecific True (Some 5) 0 rt2 = Ret (77, rt3)"
proof -
  have s: "tls_set 5 0 77 two_keys
      = put 5 (pthread_zero\<lparr>local_storage := [\<lparr>keyid = 0, data = 77\<rparr>]\<rparr>) two_keys"
    by (simp add: tls_set_def pthread_setspecific_def rthread_findstorage_def key_at_def two_keys_def
        pthread_zero_def lookup_storage_def Let_def)
  have v: "tls_value (tls_set 5 0 77 two_keys) 5 0 = 77"
    by (simp add: s storage_value_def)
  have "keys_wf (tls_set 5 0 77 two_keys)" "key_used (tls_set 5 0 77 two_keys) (nat 0)"
    "rkeys_hint (tls_set 5 0 77 two_keys) = nat 0" "threads (tls_set 5 0 77 two_keys) INITIAL \<noteq> None"
    "threads (tls_set 5 0 77 two_keys) 5 \<noteq> None"
    unfolding s by (simp_all add: keys_wf_def key_used_def key_at_def two_keys_def rthread_loaded_def)
  from tls_stale_value [OF this(1) _ this(2,3,4,5)] v show ?thesis by simp
qed

text \<open>
  C14: a thread's destructors. With destructors that leave the library's state alone, the exit code
  calls, for every stored non-null value whose key has a destructor and in the order of the
  thread's list, that destructor once with that value. With destructors that store a value anew
  under their key, it goes through the list exactly \<open>PTHREAD_DESTRUCTOR_ITERATIONS\<close> times: the
  first pass calls them with the values stored, each further pass with the values the pass before
  left, skipping those that are null. The list is then empty and nothing else has changed.
\<close>

theorem tls_destructors_called_once:
  assumes "threads rt t = Some th" "rkeyslock rt = ATOMIC_LOCK_UNLOCKED"
  shows "rthread_tls_destructors log_call (Some t) (rt, w)
       = Ret (put t (th\<lparr>local_storage := []\<rparr>) rt, w @ due_calls rt (local_storage th))
    \<and> (own_keys key_of rt (map keyid (local_storage th)) \<longrightarrow>
        rthread_tls_destructors (store_call (Some t) key_of next) (Some t) (rt, w)
        = Ret (put t (th\<lparr>local_storage := []\<rparr>) rt,
            w @ concat (map (\<lambda>i. due_calls rt ((renewed next rt ^^ i) (local_storage th))) [0..<4])))"
  using tls_destructors_log [OF assms] stored.run_all [OF assms] by (simp add: pass_calls_def)

text \<open>
  Keys 0 and 1 have the destructors 10 and 11; each stores its value less one: 2 and 1 take two
  passes and one, 7 is never done.
\<close>

definition three_keys :: rthread where
  "three_keys = rthread_loaded\<lparr>rkeys := [\<lparr>used = 1, destructor = 10\<rparr>, \<lparr>used = 1, destructor = 11\<rparr>, \<lparr>used = 1, destructor = 12\<rparr>]
     @ replicate 253 \<lparr>used = 0, destructor = 0\<rparr>,
     threads := [0 \<mapsto> initial_thread,
       5 \<mapsto> pthread_zero\<lparr>local_storage := [\<lparr>keyid = 0, data = 2\<rparr>, \<lparr>keyid = 1, data = 0\<rparr>, \<lparr>keyid = 2, data = 7\<rparr>]\<rparr>]\<rparr>"

theorem tls_destructors_called_once_witness:
  "rthread_tls_destructors (store_call (Some 5) (\<lambda>d. int d - 10) (\<lambda>_ v. v - 1)) (Some 5) (three_keys, [])
     = Ret (put 5 pthread_zero three_keys, [(10, 2), (12, 7), (10, 1), (12, 6), (12, 5), (12, 4)])
   \<and> rthread_tls_destructors log_call (Some 5) (three_keys, []) = Ret (put 5 pthread_zero three_keys, [(10, 2), (12, 7)])"
proof -
  let ?th = "pthread_zero\<lparr>local_storage := [\<lparr>keyid = 0, data = 2\<rparr>, \<lparr>keyid = 1, data = 0\<rparr>, \<lparr>keyid = 2, data = 7\<rparr>]\<rparr>"
  have th: "threads three_keys 5 = Some ?th" and lock: "rkeyslock three_keys = ATOMIC_LOCK_UNLOCKED"
    by (simp_all add: three_keys_def rthread_loaded_def)
  have d: "key_at three_keys 0 = \<lparr>used = 1, destructor = 10\<rparr>" "key_at three_keys (Suc 0) = \<lparr>used = 1, destructor = 11\<rparr>"
    "key_at three_keys 2 = \<lparr>used = 1, destructor = 12\<rparr>"
    by (simp_all add: key_at_def three_keys_def)
  have own: "own_keys (\<lambda>d. int d - 10) three_keys (map keyid (local_storage ?th))"
    by (simp add: own_keys_def key_used_def d)
  have empty: "?th\<lparr>local_storage := []\<rparr> = pthread_zero" by (simp add: pthread_zero_def)
  define xs where "xs a c = [\<lparr>keyid = 0, data = a\<rparr>, \<lparr>keyid = 1, data = 0\<rparr>, \<lparr>keyid = 2, data = c\<rparr>]" for a c :: ptr
  have ren: "renewed (\<lambda>_ v. v - 1) three_keys (xs a c) = xs (a - 1) (c - 1)" for a c
    by (simp add: renewed_def due_def dtor_def d xs_def)
  have calls: "due_calls three_keys (xs a c) = (if a = 0 then [] else [(10, a)]) @ (if c = 0 then [] else [(12, c)])" for a c
    by (simp add: due_calls_def due_def dtor_def d xs_def)
  have iter: "(renewed (\<lambda>_ v. v - 1) three_keys ^^ i) (xs a c) = xs (a - i) (c - i)" for i a c
    by (induction i) (simp_all add: ren [unfolded One_nat_def])
  have "[0..<4] = [0, 1, 2, 3::nat]" by (simp add: upt_rec)
  then have log: "concat (map (\<lambda>i. due_calls three_keys ((renewed (\<lambda>_ v. v - 1) three_keys ^^ i) (xs 2 7))) [0..<4])
      = [(10, 2), (12, 7), (10, 1), (12, 6), (12, 5), (12, 4)]"
    by (simp add: iter [unfolded One_nat_def] ren [unfolded One_nat_def] calls)
  have ls: "local_storage ?th = xs 2 7" by (simp add: xs_def)
  have once: "due_calls three_keys (xs 2 7) = [(10, 2), (12, 7)]" by (simp add: calls)
  show ?thesis
    using tls_destructors_called_once [OF th lock, of "[]" "\<lambda>d. int d - 10" "\<lambda>_ v. v - 1"] own
    unfolding empty ls log once by simp
qed

end
