(* ===== verification/Threads.thy ===== *)
theory Threads
  imports Tls Attributes
begin

text \<open>
  The life of a thread (\<open>rthread_thread.c\<close> and \<open>pthread_exit\<close> of \<open>rthread_internal.c\<close>): create,
  run, exit, join, detach, and the reaper that frees the structures of finished threads.
  \<open>pthread_join\<close> is cut at its wait on the thread's \<open>donesem\<close>.
\<close>

section \<open>Releasing and reaping\<close>

definition thread_done :: "pthread \<Rightarrow> bool" where
  "thread_done th \<longleftrightarrow> flags th AND THREAD_DONE \<noteq> 0"

definition thread_detached :: "pthread \<Rightarrow> bool" where
  "thread_detached th \<longleftrightarrow> flags th AND THREAD_DETACHED \<noteq> 0"

text \<open>\<open>_rthread_free\<close>: the structure goes to the end of the list the reaper works on.\<close>

definition rthread_free :: "pthread_t \<Rightarrow> rthread \<Rightarrow> rthread res" where
  "rthread_free thread rt =
     bindR (spin (thread_gc_lock rt)) (\<lambda>k.
       bindR (deref rt thread) (\<lambda>(t, _).
         Ret (rt\<lparr>thread_gc_list := thread_gc_list rt @ [t], thread_gc_lock := spinunlock k\<rparr>)))"

text \<open>\<open>LIST_REMOVE\<close> of a thread that is not on the list writes through a null pointer.\<close>

definition list_remove :: "pthread_t \<Rightarrow> rthread \<Rightarrow> rthread res" where
  "list_remove thread rt =
     bindR (spin (thread_lock rt)) (\<lambda>k.
       bindR (deref rt thread) (\<lambda>(t, _).
         if t \<notin> set (thread_list rt) then Crash
         else Ret (rt\<lparr>thread_list := remove1 t (thread_list rt), thread_lock := spinunlock k\<rparr>)))"

text \<open>\<open>_rthread_release\<close>; the boolean says that \<open>_sem_post\<close> signals a joining thread.\<close>

definition rthread_release :: "pthread_t \<Rightarrow> rthread \<Rightarrow> (rthread \<times> bool) res" where
  "rthread_release thread rt =
     bindR (list_remove thread rt) (\<lambda>rt.
       bindR (deref rt thread) (\<lambda>(t, th).
         bindR (spin (flags_lock th)) (\<lambda>k.
           let th = th\<lparr>flags_lock := k\<rparr> in
           if thread_detached th then
             bindR (rthread_free thread (put t (th\<lparr>flags_lock := spinunlock k\<rparr>) rt)) (\<lambda>rt. Ret (rt, False))
           else let th = th\<lparr>flags := flags th OR THREAD_DONE, flags_lock := spinunlock k\<rparr>;
                    (sm, _, wake) = internal_sem_post (donesem th)
                in Ret (put t (th\<lparr>donesem := sm\<rparr>) rt, wake))))"

text \<open>\<open>_thread_key_zero\<close>, which nothing calls: the callbacks that would are commented out.\<close>

fun key_zero_list :: "int \<Rightarrow> tid list \<Rightarrow> rthread \<Rightarrow> rthread res" where
  "key_zero_list key [] rt = Ret rt"
| "key_zero_list key (t # ts) rt =
     bindR (deref rt (Some t)) (\<lambda>(t, th).
       key_zero_list key ts (put t (th\<lparr>local_storage := clear_key key (local_storage th)\<rparr>) rt))"

definition thread_key_zero :: "int \<Rightarrow> rthread \<Rightarrow> rthread res" where
  "thread_key_zero key rt = key_zero_list key (thread_list rt) rt"

text \<open>The first finished thread of the list; reading a freed structure crashes.\<close>

fun first_done :: "rthread \<Rightarrow> tid list \<Rightarrow> tid option res" where
  "first_done rt [] = Ret None"
| "first_done rt (t # ts) =
     bindR (deref rt (Some t)) (\<lambda>(t, th). if thread_done th then Ret (Some t) else first_done rt ts)"

lemma first_done_mem: "first_done rt ts = Ret (Some t) \<Longrightarrow> t \<in> set ts"
  by (induction ts) (auto simp: bindR_Ret_iff deref_Ret_iff split: if_splits)

definition reap_one :: "tid \<Rightarrow> rthread \<Rightarrow> rthread" where
  "reap_one t rt =
     rt\<lparr>thread_gc_list := remove1 t (thread_gc_list rt),
        thread_gc_lock := spinunlock (thread_gc_lock rt),
        threads := (if t \<noteq> INITIAL then (threads rt)(t := None) else threads rt)\<rparr>"

text \<open>\<open>_rthread_reaper\<close>: each turn starts again from the head of the list.\<close>

function rthread_reaper :: "rthread \<Rightarrow> rthread res" where
  "rthread_reaper rt =
     bindR (spin (thread_gc_lock rt)) (\<lambda>k.
       bindR (first_done rt (thread_gc_list rt)) (\<lambda>r.
         case r of
           None \<Rightarrow> Ret (rt\<lparr>thread_gc_lock := spinunlock k\<rparr>)
         | Some t \<Rightarrow> rthread_reaper (reap_one t (rt\<lparr>thread_gc_lock := k\<rparr>))))"
  by pat_completeness auto

termination rthread_reaper
proof (relation "measure (\<lambda>rt. length (thread_gc_list rt))")
  fix rt k r t
  assume "spin (thread_gc_lock rt) = Ret k" "first_done rt (thread_gc_list rt) = Ret r" "r = Some t"
  then show "(reap_one t (rt\<lparr>thread_gc_lock := k\<rparr>), rt) \<in> measure (\<lambda>rt. length (thread_gc_list rt))"
    using length_pos_if_in_set [OF first_done_mem]
    by (auto simp: reap_one_def length_remove1 dest: first_done_mem)
qed simp

declare rthread_reaper.simps [simp del]

section \<open>Create, exit, join, detach\<close>

text \<open>
  \<open>newt\<close> is the structure \<open>malloc\<close> returns (\<open>None\<close> when it fails), \<open>rc\<close> the result of
  \<open>phal_thread_create\<close> and \<open>hid\<close> the identifier it stores.
\<close>

definition created_thread :: "pthread_attr \<Rightarrow> pthread \<Rightarrow> ptr \<Rightarrow> ptr \<Rightarrow> pthread" where
  "created_thread at self start_routine ar =
     (let th = pthread_zero\<lparr>flags_lock := ATOMIC_LOCK_UNLOCKED, fn := start_routine, arg := ar, attr := at\<rparr>;
          th = (if sched_inherit (attr th) = PTHREAD_INHERIT_SCHED
                then th\<lparr>attr := (attr th)\<lparr>sched_policy := sched_policy (attr self),
                                         sched_priority := sched_priority (attr self)\<rparr>\<rparr>
                else th)
      in if detach_state (attr th) = PTHREAD_CREATE_DETACHED
         then th\<lparr>flags := flags th OR THREAD_DETACHED\<rparr> else th)"

definition pthread_create ::
  "tid option \<Rightarrow> int \<Rightarrow> nat \<Rightarrow> pthread_t \<Rightarrow> pthread_attr handlep \<Rightarrow> ptr \<Rightarrow> ptr \<Rightarrow> rthread \<Rightarrow>
   (int \<times> pthread_t \<times> rthread) res" where
  "pthread_create newt rc hid self attrp start_routine ar rt =
     bindR (ensure_ready self rt) (\<lambda>rt.
       bindR (rthread_reaper rt) (\<lambda>rt.
         case newt of
           None \<Rightarrow> Ret (ENOMEM, None, rt)
         | Some t \<Rightarrow>
             bindR (if attrp = None then Ret (attr_default rt) else obj attrp) (\<lambda>at.
               bindR (if sched_inherit at = PTHREAD_INHERIT_SCHED then deref rt self
                      else Ret (t, pthread_zero)) (\<lambda>(_, sf).
                 bindR (spin (thread_lock rt)) (\<lambda>k.
                   let rt = (put t (created_thread at sf start_routine ar) rt)
                              \<lparr>thread_list := t # thread_list rt, thread_lock := spinunlock k\<rparr> in
                   if rc = 0
                   then bindR (deref rt (Some t)) (\<lambda>(_, th).
                          Ret (0, Some t, put t (th\<lparr>tib_tid := hid\<rparr>) rt))
                   else bindR (list_remove (Some t) rt) (\<lambda>rt.
                          Ret (rc, None, rt\<lparr>threads := (threads rt)(t := None)\<rparr>)))))))"

text \<open>
  The cleanup handlers of \<open>pthread_exit\<close>: the list is read as it stands when the loop starts (a
  handler that pushes another one adds it in front of the nodes already passed).
\<close>

fun run_cleanups :: "'w app_call \<Rightarrow> (ptr \<times> ptr) list \<Rightarrow> rthread \<times> 'w \<Rightarrow> (rthread \<times> 'w) res" where
  "run_cleanups call [] s = Ret s"
| "run_cleanups call ((f, a) # rest) s = bindR (call f a s) (run_cleanups call rest)"

text \<open>\<open>pthread_exit\<close> up to \<open>phal_thread_exit\<close>.\<close>

definition pthread_exit ::
  "'w app_call \<Rightarrow> pthread_t \<Rightarrow> ptr \<Rightarrow> rthread \<times> 'w \<Rightarrow> ((rthread \<times> bool) \<times> 'w) res" where
  "pthread_exit call self rv = (\<lambda>(rt, w).
     bindR (deref rt self) (\<lambda>(t, th).
       if tib_cantcancel th AND CANCEL_DYING \<noteq> 0 then Abort
       else let rt = put t (th\<lparr>tib_cantcancel := tib_cantcancel th OR CANCEL_DYING, retval := rv\<rparr>) rt in
         bindR (run_cleanups call (cleanup_fns th) (rt, w)) (\<lambda>s.
           bindR (rthread_tls_destructors call self s) (\<lambda>(rt, w).
             bindR (rthread_release self rt) (\<lambda>r. Ret (r, w))))))"

text \<open>\<open>_rthread_start\<close>: \<open>body\<close> is the start routine, which returns a pointer.\<close>

definition rthread_start ::
  "'w app_call \<Rightarrow> (ptr \<Rightarrow> ptr \<Rightarrow> rthread \<times> 'w \<Rightarrow> (ptr \<times> rthread \<times> 'w) res) \<Rightarrow> tid \<Rightarrow> rthread \<times> 'w \<Rightarrow>
   ((rthread \<times> bool) \<times> 'w) res" where
  "rthread_start call body t = (\<lambda>(rt, w).
     bindR (deref rt (Some t)) (\<lambda>(t, th).
       bindR (body (fn th) (arg th) (rt, w)) (\<lambda>(rv, s). pthread_exit call (Some t) rv s)))"

text \<open>What \<open>pthread_join\<close> does once \<open>_sem_wait\<close> has returned \<open>e\<close>.\<close>

definition join_finish :: "int \<Rightarrow> pthread_t \<Rightarrow> rthread \<Rightarrow> (int \<times> ptr option \<times> rthread) res" where
  "join_finish e thread rt =
     bindR (if e = 0
            then bindR (deref rt thread) (\<lambda>(t, th).
              if \<not> thread_detached th
              then bindR (rthread_free thread rt) (\<lambda>rt. Ret (Some (retval th), rt))
              else Ret (Some (retval th), rt))
            else Ret (None, rt))
       (\<lambda>(rv, rt). bindR (rthread_reaper rt) (\<lambda>rt. Ret (e, rv, rt)))"

definition pthread_join ::
  "pthread_t \<Rightarrow> pthread_t \<Rightarrow> rthread \<Rightarrow> ((int \<times> ptr option) blocking \<times> rthread) res" where
  "pthread_join self thread rt =
     (if post_threaded rt then Abort
      else bindR (ensure_ready self rt) (\<lambda>rt.
        let fail = (\<lambda>e. bindR (join_finish e thread rt) (\<lambda>(e, rv, rt). Ret (Done (e, rv), rt))) in
        if thread = None then fail EINVAL
        else if thread = self then fail EDEADLK
        else bindR (deref rt thread) (\<lambda>(t, th).
          if thread_detached th then fail EINVAL
          else (case internal_sem_wait (donesem th) False of (sm, b) \<Rightarrow>
            let rt = put t (th\<lparr>donesem := sm\<rparr>) rt in
            case b of
              Sleep \<Rightarrow> Ret (Sleep, rt)
            | Done e \<Rightarrow> bindR (join_finish e thread rt) (\<lambda>(e, rv, rt). Ret (Done (e, rv), rt))))))"

text \<open>The joining thread after \<open>phal_semaphore_wait\<close> returned \<open>r\<close>.\<close>

definition pthread_join_wake ::
  "pthread_t \<Rightarrow> pthread_t \<Rightarrow> int \<Rightarrow> rthread \<Rightarrow> ((int \<times> ptr option) blocking \<times> rthread) res" where
  "pthread_join_wake self thread r rt =
     bindR (deref rt self) (\<lambda>(_, sf).
       bindR (deref rt thread) (\<lambda>(t, th).
         case internal_sem_wake (donesem th) r (Some (delayed_cancel sf)) of (sm, b) \<Rightarrow>
           let rt = put t (th\<lparr>donesem := sm\<rparr>) rt in
           case b of
             Sleep \<Rightarrow> Ret (Sleep, rt)
           | Done e \<Rightarrow> bindR (join_finish e thread rt) (\<lambda>(e, rv, rt). Ret (Done (e, rv), rt))))"

definition pthread_detach :: "pthread_t \<Rightarrow> rthread \<Rightarrow> (int \<times> rthread) res" where
  "pthread_detach thread rt =
     bindR (deref rt thread) (\<lambda>(t, th).
       bindR (spin (flags_lock th)) (\<lambda>k.
         let th = th\<lparr>flags_lock := k\<rparr> in
         bindR (if thread_detached th then Ret (EINVAL, put t (th\<lparr>flags_lock := spinunlock k\<rparr>) rt)
                else if thread_done th
                then bindR (rthread_free thread (put t (th\<lparr>flags_lock := spinunlock k\<rparr>) rt)) (\<lambda>rt. Ret (0, rt))
                else Ret (0, put t (th\<lparr>flags := flags th OR THREAD_DETACHED, flags_lock := spinunlock k\<rparr>) rt))
           (\<lambda>(rc, rt). bindR (rthread_reaper rt) (\<lambda>rt. Ret (rc, rt)))))"

text \<open>\<open>_thread_dump_info\<close>: one line (thread, flags, name) per thread on the list.\<close>

fun dump_list :: "rthread \<Rightarrow> tid list \<Rightarrow> (tid \<times> u32 \<times> string) list res" where
  "dump_list rt [] = Ret []"
| "dump_list rt (t # ts) =
     bindR (deref rt (Some t)) (\<lambda>(t, th).
       bindR (dump_list rt ts) (\<lambda>ls. Ret ((t, tib_thread_flags th, name th) # ls)))"

definition thread_dump_info :: "rthread \<Rightarrow> ((tid \<times> u32 \<times> string) list \<times> rthread) res" where
  "thread_dump_info rt =
     bindR (spin (thread_lock rt)) (\<lambda>k.
       bindR (dump_list rt (thread_list rt)) (\<lambda>ls. Ret (ls, rt\<lparr>thread_lock := spinunlock k\<rparr>)))"

section \<open>The reaper\<close>

definition is_done :: "rthread \<Rightarrow> tid \<Rightarrow> bool" where
  "is_done rt t \<longleftrightarrow> (case threads rt t of None \<Rightarrow> False | Some th \<Rightarrow> thread_done th)"

definition gc_wf :: "rthread \<Rightarrow> bool" where
  "gc_wf rt \<longleftrightarrow> thread_gc_lock rt = ATOMIC_LOCK_UNLOCKED \<and> distinct (thread_gc_list rt)
     \<and> set (thread_gc_list rt) \<subseteq> dom (threads rt)"

text \<open>What the reaper is for: the finished threads leave the list and are freed, no other.\<close>

definition reaped :: "rthread \<Rightarrow> rthread" where
  "reaped rt =
     rt\<lparr>thread_gc_list := filter (\<lambda>t. \<not> is_done rt t) (thread_gc_list rt),
        threads := (\<lambda>t. if t \<in> set (thread_gc_list rt) \<and> is_done rt t \<and> t \<noteq> INITIAL
                        then None else threads rt t)\<rparr>"

lemma threads_reaped:
  "threads (reaped rt) t =
     (if t \<in> set (thread_gc_list rt) \<and> is_done rt t \<and> t \<noteq> INITIAL then None else threads rt t)"
  by (simp add: reaped_def)

lemma first_done_spec:
  "set ts \<subseteq> dom (threads rt) \<Longrightarrow>
   (case first_done rt ts of
      Ret None \<Rightarrow> \<forall>t \<in> set ts. \<not> is_done rt t
    | Ret (Some t) \<Rightarrow> t \<in> set ts \<and> is_done rt t
    | _ \<Rightarrow> False)"
  by (induction ts) (auto simp: is_done_def split: res.splits option.splits)

lemma reap_one_wf: "gc_wf rt \<Longrightarrow> t \<in> set (thread_gc_list rt) \<Longrightarrow> gc_wf (reap_one t (rt\<lparr>thread_gc_lock := k\<rparr>))"
  by (auto simp: gc_wf_def reap_one_def)

lemma reaped_reap_one:
  assumes "gc_wf rt" "t \<in> set (thread_gc_list rt)" "is_done rt t"
  shows "reaped (reap_one t (rt\<lparr>thread_gc_lock := k\<rparr>)) = reaped rt"
proof -
  let ?rt = "reap_one t (rt\<lparr>thread_gc_lock := k\<rparr>)"
  have dn: "is_done ?rt u = (is_done rt u \<and> (u = t \<longrightarrow> t = INITIAL))" for u
    by (simp add: is_done_def reap_one_def)
  have gc: "filter (\<lambda>u. \<not> is_done ?rt u) (remove1 t (thread_gc_list rt))
      = filter (\<lambda>u. \<not> is_done rt u) (thread_gc_list rt)"
    using assms by (auto simp: gc_wf_def distinct_remove1_removeAll removeAll_filter_not_eq dn intro: filter_cong)
  have mem: "u \<in> set (thread_gc_list ?rt) \<longleftrightarrow> u \<in> set (thread_gc_list rt) \<and> u \<noteq> t" for u
    using assms by (simp add: reap_one_def gc_wf_def)
  have thr: "threads ?rt u = (if u = t \<and> t \<noteq> INITIAL then None else threads rt u)" for u
    by (simp add: reap_one_def)
  have "threads (reaped ?rt) u = threads (reaped rt) u" for u
    using assms(2,3) by (cases "u = t") (simp_all add: threads_reaped dn mem thr)
  then have "threads (reaped ?rt) = threads (reaped rt)" by (rule ext)
  moreover have "thread_gc_list (reaped ?rt) = thread_gc_list (reaped rt)"
    using gc by (simp add: reaped_def) (simp add: reap_one_def)
  ultimately show ?thesis
    using assms by (intro rthread.equality) (simp_all add: reaped_def reap_one_def gc_wf_def)
qed

lemma reaper_spec: "gc_wf rt \<Longrightarrow> rthread_reaper rt = Ret (reaped rt)"
proof (induction rt rule: rthread_reaper.induct)
  case (1 rt)
  have lock: "thread_gc_lock rt = ATOMIC_LOCK_UNLOCKED" using "1.prems" by (simp add: gc_wf_def)
  have fd: "case first_done rt (thread_gc_list rt) of
      Ret None \<Rightarrow> \<forall>t \<in> set (thread_gc_list rt). \<not> is_done rt t
    | Ret (Some t) \<Rightarrow> t \<in> set (thread_gc_list rt) \<and> is_done rt t
    | _ \<Rightarrow> False"
    using "1.prems" by (intro first_done_spec) (simp add: gc_wf_def)
  then consider (none) "first_done rt (thread_gc_list rt) = Ret None"
      "\<forall>t \<in> set (thread_gc_list rt). \<not> is_done rt t"
    | (some) t where "first_done rt (thread_gc_list rt) = Ret (Some t)"
      "t \<in> set (thread_gc_list rt)" "is_done rt t"
    by (auto split: res.splits option.splits)
  then show ?case
  proof cases
    case none
    then have "reaped rt = rt"
      by (intro rthread.equality) (auto simp: reaped_def filter_id_conv fun_eq_iff)
    then show ?thesis using none lock by (subst rthread_reaper.simps) simp
  next
    case some
    have "rthread_reaper (reap_one t (rt\<lparr>thread_gc_lock := 1\<rparr>))
        = Ret (reaped (reap_one t (rt\<lparr>thread_gc_lock := 1\<rparr>)))"
      by (rule "1.IH" [of 1 "Some t"]) (use lock some "1.prems" in \<open>simp_all add: reap_one_wf\<close>)
    then show ?thesis using some lock "1.prems"
      by (subst rthread_reaper.simps) (simp add: reaped_reap_one)
  qed
qed

section \<open>The life of a thread\<close>

lemma flag_bits [simp]:
  fixes x :: u32
  shows "(x OR 1) AND 1 = 1" "(x OR 1) AND 2 = x AND 2" "(x OR 2) AND 2 = 2" "(x OR 2) AND 1 = x AND 1"
  by (simp_all add: bit.conj_disj_distrib2 bit_eq_iff bit_simps)

text \<open>A running thread, and the state of the library between two calls.\<close>

definition live_thread :: "pthread \<Rightarrow> bool" where
  "live_thread th \<longleftrightarrow> flags_lock th = ATOMIC_LOCK_UNLOCKED \<and> \<not> thread_done th
     \<and> sem_wf (donesem th) \<and> sem_value (donesem th) = 0"

definition thr_wf :: "rthread \<Rightarrow> bool" where
  "thr_wf rt \<longleftrightarrow> threads_ready rt \<and> \<not> post_threaded rt \<and> thread_lock rt = ATOMIC_LOCK_UNLOCKED
     \<and> gc_wf rt \<and> distinct (thread_list rt) \<and> set (thread_list rt) \<inter> set (thread_gc_list rt) = {}
     \<and> (\<forall>t \<in> set (thread_list rt). \<exists>th. threads rt t = Some th \<and> live_thread th)"

lemma thr_wf_thread:
  assumes "thr_wf rt" "t \<in> set (thread_list rt)"
  obtains th where "threads rt t = Some th" "live_thread th" "t \<notin> set (thread_gc_list rt)"
  using assms by (auto simp: thr_wf_def)

lemma gc_wf_reaped: "gc_wf rt \<Longrightarrow> gc_wf (reaped rt)"
  by (auto simp: gc_wf_def reaped_def)

lemma thr_wf_reaped:
  assumes "thr_wf rt" shows "thr_wf (reaped rt)"
proof -
  have "\<exists>th. threads (reaped rt) t = Some th \<and> live_thread th" if "t \<in> set (thread_list rt)" for t
    using thr_wf_thread [OF assms that] by (auto simp: threads_reaped)
  with assms show ?thesis by (auto simp: thr_wf_def gc_wf_reaped) (auto simp: reaped_def)
qed

lemma created_thread_live: "live_thread (created_thread at sf f a)"
  by (simp add: live_thread_def created_thread_def pthread_zero_def thread_done_def sem_zero_def sem_wf_def Let_def)

lemma created_thread_simps:
  "fn (created_thread at sf f a) = f" "arg (created_thread at sf f a) = a"
  "thread_detached (created_thread at sf f a) \<longleftrightarrow> detach_state at = PTHREAD_CREATE_DETACHED"
  "sched_policy (attr (created_thread at sf f a))
     = (if sched_inherit at = PTHREAD_INHERIT_SCHED then sched_policy (attr sf) else sched_policy at)"
  by (simp_all add: created_thread_def pthread_zero_def thread_detached_def Let_def)

lemma thr_wf_add:
  assumes "thr_wf rt" "t \<notin> dom (threads rt)" "live_thread th"
  shows "thr_wf ((put t th rt)\<lparr>thread_list := t # thread_list rt\<rparr>)"
proof -
  have "t \<notin> set (thread_list rt)" "t \<notin> set (thread_gc_list rt)"
    using assms by (auto simp: thr_wf_def gc_wf_def)
  with assms show ?thesis by (auto simp: thr_wf_def gc_wf_def)
qed

lemma create_ok:
  assumes wf: "thr_wf rt" and self: "self \<in> set (thread_list rt)" and new: "t \<notin> dom (threads rt)"
  shows "\<exists>th rt'. pthread_create (Some t) 0 hid (Some self) None f a rt = Ret (0, Some t, rt')
     \<and> thr_wf rt' \<and> thread_list rt' = t # thread_list rt \<and> threads rt' t = Some th
     \<and> fn th = f \<and> arg th = a \<and> live_thread th"
proof -
  let ?rt = "reaped rt"
  have wf': "thr_wf ?rt" using wf by (rule thr_wf_reaped)
  have tl: "thread_list ?rt = thread_list rt" by (simp add: reaped_def)
  obtain sf where sf: "threads ?rt self = Some sf" using wf' self tl by (metis thr_wf_thread)
  have fresh: "t \<notin> dom (threads ?rt)" using new by (auto simp: threads_reaped split: if_splits)
  let ?th = "(created_thread (attr_default ?rt)
      (if sched_inherit (attr_default ?rt) = PTHREAD_INHERIT_SCHED then sf else pthread_zero) f a)
      \<lparr>tib_tid := hid\<rparr>"
  let ?new = "(put t ?th ?rt)\<lparr>thread_list := t # thread_list ?rt\<rparr>"
  have "thread_lock ?rt = ATOMIC_LOCK_UNLOCKED" "threads_ready rt" "gc_wf rt"
    using wf wf' by (auto simp: thr_wf_def)
  then have "pthread_create (Some t) 0 hid (Some self) None f a rt = Ret (0, Some t, ?new)"
    using sf by (auto simp: pthread_create_def reaper_spec Let_def put_def)
  moreover have live: "live_thread ?th"
    using created_thread_live by (simp add: live_thread_def thread_done_def)
  moreover have "thr_wf ?new" using wf' fresh live by (rule thr_wf_add)
  moreover have "fn ?th = f" "arg ?th = a" by (simp_all add: created_thread_simps)
  ultimately show ?thesis using tl by (intro exI [of _ ?th] exI [of _ ?new]) simp
qed

text \<open>When \<open>phal_thread_create\<close> fails, everything but the reaping is undone.\<close>

lemma create_fails:
  assumes wf: "thr_wf rt" and self: "self \<in> set (thread_list rt)" and new: "t \<notin> dom (threads rt)"
    and rc: "rc \<noteq> 0"
  shows "pthread_create (Some t) rc hid (Some self) None f a rt = Ret (rc, None, reaped rt)"
proof -
  let ?rt = "reaped rt"
  have wf': "thr_wf ?rt" using wf by (rule thr_wf_reaped)
  have tl: "thread_list ?rt = thread_list rt" by (simp add: reaped_def)
  obtain sf where sf: "threads ?rt self = Some sf" using wf' self tl by (metis thr_wf_thread)
  have fresh: "(threads ?rt)(t := None) = threads ?rt"
    using new by (auto simp: threads_reaped fun_eq_iff)
  have "thread_lock ?rt = ATOMIC_LOCK_UNLOCKED" "threads_ready rt" "gc_wf rt"
    using wf wf' by (auto simp: thr_wf_def)
  then show ?thesis using sf rc fresh
    by (auto simp: pthread_create_def reaper_spec list_remove_def Let_def put_def)
qed

text \<open>A thread leaves: joinable threads are marked and posted, detached ones go to the reaper.\<close>

lemma list_remove_spec:
  assumes "thr_wf rt" "t \<in> set (thread_list rt)"
  shows "list_remove (Some t) rt = Ret (rt\<lparr>thread_list := remove1 t (thread_list rt)\<rparr>)"
proof -
  obtain th where "threads rt t = Some th" using assms by (rule thr_wf_thread)
  moreover have "thread_lock rt = ATOMIC_LOCK_UNLOCKED" using assms by (simp add: thr_wf_def)
  ultimately show ?thesis using assms(2) by (simp add: list_remove_def)
qed

lemma release_joinable:
  assumes wf: "thr_wf rt" and t: "t \<in> set (thread_list rt)" and th: "threads rt t = Some th"
    and j: "\<not> thread_detached th"
  shows "\<exists>wake. rthread_release (Some t) rt =
     Ret (put t (th\<lparr>flags := flags th OR THREAD_DONE, flags_lock := ATOMIC_LOCK_UNLOCKED,
                    donesem := (donesem th)\<lparr>sem_value := 1\<rparr>\<rparr>)
           (rt\<lparr>thread_list := remove1 t (thread_list rt)\<rparr>), wake)"
proof -
  have "live_thread th" using wf t th by (auto simp: thr_wf_def)
  then have "flags_lock th = ATOMIC_LOCK_UNLOCKED" "shared (donesem th) = 0" "sem_value (donesem th) = 0"
    by (auto simp: live_thread_def sem_wf_def)
  with j th show ?thesis
    by (simp add: rthread_release_def list_remove_spec [OF wf t] thread_detached_def
        internal_sem_post_def Let_def) blast
qed

lemma release_detached:
  assumes wf: "thr_wf rt" and t: "t \<in> set (thread_list rt)" and th: "threads rt t = Some th"
    and d: "thread_detached th"
  shows "rthread_release (Some t) rt =
     Ret (rt\<lparr>thread_list := remove1 t (thread_list rt), thread_gc_list := thread_gc_list rt @ [t]\<rparr>, False)"
proof -
  have "live_thread th" "thread_gc_lock rt = ATOMIC_LOCK_UNLOCKED"
    using wf t th by (auto simp: thr_wf_def gc_wf_def)
  moreover from this have "(threads rt)(t \<mapsto> th\<lparr>flags_lock := ATOMIC_LOCK_UNLOCKED\<rparr>) = threads rt"
    using th by (simp add: live_thread_def map_upd_triv)
  ultimately show ?thesis using d th
    by (simp add: rthread_release_def list_remove_spec [OF wf t] rthread_free_def live_thread_def
        thread_detached_def put_def)
qed

lemma rthread_free_spec:
  assumes "thread_gc_lock rt = ATOMIC_LOCK_UNLOCKED" "threads rt t = Some th"
  shows "rthread_free (Some t) rt = Ret (rt\<lparr>thread_gc_list := thread_gc_list rt @ [t]\<rparr>)"
  using assms by (simp add: rthread_free_def)

text \<open>
  Joining a thread that has exited: its value comes back and its structure is freed.
\<close>

lemma join_finished:
  assumes wf: "thr_wf rt" and t: "t \<notin> set (thread_list rt)" "t \<notin> set (thread_gc_list rt)" "t \<noteq> INITIAL"
    and th: "threads rt t = Some th" "thread_done th" "\<not> thread_detached th"
    and sm: "sem_wf (donesem th)" "0 < sem_value (donesem th)"
    and self: "self \<noteq> t"
  shows "\<exists>rt'. pthread_join (Some self) (Some t) rt = Ret (Done (0, Some (retval th)), rt')
     \<and> thr_wf rt' \<and> threads rt' t = None \<and> thread_list rt' = thread_list rt
     \<and> t \<notin> set (thread_gc_list rt')"
proof -
  let ?th = "th\<lparr>donesem := (donesem th)\<lparr>sem_value := sem_value (donesem th) - 1\<rparr>\<rparr>"
  let ?rt = "(put t ?th rt)\<lparr>thread_gc_list := thread_gc_list rt @ [t]\<rparr>"
  have gcl: "thread_gc_lock rt = ATOMIC_LOCK_UNLOCKED" "threads_ready rt" "\<not> post_threaded rt"
    using wf by (auto simp: thr_wf_def gc_wf_def)
  have wf2: "thr_wf ?rt" using wf t by (auto simp: thr_wf_def gc_wf_def)
  have "internal_sem_wait (donesem th) False = (donesem ?th, Done 0)"
    using sm by (simp add: internal_sem_wait_cases)
  moreover have "\<not> thread_detached ?th" using th by (simp add: thread_detached_def)
  moreover have "gc_wf ?rt" using wf2 by (simp add: thr_wf_def)
  ultimately have "pthread_join (Some self) (Some t) rt = Ret (Done (0, Some (retval th)), reaped ?rt)"
    using th self gcl
    by (simp add: pthread_join_def join_finish_def rthread_free_spec reaper_spec Let_def)
  moreover have "is_done ?rt t" using th by (simp add: is_done_def thread_done_def)
  then have "threads (reaped ?rt) t = None" "t \<notin> set (thread_gc_list (reaped ?rt))"
    using t by (auto simp: threads_reaped reaped_def)
  moreover have "thr_wf (reaped ?rt)" using wf2 by (rule thr_wf_reaped)
  moreover have "thread_list (reaped ?rt) = thread_list rt" by (simp add: reaped_def)
  ultimately show ?thesis by blast
qed

text \<open>\<open>pthread_exit\<close> with handlers and destructors that leave the library alone.\<close>

lemma run_cleanups_log: "run_cleanups log_call fs (rt, w) = Ret (rt, w @ fs)"
  by (induction fs arbitrary: w) (auto simp: log_call_def)

lemma thr_wf_put:
  assumes "thr_wf rt" "threads rt t = Some th" "live_thread th \<longrightarrow> live_thread th'"
  shows "thr_wf (put t th' rt)"
proof -
  have "\<exists>th. threads (put t th' rt) u = Some th \<and> live_thread th" if u: "u \<in> set (thread_list rt)" for u
  proof -
    obtain th'' where "threads rt u = Some th''" "live_thread th''"
      using thr_wf_thread [OF assms(1) u] by blast
    with assms(2,3) show ?thesis by (cases "u = t") simp_all
  qed
  moreover have "set (thread_gc_list rt) \<subseteq> insert t (dom (threads rt))"
    using assms(1) by (auto simp: thr_wf_def gc_wf_def)
  ultimately show ?thesis using assms(1) by (simp add: thr_wf_def gc_wf_def)
qed

lemma exit_joinable:
  assumes wf: "thr_wf rt" and t: "t \<in> set (thread_list rt)" and th: "threads rt t = Some th"
    and keys: "rkeyslock rt = ATOMIC_LOCK_UNLOCKED"
    and alive: "tib_cantcancel th AND CANCEL_DYING = 0" and j: "\<not> thread_detached th"
  shows "\<exists>wake th' rt'. pthread_exit log_call (Some t) rv (rt, w)
        = Ret ((rt', wake), w @ cleanup_fns th @ due_calls rt (local_storage th))
     \<and> rt' = put t th' (rt\<lparr>thread_list := remove1 t (thread_list rt)\<rparr>)
     \<and> retval th' = rv \<and> thread_done th' \<and> \<not> thread_detached th'
     \<and> sem_wf (donesem th') \<and> 0 < sem_value (donesem th')"
proof -
  let ?th1 = "th\<lparr>tib_cantcancel := tib_cantcancel th OR CANCEL_DYING, retval := rv\<rparr>"
  let ?th2 = "?th1\<lparr>local_storage := []\<rparr>"
  let ?rt1 = "put t ?th1 rt" and ?rt2 = "put t ?th2 rt"
  have live: "live_thread th" using wf t th by (auto simp: thr_wf_def)
  have wf2: "thr_wf ?rt2"
    by (rule thr_wf_put [OF wf th]) (simp add: live_thread_def thread_done_def)
  have "rthread_tls_destructors log_call (Some t) (?rt1, w @ cleanup_fns th)
      = Ret (put t (?th1\<lparr>local_storage := []\<rparr>) ?rt1, (w @ cleanup_fns th) @ due_calls ?rt1 (local_storage ?th1))"
    by (rule tls_destructors_log) (use keys in simp_all)
  then have tls: "rthread_tls_destructors log_call (Some t) (?rt1, w @ cleanup_fns th)
      = Ret (?rt2, w @ cleanup_fns th @ due_calls rt (local_storage th))" by simp
  let ?th3 = "?th2\<lparr>flags := flags ?th2 OR THREAD_DONE, flags_lock := ATOMIC_LOCK_UNLOCKED,
      donesem := (donesem ?th2)\<lparr>sem_value := 1\<rparr>\<rparr>"
  obtain wake where "rthread_release (Some t) ?rt2
      = Ret (put t ?th3 (?rt2\<lparr>thread_list := remove1 t (thread_list ?rt2)\<rparr>), wake)"
    using release_joinable [OF wf2, of t ?th2] t j by (auto simp: thread_detached_def)
  moreover have "put t ?th3 (?rt2\<lparr>thread_list := remove1 t (thread_list ?rt2)\<rparr>)
      = put t ?th3 (rt\<lparr>thread_list := remove1 t (thread_list rt)\<rparr>)" by (simp add: put_def)
  ultimately have "pthread_exit log_call (Some t) rv (rt, w)
      = Ret ((put t ?th3 (rt\<lparr>thread_list := remove1 t (thread_list rt)\<rparr>), wake),
             w @ cleanup_fns th @ due_calls rt (local_storage th))"
    using th alive tls by (simp add: pthread_exit_def run_cleanups_log)
  moreover have "thread_done ?th3" "\<not> thread_detached ?th3" "sem_wf (donesem ?th3)"
    using j live by (simp_all add: thread_done_def thread_detached_def live_thread_def sem_wf_def)
  ultimately show ?thesis by (intro exI [of _ wake] exI [of _ ?th3]) simp
qed

lemma thr_wf_leave:
  assumes "thr_wf rt" "threads rt t \<noteq> None"
  shows "thr_wf (put t th (rt\<lparr>thread_list := remove1 t (thread_list rt)\<rparr>))"
proof -
  have "distinct (thread_list rt)" using assms by (simp add: thr_wf_def)
  with assms show ?thesis by (auto simp: thr_wf_def gc_wf_def set_remove1_eq)
qed

section \<open>Properties\<close>

text \<open>
  C11: the reaper terminates and frees exactly the finished threads: those on its list with
  \<open>THREAD_DONE\<close> set leave it and are freed (the static initial thread is not), every other thread
  keeps its place and its structure.
\<close>

theorem reaper_frees_finished:
  assumes "gc_wf rt"
  shows "rthread_reaper rt = Ret (rt\<lparr>thread_gc_list := filter (\<lambda>t. \<not> is_done rt t) (thread_gc_list rt),
     threads := (\<lambda>t. if t \<in> set (thread_gc_list rt) \<and> is_done rt t \<and> t \<noteq> INITIAL
                     then None else threads rt t)\<rparr>)"
  using reaper_spec [OF assms] by (simp add: reaped_def)

definition two_threads :: rthread where
  "two_threads = rthread_loaded\<lparr>threads_ready := True, thread_list := [5, 0],
     threads := [0 \<mapsto> initial_thread, 5 \<mapsto> pthread_zero]\<rparr>"

lemma two_threads_wf: "thr_wf two_threads"
  by (auto simp: two_threads_def thr_wf_def gc_wf_def rthread_loaded_def live_thread_def thread_done_def
      initial_thread_def pthread_zero_def sem_wf_def sem_zero_def)

definition one_finished :: rthread where
  "one_finished = two_threads\<lparr>thread_list := [0], thread_gc_list := [5],
     threads := [0 \<mapsto> initial_thread, 5 \<mapsto> pthread_zero\<lparr>flags := THREAD_DONE\<rparr>]\<rparr>"

theorem reaper_frees_finished_witness:
  "gc_wf one_finished \<and> (\<exists>rt. rthread_reaper one_finished = Ret rt \<and> threads rt 5 = None \<and> thread_gc_list rt = [])"
proof -
  have wf: "gc_wf one_finished" and fin: "is_done one_finished 5" "thread_gc_list one_finished = [5]"
    by (simp_all add: gc_wf_def is_done_def thread_done_def one_finished_def two_threads_def rthread_loaded_def)
  from wf fin reaper_frees_finished [OF wf] show ?thesis by simp
qed

text \<open>
  \<open>pthread_create\<close>. With memory for the structure, a successful \<open>phal_thread_create\<close> leaves the
  new thread first on the list, running its routine with its argument, not finished and not
  posted; when \<open>phal_thread_create\<close> fails its error is returned and, the reaping apart, the
  library is as before. Both keep the library's invariant.
\<close>

lemma create_thread:
  assumes "thr_wf rt" "self \<in> set (thread_list rt)" "t \<notin> dom (threads rt)" "rc \<noteq> 0"
  shows "(\<exists>th rt'. pthread_create (Some t) 0 hid (Some self) None f a rt = Ret (0, Some t, rt')
        \<and> thr_wf rt' \<and> thread_list rt' = t # thread_list rt \<and> threads rt' t = Some th
        \<and> fn th = f \<and> arg th = a \<and> live_thread th)
    \<and> pthread_create (Some t) rc hid (Some self) None f a rt = Ret (rc, None, reaped rt) \<and> thr_wf (reaped rt)"
  using create_ok [OF assms(1-3)] create_fails [OF assms] thr_wf_reaped [OF assms(1)] by blast

lemma create_thread_instance:
  "\<exists>rt'. pthread_create (Some 6) 0 77 (Some 5) None 100 200 two_threads = Ret (0, Some 6, rt')
     \<and> thread_list rt' = [6, 5, 0]"
proof -
  have "5 \<in> set (thread_list two_threads)" "6 \<notin> dom (threads two_threads)" "thread_list two_threads = [5, 0]"
    by (simp_all add: two_threads_def)
  with create_thread [OF two_threads_wf this(1,2), of 11 77 100 200] show ?thesis by fastforce
qed

text \<open>
  C10: exit and join. A joinable thread that exits runs its cleanup handlers, newest first, then its
  destructors, and leaves the list of threads; a later \<open>pthread_join\<close> by another thread returns 0
  with the exit value and frees the structure. The library's invariant holds after both.
\<close>

theorem exit_then_join:
  assumes "thr_wf rt" "t \<in> set (thread_list rt)" "threads rt t = Some th" "t \<noteq> INITIAL" "self \<noteq> t"
    "rkeyslock rt = ATOMIC_LOCK_UNLOCKED" "tib_cantcancel th AND CANCEL_DYING = 0" "\<not> thread_detached th"
  shows "\<exists>rt1 wake rt2. pthread_exit log_call (Some t) rv (rt, w)
        = Ret ((rt1, wake), w @ cleanup_fns th @ due_calls rt (local_storage th))
     \<and> thr_wf rt1 \<and> thread_list rt1 = remove1 t (thread_list rt)
     \<and> pthread_join (Some self) (Some t) rt1 = Ret (Done (0, Some rv), rt2)
     \<and> thr_wf rt2 \<and> threads rt2 t = None \<and> thread_list rt2 = thread_list rt1"
proof -
  obtain wake th' where ex: "pthread_exit log_call (Some t) rv (rt, w)
        = Ret ((put t th' (rt\<lparr>thread_list := remove1 t (thread_list rt)\<rparr>), wake),
               w @ cleanup_fns th @ due_calls rt (local_storage th))"
    and th': "retval th' = rv" "thread_done th'" "\<not> thread_detached th'" "sem_wf (donesem th')"
      "0 < sem_value (donesem th')"
    using exit_joinable [OF assms(1,2,3,6,7,8), of rv w] by blast
  let ?rt = "put t th' (rt\<lparr>thread_list := remove1 t (thread_list rt)\<rparr>)"
  have wf: "thr_wf ?rt" using assms(1,3) by (intro thr_wf_leave) auto
  have "t \<notin> set (thread_list ?rt)" "t \<notin> set (thread_gc_list ?rt)"
    using assms(1,2) by (auto simp: thr_wf_def)
  from join_finished [OF wf this assms(4) _ th'(2-5) assms(5)] obtain rt2 where
    "pthread_join (Some self) (Some t) ?rt = Ret (Done (0, Some rv), rt2)" "thr_wf rt2"
    "threads rt2 t = None" "thread_list rt2 = thread_list ?rt"
    using th'(1) by auto
  with ex wf show ?thesis by (intro exI [of _ ?rt] exI [of _ wake] exI [of _ rt2]) simp
qed

theorem exit_then_join_witness:
  "\<exists>rt1 wake rt2. pthread_exit log_call (Some 5) 42 (two_threads, []) = Ret ((rt1, wake), [])
     \<and> pthread_join (Some 0) (Some 5) rt1 = Ret (Done (0, Some 42), rt2) \<and> threads rt2 5 = None"
proof -
  have "5 \<in> set (thread_list two_threads)" "threads two_threads 5 = Some pthread_zero"
    "rkeyslock two_threads = ATOMIC_LOCK_UNLOCKED" "tib_cantcancel pthread_zero AND CANCEL_DYING = 0"
    "\<not> thread_detached pthread_zero"
    by (simp_all add: two_threads_def rthread_loaded_def pthread_zero_def thread_detached_def)
  from exit_then_join [OF two_threads_wf this(1,2) _ _ this(3-5), of 0 42 "[]"] show ?thesis
    by (auto simp: pthread_zero_def due_calls_def)
qed

text \<open>
  C12: a detached thread is never freed. When it leaves, it goes to the reaper's list without the
  flag the reaper looks for, so the reaper keeps it for ever.
\<close>

theorem detached_thread_leaks:
  assumes "thr_wf rt" "t \<in> set (thread_list rt)" "threads rt t = Some th" "thread_detached th"
  shows "\<exists>rt1 rt2. rthread_release (Some t) rt = Ret (rt1, False) \<and> t \<in> set (thread_gc_list rt1)
     \<and> rthread_reaper rt1 = Ret rt2 \<and> t \<in> set (thread_gc_list rt2) \<and> threads rt2 t = Some th"
proof -
  let ?rt = "rt\<lparr>thread_list := remove1 t (thread_list rt), thread_gc_list := thread_gc_list rt @ [t]\<rparr>"
  have rel: "rthread_release (Some t) rt = Ret (?rt, False)" using assms by (rule release_detached)
  have t: "\<not> is_done ?rt t" "t \<notin> set (thread_gc_list rt)"
    using assms(1-3) by (auto simp: thr_wf_def is_done_def live_thread_def)
  have "gc_wf ?rt" using assms(1,3) t by (auto simp: thr_wf_def gc_wf_def)
  then have "rthread_reaper ?rt = Ret (reaped ?rt)" by (rule reaper_spec)
  moreover have "t \<in> set (thread_gc_list (reaped ?rt))" "threads (reaped ?rt) t = Some th"
    using t assms(3) by (simp_all add: reaped_def)
  ultimately show ?thesis using rel by (intro exI [of _ ?rt] exI [of _ "reaped ?rt"]) simp
qed

theorem detached_thread_leaks_witness:
  "\<exists>rt1 rt2. rthread_release (Some 5) (put 5 (pthread_zero\<lparr>flags := THREAD_DETACHED\<rparr>) two_threads) = Ret (rt1, False)
     \<and> rthread_reaper rt1 = Ret rt2 \<and> threads rt2 5 = Some (pthread_zero\<lparr>flags := THREAD_DETACHED\<rparr>)"
proof -
  let ?th = "pthread_zero\<lparr>flags := THREAD_DETACHED\<rparr>"
  have "thr_wf (put 5 ?th two_threads)"
    by (rule thr_wf_put [OF two_threads_wf, of 5 pthread_zero])
      (simp_all add: two_threads_def live_thread_def thread_done_def)
  moreover have "5 \<in> set (thread_list (put 5 ?th two_threads))" "threads (put 5 ?th two_threads) 5 = Some ?th"
    "thread_detached ?th" by (simp_all add: two_threads_def thread_detached_def)
  ultimately show ?thesis using detached_thread_leaks by blast
qed

end
