(* ===== verification/Lzma_Base.thy ===== *)
theory Lzma_Base
  imports Prelude
begin

text \<open>
  What the parts of liblzma share: the return codes (\<open>api/lzma/base.h\<close>) and byte buffers. A C
  buffer is a list of bytes; a position in it and its size are natural numbers.
\<close>

text \<open>\<open>LZMA_TIMED_OUT\<close> is the internal code of \<open>common.h\<close>, which \<open>lzma_code\<close> does not return.\<close>

datatype lzma_ret =
    LZMA_OK | LZMA_STREAM_END | LZMA_NO_CHECK | LZMA_UNSUPPORTED_CHECK | LZMA_GET_CHECK
  | LZMA_MEM_ERROR | LZMA_MEMLIMIT_ERROR | LZMA_FORMAT_ERROR | LZMA_OPTIONS_ERROR
  | LZMA_DATA_ERROR | LZMA_BUF_ERROR | LZMA_PROG_ERROR | LZMA_SEEK_NEEDED
  | LZMA_TIMED_OUT

abbreviation (input) LZMA_VLI_UNKNOWN :: u64 where "LZMA_VLI_UNKNOWN \<equiv> 0xFFFFFFFFFFFFFFFF"

text \<open>The bytes written when \<open>bs\<close> is stored at position \<open>p\<close>.\<close>

definition write_at :: "nat \<Rightarrow> 'a list \<Rightarrow> 'a list \<Rightarrow> 'a list" where
  "write_at p bs buf = take p buf @ bs @ drop (p + length bs) buf"

lemma write_at_Nil [simp]: "write_at p [] buf = buf"
  by (simp add: write_at_def)

lemma write_at_one: "p < length buf \<Longrightarrow> write_at p [b] buf = buf[p := b]"
  by (simp add: write_at_def upd_conv_take_nth_drop)

lemma length_write_at [simp]: "p + length bs \<le> length buf \<Longrightarrow> length (write_at p bs buf) = length buf"
  by (simp add: write_at_def)

lemma write_at_Cons:
  assumes "p + length (b # bs) \<le> length buf"
  shows "write_at p (b # bs) buf = write_at (p + 1) bs (buf[p := b])"
proof -
  have "take (p + 1) (buf[p := b]) = take p buf @ [b]"
    using assms by (simp add: take_Suc_conv_app_nth)
  moreover have "drop (p + 1 + length bs) (buf[p := b]) = drop (p + 1 + length bs) buf"
    by (rule nth_equalityI) (use assms in auto)
  ultimately show ?thesis by (simp add: write_at_def)
qed

lemma take_drop_write_at:
  "p + length bs \<le> length buf \<Longrightarrow> take (length bs) (drop p (write_at p bs buf)) = bs"
  by (simp add: write_at_def)

lemma write_at_append:
  "p + length (xs @ ys) \<le> length buf \<Longrightarrow> write_at (p + length xs) ys (write_at p xs buf) = write_at p (xs @ ys) buf"
  by (simp add: write_at_def ac_simps)

section \<open>Segments of buffers\<close>

definition segment :: "nat \<Rightarrow> nat \<Rightarrow> 'a list \<Rightarrow> 'a list" where
  "segment i j xs = take (j - i) (drop i xs)"

lemma segment_same [simp]: "segment i i xs = []"
  by (simp add: segment_def)

lemma segment_empty: "j \<le> i \<Longrightarrow> segment i j xs = []"
  by (simp add: segment_def)

lemma length_segment [simp]: "j \<le> length xs \<Longrightarrow> length (segment i j xs) = j - i"
  by (auto simp: segment_def)

lemma segment_append: "i \<le> j \<Longrightarrow> j \<le> k \<Longrightarrow> segment i j xs @ segment j k xs = segment i k xs"
proof -
  assume "i \<le> j" "j \<le> k"
  then obtain m n where "j = i + m" "k = i + m + n" by (metis le_Suc_ex)
  then show ?thesis by (simp add: segment_def take_add drop_drop add.commute)
qed

lemma segment_take: "j \<le> n \<Longrightarrow> segment i j (take n xs) = segment i j xs"
  by (simp add: segment_def drop_take min_def diff_le_mono)

lemma segment_write_same: "p + length bs \<le> length xs \<Longrightarrow> segment p (p + length bs) (write_at p bs xs) = bs"
  by (simp add: segment_def write_at_def)

lemma segment_write_before: "j \<le> p \<Longrightarrow> p \<le> length xs \<Longrightarrow> segment i j (write_at p bs xs) = segment i j xs"
  by (simp add: segment_def write_at_def) (simp add: drop_take min_def)

lemma segment_eq_take: "take j xs = take j ys \<Longrightarrow> segment i j xs = segment i j ys"
  by (metis segment_take order_refl)

lemma take_segment: "take n (segment i j xs) = segment i (min j (i + n)) xs"
  by (cases "i + n \<le> j") (auto simp: segment_def min_absorb1 min_absorb2)

lemma drop_segment: "drop n (segment i j xs) = segment (i + n) j xs"
  by (auto simp: segment_def drop_take add.commute)

section \<open>Codecs\<close>

text \<open>
  \<open>byte_codec\<close> is the contract of a field of a file format: \<open>enc\<close> gives the bytes of a value, \<open>dec\<close>
  reads a value at a position of a buffer and says where it ends. A sequence of fields is then read
  back field by field.
\<close>

locale byte_codec =
  fixes enc :: "'a \<Rightarrow> u8 list"
    and dec :: "u8 list \<Rightarrow> nat \<Rightarrow> ('a \<times> nat) option"
    and valid :: "'a \<Rightarrow> bool"
  assumes dec_enc: "valid a \<Longrightarrow> dec (xs @ enc a @ ys) (length xs) = Some (a, length xs + length (enc a))"
begin

fun dec_list :: "nat \<Rightarrow> u8 list \<Rightarrow> nat \<Rightarrow> ('a list \<times> nat) option" where
  "dec_list 0 buf p = Some ([], p)"
| "dec_list (Suc n) buf p =
     (case dec buf p of None \<Rightarrow> None
      | Some (a, p) \<Rightarrow> (case dec_list n buf p of None \<Rightarrow> None | Some (as, p) \<Rightarrow> Some (a # as, p)))"

lemma dec_list_enc:
  "list_all valid as \<Longrightarrow>
   dec_list (length as) (xs @ concat (map enc as) @ ys) (length xs)
     = Some (as, length xs + length (concat (map enc as)))"
proof (induction as arbitrary: xs)
  case (Cons a as)
  have "dec_list (length as) ((xs @ enc a) @ concat (map enc as) @ ys) (length (xs @ enc a))
      = Some (as, length (xs @ enc a) + length (concat (map enc as)))"
    by (rule Cons.IH) (use Cons.prems in simp)
  then show ?case using Cons.prems dec_enc [of a xs "concat (map enc as) @ ys"] by simp
qed simp

lemma enc_prefix_unique:
  assumes "valid a" "valid b" "enc a @ xs = enc b @ ys"
  shows "a = b \<and> xs = ys"
  using dec_enc [OF assms(1), of "[]" xs] dec_enc [OF assms(2), of "[]" ys] assms(3) by auto

end

section \<open>Checks computed in pieces\<close>

text \<open>
  The contract of an integrity check whose input comes in pieces: an update with two buffers in
  succession is an update with their concatenation, so that the way the input is cut is immaterial.
\<close>

locale streaming_check =
  fixes upd :: "u8 list \<Rightarrow> 's \<Rightarrow> 's"
    and inv :: "'s \<Rightarrow> bool"
  assumes upd_append: "inv s \<Longrightarrow> upd (xs @ ys) s = upd ys (upd xs s)"
    and upd_Nil: "inv s \<Longrightarrow> upd [] s = s"
    and upd_inv: "inv s \<Longrightarrow> inv (upd xs s)"
begin

lemma upd_chunks: "inv s \<Longrightarrow> fold upd chunks s = upd (concat chunks) s"
  by (induction chunks arbitrary: s) (simp_all add: upd_append upd_Nil upd_inv)

lemma upd_same_concat: "inv s \<Longrightarrow> concat xs = concat ys \<Longrightarrow> fold upd xs s = fold upd ys s"
  by (simp add: upd_chunks)

end

end
