(* ===== verification/Vli.thy ===== *)
theory Vli
  imports Lzma_Base
begin

text \<open>
  Variable-length integers (\<open>common/vli_decoder.c\<close>, \<open>vli_encoder.c\<close>, \<open>vli_size.c\<close>): the three
  functions, the byte sequence they agree on, and the proofs that encoding and decoding are inverse
  in both directions and that decoding may be cut anywhere.
\<close>

section \<open>The operations\<close>

type_synonym lzma_vli = u64

abbreviation (input) LZMA_VLI_MAX :: lzma_vli where "LZMA_VLI_MAX \<equiv> 0x7FFFFFFFFFFFFFFF"
abbreviation (input) LZMA_VLI_BYTES_MAX :: nat where "LZMA_VLI_BYTES_MAX \<equiv> 9"

text \<open>
  The loop of the decoder. \<open>single\<close> says that \<open>vli_pos\<close> was \<open>NULL\<close>; the result is the return code
  with the final \<open>*vli\<close>, \<open>*vli_pos\<close> and \<open>*in_pos\<close>.
\<close>

function vli_decode_loop ::
  "bool \<Rightarrow> lzma_vli \<Rightarrow> nat \<Rightarrow> u8 list \<Rightarrow> nat \<Rightarrow> nat \<Rightarrow> lzma_ret \<times> lzma_vli \<times> nat \<times> nat" where
  "vli_decode_loop single vli vli_pos inb in_pos in_size =
     (let byte = inb ! in_pos;
          in_pos' = in_pos + 1;
          vli' = vli + push_bit (vli_pos * 7) (ucast (byte AND 0x7F));
          vli_pos' = vli_pos + 1 in
      if byte AND 0x80 = 0 then
        (if byte = 0 \<and> vli_pos' > 1 then LZMA_DATA_ERROR
         else if single then LZMA_OK else LZMA_STREAM_END, vli', vli_pos', in_pos')
      else if vli_pos' = LZMA_VLI_BYTES_MAX then (LZMA_DATA_ERROR, vli', vli_pos', in_pos')
      else if in_pos' < in_size then vli_decode_loop single vli' vli_pos' inb in_pos' in_size
      else (if single then LZMA_DATA_ERROR else LZMA_OK, vli', vli_pos', in_pos'))"
  by pat_completeness auto
termination by (relation "measure (\<lambda>(_, _, _, _, in_pos, in_size). in_size - in_pos)") auto

declare vli_decode_loop.simps [simp del]

text \<open>\<open>vli_pos\<close> is \<open>None\<close> for \<open>NULL\<close>.\<close>

definition lzma_vli_decode ::
  "lzma_vli \<Rightarrow> nat option \<Rightarrow> u8 list \<Rightarrow> nat \<Rightarrow> nat \<Rightarrow> lzma_ret \<times> lzma_vli \<times> nat \<times> nat" where
  "lzma_vli_decode vli vli_pos inb in_pos in_size =
     (case vli_pos of
        None \<Rightarrow>
          if in_pos \<ge> in_size then (LZMA_DATA_ERROR, 0, 0, in_pos)
          else vli_decode_loop True 0 0 inb in_pos in_size
      | Some p \<Rightarrow>
          let vli = (if p = 0 then 0 else vli) in
          if p \<ge> LZMA_VLI_BYTES_MAX \<or> drop_bit (p * 7) vli \<noteq> 0 then (LZMA_PROG_ERROR, vli, p, in_pos)
          else if in_pos \<ge> in_size then (LZMA_BUF_ERROR, vli, p, in_pos)
          else vli_decode_loop False vli p inb in_pos in_size)"

lemma unat_drop7: "unat (drop_bit 7 (x :: u64)) = unat x div 128"
  using unat_drop_bit_eq [of 7 x] by (simp only: drop_bit_eq_div [where 'a = nat]) simp

lemma drop_bit_less: "(x :: u64) \<noteq> 0 \<Longrightarrow> unat (drop_bit 7 x) < unat x"
  by (simp only: unat_drop7) (simp add: unat_gt_0)

lemma drop_bit_less_word: "(0x80 :: u64) \<le> x \<Longrightarrow> unat (drop_bit 7 x) < unat x"
  by (rule drop_bit_less) auto

text \<open>The loop of the encoder: the code, \<open>*vli_pos\<close>, the output buffer and \<open>*out_pos\<close>.\<close>

function vli_encode_loop ::
  "bool \<Rightarrow> lzma_vli \<Rightarrow> nat \<Rightarrow> u8 list \<Rightarrow> nat \<Rightarrow> nat \<Rightarrow> (lzma_ret \<times> nat \<times> u8 list \<times> nat) res" where
  "vli_encode_loop single vli vli_pos out out_pos out_size =
     (if vli \<ge> 0x80 then
        let vli_pos' = vli_pos + 1 in
        if \<not> vli_pos' < LZMA_VLI_BYTES_MAX then Abort
        else let out' = out[out_pos := ucast vli OR 0x80]; out_pos' = out_pos + 1 in
          if out_pos' = out_size
          then Ret (if single then LZMA_PROG_ERROR else LZMA_OK, vli_pos', out', out_pos')
          else vli_encode_loop single (drop_bit 7 vli) vli_pos' out' out_pos' out_size
      else Ret (if single then LZMA_OK else LZMA_STREAM_END, vli_pos + 1, out[out_pos := ucast vli], out_pos + 1))"
  by pat_completeness auto
termination by (relation "measure (\<lambda>(_, vli, _). unat vli)") (auto intro: drop_bit_less_word)

declare vli_encode_loop.simps [simp del]

definition lzma_vli_encode ::
  "lzma_vli \<Rightarrow> nat option \<Rightarrow> u8 list \<Rightarrow> nat \<Rightarrow> nat \<Rightarrow> (lzma_ret \<times> nat \<times> u8 list \<times> nat) res" where
  "lzma_vli_encode vli vli_pos out out_pos out_size =
     (let p = (case vli_pos of None \<Rightarrow> 0 | Some p \<Rightarrow> p) in
      if out_pos \<ge> out_size
      then Ret (if vli_pos = None then LZMA_PROG_ERROR else LZMA_BUF_ERROR, p, out, out_pos)
      else if p \<ge> LZMA_VLI_BYTES_MAX \<or> vli > LZMA_VLI_MAX then Ret (LZMA_PROG_ERROR, p, out, out_pos)
      else vli_encode_loop (vli_pos = None) (drop_bit (p * 7) vli) p out out_pos out_size)"

function vli_size_loop :: "lzma_vli \<Rightarrow> nat \<Rightarrow> nat" where
  "vli_size_loop vli i =
     (let vli' = drop_bit 7 vli in if vli' \<noteq> 0 then vli_size_loop vli' (i + 1) else i + 1)"
  by pat_completeness auto
termination
proof (relation "measure (\<lambda>(vli, _). unat vli)")
  fix vli x :: u64 and i :: nat
  assume "x = drop_bit 7 vli" "x \<noteq> 0"
  then show "((x, i + 1), (vli, i)) \<in> measure (\<lambda>(vli, _). unat vli)"
    using drop_bit_less [of vli] by (cases "vli = 0") auto
qed simp

declare vli_size_loop.simps [simp del]

definition lzma_vli_size :: "lzma_vli \<Rightarrow> nat" where
  "lzma_vli_size vli = (if vli > LZMA_VLI_MAX then 0 else vli_size_loop vli 0)"

section \<open>The byte sequence\<close>

function vli_bytes :: "lzma_vli \<Rightarrow> u8 list" where
  "vli_bytes v = (if v \<ge> 0x80 then (ucast v OR 0x80) # vli_bytes (drop_bit 7 v) else [ucast v])"
  by pat_completeness auto
termination by (relation "measure unat") (auto intro: drop_bit_less_word)

declare vli_bytes.simps [simp del]

lemma vli_bytes_small: "v < 0x80 \<Longrightarrow> vli_bytes v = [ucast v]"
  by (subst vli_bytes.simps) (simp add: not_le [symmetric])

lemma vli_bytes_large: "0x80 \<le> v \<Longrightarrow> vli_bytes v = (ucast v OR 0x80) # vli_bytes (drop_bit 7 v)"
  by (subst vli_bytes.simps) simp

lemma vli_bytes_length: "1 \<le> n \<Longrightarrow> unat v < 2 ^ (7 * n) \<Longrightarrow> length (vli_bytes v) \<le> n"
proof (induction v arbitrary: n rule: vli_bytes.induct)
  case (1 v)
  show ?case
  proof (cases "0x80 \<le> v")
    case True
    then have v: "128 \<le> unat v" by (simp add: word_le_nat_alt)
    then obtain k where n: "n = Suc (Suc k)"
      using "1.prems" by (cases n; cases "n - 1") auto
    have "unat v div 128 < 2 ^ (7 * Suc k)"
    proof -
      have "2 ^ (7 * n) = 2 ^ (7 * Suc k) * (128 :: nat)" by (simp add: n power_add)
      with "1.prems"(2) show ?thesis by (simp only: less_mult_imp_div_less)
    qed
    then have "unat (drop_bit 7 v) < 2 ^ (7 * Suc k)" by (simp only: unat_drop7)
    then have "length (vli_bytes (drop_bit 7 v)) \<le> Suc k" by (intro "1.IH" [OF True]) simp
    then show ?thesis using True by (simp add: vli_bytes_large n)
  next
    case False
    then show ?thesis using "1.prems"(1) by (simp add: vli_bytes_small not_le)
  qed
qed

section \<open>Bits of a byte\<close>

lemma and_7F: "x AND 0x7F = take_bit 7 (x :: 'a::len word)"
  by (simp add: take_bit_eq_mask mask_eq_exp_minus_1)

lemma bit_80: "bit (0x80 :: int) n \<longleftrightarrow> n = 7"
  using bit_exp_iff [where 'a = int, of 7 n] by auto

lemma unat_and_7F: "unat (x AND 0x7F :: u64) = unat x mod 128"
  by (simp only: and_7F unsigned_take_bit_eq take_bit_eq_mod [where 'a = nat]) simp

lemma ucast_u8_u64: "ucast (ucast x :: u64) = (x :: u8)"
  by (rule bit_word_eqI) (auto simp: bit_simps)

lemma low7: "ucast ((ucast v OR 0x80 :: u8) AND 0x7F) = (v AND 0x7F :: u64)"
  unfolding and_7F by (rule bit_word_eqI) (auto simp: bit_simps)

lemma split7: "(v AND 0x7F) + push_bit 7 (drop_bit 7 v) = (v :: u64)"
  unfolding and_7F by (subst add.commute) (rule bits_ident)

lemma high7: "(ucast v OR 0x80 :: u8) AND 0x80 \<noteq> 0"
proof
  assume "(ucast v OR 0x80 :: u8) AND 0x80 = 0"
  then have "bit ((ucast v OR 0x80 :: u8) AND 0x80) 7 = bit (0 :: u8) 7" by simp
  then show False by (simp add: bit_simps)
qed

section \<open>Encoding\<close>

lemma encode_loop_bytes:
  assumes "out_pos + length (vli_bytes v) \<le> out_size" "out_size \<le> length out"
    "vli_pos + length (vli_bytes v) \<le> LZMA_VLI_BYTES_MAX"
  shows "vli_encode_loop single v vli_pos out out_pos out_size =
     Ret (if single then LZMA_OK else LZMA_STREAM_END, vli_pos + length (vli_bytes v),
          write_at out_pos (vli_bytes v) out, out_pos + length (vli_bytes v))"
  using assms
proof (induction v arbitrary: vli_pos out out_pos rule: vli_bytes.induct)
  case (1 v)
  show ?case
  proof (cases "0x80 \<le> v")
    case True
    then have bs: "vli_bytes v = (ucast v OR 0x80) # vli_bytes (drop_bit 7 v)" by (rule vli_bytes_large)
    moreover have ne: "length (vli_bytes (drop_bit 7 v)) \<ge> 1" by (subst vli_bytes.simps) simp
    ultimately show ?thesis
      using True "1.prems" "1.IH" [OF True, of "out_pos + 1" "out[out_pos := ucast v OR 0x80]" "vli_pos + 1"]
      by (subst vli_encode_loop.simps) (simp add: Let_def write_at_Cons)
  next
    case False
    then have "v < 0x80" by simp
    then have bs: "vli_bytes v = [ucast v]" by (rule vli_bytes_small)
    then show ?thesis using \<open>v < 0x80\<close> "1.prems"
      by (subst vli_encode_loop.simps) (simp add: write_at_one not_le [symmetric])
  qed
qed

lemma vli_max_bytes: "v \<le> LZMA_VLI_MAX \<Longrightarrow> length (vli_bytes v) \<le> LZMA_VLI_BYTES_MAX"
  by (rule vli_bytes_length) (simp_all add: word_le_nat_alt)

lemma vli_size_loop_bytes: "vli_size_loop v i = i + length (vli_bytes v)"
proof (induction v arbitrary: i rule: vli_bytes.induct)
  case (1 v)
  show ?case
  proof (cases "0x80 \<le> v")
    case True
    then have "drop_bit 7 v \<noteq> 0" using unat_drop7 [of v] by (auto simp: word_le_nat_alt)
    with True "1.IH" show ?thesis by (subst vli_size_loop.simps) (simp add: vli_bytes_large Let_def)
  next
    case False
    then have "unat (drop_bit 7 v) = 0" by (simp only: unat_drop7) (simp add: word_le_nat_alt)
    then have "drop_bit 7 v = 0" by (simp only: unat_eq_0)
    with False show ?thesis by (subst vli_size_loop.simps) (simp add: vli_bytes_small Let_def)
  qed
qed

section \<open>Decoding\<close>

lemma vli_bytes_nonempty [simp]: "vli_bytes v \<noteq> []"
  by (subst vli_bytes.simps) simp

lemma drop7_nonzero: "0x80 \<le> v \<Longrightarrow> drop_bit 7 v \<noteq> (0 :: u64)"
  using unat_drop7 [of v] by (auto simp: word_le_nat_alt)

lemma small_byte:
  fixes v :: u64
  assumes "v < 0x80"
  shows "ucast (ucast v AND 0x7F :: u8) = v" "(ucast v :: u8) AND 0x80 = 0" "(ucast v :: u8) = 0 \<longleftrightarrow> v = 0"
proof -
  have v: "take_bit 7 v = v" using less_mask_eq [of v 7] assms by (simp add: take_bit_eq_mask)
  have "ucast (take_bit 7 (ucast v :: u8)) = take_bit 7 v"
    by (rule bit_word_eqI) (auto simp: bit_simps)
  then show 1: "ucast (ucast v AND 0x7F :: u8) = v" by (simp add: and_7F v)
  have "\<not> bit v 7" by (subst v [symmetric]) (simp add: bit_simps)
  then show "(ucast v :: u8) AND 0x80 = 0"
    by (intro bit_word_eqI) (auto simp: bit_simps bit_80)
  show "(ucast v :: u8) = 0 \<longleftrightarrow> v = 0" using 1 by auto
qed

lemma decode_loop_bytes:
  assumes "length xs + length (vli_bytes v) \<le> in_size"
    "vli_pos + length (vli_bytes v) \<le> LZMA_VLI_BYTES_MAX" "v \<noteq> 0 \<or> vli_pos = 0"
  shows "vli_decode_loop single acc vli_pos (xs @ vli_bytes v @ ys) (length xs) in_size =
     (if single then LZMA_OK else LZMA_STREAM_END, acc + push_bit (vli_pos * 7) v,
      vli_pos + length (vli_bytes v), length xs + length (vli_bytes v))"
  using assms
proof (induction v arbitrary: acc vli_pos xs rule: vli_bytes.induct)
  case (1 v)
  show ?case
  proof (cases "0x80 \<le> v")
    case True
    let ?b = "ucast v OR 0x80 :: u8" and ?w = "drop_bit 7 v"
    have bs: "vli_bytes v = ?b # vli_bytes ?w" using True by (rule vli_bytes_large)
    have ne: "1 \<le> length (vli_bytes ?w)" using vli_bytes_nonempty [of ?w] by (cases "vli_bytes ?w") auto
    have IH: "vli_decode_loop single (acc + push_bit (vli_pos * 7) (v AND 0x7F)) (vli_pos + 1)
        ((xs @ [?b]) @ vli_bytes ?w @ ys) (length (xs @ [?b])) in_size =
      (if single then LZMA_OK else LZMA_STREAM_END,
       acc + push_bit (vli_pos * 7) (v AND 0x7F) + push_bit ((vli_pos + 1) * 7) ?w,
       vli_pos + 1 + length (vli_bytes ?w), length (xs @ [?b]) + length (vli_bytes ?w))"
      by (rule "1.IH" [OF True]) (use "1.prems" bs drop7_nonzero [OF True] in simp_all)
    have "push_bit (vli_pos * 7) (v AND 0x7F) + push_bit ((vli_pos + 1) * 7) ?w
        = push_bit (vli_pos * 7) ((v AND 0x7F) + push_bit 7 ?w)"
      by (simp add: push_bit_add push_bit_push_bit add.commute)
    then have val: "acc + push_bit (vli_pos * 7) (v AND 0x7F) + push_bit ((vli_pos + 1) * 7) ?w
        = acc + push_bit (vli_pos * 7) v" by (simp add: split7 add.assoc)
    show ?thesis
      using IH bs ne "1.prems" unfolding val
      by (subst vli_decode_loop.simps) (simp add: low7 high7 Let_def nth_append)
  next
    case False
    then have v: "v < 0x80" by simp
    have bs: "vli_bytes v = [ucast v]" using v by (rule vli_bytes_small)
    show ?thesis using "1.prems" small_byte [OF v]
      by (subst vli_decode_loop.simps) (auto simp: bs nth_append Let_def)
  qed
qed

text \<open>
  The converse: what the loop accepts is the encoding of what it returns.
\<close>

lemma byte_high:
  fixes b :: u8
  assumes "b AND 0x80 \<noteq> 0" shows "(b AND 0x7F) OR 0x80 = b"
proof -
  have "b AND 0x80 = (if bit b 7 then 0x80 else 0)"
    by (rule bit_word_eqI) (auto simp: bit_simps bit_80)
  with assms have "bit b 7" by (auto split: if_splits)
  then show ?thesis unfolding and_7F
    by (intro bit_word_eqI) (auto simp: bit_simps bit_80 less_Suc_eq numeral_eq_Suc)
qed

lemma byte_or_low: "(ucast u OR 0x80 :: u8) = ucast (u AND 0x7F :: u64) OR 0x80"
  unfolding and_7F by (rule bit_word_eqI) (auto simp: bit_simps bit_80)

lemma vli_bytes_prepend:
  fixes b :: u8 and w :: u64
  assumes "b AND 0x80 \<noteq> 0" "unat w < 2 ^ (7 * n)" "n \<le> 8" "w \<noteq> 0"
  shows "vli_bytes (ucast (b AND 0x7F) + push_bit 7 w) = b # vli_bytes w"
    and "unat (ucast (b AND 0x7F) + push_bit 7 w) < 2 ^ (7 * Suc n)"
    and "ucast (b AND 0x7F) + push_bit 7 w \<noteq> 0"
proof -
  let ?l = "ucast (b AND 0x7F) :: u64" and ?u = "ucast (b AND 0x7F) + push_bit 7 w :: u64"
  have l: "unat ?l < 128"
  proof -
    have "unat (b AND 0x7F) \<le> unat (0x7F :: u8)" by (rule word_le_nat_alt [THEN iffD1]) (rule word_and_le1)
    moreover have "unat ?l \<le> unat (b AND 0x7F)"
      by (simp only: unsigned_ucast_eq take_bit_nat_less_eq_self)
    ultimately show ?thesis by simp
  qed
  have "(2 :: nat) ^ (7 * n) \<le> 2 ^ 56" using assms(3) by (intro power_increasing) auto
  with assms(2) have w: "unat w < 2 ^ 56" by linarith
  have sh: "unat (push_bit 7 w) = 128 * unat w"
    using w by (simp add: push_bit_eq_mult unat_mult_lem [THEN iffD1])
  have u: "unat ?u = unat ?l + 128 * unat w"
    using l w sh by (subst unat_add_lem [THEN iffD1]) simp_all
  have w0: "1 \<le> unat w" using assms(4) by (simp add: unat_gt_0 Suc_leI)
  then have big: "0x80 \<le> ?u" using u by (simp add: word_le_nat_alt)
  have "unat (drop_bit 7 ?u) = unat w" using u l by (simp only: unat_drop7)
  then have d: "drop_bit 7 ?u = w" by (rule word_unat_eq_iff [THEN iffD2])
  have "unat (?u AND 0x7F) = unat ?l"
    using l by (simp only: unat_and_7F u mod_mult_self2 mod_less)
  then have low: "?u AND 0x7F = ?l" by (rule word_unat_eq_iff [THEN iffD2])
  have "(ucast ?u OR 0x80 :: u8) = ucast (?u AND 0x7F) OR 0x80" by (rule byte_or_low)
  also note low
  also have "(ucast ?l :: u8) = b AND 0x7F" by (simp add: ucast_u8_u64)
  finally have "(ucast ?u OR 0x80 :: u8) = b" using byte_high [OF assms(1)] by simp
  with vli_bytes_large [OF big] d show "vli_bytes ?u = b # vli_bytes w" by (simp only:)
  show "?u \<noteq> 0" using big by auto
  have "unat ?l + 128 * unat w < 128 * 2 ^ (7 * n)" using l assms(2) by linarith
  then show "unat ?u < 2 ^ (7 * Suc n)" by (simp only: u) (simp add: power_add)
qed

lemma low_byte:
  fixes b :: u8
  assumes "b AND 0x80 = 0"
  shows "(ucast (ucast (b AND 0x7F) :: u64) :: u8) = b" "(ucast (b AND 0x7F) :: u64) < 0x80"
    "(ucast (b AND 0x7F) :: u64) = 0 \<longleftrightarrow> b = 0"
proof -
  have nb: "\<not> bit b 7"
  proof
    assume "bit b 7"
    then have "bit (b AND 0x80) 7" by (simp add: bit_simps bit_80)
    with assms show False by simp
  qed
  have b: "b AND 0x7F = b" unfolding and_7F
  proof (rule bit_word_eqI)
    show "bit (take_bit 7 b) n = bit b n" if "n < LENGTH(8)" for n
      using nb that by (cases "n = 7") (auto simp: bit_simps)
  qed
  then show 1: "(ucast (ucast (b AND 0x7F) :: u64) :: u8) = b" by (simp add: ucast_u8_u64)
  show "(ucast (b AND 0x7F) :: u64) = 0 \<longleftrightarrow> b = 0" using 1 b by auto
  have "unat (ucast b :: u64) \<le> unat b" by (simp only: unsigned_ucast_eq take_bit_nat_less_eq_self)
  also have "unat b \<le> unat (0x7F :: u8)"
    by (subst b [symmetric]) (rule word_le_nat_alt [THEN iffD1], rule word_and_le1)
  finally show "(ucast (b AND 0x7F) :: u64) < 0x80" by (simp add: b word_less_nat_alt)
qed

lemma decode_loop_canonical:
  assumes "vli_decode_loop single acc p inb ip isz = (r, v, p', ip')"
    and "r = (if single then LZMA_OK else LZMA_STREAM_END)" "ip < isz" "isz \<le> length inb" "p < LZMA_VLI_BYTES_MAX"
  shows "\<exists>u. v = acc + push_bit (p * 7) u \<and> take (ip' - ip) (drop ip inb) = vli_bytes u
     \<and> unat u < 2 ^ (7 * (ip' - ip)) \<and> ip < ip' \<and> ip' \<le> isz \<and> p' = p + (ip' - ip) \<and> p' \<le> LZMA_VLI_BYTES_MAX
     \<and> (p = 0 \<or> u \<noteq> 0)"
  using assms
proof (induction single acc p inb ip isz rule: vli_decode_loop.induct)
  case (1 single acc p inb ip isz)
  let ?b = "inb ! ip" and ?acc = "acc + push_bit (p * 7) (ucast (inb ! ip AND 0x7F))"
  have ip: "ip < length inb" using "1.prems" by simp
  show ?case
  proof (cases "?b AND 0x80 = 0")
    case True
    have bytes: "vli_bytes (ucast (?b AND 0x7F)) = [?b]"
      using low_byte [OF True] by (simp add: vli_bytes_small)
    have len: "unat (ucast (?b AND 0x7F) :: u64) < 2 ^ 7"
      using low_byte(2) [OF True] by (simp add: word_less_nat_alt)
    have "\<not> (?b = 0 \<and> p + 1 > 1)" "v = ?acc" "p' = p + 1" "ip' = ip + 1"
      using True "1.prems"(1,2) by (subst (asm) (1) vli_decode_loop.simps; auto simp: Let_def split: if_splits)+
    then show ?thesis
      using bytes len ip "1.prems"(3-5) low_byte(3) [OF True]
      by (intro exI [of _ "ucast (?b AND 0x7F)"]) (auto simp: take_Suc_conv_app_nth hd_drop_conv_nth take_Suc)
  next
    case False
    then have cont: "p + 1 \<noteq> LZMA_VLI_BYTES_MAX" "ip + 1 < isz"
      "vli_decode_loop single ?acc (p + 1) inb (ip + 1) isz = (r, v, p', ip')"
      using "1.prems"(1,2) by (subst (asm) (1) vli_decode_loop.simps; auto simp: Let_def split: if_splits)+
    obtain w where w: "v = ?acc + push_bit ((p + 1) * 7) w"
      "take (ip' - (ip + 1)) (drop (ip + 1) inb) = vli_bytes w" "unat w < 2 ^ (7 * (ip' - (ip + 1)))"
      "ip + 1 < ip'" "ip' \<le> isz" "p' = p + 1 + (ip' - (ip + 1))" "p' \<le> LZMA_VLI_BYTES_MAX" "w \<noteq> 0"
      using "1.IH" [OF refl refl refl refl False cont(1,2) cont(3)] "1.prems"(2-5) cont by auto
    have n: "ip' - (ip + 1) \<le> 8" using w(6,7) by simp
    let ?u = "ucast (?b AND 0x7F) + push_bit 7 w :: u64"
    note pre = vli_bytes_prepend [OF False w(3) n w(8)]
    have "v = acc + push_bit (p * 7) ?u"
      by (simp add: w(1) push_bit_add push_bit_push_bit add.assoc add.commute [of 7])
    moreover have "take (ip' - ip) (drop ip inb) = ?b # take (ip' - (ip + 1)) (drop (ip + 1) inb)"
    proof -
      have "ip' - ip = Suc (ip' - (ip + 1))" using w(4) by simp
      then show ?thesis using ip by (simp add: Cons_nth_drop_Suc [symmetric])
    qed
    moreover have "Suc (ip' - (ip + 1)) = ip' - ip" using w(4) by simp
    ultimately show ?thesis using pre w
      by (intro exI [of _ ?u]) (auto simp del: push_bit_add)
  qed
qed

section \<open>Decoding in pieces\<close>

lemma decode_loop_split:
  assumes "vli_decode_loop False acc p inb ip mid = (r, v, p', ip')" "ip < mid" "mid < isz"
  shows "vli_decode_loop False acc p inb ip isz =
     (if r = LZMA_OK then vli_decode_loop False v p' inb ip' isz else (r, v, p', ip')) \<and> (r = LZMA_OK \<longrightarrow> ip' = mid)"
  using assms
proof (induction "False" acc p inb ip mid rule: vli_decode_loop.induct)
  case (1 acc p inb ip mid)
  let ?b = "inb ! ip" and ?acc = "acc + push_bit (p * 7) (ucast (inb ! ip AND 0x7F))"
  show ?case
  proof (cases "?b AND 0x80 = 0 \<or> p + 1 = LZMA_VLI_BYTES_MAX")
    case True
    then show ?thesis using "1.prems"
      by (subst vli_decode_loop.simps, subst (asm) (1) vli_decode_loop.simps)
        (auto simp: Let_def split: if_splits)
  next
    case False
    show ?thesis
    proof (cases "ip + 1 < mid")
      case True
      then have "vli_decode_loop False ?acc (p + 1) inb (ip + 1) mid = (r, v, p', ip')"
        using False "1.prems"(1) by (subst (asm) (1) vli_decode_loop.simps) (simp add: Let_def)
      moreover have "vli_decode_loop False acc p inb ip isz = vli_decode_loop False ?acc (p + 1) inb (ip + 1) isz"
        using False True "1.prems" by (subst vli_decode_loop.simps) (simp add: Let_def)
      ultimately show ?thesis
        using "1.hyps" [OF refl refl refl refl] False True "1.prems"(3) by auto
    next
      case end_piece: False
      then have "r = LZMA_OK" "v = ?acc" "p' = p + 1" "ip' = ip + 1" "ip + 1 = mid"
        using False "1.prems" by (subst (asm) (1) vli_decode_loop.simps; simp add: Let_def)+
      then show ?thesis using False "1.prems"(3)
        by (subst vli_decode_loop.simps) (simp add: Let_def)
    qed
  qed
qed

section \<open>The codec\<close>

text \<open>What an unfinished call leaves behind passes the check at the start of the next one.\<close>

lemma decode_step_fits:
  assumes "drop_bit (p * 7) v = (0 :: u64)" "p < LZMA_VLI_BYTES_MAX"
  shows "drop_bit ((p + 1) * 7) (v + push_bit (p * 7) (ucast (byte AND 0x7F :: u8))) = 0"
proof -
  let ?b = "ucast (byte AND 0x7F :: u8) :: u64" and ?n = "p * 7"
  have "(2::nat) ^ ?n \<le> 2 ^ 56" using assms(2) by (intro power_increasing) auto
  moreover have "unat v < 2 ^ ?n"
    using assms(1) unat_drop_bit_eq [of ?n v] by (simp add: drop_bit_eq_div div_eq_0_iff)
  moreover have b: "unat ?b < 128"
  proof -
    have "unat ?b = unat (byte AND 0x7F)"
      using unsigned_less [of "byte AND 0x7F", where 'a = nat]
      by (simp add: unsigned_ucast_eq take_bit_nat_eq_self_iff)
    also have "\<dots> = unat byte mod 128" by (simp only: and_7F unsigned_take_bit_eq) (simp add: take_bit_eq_mod)
    finally show ?thesis by simp
  qed
  moreover have push: "unat (push_bit ?n ?b) = unat ?b * 2 ^ ?n"
  proof -
    have "unat ?b * 2 ^ ?n < 128 * 2 ^ 56" using b calculation(1)
      by (meson le_less_trans mult_le_mono2 mult_less_cancel2 nat_less_le zero_less_numeral zero_less_power less_le_trans mult_strict_right_mono)
    then have "unat ?b * 2 ^ ?n < 2 ^ 64" by simp
    then show ?thesis
      by (simp only: unsigned_push_bit_eq) (simp add: push_bit_eq_mult take_bit_nat_eq_self_iff)
  qed
  ultimately have "unat v + unat (push_bit ?n ?b) < 2 ^ ?n + 127 * 2 ^ ?n"
    by (intro add_less_le_mono) (auto intro: mult_right_mono)
  then have s: "unat v + unat (push_bit ?n ?b) < 2 ^ ((p + 1) * 7)" by (simp add: power_add)
  moreover have "(2::nat) ^ ((p + 1) * 7) \<le> 2 ^ 63" using assms(2) by (intro power_increasing) auto
  ultimately have "unat (v + push_bit ?n ?b) = unat v + unat (push_bit ?n ?b)"
    by (simp add: unat_add_lem [symmetric])
  with s have "unat (drop_bit ((p + 1) * 7) (v + push_bit ?n ?b)) = 0"
    by (simp only: unat_drop_bit_eq) (simp add: drop_bit_eq_div)
  then show ?thesis by (simp add: unsigned_eq_0_iff)
qed

lemma decode_loop_fits:
  "vli_decode_loop False v p inb ip mid = (LZMA_OK, v', p', ip') \<Longrightarrow> p < LZMA_VLI_BYTES_MAX \<Longrightarrow>
   drop_bit (p * 7) v = 0 \<Longrightarrow> 0 < p' \<and> p' < LZMA_VLI_BYTES_MAX \<and> drop_bit (p' * 7) v' = 0"
proof (induction False v p inb ip mid rule: vli_decode_loop.induct)
  case (1 v p inb ip mid)
  note fits = decode_step_fits [OF 1(4,3), of "inb ! ip"]
  show ?case
    using 1(1) [OF refl refl refl refl] 1(2,3) fits
    by (subst (asm) (2) vli_decode_loop.simps) (auto simp: Let_def split: if_splits)
qed
definition vli_dec :: "u8 list \<Rightarrow> nat \<Rightarrow> (lzma_vli \<times> nat) option" where
  "vli_dec buf p =
     (case lzma_vli_decode 0 None buf p (length buf) of
        (r, v, _, p') \<Rightarrow> if r = LZMA_OK then Some (v, p') else None)"

lemma vli_decode_bytes:
  assumes "v \<le> LZMA_VLI_MAX" "length xs + length (vli_bytes v) \<le> in_size"
  shows "lzma_vli_decode v0 None (xs @ vli_bytes v @ ys) (length xs) in_size =
     (LZMA_OK, v, length (vli_bytes v), length xs + length (vli_bytes v))"
proof -
  have "1 \<le> length (vli_bytes v)" using vli_bytes_nonempty [of v] by (cases "vli_bytes v") auto
  then show ?thesis
    using assms vli_max_bytes [OF assms(1)] decode_loop_bytes [of xs v in_size 0 True 0 ys]
    by (simp add: lzma_vli_decode_def)
qed

interpretation vli: byte_codec vli_bytes vli_dec "\<lambda>v. v \<le> LZMA_VLI_MAX"
  by unfold_locales (simp add: vli_dec_def vli_decode_bytes)

lemma vli_size_bytes: "v \<le> LZMA_VLI_MAX \<Longrightarrow> lzma_vli_size v = length (vli_bytes v)"
  by (simp add: lzma_vli_size_def vli_size_loop_bytes not_less)

lemma vli_bytes_pos: "1 \<le> length (vli_bytes v)"
  using vli_bytes_nonempty [of v] by (cases "vli_bytes v") auto

lemma vli_encode_bytes:
  assumes "v \<le> LZMA_VLI_MAX" "p + length (vli_bytes v) \<le> out_size" "out_size \<le> length out"
  shows "lzma_vli_encode v None out p out_size
     = Ret (LZMA_OK, length (vli_bytes v), write_at p (vli_bytes v) out, p + length (vli_bytes v))"
  using assms vli_max_bytes [OF assms(1)] vli_bytes_pos [of v] encode_loop_bytes [OF assms(2,3), of 0 True]
  by (simp add: lzma_vli_encode_def not_less)

section \<open>Properties\<close>

text \<open>
  C22: encoding then decoding gives the number back. For every valid number and enough room,
  \<open>lzma_vli_encode\<close> succeeds and writes as many bytes as \<open>lzma_vli_size\<close> says, at most nine, and
  \<open>lzma_vli_decode\<close> on the buffer returns the number and consumes exactly those bytes.
\<close>

theorem vli_round_trip:
  assumes "v \<le> LZMA_VLI_MAX" "p + lzma_vli_size v \<le> length out"
  shows "\<exists>out'. lzma_vli_encode v None out p (length out)
           = Ret (LZMA_OK, lzma_vli_size v, out', p + lzma_vli_size v)
     \<and> length out' = length out \<and> lzma_vli_size v \<in> {1..LZMA_VLI_BYTES_MAX}
     \<and> lzma_vli_decode v0 None out' p (length out) = (LZMA_OK, v, lzma_vli_size v, p + lzma_vli_size v)"
proof -
  note size = vli_size_bytes [OF assms(1)] and ne = vli_bytes_pos [of v] and le = vli_max_bytes [OF assms(1)]
  have fit: "p + length (vli_bytes v) \<le> length out" using assms(2) size by simp
  let ?out = "write_at p (vli_bytes v) out"
  note enc = vli_encode_bytes [OF assms(1) fit order_refl]
  have "?out = take p out @ vli_bytes v @ drop (p + length (vli_bytes v)) out"
    by (simp add: write_at_def)
  moreover have "length (take p out) = p" using fit by simp
  ultimately have "lzma_vli_decode v0 None ?out p (length out)
      = (LZMA_OK, v, length (vli_bytes v), p + length (vli_bytes v))"
    using vli_decode_bytes [OF assms(1), of "take p out" "length out" v0 "drop (p + length (vli_bytes v)) out"] fit
    by simp
  with enc size ne le fit show ?thesis by (intro exI [of _ ?out]) simp
qed

theorem vli_round_trip_witness:
  "\<exists>out'. lzma_vli_encode 300 None [0, 0, 0, 0] 1 4 = Ret (LZMA_OK, 2, out', 3)
     \<and> lzma_vli_decode 0 None out' 1 4 = (LZMA_OK, 300, 2, 3)"
proof -
  have s: "lzma_vli_size 300 = 2"
    by (simp add: lzma_vli_size_def vli_size_loop.simps [of 300] vli_size_loop.simps [of 2] Let_def)
  have l: "length [0, 0, 0, 0 :: u8] = 4" and n: "(1 :: nat) + 2 = 3" by simp_all
  have "1 + lzma_vli_size 300 \<le> length [0, 0, 0, 0 :: u8]" unfolding s l by simp
  from vli_round_trip [OF _ this, of 0] show ?thesis unfolding s l n by auto
qed

text \<open>
  C23: the decoder accepts only canonical encodings. When \<open>lzma_vli_decode\<close> accepts, the number is
  valid and the bytes it consumed are exactly those \<open>lzma_vli_encode\<close> writes for it; two buffers
  decode to the same number only if they hold the same bytes.
\<close>

theorem vli_decode_canonical:
  assumes "lzma_vli_decode v0 None inb p in_size = (LZMA_OK, v, n, q)" "in_size \<le> length inb"
  shows "v \<le> LZMA_VLI_MAX \<and> p < q \<and> q \<le> in_size \<and> n = q - p \<and> n = lzma_vli_size v
    \<and> take n (drop p inb) = vli_bytes v"
proof -
  have p: "p < in_size" and loop: "vli_decode_loop True 0 0 inb p in_size = (LZMA_OK, v, n, q)"
    using assms(1) by (auto simp: lzma_vli_decode_def split: if_splits)
  from decode_loop_canonical [OF loop _ p assms(2)] have
    b: "take (q - p) (drop p inb) = vli_bytes v" "unat v < 2 ^ (7 * (q - p))" "p < q" "q \<le> in_size"
      "n = q - p" "n \<le> LZMA_VLI_BYTES_MAX" by auto
  have "(2 :: nat) ^ (7 * (q - p)) \<le> 2 ^ 63" using b(5,6) by (intro power_increasing) auto
  with b(2) have "unat v < 2 ^ 63" by linarith
  then have max: "v \<le> LZMA_VLI_MAX" by (simp add: word_le_nat_alt)
  have "length (vli_bytes v) = q - p" using b(1,4) assms(2) by (metis diff_le_mono length_drop length_take min_absorb2 order_trans)
  then have "lzma_vli_size v = q - p"
    using max by (simp add: lzma_vli_size_def vli_size_loop_bytes not_less)
  with b max show ?thesis by simp
qed

theorem vli_decode_canonical_witness:
  "lzma_vli_decode 0 None [0xAC, 0x02] 0 2 = (LZMA_OK, 300, 2, 2) \<and> take 2 [0xAC, 0x02] = vli_bytes 300"
proof -
  have d: "lzma_vli_decode 0 None [0xAC, 0x02] 0 2 = (LZMA_OK, 300, 2, 2)"
    by (simp add: lzma_vli_decode_def vli_decode_loop.simps [of True] Let_def)
  have "2 \<le> length [0xAC, 0x02 :: u8]" by simp
  from vli_decode_canonical [OF d this] have "take 2 (drop 0 [0xAC, 0x02]) = vli_bytes 300" by blast
  with d show ?thesis by (simp only: drop_0)
qed

text \<open>
  C24: decoding may be cut anywhere. A call that gets the input up to \<open>mid\<close> only and asks for more
  has read all of it, and calling \<open>lzma_vli_decode\<close> again, with the number and the position it
  left and the rest of the input, ends as a single call with all of the input.
\<close>

theorem vli_decode_resumes:
  assumes "lzma_vli_decode v0 (Some p) inb ip mid = (LZMA_OK, v, p', ip')" "mid < in_size"
  shows "ip' = mid
     \<and> lzma_vli_decode v (Some p') inb mid in_size = lzma_vli_decode v0 (Some p) inb ip in_size"
proof -
  have p: "p < LZMA_VLI_BYTES_MAX" "ip < mid" and chk: "drop_bit (p * 7) (if p = 0 then 0 else v0) = 0"
    using assms(1) by (auto simp: lzma_vli_decode_def Let_def split: if_splits)
  then have 1: "vli_decode_loop False (if p = 0 then 0 else v0) p inb ip mid = (LZMA_OK, v, p', ip')"
    using assms(1) by (simp add: lzma_vli_decode_def Let_def)
  have "0 < p' \<and> p' < LZMA_VLI_BYTES_MAX \<and> drop_bit (p' * 7) v = 0"
    using decode_loop_fits [OF 1 p(1) chk] .
  with decode_loop_split [OF 1 p(2) assms(2)] chk p assms(2) show ?thesis
    by (simp add: lzma_vli_decode_def Let_def)
qed

theorem vli_decode_resumes_witness:
  "lzma_vli_decode 0 (Some 0) [0xAC, 0x02] 0 1 = (LZMA_OK, 44, 1, 1)
   \<and> lzma_vli_decode 44 (Some 1) [0xAC, 0x02] 1 2 = lzma_vli_decode 0 (Some 0) [0xAC, 0x02] 0 2
   \<and> lzma_vli_decode 44 (Some 1) [0xAC, 0x02] 1 2 = (LZMA_STREAM_END, 300, 2, 2)"
proof -
  have 1: "lzma_vli_decode 0 (Some 0) [0xAC, 0x02] 0 1 = (LZMA_OK, 44, 1, 1)"
    by (simp add: lzma_vli_decode_def vli_decode_loop.simps [of False] Let_def)
  have 2: "lzma_vli_decode 44 (Some 1) [0xAC, 0x02] 1 2 = (LZMA_STREAM_END, 300, 2, 2)"
    by (simp add: lzma_vli_decode_def vli_decode_loop.simps [of False] Let_def)
  from vli_decode_resumes [OF 1, of 2] 1 2 show ?thesis by simp
qed

end
