(* ===== verification/Tuklib_Integer.thy ===== *)
theory Tuklib_Integer
  imports Lzma_Base
begin

text \<open>
  Byte swapping and the reads and writes of integers in a byte order (\<open>src/common/tuklib_integer.h\<close>)
  for the little-endian target, with the bit lemmas on bytes inside wider words.
\<close>

section \<open>Operations\<close>

definition bswap32 :: "u32 \<Rightarrow> u32" where
  "bswap32 num = push_bit 24 num OR (push_bit 8 num AND 0x00FF0000)
     OR (drop_bit 8 num AND 0x0000FF00) OR drop_bit 24 num"

definition bswap64 :: "u64 \<Rightarrow> u64" where
  "bswap64 num = push_bit 56 num OR (push_bit 40 num AND 0x00FF000000000000)
     OR (push_bit 24 num AND 0x0000FF0000000000) OR (push_bit 8 num AND 0x000000FF00000000)
     OR (drop_bit 8 num AND 0x00000000FF000000) OR (drop_bit 24 num AND 0x0000000000FF0000)
     OR (drop_bit 40 num AND 0x000000000000FF00) OR drop_bit 56 num"

abbreviation (input) conv32be :: "u32 \<Rightarrow> u32" where "conv32be \<equiv> bswap32"
abbreviation (input) conv64be :: "u64 \<Rightarrow> u64" where "conv64be \<equiv> bswap64"
abbreviation (input) conv32le :: "u32 \<Rightarrow> u32" where "conv32le num \<equiv> num"
abbreviation (input) conv64le :: "u64 \<Rightarrow> u64" where "conv64le num \<equiv> num"

text \<open>A 32-bit load and the stores of the machine.\<close>

definition load32 :: "u8 \<Rightarrow> u8 \<Rightarrow> u8 \<Rightarrow> u8 \<Rightarrow> u32" where
  "load32 b0 b1 b2 b3 =
     ucast b0 OR push_bit 8 (ucast b1) OR push_bit 16 (ucast b2) OR push_bit 24 (ucast b3)"

definition write32ne :: "u32 \<Rightarrow> u8 list" where
  "write32ne num = [ucast num, ucast (drop_bit 8 num), ucast (drop_bit 16 num), ucast (drop_bit 24 num)]"

definition write64ne :: "u64 \<Rightarrow> u8 list" where
  "write64ne num = map (\<lambda>k. ucast (drop_bit (8 * k) num)) [0..<8]"

text \<open>The byte-wise reads at a position of a buffer, and the bytes the writes store.\<close>

definition unaligned_read32le :: "u8 list \<Rightarrow> nat \<Rightarrow> u32" where
  "unaligned_read32le buf p =
     ucast (buf ! p) OR push_bit 8 (ucast (buf ! (p + 1)))
     OR push_bit 16 (ucast (buf ! (p + 2))) OR push_bit 24 (ucast (buf ! (p + 3)))"

definition unaligned_read32be :: "u8 list \<Rightarrow> nat \<Rightarrow> u32" where
  "unaligned_read32be buf p =
     push_bit 24 (ucast (buf ! p)) OR push_bit 16 (ucast (buf ! (p + 1)))
     OR push_bit 8 (ucast (buf ! (p + 2))) OR ucast (buf ! (p + 3))"

definition unaligned_write32le :: "u32 \<Rightarrow> u8 list" where
  "unaligned_write32le num = [ucast num, ucast (drop_bit 8 num), ucast (drop_bit 16 num), ucast (drop_bit 24 num)]"

definition unaligned_write32be :: "u32 \<Rightarrow> u8 list" where
  "unaligned_write32be num = [ucast (drop_bit 24 num), ucast (drop_bit 16 num), ucast (drop_bit 8 num), ucast num]"

section \<open>Bytes in words\<close>

lemma and_FF: "x AND 0xFF = take_bit 8 (x :: 'a::len word)"
  by (simp add: take_bit_eq_mask mask_eq_exp_minus_1)

lemma take_ucast_u8: "8 \<le> LENGTH('a) \<Longrightarrow> take_bit 8 (ucast (b :: u8)) = (ucast b :: 'a::len word)"
  by (rule bit_eqI) (auto simp: bit_simps dest: bit_imp_le_length)

lemma drop_ucast_u8: "8 \<le> LENGTH('a) \<Longrightarrow> drop_bit 8 (ucast (b :: u8)) = (0 :: 'a::len word)"
  by (rule bit_eqI) (auto simp: bit_simps dest: bit_imp_le_length)

lemma not_bit_u8: "8 \<le> n \<Longrightarrow> \<not> bit (b :: u8) n"
  by (simp add: bit_word_iff_drop_bit_and)

lemma bit_pushed_u8:
  "bit (push_bit k (ucast (b :: u8)) :: 'a::len word) n \<longleftrightarrow> n < LENGTH('a) \<and> k \<le> n \<and> n < k + 8 \<and> bit b (n - k)"
  using not_bit_u8 [of "n - k" b] by (cases "n - k < 8") (auto simp: bit_simps)

lemma bit_ucast_u8:
  "bit (ucast (b :: u8) :: 'a::len word) n \<longleftrightarrow> n < LENGTH('a) \<and> n < 8 \<and> bit b n"
  using not_bit_u8 [of n b] by (cases "n < 8") (auto simp: bit_simps)

lemma or_eq_xor: "(\<And>n. \<not> (bit x n \<and> bit y n)) \<Longrightarrow> x OR y = x XOR (y :: 'a::len word)"
  by (rule bit_word_eqI) (auto simp: bit_or_iff bit_xor_iff)

lemma four_bytes_xor:
  "ucast b0 OR push_bit 8 (ucast b1) OR push_bit 16 (ucast b2) OR push_bit 24 (ucast (b3 :: u8))
   = (ucast (b0 :: u8) XOR push_bit 8 (ucast (b1 :: u8)) XOR push_bit 16 (ucast (b2 :: u8))
      XOR push_bit 24 (ucast b3) :: 'a::len word)"
proof -
  have 2: "push_bit k (ucast b) OR x = push_bit k (ucast (b :: u8)) XOR x"
    if "\<And>n. bit x n \<Longrightarrow> k + 8 \<le> n" for x :: "'a word" and k b
    by (rule or_eq_xor) (use that in \<open>force simp only: bit_pushed_u8\<close>)
  have "push_bit 16 (ucast b2) OR push_bit 24 (ucast b3)
      = (push_bit 16 (ucast b2) XOR push_bit 24 (ucast b3) :: 'a word)"
    by (rule 2) (simp only: bit_pushed_u8, linarith)
  moreover have "push_bit 8 (ucast b1) OR (push_bit 16 (ucast b2) XOR push_bit 24 (ucast b3))
      = (push_bit 8 (ucast b1) XOR push_bit 16 (ucast b2) XOR push_bit 24 (ucast b3) :: 'a word)"
    by (rule 2) (simp only: bit_xor_iff bit_pushed_u8, linarith)
  moreover have "push_bit 0 (ucast b0) OR (push_bit 8 (ucast b1) XOR push_bit 16 (ucast b2) XOR push_bit 24 (ucast b3))
      = (push_bit 0 (ucast b0) XOR push_bit 8 (ucast b1) XOR push_bit 16 (ucast b2) XOR push_bit 24 (ucast b3) :: 'a word)"
    by (rule 2) (simp only: bit_xor_iff bit_pushed_u8, linarith)
  ultimately show ?thesis by (simp only: push_bit_0_id id_apply)
qed

lemma load32_xor:
  "load32 b0 b1 b2 b3 = ucast b0 XOR push_bit 8 (ucast b1) XOR push_bit 16 (ucast b2) XOR push_bit 24 (ucast b3)"
  unfolding load32_def by (rule four_bytes_xor)

lemma ucast_xor: "ucast (x XOR y :: 'b::len word) = (ucast x XOR ucast y :: 'a::len word)"
  by (rule bit_word_eqI) (auto simp: bit_ucast_iff bit_xor_iff dest: bit_imp_le_length)

lemma ucast_pushed: "k + 8 \<le> 32 \<Longrightarrow> ucast (push_bit k (ucast (b :: u8)) :: u32) = (push_bit k (ucast b) :: u64)"
  by (rule bit_word_eqI) (simp only: bit_ucast_iff bit_pushed_u8, auto)

lemma ucast_load32:
  "(ucast (load32 b0 b1 b2 b3) :: u64)
   = ucast b0 XOR push_bit 8 (ucast b1) XOR push_bit 16 (ucast b2) XOR push_bit 24 (ucast b3)"
  using ucast_pushed [of 0 b0] by (simp add: load32_xor ucast_xor ucast_pushed)


section \<open>Reads and writes\<close>

text \<open>The bits of a word assembled from bytes, and of the byte at an offset of a word.\<close>

lemma bit_load32:
  "bit (load32 b0 b1 b2 b3) n \<longleftrightarrow>
     (if n < 8 then bit b0 n else if n < 16 then bit b1 (n - 8)
      else if n < 24 then bit b2 (n - 16) else n < 32 \<and> bit b3 (n - 24))"
  by (simp only: load32_def bit_or_iff bit_ucast_u8 bit_pushed_u8) (auto simp: not_bit_u8)

lemma bit_byte_of: "bit (ucast x :: u8) n \<longleftrightarrow> n < 8 \<and> bit x n"
  by (simp add: bit_ucast_iff)

lemma load32_bytes:
  "load32 (ucast x) (ucast (drop_bit 8 x)) (ucast (drop_bit 16 x)) (ucast (drop_bit 24 x)) = x"
  by (rule bit_word_eqI) (simp only: bit_load32 bit_byte_of bit_drop_bit_eq comp_def, auto)

lemma bytes_load32:
  "ucast (load32 b0 b1 b2 b3) = b0" "ucast (drop_bit 8 (load32 b0 b1 b2 b3)) = b1"
  "ucast (drop_bit 16 (load32 b0 b1 b2 b3)) = b2" "ucast (drop_bit 24 (load32 b0 b1 b2 b3)) = b3"
  by (rule bit_word_eqI, simp only: bit_byte_of bit_drop_bit_eq comp_def bit_load32, simp)+

lemma read32le_load: "unaligned_read32le buf p = load32 (buf ! p) (buf ! (p + 1)) (buf ! (p + 2)) (buf ! (p + 3))"
  by (simp only: unaligned_read32le_def load32_def)

lemma read32be_load: "unaligned_read32be buf p = load32 (buf ! (p + 3)) (buf ! (p + 2)) (buf ! (p + 1)) (buf ! p)"
  by (simp only: unaligned_read32be_def load32_def ac_simps)

text \<open>The byte-swapped load is the big-endian read.\<close>

lemma mask32: "(0x00FF0000 :: u32) = push_bit 16 (mask 8)" "(0x0000FF00 :: u32) = push_bit 8 (mask 8)"
  by (simp_all add: mask_eq_exp_minus_1 push_bit_eq_mult)

lemma bswap32_load32: "bswap32 (load32 b0 b1 b2 b3) = load32 b3 b2 b1 b0"
proof (rule bit_word_eqI)
  fix n assume "n < LENGTH(32)"
  have m: "bit (0x00FF0000 :: u32) n \<longleftrightarrow> 16 \<le> n \<and> n < 24" "bit (0x0000FF00 :: u32) n \<longleftrightarrow> 8 \<le> n \<and> n < 16"
    unfolding mask32 by (simp_all only: bit_push_bit_iff bit_mask_iff) auto
  show "bit (bswap32 (load32 b0 b1 b2 b3)) n = bit (load32 b3 b2 b1 b0) n"
    using \<open>n < _\<close> unfolding bswap32_def
    by (simp only: bit_or_iff bit_and_iff m bit_push_bit_iff bit_drop_bit_eq comp_def bit_load32) auto
qed

lemma take4_drop: "p + 4 \<le> length buf \<Longrightarrow> [buf ! p, buf ! (p + 1), buf ! (p + 2), buf ! (p + 3)] = take 4 (drop p buf)"
  by (rule nth_equalityI) (auto simp: nth_Cons' less_Suc_eq numeral_eq_Suc)

lemma write_at_take: "p + k \<le> length buf \<Longrightarrow> write_at p (take k (drop p buf)) buf = buf"
  by (simp add: write_at_def) (metis append_take_drop_id drop_drop add.commute)

lemma read32le_append:
  "length xs = p \<Longrightarrow> unaligned_read32le (xs @ unaligned_write32le x @ ys) p = x"
  by (simp add: read32le_load unaligned_write32le_def nth_append load32_bytes)

lemma read32le_write32le:
  "p + 4 \<le> length buf \<Longrightarrow> unaligned_read32le (write_at p (unaligned_write32le x) buf) p = x"
  by (simp add: read32le_load write_at_def nth_append unaligned_write32le_def load32_bytes)

lemma read32be_write32be:
  "p + 4 \<le> length buf \<Longrightarrow> unaligned_read32be (write_at p (unaligned_write32be x) buf) p = x"
  by (simp add: read32be_load write_at_def nth_append unaligned_write32be_def load32_bytes)

lemma write32be_read32be:
  "p + 4 \<le> length buf \<Longrightarrow> write_at p (unaligned_write32be (unaligned_read32be buf p)) buf = buf"
  by (simp add: read32be_load unaligned_write32be_def bytes_load32 take4_drop [simplified] write_at_take)

end
