(* ===== verification/Crc.thy ===== *)
theory Crc
  imports Tuklib_Integer
begin

text \<open>
  The cyclic redundancy checks of liblzma (\<open>check/crc32_small.c\<close>, \<open>crc64_small.c\<close>,
  \<open>crc32_fast.c\<close>, \<open>crc64_fast.c\<close> and the table generators): the byte-wise and the sliced
  algorithms with the tables they use, and the proof that they compute the same function, the
  bit-wise CRC. The target is little-endian.
\<close>

section \<open>Bit-wise step\<close>

text \<open>The body of the innermost loop of the table generators, for a polynomial \<open>poly\<close>.\<close>

definition crc_bit :: "'a::len word \<Rightarrow> 'a word \<Rightarrow> 'a word" where
  "crc_bit poly r = (if r AND 1 \<noteq> 0 then drop_bit 1 r XOR poly else drop_bit 1 r)"

abbreviation (input) poly32 :: u32 where "poly32 \<equiv> 0xEDB88320"
abbreviation (input) poly64 :: u64 where "poly64 \<equiv> 0xC96C5795D7870F42"

section \<open>Tables\<close>

text \<open>
  \<open>init_crc32_table\<close> and \<open>init_crc64_table\<close>: the entry \<open>b\<close> of table \<open>s\<close>; the generators of the
  small variants (\<open>crc32_init\<close>, \<open>crc64_init\<close>) fill table 0.
\<close>

fun crc_table :: "'a::len word \<Rightarrow> nat \<Rightarrow> 'a word \<Rightarrow> 'a word" where
  "crc_table poly 0 b = (crc_bit poly ^^ 8) b"
| "crc_table poly (Suc s) b = (crc_bit poly ^^ 8) (crc_table poly s b)"

definition lzma_crc32_table :: "nat \<Rightarrow> u32 \<Rightarrow> u32" where
  "lzma_crc32_table = crc_table poly32"

definition lzma_crc64_table :: "nat \<Rightarrow> u64 \<Rightarrow> u64" where
  "lzma_crc64_table = crc_table poly64"

section \<open>The functions\<close>

text \<open>One turn of the byte loop, the same in the small and the fast variants.\<close>

definition crc32_byte :: "u32 \<Rightarrow> u8 \<Rightarrow> u32" where
  "crc32_byte crc b = lzma_crc32_table 0 (ucast b XOR (crc AND 0xFF)) XOR drop_bit 8 crc"

definition crc64_byte :: "u64 \<Rightarrow> u8 \<Rightarrow> u64" where
  "crc64_byte crc b = lzma_crc64_table 0 (ucast b XOR (crc AND 0xFF)) XOR drop_bit 8 crc"

fun crc32_bytes :: "u8 list \<Rightarrow> u32 \<Rightarrow> u32" where
  "crc32_bytes [] crc = crc"
| "crc32_bytes (b # buf) crc = crc32_bytes buf (crc32_byte crc b)"

fun crc64_bytes :: "u8 list \<Rightarrow> u64 \<Rightarrow> u64" where
  "crc64_bytes [] crc = crc"
| "crc64_bytes (b # buf) crc = crc64_bytes buf (crc64_byte crc b)"

definition lzma_crc32_small :: "u8 list \<Rightarrow> u32 \<Rightarrow> u32" where
  "lzma_crc32_small buf crc = NOT (crc32_bytes buf (NOT crc))"

definition lzma_crc64_small :: "u8 list \<Rightarrow> u64 \<Rightarrow> u64" where
  "lzma_crc64_small buf crc = NOT (crc64_bytes buf (NOT crc))"

text \<open>The macros of \<open>crc_macros.h\<close>.\<close>

definition byteA :: "u32 \<Rightarrow> u32" where "byteA x = x AND 0xFF"
definition byteB :: "u32 \<Rightarrow> u32" where "byteB x = drop_bit 8 x AND 0xFF"
definition byteC :: "u32 \<Rightarrow> u32" where "byteC x = drop_bit 16 x AND 0xFF"
definition byteD :: "u32 \<Rightarrow> u32" where "byteD x = drop_bit 24 x"

text \<open>The slicing loops: eight bytes a turn for CRC32, four for CRC64; what is left comes back.\<close>

fun crc32_slices :: "u8 list \<Rightarrow> u32 \<Rightarrow> u8 list \<times> u32" where
  "crc32_slices (b0 # b1 # b2 # b3 # b4 # b5 # b6 # b7 # buf) crc =
     (let crc = crc XOR load32 b0 b1 b2 b3;
          crc = lzma_crc32_table 7 (byteA crc) XOR lzma_crc32_table 6 (byteB crc)
            XOR lzma_crc32_table 5 (byteC crc) XOR lzma_crc32_table 4 (byteD crc);
          tmp = load32 b4 b5 b6 b7;
          crc = lzma_crc32_table 3 (byteA tmp) XOR lzma_crc32_table 2 (byteB tmp) XOR crc
            XOR lzma_crc32_table 1 (byteC tmp) XOR lzma_crc32_table 0 (byteD tmp)
      in crc32_slices buf crc)"
| "crc32_slices buf crc = (buf, crc)"

fun crc64_slices :: "u8 list \<Rightarrow> u64 \<Rightarrow> u8 list \<times> u64" where
  "crc64_slices (b0 # b1 # b2 # b3 # buf) crc =
     (let tmp = ucast crc XOR load32 b0 b1 b2 b3 :: u32;
          crc = lzma_crc64_table 3 (ucast (byteA tmp)) XOR lzma_crc64_table 2 (ucast (byteB tmp))
            XOR drop_bit 32 crc
            XOR lzma_crc64_table 1 (ucast (byteC tmp)) XOR lzma_crc64_table 0 (ucast (byteD tmp))
      in crc64_slices buf crc)"
| "crc64_slices buf crc = (buf, crc)"

text \<open>
  \<open>lzma_crc32\<close> and \<open>lzma_crc64\<close> of the fast variants; \<open>addr\<close> is the address of the buffer, whose
  alignment decides how many bytes go through the byte loop first.
\<close>

definition lzma_crc32 :: "nat \<Rightarrow> u8 list \<Rightarrow> u32 \<Rightarrow> u32" where
  "lzma_crc32 addr buf crc =
     (let crc = NOT crc;
          (buf, crc) =
            (if length buf > 8
             then let n = (8 - addr mod 8) mod 8 in crc32_slices (drop n buf) (crc32_bytes (take n buf) crc)
             else (buf, crc))
      in NOT (crc32_bytes buf crc))"

definition lzma_crc64 :: "nat \<Rightarrow> u8 list \<Rightarrow> u64 \<Rightarrow> u64" where
  "lzma_crc64 addr buf crc =
     (let crc = NOT crc;
          (buf, crc) =
            (if length buf > 4
             then let n = (4 - addr mod 4) mod 4 in crc64_slices (drop n buf) (crc64_bytes (take n buf) crc)
             else (buf, crc))
      in NOT (crc64_bytes buf crc))"

section \<open>The step is linear\<close>

lemma crc_bit_alt: "crc_bit poly r = drop_bit 1 r XOR (if bit r 0 then poly else 0)"
  by (simp add: crc_bit_def bit_0 and_one_eq odd_iff_mod_2_eq_one)

lemma crc_bit_xor: "crc_bit poly (x XOR y) = crc_bit poly x XOR crc_bit poly y"
  by (auto simp: crc_bit_alt bit_xor_iff drop_bit_xor ac_simps)

lemma crc_bits_xor: "(crc_bit poly ^^ n) (x XOR y) = (crc_bit poly ^^ n) x XOR (crc_bit poly ^^ n) y"
  by (induction n arbitrary: x y) (simp_all add: crc_bit_xor)

text \<open>Bits that are shifted out as zeros do no harm.\<close>

lemma crc_bits_low_zero:
  assumes "take_bit n r = 0"
  shows "(crc_bit poly ^^ n) r = drop_bit n r"
  using assms
proof (induction n arbitrary: r)
  case (Suc n)
  have b: "\<not> bit r i" if "i < Suc n" for i
    using Suc.prems that by (metis bit_0_eq bit_take_bit_iff bot_apply bot_bool_def)
  then have "take_bit n (drop_bit 1 r) = 0" by (auto intro!: bit_eqI simp: bit_simps)
  moreover have "crc_bit poly r = drop_bit 1 r" using b [of 0] by (simp add: crc_bit_alt)
  ultimately show ?case using Suc.IH [of "drop_bit 1 r"]
    by (simp add: funpow_Suc_right drop_bit_drop_bit del: funpow.simps)
qed simp

lemma split_bits: "x = take_bit n x XOR push_bit n (drop_bit n (x :: 'a::len word))"
  by (rule bit_eqI) (auto simp: bit_simps)

lemma crc_bits_split: "(crc_bit poly ^^ n) x = (crc_bit poly ^^ n) (take_bit n x) XOR drop_bit n x"
proof -
  have "(crc_bit poly ^^ n) (push_bit n (drop_bit n x)) = drop_bit n (push_bit n (drop_bit n x))"
    by (rule crc_bits_low_zero) (auto intro!: bit_eqI simp: bit_simps)
  also have "\<dots> = drop_bit n x" by (rule bit_eqI) (auto simp: bit_simps dest: bit_imp_le_length)
  finally show ?thesis by (subst split_bits [of x n]) (simp only: crc_bits_xor)
qed

lemma crc_bits_add: "(crc_bit poly ^^ m) ((crc_bit poly ^^ n) x) = (crc_bit poly ^^ (m + n)) x"
  by (simp add: funpow_add)

lemma crc_table_bits: "crc_table poly s b = (crc_bit poly ^^ (8 * Suc s)) b"
  by (induction s) (simp_all add: crc_bits_add del: funpow.simps)

text \<open>The table look-up of the byte loop is eight bit-wise steps.\<close>

lemma crc_byte_bits:
  fixes crc :: "'a::len word"
  assumes "8 \<le> LENGTH('a)"
  shows "crc_table poly 0 (ucast (b :: u8) XOR (crc AND 0xFF)) XOR drop_bit 8 crc
       = (crc_bit poly ^^ 8) (crc XOR ucast b)"
proof -
  have "take_bit 8 (crc XOR ucast b) = ucast b XOR (crc AND 0xFF)"
    using assms by (simp add: take_bit_xor take_ucast_u8 and_FF ac_simps)
  moreover have "drop_bit 8 (crc XOR ucast b) = drop_bit 8 crc"
    using assms by (simp add: drop_bit_xor drop_ucast_u8)
  ultimately show ?thesis by (subst crc_bits_split) (simp add: crc_table_bits)
qed

lemma crc32_byte_bits: "crc32_byte crc b = (crc_bit poly32 ^^ 8) (crc XOR ucast b)"
  by (simp only: crc32_byte_def lzma_crc32_table_def crc_byte_bits) (rule crc_byte_bits; simp)

lemma crc64_byte_bits: "crc64_byte crc b = (crc_bit poly64 ^^ 8) (crc XOR ucast b)"
  by (simp only: crc64_byte_def lzma_crc64_table_def crc_byte_bits) (rule crc_byte_bits; simp)

section \<open>Slicing\<close>

text \<open>Thirty-two steps at once, from the four low bytes.\<close>

lemma crc_bits_32:
  fixes x :: "'a::len word"
  shows "(crc_bit poly ^^ 32) x =
     (crc_bit poly ^^ 32) (x AND 0xFF) XOR (crc_bit poly ^^ 24) (drop_bit 8 x AND 0xFF)
     XOR (crc_bit poly ^^ 16) (drop_bit 16 x AND 0xFF) XOR (crc_bit poly ^^ 8) (drop_bit 24 x AND 0xFF)
     XOR drop_bit 32 x"
proof -
  let ?c = "\<lambda>n. crc_bit poly ^^ n"
  have step: "?c (n + 8) y = ?c (n + 8) (y AND 0xFF) XOR ?c n (drop_bit 8 y)" for n and y :: "'a word"
  proof -
    have "?c (n + 8) y = ?c n (?c 8 y)" by (simp only: crc_bits_add)
    also have "?c 8 y = ?c 8 (y AND 0xFF) XOR drop_bit 8 y" by (simp only: and_FF crc_bits_split [of 8 poly y])
    finally show ?thesis by (simp only: crc_bits_xor crc_bits_add)
  qed
  have "?c 32 x = ?c 32 (x AND 0xFF) XOR ?c 24 (drop_bit 8 x)" using step [of 24 x] by simp
  moreover have "?c 24 (drop_bit 8 x) = ?c 24 (drop_bit 8 x AND 0xFF) XOR ?c 16 (drop_bit 16 x)"
    using step [of 16 "drop_bit 8 x"] by (simp add: drop_bit_drop_bit)
  moreover have "?c 16 (drop_bit 16 x) = ?c 16 (drop_bit 16 x AND 0xFF) XOR ?c 8 (drop_bit 24 x)"
    using step [of 8 "drop_bit 16 x"] by (simp add: drop_bit_drop_bit)
  moreover have "?c 8 (drop_bit 24 x) = ?c 8 (drop_bit 24 x AND 0xFF) XOR drop_bit 32 x"
    using step [of 0 "drop_bit 24 x"] by (simp add: drop_bit_drop_bit)
  ultimately show ?thesis by (simp only: ac_simps)
qed

text \<open>Four byte steps are thirty-two bit-wise steps on the register with the four bytes xored in.\<close>

lemma crc_bits_pushed:
  assumes "n + 8 \<le> LENGTH('a)"
  shows "(crc_bit poly ^^ n) (push_bit n (ucast (b :: u8))) = (ucast b :: 'a::len word)"
proof -
  have "(crc_bit poly ^^ n) (push_bit n (ucast b :: 'a word)) = drop_bit n (push_bit n (ucast b))"
    by (rule crc_bits_low_zero) (auto intro!: bit_eqI simp: bit_simps)
  also have "\<dots> = ucast b"
    using assms by (intro bit_eqI) (auto simp: bit_simps dest: bit_imp_le_length)
  finally show ?thesis .
qed

lemma crc_four_bytes:
  fixes c :: "'a::len word"
  assumes "32 \<le> LENGTH('a)"
  shows "(crc_bit poly ^^ 8) ((crc_bit poly ^^ 8) ((crc_bit poly ^^ 8) ((crc_bit poly ^^ 8)
           (c XOR ucast b0) XOR ucast b1) XOR ucast b2) XOR ucast (b3 :: u8))
       = (crc_bit poly ^^ 32) (c XOR (ucast (b0 :: u8) XOR push_bit 8 (ucast (b1 :: u8))
           XOR push_bit 16 (ucast (b2 :: u8)) XOR push_bit 24 (ucast b3)))"
proof -
  let ?c = "\<lambda>n. crc_bit poly ^^ n"
  have p: "?c 8 (push_bit 8 (ucast b1)) = ucast b1" "?c 16 (push_bit 16 (ucast b2)) = ucast b2"
    "?c 24 (push_bit 24 (ucast b3)) = ucast b3"
    using assms by (simp_all only: crc_bits_pushed)
  have "?c 32 (c XOR (ucast b0 XOR push_bit 8 (ucast b1) XOR push_bit 16 (ucast b2) XOR push_bit 24 (ucast b3)))
      = ?c 32 (c XOR ucast b0) XOR ?c 24 (?c 8 (push_bit 8 (ucast b1)))
        XOR ?c 16 (?c 16 (push_bit 16 (ucast b2))) XOR ?c 8 (?c 24 (push_bit 24 (ucast b3)))"
    by (simp only: crc_bits_xor crc_bits_add xor.assoc) simp
  also have "\<dots> = ?c 8 (?c 8 (?c 8 (?c 8 (c XOR ucast b0) XOR ucast b1) XOR ucast b2) XOR ucast b3)"
    unfolding p by (simp only: crc_bits_xor crc_bits_add xor.assoc) simp
  finally show ?thesis by (rule sym)
qed

lemma crc32_four: "crc32_bytes [b0, b1, b2, b3] crc = (crc_bit poly32 ^^ 32) (crc XOR load32 b0 b1 b2 b3)"
  using crc_four_bytes [where 'a = 32, of poly32 crc b0 b1 b2 b3]
  by (simp add: crc32_byte_bits load32_xor)

lemma crc64_four: "crc64_bytes [b0, b1, b2, b3] crc = (crc_bit poly64 ^^ 32) (crc XOR ucast (load32 b0 b1 b2 b3))"
  using crc_four_bytes [where 'a = 64, of poly64 crc b0 b1 b2 b3]
  by (simp add: crc64_byte_bits ucast_load32)

lemma byteD_mask: "byteD x = drop_bit 24 x AND 0xFF"
proof -
  have "take_bit 8 (drop_bit 24 x) = drop_bit 24 x"
    by (rule bit_word_eqI) (auto simp: bit_take_bit_iff bit_drop_bit_eq dest: bit_imp_le_length)
  then show ?thesis by (simp only: byteD_def and_FF)
qed

lemmas byte_defs = byteA_def byteB_def byteC_def byteD_mask

text \<open>Four table look-ups in the tables \<open>s\<close> to \<open>s + 3\<close>.\<close>

lemma crc32_lookups:
  "lzma_crc32_table (s + 3) (byteA x) XOR lzma_crc32_table (s + 2) (byteB x)
   XOR lzma_crc32_table (s + 1) (byteC x) XOR lzma_crc32_table s (byteD x)
   = (crc_bit poly32 ^^ (8 * s + 32)) x"
proof -
  let ?c = "\<lambda>n. crc_bit poly32 ^^ n"
  have z: "drop_bit 32 x = 0" by (rule bit_word_eqI) (auto simp: bit_drop_bit_eq dest: bit_imp_le_length)
  have "?c (8 * s + 32) x = ?c (8 * s) (?c 32 x)" by (simp only: crc_bits_add)
  also have "\<dots> = ?c (8 * s + 32) (byteA x) XOR ?c (8 * s + 24) (byteB x) XOR ?c (8 * s + 16) (byteC x)
      XOR ?c (8 * s + 8) (byteD x)"
    by (subst crc_bits_32) (simp only: z xor.right_neutral crc_bits_xor crc_bits_add byte_defs)
  moreover have "8 * Suc (s + 3) = 8 * s + 32" "8 * Suc (s + 2) = 8 * s + 24" "8 * Suc (s + 1) = 8 * s + 16"
    "8 * Suc s = 8 * s + 8" by simp_all
  ultimately show ?thesis by (simp only: lzma_crc32_table_def crc_table_bits)
qed

lemma crc64_lookups:
  assumes "tmp = ucast x"
  shows "lzma_crc64_table 3 (ucast (byteA tmp)) XOR lzma_crc64_table 2 (ucast (byteB tmp))
   XOR drop_bit 32 x XOR lzma_crc64_table 1 (ucast (byteC tmp)) XOR lzma_crc64_table 0 (ucast (byteD tmp))
   = (crc_bit poly64 ^^ 32) (x :: u64)"
proof -
  have b: "ucast (byteA tmp) = x AND 0xFF" "ucast (byteB tmp) = drop_bit 8 x AND 0xFF"
    "ucast (byteC tmp) = drop_bit 16 x AND 0xFF" "ucast (byteD tmp) = drop_bit 24 x AND 0xFF"
    unfolding assms byte_defs and_FF
    by (rule bit_word_eqI, auto simp only: bit_ucast_iff bit_take_bit_iff bit_drop_bit_eq comp_def; simp)+
  have n: "8 * Suc 3 = 32" "8 * Suc 2 = 24" "8 * Suc 1 = 16" "8 * Suc 0 = 8" by simp_all
  show ?thesis
    unfolding lzma_crc64_table_def crc_table_bits n b by (subst crc_bits_32 [of _ x]) (simp only: ac_simps)
qed

section \<open>The fast functions compute the small ones\<close>

lemma crc32_bytes_append [simp]: "crc32_bytes (xs @ ys) crc = crc32_bytes ys (crc32_bytes xs crc)"
  by (induction xs arbitrary: crc) simp_all

lemma crc64_bytes_append [simp]: "crc64_bytes (xs @ ys) crc = crc64_bytes ys (crc64_bytes xs crc)"
  by (induction xs arbitrary: crc) simp_all

lemma crc32_eight:
  "lzma_crc32_table 3 (byteA tmp) XOR lzma_crc32_table 2 (byteB tmp)
   XOR (lzma_crc32_table 7 (byteA c) XOR lzma_crc32_table 6 (byteB c)
        XOR lzma_crc32_table 5 (byteC c) XOR lzma_crc32_table 4 (byteD c))
   XOR lzma_crc32_table 1 (byteC tmp) XOR lzma_crc32_table 0 (byteD tmp)
   = (crc_bit poly32 ^^ 32) ((crc_bit poly32 ^^ 32) c XOR tmp)" (is "?l = ?r")
proof -
  have "?r = (crc_bit poly32 ^^ 64) c XOR (crc_bit poly32 ^^ 32) tmp"
    by (simp only: crc_bits_xor crc_bits_add) simp
  moreover have "(crc_bit poly32 ^^ 64) c = lzma_crc32_table 7 (byteA c) XOR lzma_crc32_table 6 (byteB c)
        XOR lzma_crc32_table 5 (byteC c) XOR lzma_crc32_table 4 (byteD c)"
    using crc32_lookups [of 4 c, symmetric] by simp
  moreover have "(crc_bit poly32 ^^ 32) tmp = lzma_crc32_table 3 (byteA tmp) XOR lzma_crc32_table 2 (byteB tmp)
        XOR lzma_crc32_table 1 (byteC tmp) XOR lzma_crc32_table 0 (byteD tmp)"
    using crc32_lookups [of 0 tmp, symmetric] by (simp only: add_0 mult_0_right)
  ultimately show ?thesis by (simp only: ac_simps)
qed

lemma crc32_slices_bytes:
  "crc32_slices buf crc = (buf', crc') \<Longrightarrow> crc32_bytes buf' crc' = crc32_bytes buf crc"
proof (induction buf crc arbitrary: buf' crc' rule: crc32_slices.induct)
  case (1 b0 b1 b2 b3 b4 b5 b6 b7 buf crc)
  let ?c = "crc XOR load32 b0 b1 b2 b3"
  let ?n = "(crc_bit poly32 ^^ 32) ((crc_bit poly32 ^^ 32) ?c XOR load32 b4 b5 b6 b7)"
  have "crc32_slices buf ?n = (buf', crc')"
    using "1.prems" by (simp only: crc32_slices.simps Let_def crc32_eight)
  then have "crc32_bytes buf' crc' = crc32_bytes buf ?n"
    using "1.IH" [OF refl refl refl refl, of buf' crc'] by (simp only: crc32_eight)
  also have "?n = crc32_bytes ([b0, b1, b2, b3] @ [b4, b5, b6, b7]) crc"
    by (simp only: crc32_bytes_append crc32_four)
  finally show ?case by (simp only: crc32_bytes_append [symmetric] append.simps)
qed auto

lemma crc64_slices_bytes:
  "crc64_slices buf crc = (buf', crc') \<Longrightarrow> crc64_bytes buf' crc' = crc64_bytes buf crc"
proof (induction buf crc arbitrary: buf' crc' rule: crc64_slices.induct)
  case (1 b0 b1 b2 b3 buf crc)
  let ?x = "crc XOR ucast (load32 b0 b1 b2 b3)"
  let ?tmp = "ucast crc XOR load32 b0 b1 b2 b3 :: u32"
  have tmp: "?tmp = ucast ?x"
    by (rule bit_word_eqI) (simp add: bit_simps)
  have hi: "drop_bit 32 ?x = drop_bit 32 crc"
    by (rule bit_word_eqI) (auto simp: bit_xor_iff bit_drop_bit_eq bit_ucast_iff dest: bit_imp_le_length)
  note look = crc64_lookups [OF tmp, unfolded hi]
  have "crc64_slices buf ((crc_bit poly64 ^^ 32) ?x) = (buf', crc')"
    using "1.prems" by (simp only: crc64_slices.simps Let_def look)
  then have "crc64_bytes buf' crc' = crc64_bytes buf ((crc_bit poly64 ^^ 32) ?x)"
    using "1.IH" [OF refl refl, of buf' crc'] by (simp only: look)
  also have "(crc_bit poly64 ^^ 32) ?x = crc64_bytes [b0, b1, b2, b3] crc" by (simp only: crc64_four)
  finally show ?case by (simp only: crc64_bytes_append [symmetric] append.simps)
qed auto

lemma lzma_crc32_eq_small: "lzma_crc32 addr buf crc = lzma_crc32_small buf crc"
  by (auto simp: lzma_crc32_def lzma_crc32_small_def Let_def crc32_slices_bytes
      crc32_bytes_append [symmetric] simp del: crc32_bytes_append split: prod.splits)

lemma lzma_crc64_eq_small: "lzma_crc64 addr buf crc = lzma_crc64_small buf crc"
  by (auto simp: lzma_crc64_def lzma_crc64_small_def Let_def crc64_slices_bytes
      crc64_bytes_append [symmetric] simp del: crc64_bytes_append split: prod.splits)

lemma lzma_crc32_append: "lzma_crc32 addr (xs @ ys) crc = lzma_crc32 b ys (lzma_crc32 a xs crc)"
  by (simp add: lzma_crc32_eq_small lzma_crc32_small_def)

lemma lzma_crc64_append: "lzma_crc64 addr (xs @ ys) crc = lzma_crc64 b ys (lzma_crc64 a xs crc)"
  by (simp add: lzma_crc64_eq_small lzma_crc64_small_def)

interpretation crc32: streaming_check "lzma_crc32 addr" "\<lambda>_. True" for addr
  by unfold_locales (simp_all add: lzma_crc32_append [where a = addr and b = addr] lzma_crc32_eq_small lzma_crc32_small_def)

interpretation crc64: streaming_check "lzma_crc64 addr" "\<lambda>_. True" for addr
  by unfold_locales (simp_all add: lzma_crc64_append [where a = addr and b = addr] lzma_crc64_eq_small lzma_crc64_small_def)

section \<open>Reference\<close>

text \<open>The CRC of the literature: the message is shifted through the register bit by bit.\<close>

definition crc_ref :: "'a::len word \<Rightarrow> u8 list \<Rightarrow> 'a word \<Rightarrow> 'a word" where
  "crc_ref poly buf r = foldl (\<lambda>r b. (crc_bit poly ^^ 8) (r XOR ucast b)) r buf"

lemma crc32_bytes_ref: "crc32_bytes buf r = crc_ref poly32 buf r"
  by (induction buf arbitrary: r) (simp_all only: crc32_bytes.simps crc_ref_def foldl.simps crc32_byte_bits)

lemma crc64_bytes_ref: "crc64_bytes buf r = crc_ref poly64 buf r"
  by (induction buf arbitrary: r) (simp_all only: crc64_bytes.simps crc_ref_def foldl.simps crc64_byte_bits)

text \<open>
  C27: the table-driven functions, the sliced ones for a buffer at any address and the small ones,
  all compute the bit-wise CRC with complemented register, so that they agree with each other.
\<close>

theorem crc_functions_agree:
  shows "lzma_crc32 addr buf crc = NOT (crc_ref poly32 buf (NOT crc))
       \<and> lzma_crc32_small buf crc = NOT (crc_ref poly32 buf (NOT crc))
       \<and> lzma_crc64 addr buf crc' = NOT (crc_ref poly64 buf (NOT crc'))
       \<and> lzma_crc64_small buf crc' = NOT (crc_ref poly64 buf (NOT crc'))"
  by (simp only: lzma_crc32_eq_small lzma_crc64_eq_small lzma_crc32_small_def lzma_crc64_small_def
      crc32_bytes_ref crc64_bytes_ref simp_thms)

end
