(* ===== verification/Sha256_Compress.thy ===== *)
theory Sha256_Compress
  imports Tuklib_Integer
begin

text \<open>
  The state of the integrity checks (\<open>check/check.h\<close>) and the compression function of SHA-256 as
  \<open>check/sha256.c\<close> computes it, on a rotating array of working variables and a circular message
  schedule. The reference is the definition of FIPS 180-4; the code is proved to compute it.
\<close>

section \<open>State\<close>

text \<open>
  \<open>lzma_check_state\<close> (\<open>check/check.h\<close>): the buffer union as its 64 bytes, the union of the states
  as one field per member (a check uses only its own); \<open>lzma_sha256_state\<close> is the last two fields.
\<close>

record lzma_check_state =
  check_buffer :: "u8 list"
  crc32_state :: u32
  crc64_state :: u64
  sha256_state :: "u32 list"
  sha256_size :: u64

section \<open>Compression function\<close>

definition rotr_32 :: "u32 \<Rightarrow> nat \<Rightarrow> u32" where
  "rotr_32 num amount = drop_bit amount num OR push_bit (32 - amount) num"

definition Ch :: "u32 \<Rightarrow> u32 \<Rightarrow> u32 \<Rightarrow> u32" where "Ch x y z = z XOR (x AND (y XOR z))"
definition Maj :: "u32 \<Rightarrow> u32 \<Rightarrow> u32 \<Rightarrow> u32" where "Maj x y z = (x AND (y XOR z)) + (y AND z)"
definition S0 :: "u32 \<Rightarrow> u32" where "S0 x = rotr_32 (x XOR rotr_32 (x XOR rotr_32 x 9) 11) 2"
definition S1 :: "u32 \<Rightarrow> u32" where "S1 x = rotr_32 (x XOR rotr_32 (x XOR rotr_32 x 14) 5) 6"
definition s0 :: "u32 \<Rightarrow> u32" where "s0 x = rotr_32 (x XOR rotr_32 x 11) 7 XOR drop_bit 3 x"
definition s1 :: "u32 \<Rightarrow> u32" where "s1 x = rotr_32 (x XOR rotr_32 x 2) 17 XOR drop_bit 10 x"

definition SHA256_K :: "u32 list" where
  "SHA256_K =
     [0x428A2F98, 0x71374491, 0xB5C0FBCF, 0xE9B5DBA5, 0x3956C25B, 0x59F111F1, 0x923F82A4, 0xAB1C5ED5,
      0xD807AA98, 0x12835B01, 0x243185BE, 0x550C7DC3, 0x72BE5D74, 0x80DEB1FE, 0x9BDC06A7, 0xC19BF174,
      0xE49B69C1, 0xEFBE4786, 0x0FC19DC6, 0x240CA1CC, 0x2DE92C6F, 0x4A7484AA, 0x5CB0A9DC, 0x76F988DA,
      0x983E5152, 0xA831C66D, 0xB00327C8, 0xBF597FC7, 0xC6E00BF3, 0xD5A79147, 0x06CA6351, 0x14292967,
      0x27B70A85, 0x2E1B2138, 0x4D2C6DFC, 0x53380D13, 0x650A7354, 0x766A0ABB, 0x81C2C92E, 0x92722C85,
      0xA2BFE8A1, 0xA81A664B, 0xC24B8B70, 0xC76C51A3, 0xD192E819, 0xD6990624, 0xF40E3585, 0x106AA070,
      0x19A4C116, 0x1E376C08, 0x2748774C, 0x34B0BCB5, 0x391C0CB3, 0x4ED8AA4A, 0x5B9CCA4F, 0x682E6FF3,
      0x748F82EE, 0x78A5636F, 0x84C87814, 0x8CC70208, 0x90BEFFFA, 0xA4506CEB, 0xBEF9A3F7, 0xC67178F2]"

text \<open>The index \<open>(k - i) & 7\<close> of the working variable number \<open>k\<close> in round \<open>i\<close>.\<close>

definition T_index :: "nat \<Rightarrow> nat \<Rightarrow> nat" where
  "T_index k i = nat ((int k - int i) mod 8)"

text \<open>The macro \<open>R(i, j, blk)\<close> with its three assignments.\<close>

definition sha256_R :: "nat \<Rightarrow> nat \<Rightarrow> u32 \<Rightarrow> u32 list \<Rightarrow> u32 list" where
  "sha256_R i j blk T =
     (let T = T[T_index 7 i := T ! T_index 7 i + S1 (T ! T_index 4 i)
            + Ch (T ! T_index 4 i) (T ! T_index 5 i) (T ! T_index 6 i) + SHA256_K ! (i + j) + blk];
          T = T[T_index 3 i := T ! T_index 3 i + T ! T_index 7 i]
      in T[T_index 7 i := T ! T_index 7 i + S0 (T ! T_index 0 i)
            + Maj (T ! T_index 0 i) (T ! T_index 1 i) (T ! T_index 2 i)])"

text \<open>\<open>R0\<close> and \<open>R2\<close> with \<open>blk0\<close> and \<open>blk2\<close>, which update the message schedule \<open>W\<close>.\<close>

definition W_index :: "nat \<Rightarrow> nat \<Rightarrow> nat" where
  "W_index i k = nat ((int i - int k) mod 16)"

definition sha256_R0 :: "u32 list \<Rightarrow> nat \<Rightarrow> u32 list \<times> u32 list \<Rightarrow> u32 list \<times> u32 list" where
  "sha256_R0 data i = (\<lambda>(W, T). let W = W[i := conv32be (data ! i)] in (W, sha256_R i 0 (W ! i) T))"

definition sha256_R2 :: "nat \<Rightarrow> nat \<Rightarrow> u32 list \<times> u32 list \<Rightarrow> u32 list \<times> u32 list" where
  "sha256_R2 j i = (\<lambda>(W, T).
     let W = W[W_index i 0 := W ! W_index i 0
           + (s1 (W ! W_index i 2) + W ! W_index i 7 + s0 (W ! W_index i 15))]
     in (W, sha256_R i j (W ! W_index i 0) T))"

text \<open>The uninitialised schedule is a list of zeros: each element is assigned before it is read.\<close>

definition transform :: "u32 list \<Rightarrow> u32 list \<Rightarrow> u32 list" where
  "transform state data =
     (let (W, T) = fold (sha256_R0 data) [0..<16] (replicate 16 0, state);
          (W, T) = fold (\<lambda>j. fold (sha256_R2 j) [0..<16]) [16, 32, 48] (W, T)
      in map2 (+) state (map (\<lambda>k. T ! T_index k 0) [0..<8]))"

section \<open>FIPS 180-4\<close>

definition fips_Sigma0 :: "u32 \<Rightarrow> u32" where "fips_Sigma0 x = word_rotr 2 x XOR word_rotr 13 x XOR word_rotr 22 x"
definition fips_Sigma1 :: "u32 \<Rightarrow> u32" where "fips_Sigma1 x = word_rotr 6 x XOR word_rotr 11 x XOR word_rotr 25 x"
definition fips_sigma0 :: "u32 \<Rightarrow> u32" where "fips_sigma0 x = word_rotr 7 x XOR word_rotr 18 x XOR drop_bit 3 x"
definition fips_sigma1 :: "u32 \<Rightarrow> u32" where "fips_sigma1 x = word_rotr 17 x XOR word_rotr 19 x XOR drop_bit 10 x"
definition fips_Ch :: "u32 \<Rightarrow> u32 \<Rightarrow> u32 \<Rightarrow> u32" where "fips_Ch x y z = (x AND y) XOR (NOT x AND z)"
definition fips_Maj :: "u32 \<Rightarrow> u32 \<Rightarrow> u32 \<Rightarrow> u32" where "fips_Maj x y z = (x AND y) XOR (x AND z) XOR (y AND z)"

text \<open>The message schedule of a block of 16 words.\<close>

fun fips_W :: "u32 list \<Rightarrow> nat \<Rightarrow> u32" where
  "fips_W M t = (if t < 16 then M ! t
     else fips_sigma1 (fips_W M (t - 2)) + fips_W M (t - 7) + fips_sigma0 (fips_W M (t - 15)) + fips_W M (t - 16))"

declare fips_W.simps [simp del]

type_synonym sha_vars = "u32 \<times> u32 \<times> u32 \<times> u32 \<times> u32 \<times> u32 \<times> u32 \<times> u32"

fun fips_round :: "u32 \<Rightarrow> u32 \<Rightarrow> sha_vars \<Rightarrow> sha_vars" where
  "fips_round K W (a, b, c, d, e, f, g, h) =
     (let T1 = h + fips_Sigma1 e + fips_Ch e f g + K + W; T2 = fips_Sigma0 a + fips_Maj a b c
      in (T1 + T2, a, b, c, d + T1, e, f, g))"

fun sha_vars_of :: "u32 list \<Rightarrow> sha_vars" where
  "sha_vars_of H = (H ! 0, H ! 1, H ! 2, H ! 3, H ! 4, H ! 5, H ! 6, H ! 7)"

fun sha_vars_list :: "sha_vars \<Rightarrow> u32 list" where
  "sha_vars_list (a, b, c, d, e, f, g, h) = [a, b, c, d, e, f, g, h]"

definition fips_compress :: "u32 list \<Rightarrow> u32 list \<Rightarrow> u32 list" where
  "fips_compress H M = map2 (+) H
     (sha_vars_list (fold (\<lambda>t. fips_round (SHA256_K ! t) (fips_W M t)) [0..<64] (sha_vars_of H)))"

section \<open>The functions of the code are those of the standard\<close>

lemma rotr_32: "0 < k \<Longrightarrow> k < 32 \<Longrightarrow> rotr_32 x k = word_rotr k x"
  by (rule bit_word_eqI)
    (auto simp: rotr_32_def bit_or_iff bit_drop_bit_eq bit_push_bit_iff bit_word_rotr_iff mod_if add.commute [of k] dest: bit_imp_le_length)

lemmas rotr_simps = rotr_32 word_rot_logs word_rotr_word_rotr_eq

lemma S0_fips: "S0 x = fips_Sigma0 x"
  by (simp add: S0_def fips_Sigma0_def rotr_simps)

lemma S1_fips: "S1 x = fips_Sigma1 x"
  by (simp add: S1_def fips_Sigma1_def rotr_simps)

lemma s0_fips: "s0 x = fips_sigma0 x"
  by (simp add: s0_def fips_sigma0_def rotr_simps xor.assoc)

lemma s1_fips: "s1 x = fips_sigma1 x"
  by (simp add: s1_def fips_sigma1_def rotr_simps xor.assoc)

lemma Ch_fips: "Ch x y z = fips_Ch x y z"
  by (rule bit_word_eqI) (auto simp: Ch_def fips_Ch_def bit_simps)

lemma Maj_fips: "Maj x y z = fips_Maj x y z"
proof -
  have "(x AND (y XOR z)) AND (y AND z) = 0" by (rule bit_word_eqI) (auto simp: bit_simps)
  then have "Maj x y z = (x AND (y XOR z)) OR (y AND z)" by (simp add: Maj_def disjunctive_add_eq_or)
  also have "\<dots> = fips_Maj x y z" by (rule bit_word_eqI) (auto simp: fips_Maj_def bit_simps)
  finally show ?thesis .
qed

lemmas sha_fips = S0_fips S1_fips s0_fips s1_fips Ch_fips Maj_fips

section \<open>Rounds\<close>

text \<open>The working variables of round \<open>i\<close>, read from the rotating array.\<close>

definition T_view :: "nat \<Rightarrow> u32 list \<Rightarrow> sha_vars" where
  "T_view i T = (T ! T_index 0 i, T ! T_index 1 i, T ! T_index 2 i, T ! T_index 3 i,
                 T ! T_index 4 i, T ! T_index 5 i, T ! T_index 6 i, T ! T_index 7 i)"

lemma T_index_mod: "T_index k i = T_index k (i mod 8)"
  by (simp add: T_index_def zmod_int mod_diff_right_eq)

lemma T_view_mod: "T_view i T = T_view (i mod 8) T"
  unfolding T_view_def by (simp only: T_index_mod [of _ i])

lemma length8: "length T = 8 \<Longrightarrow> \<exists>a b c d e f g h. T = [a, b, c, d, e, f, g, h]"
  by (auto simp: length_Suc_conv numeral_eq_Suc)

lemma less8: "i < 8 \<Longrightarrow> i = 0 \<or> i = 1 \<or> i = 2 \<or> i = 3 \<or> i = 4 \<or> i = 5 \<or> i = 6 \<or> i = (7 :: nat)"
  by arith

lemma sha256_R_less8:
  assumes "i < 8"
  shows "T_view (i + 1) (sha256_R i j blk [a, b, c, d, e, f, g, h])
       = fips_round (SHA256_K ! (i + j)) blk (T_view i [a, b, c, d, e, f, g, h])"
  using less8 [OF assms]
  by (elim disjE) (simp_all add: T_view_def T_index_def sha256_R_def Let_def sha_fips ac_simps)

lemma sha256_R_view:
  assumes "length T = 8" "8 dvd j"
  shows "T_view (Suc (j + i)) (sha256_R i j blk T) = fips_round (SHA256_K ! (j + i)) blk (T_view (j + i) T)"
proof -
  obtain a b c d e f g h where T: "T = [a, b, c, d, e, f, g, h]" using length8 [OF assms(1)] by blast
  have "sha256_R i j blk T = sha256_R (i mod 8) (i + j - i mod 8) blk T"
    unfolding sha256_R_def by (simp add: T_index_mod [of _ i])
  moreover have "T_view (Suc (j + i)) = T_view (i mod 8 + 1)" "T_view (j + i) = T_view (i mod 8)"
    using assms(2) by (auto intro!: ext elim!: dvdE simp: T_view_mod [of "Suc _"] T_view_mod [of "_ + i"] mod_Suc_eq)
  ultimately show ?thesis
    unfolding T using sha256_R_less8 [of "i mod 8" "i + j - i mod 8" blk a b c d e f g h] by (simp add: add.commute)
qed

lemma length_sha256_R [simp]: "length (sha256_R i j blk T) = length T"
  by (simp add: sha256_R_def Let_def)

text \<open>
  After \<open>t\<close> rounds the circular schedule holds the last sixteen words of the standard's schedule and
  the rotating array the standard's working variables.
\<close>

definition sha_words :: "u32 list \<Rightarrow> nat \<Rightarrow> u32 list \<Rightarrow> bool" where
  "sha_words M t W \<longleftrightarrow> length W = 16 \<and> (\<forall>s < t. t \<le> s + 16 \<longrightarrow> W ! (s mod 16) = fips_W M s)"

definition sha_rel :: "u32 list \<Rightarrow> u32 list \<Rightarrow> nat \<Rightarrow> u32 list \<times> u32 list \<Rightarrow> bool" where
  "sha_rel H M t WT \<longleftrightarrow> sha_words M t (fst WT) \<and> length (snd WT) = 8
     \<and> T_view t (snd WT) = fold (\<lambda>t. fips_round (SHA256_K ! t) (fips_W M t)) [0..<t] (sha_vars_of H)"

lemma sha_words_upd:
  assumes "sha_words M t W"
  shows "sha_words M (Suc t) (W[t mod 16 := fips_W M t])"
proof -
  have "s mod 16 \<noteq> t mod 16" if "s < t" "Suc t \<le> s + 16" for s
    using that by (metis Suc_le_lessD add.commute add_less_cancel_left dvd_imp_le le_add_diff_inverse
        less_imp_le_nat linorder_not_less mod_eq_dvd_iff_nat zero_less_diff)
  then show ?thesis
    using assms by (fastforce simp: sha_words_def less_Suc_eq nth_list_update)
qed

lemma sha_rel_step:
  assumes "sha_rel H M (j + i) (W, T)" "16 dvd j" "W' = W[(j + i) mod 16 := fips_W M (j + i)]"
  shows "sha_rel H M (Suc (j + i)) (W', sha256_R i j (fips_W M (j + i)) T)"
proof -
  have "8 dvd j" using assms(2) by (rule dvd_trans [rotated]) simp
  then show ?thesis
    using assms(1) sha_words_upd [of M "j + i" W] by (simp add: sha_rel_def sha256_R_view assms(3))
qed

lemma sha256_R0_rel:
  assumes "sha_rel H (map bswap32 data) i (W, T)" "i < 16" "length data = 16"
  shows "sha_rel H (map bswap32 data) (Suc i) (sha256_R0 data i (W, T))"
proof -
  have "length W = 16" using assms(1) by (simp add: sha_rel_def sha_words_def)
  moreover have "fips_W (map bswap32 data) i = bswap32 (data ! i)" using assms by (subst fips_W.simps) simp
  ultimately show ?thesis
    using sha_rel_step [of H "map bswap32 data" 0 i W T, OF _ _ refl] assms by (simp add: sha256_R0_def)
qed

lemma W_index_mod: "k \<le> j \<Longrightarrow> 16 dvd j \<Longrightarrow> W_index i k = (j + i - k) mod 16"
proof -
  assume "k \<le> j" "16 dvd j"
  then have "int ((j + i - k) mod 16) = (int j + (int i - int k)) mod 16" by (simp add: zmod_int algebra_simps)
  also have "\<dots> = (int i - int k) mod 16" using \<open>16 dvd j\<close> by (auto elim!: dvdE)
  finally show ?thesis by (simp add: W_index_def)
qed

lemma sha256_R2_rel:
  assumes "sha_rel H M (j + i) (W, T)" "16 \<le> j" "16 dvd j"
  shows "sha_rel H M (Suc (j + i)) (sha256_R2 j i (W, T))"
proof -
  have w: "sha_words M (j + i) W" using assms(1) by (simp add: sha_rel_def)
  have W: "W ! W_index i k = fips_W M (j + i - k)" if "0 < k" "k \<le> 15" for k
    using w that assms(2) by (simp add: W_index_mod [OF _ assms(3)] sha_words_def)
  have "W_index i 0 = (j + i - 16) mod 16" using assms by (simp add: W_index_mod [of 0 j] le_mod_geq)
  then have "W ! W_index i 0 = fips_W M (j + i - 16)"
    using w assms(2) by (simp add: sha_words_def)
  moreover have "fips_W M (j + i) = W ! W_index i 0
      + (s1 (W ! W_index i 2) + W ! W_index i 7 + s0 (W ! W_index i 15))"
    using assms(2) calculation by (subst fips_W.simps) (simp add: W sha_fips ac_simps)
  moreover have "W_index i 0 = (j + i) mod 16" using assms by (simp add: W_index_mod [of 0 j])
  ultimately show ?thesis
    using sha_rel_step [OF assms(1) assms(3) refl] w
    by (simp add: sha256_R2_def Let_def sha_words_def)
qed

lemma fold_range_rel:
  assumes "\<And>i x. i < n \<Longrightarrow> P (j + i) x \<Longrightarrow> P (Suc (j + i)) (f i x)" "P j x"
  shows "P (j + n) (fold f [0..<n] x)"
  using assms by (induction n) simp_all

lemma transform_fips:
  assumes "length state = 8" "length data = 16"
  shows "transform state data = fips_compress state (map bswap32 data)"
proof -
  let ?M = "map bswap32 data"
  let ?P = "sha_rel state ?M"
  define x where "x = fold (sha256_R0 data) [0..<16] (replicate 16 0, state)"
  have "?P 0 (replicate 16 0, state)"
    using length8 [OF assms(1)] by (auto simp: sha_rel_def sha_words_def T_view_def T_index_def)
  from fold_range_rel [of 16 ?P 0, OF _ this, of "sha256_R0 data"] assms(2) have x: "?P 16 x"
    unfolding x_def by (force intro: sha256_R0_rel)
  have turn: "?P (j + 16) (fold (sha256_R2 j) [0..<16] y)" if "?P j y" "16 \<le> j" "16 dvd j" for j y
    using fold_range_rel [of 16 ?P j, OF _ that(1)] that(2,3) by (force intro: sha256_R2_rel)
  have "?P 64 (fold (\<lambda>j. fold (sha256_R2 j) [0..<16]) [16, 32, 48] x)"
    using turn [OF turn [OF turn [OF x]]] by simp
  moreover have "T_view 64 T = T_view 0 T" for T by (simp add: T_view_mod [of 64])
  moreover have "map (\<lambda>k. T ! T_index k 0) [0..<8] = sha_vars_list (T_view 0 T)" for T
    by (simp add: T_view_def upt_rec eval_nat_numeral)
  ultimately show ?thesis
    by (simp add: transform_def fips_compress_def sha_rel_def x_def [symmetric] split_def)
qed

end
