(* ===== verification/Sha256.thy ===== *)
theory Sha256
  imports Sha256_Compress
begin

text \<open>
  SHA-256 of a message that comes in pieces (\<open>check/sha256.c\<close>): the buffering, the padding and the
  result, proved to be the hash of FIPS 180-4 of the concatenated pieces.
\<close>

section \<open>The hash of a message\<close>

text \<open>The 32-bit words of the buffer, as the machine loads them.\<close>

definition buffer_u32 :: "u8 list \<Rightarrow> u32 list" where
  "buffer_u32 buf = map (\<lambda>i. load32 (buf ! (4 * i)) (buf ! (4 * i + 1)) (buf ! (4 * i + 2)) (buf ! (4 * i + 3))) [0..<16]"

definition process :: "lzma_check_state \<Rightarrow> lzma_check_state" where
  "process check = check\<lparr>sha256_state := transform (sha256_state check) (buffer_u32 (check_buffer check))\<rparr>"

definition sha256_s :: "u32 list" where
  "sha256_s = [0x6A09E667, 0xBB67AE85, 0x3C6EF372, 0xA54FF53A, 0x510E527F, 0x9B05688C, 0x1F83D9AB, 0x5BE0CD19]"

definition lzma_sha256_init :: "lzma_check_state \<Rightarrow> lzma_check_state" where
  "lzma_sha256_init check = check\<lparr>sha256_state := sha256_s, sha256_size := 0\<rparr>"

text \<open>The offset in the buffer at which input goes, \<open>size & 0x3F\<close>.\<close>

definition sha256_pos :: "lzma_check_state \<Rightarrow> nat" where
  "sha256_pos check = unat (sha256_size check AND 0x3F)"

lemma sha256_pos_mod: "sha256_pos check = unat (sha256_size check) mod 64"
proof -
  have "sha256_size check AND 0x3F = take_bit 6 (sha256_size check)"
    by (simp add: take_bit_eq_mask mask_eq_exp_minus_1)
  then show ?thesis by (simp only: sha256_pos_def unsigned_take_bit_eq) (simp add: take_bit_eq_mod)
qed

function lzma_sha256_update :: "u8 list \<Rightarrow> lzma_check_state \<Rightarrow> lzma_check_state" where
  "lzma_sha256_update buf check =
     (if buf = [] then check
      else
        let copy_start = sha256_pos check;
            copy_size = min (64 - copy_start) (length buf);
            check = check\<lparr>check_buffer := write_at copy_start (take copy_size buf) (check_buffer check),
                          sha256_size := sha256_size check + of_nat copy_size\<rparr>
        in lzma_sha256_update (drop copy_size buf) (if sha256_pos check = 0 then process check else check))"
  by pat_completeness auto
termination
proof (relation "measure (length \<circ> fst)", goal_cases)
  case (2 buf check)
  then show ?case using sha256_pos_mod [of check] by (simp add: Let_def)
qed simp

declare lzma_sha256_update.simps [simp del]

text \<open>
  The padding loop of \<open>lzma_sha256_finish\<close>, from \<open>pos\<close> on; positions beyond the buffer do not occur.
\<close>

function sha256_pad :: "nat \<Rightarrow> lzma_check_state \<Rightarrow> lzma_check_state" where
  "sha256_pad pos check =
     (if pos = 64 - 8 \<or> 64 < pos then check
      else
        let (pos, check) = (if pos = 64 then (0, process check) else (pos, check))
        in sha256_pad (pos + 1) (check\<lparr>check_buffer := (check_buffer check)[pos := 0x00]\<rparr>))"
  by pat_completeness auto
termination
  by (relation "measure (\<lambda>(pos, _). if pos \<le> 56 then 56 - pos else 56 + (65 - pos))") (auto split: if_splits)

declare sha256_pad.simps [simp del]

definition lzma_sha256_finish :: "lzma_check_state \<Rightarrow> lzma_check_state" where
  "lzma_sha256_finish check =
     (let pos = sha256_pos check;
          check = check\<lparr>check_buffer := (check_buffer check)[pos := 0x80]\<rparr>;
          check = sha256_pad (pos + 1) check;
          check = check\<lparr>sha256_size := sha256_size check * 8\<rparr>;
          check = check\<lparr>check_buffer := write_at (64 - 8) (write64ne (conv64be (sha256_size check))) (check_buffer check)\<rparr>;
          check = process check
      in check\<lparr>check_buffer := write_at 0
            (concat (map (\<lambda>i. write32ne (conv32be (sha256_state check ! i))) [0..<8])) (check_buffer check)\<rparr>)"

text \<open>
  The hash of the standard: big-endian words, blocks of 64 bytes, the padding with a one bit, zeros
  and the length of the message in bits as a 64-bit integer.
\<close>

definition fips_words :: "u8 list \<Rightarrow> u32 list" where
  "fips_words block = map (\<lambda>i. unaligned_read32be block (4 * i)) [0..<16]"

function fips_blocks :: "u32 list \<Rightarrow> u8 list \<Rightarrow> u32 list" where
  "fips_blocks H msg = (if length msg < 64 then H else fips_blocks (fips_compress H (fips_words (take 64 msg))) (drop 64 msg))"
  by pat_completeness auto
termination by (relation "measure (length \<circ> snd)") auto

declare fips_blocks.simps [simp del]

definition fips_length :: "nat \<Rightarrow> u8 list" where
  "fips_length n = map (\<lambda>k. of_nat (8 * n div 256 ^ (7 - k))) [0..<8]"

definition fips_padding :: "nat \<Rightarrow> u8 list" where
  "fips_padding n = [0x80] @ replicate ((119 - n mod 64) mod 64) 0 @ fips_length n"

definition fips_sha256 :: "u8 list \<Rightarrow> u8 list" where
  "fips_sha256 msg = concat (map unaligned_write32be (fips_blocks sha256_s (msg @ fips_padding (length msg))))"

section \<open>Streaming\<close>

lemma length_sha_vars_list [simp]: "length (sha_vars_list v) = 8"
  by (cases v rule: sha_vars_list.cases) simp

lemma length_fips_compress [simp]: "length H = 8 \<Longrightarrow> length (fips_compress H M) = 8"
  by (simp add: fips_compress_def)

lemma length_fips_blocks [simp]: "length H = 8 \<Longrightarrow> length (fips_blocks H msg) = 8"
  by (induction H msg rule: fips_blocks.induct) (subst fips_blocks.simps, simp)

lemma length_sha256_s [simp]: "length sha256_s = 8"
  by (simp add: sha256_s_def)

lemma fips_blocks_short [simp]: "length msg < 64 \<Longrightarrow> fips_blocks H msg = H"
  by (subst fips_blocks.simps) simp

lemma fips_blocks_append:
  "64 dvd length xs \<Longrightarrow> fips_blocks H (xs @ ys) = fips_blocks (fips_blocks H xs) ys"
proof (induction H xs rule: fips_blocks.induct)
  case (1 H xs)
  show ?case
  proof (cases "length xs < 64")
    case True
    then show ?thesis using 1 by (auto dest: dvd_imp_le)
  next
    case False
    have "fips_blocks H (xs @ ys) = fips_blocks (fips_compress H (fips_words (take 64 xs))) (drop 64 xs @ ys)"
      using False by (subst fips_blocks.simps) simp
    also have "\<dots> = fips_blocks (fips_blocks (fips_compress H (fips_words (take 64 xs))) (drop 64 xs)) ys"
      using 1 False by (simp add: dvd_diff_nat)
    also have "fips_blocks (fips_compress H (fips_words (take 64 xs))) (drop 64 xs) = fips_blocks H xs"
      using False by (subst (2) fips_blocks.simps) simp
    finally show ?thesis .
  qed
qed

lemma fips_blocks_one: "length b = 64 \<Longrightarrow> fips_blocks H b = fips_compress H (fips_words b)"
  by (subst fips_blocks.simps) simp

lemma buffer_words: "map bswap32 (buffer_u32 b) = fips_words b"
  by (simp add: buffer_u32_def fips_words_def bswap32_load32 read32be_load)

lemma process_fips:
  assumes "length (sha256_state c) = 8" "length (check_buffer c) = 64"
  shows "process c = c\<lparr>sha256_state := fips_blocks (sha256_state c) (check_buffer c)\<rparr>"
proof -
  have "length (buffer_u32 (check_buffer c)) = 16" by (simp add: buffer_u32_def)
  then show ?thesis using assms by (simp add: process_def transform_fips buffer_words fips_blocks_one)
qed

text \<open>
  The state after the message \<open>xs @ tail\<close>, where \<open>xs\<close> is a number of whole blocks and \<open>tail\<close> waits in
  the buffer.
\<close>

definition sha_inv :: "u8 list \<Rightarrow> u8 list \<Rightarrow> lzma_check_state \<Rightarrow> bool" where
  "sha_inv xs tail c \<longleftrightarrow> 64 dvd length xs \<and> length tail < 64 \<and> length (check_buffer c) = 64
     \<and> sha256_size c = of_nat (length (xs @ tail)) \<and> sha256_state c = fips_blocks sha256_s xs
     \<and> take (length tail) (check_buffer c) = tail"

lemma unat_of_nat_mod64: "unat (of_nat n :: u64) mod 64 = n mod 64"
  by (simp add: unat_of_nat mod_mod_cancel)

lemma sha_inv_pos: "sha_inv xs tail c \<Longrightarrow> sha256_pos c = length tail"
  by (auto simp: sha256_pos_mod sha_inv_def unat_of_nat_mod64 simp del: of_nat_add elim!: dvdE)

lemma sha_inv_turn:
  assumes inv: "sha_inv xs tail c" and k: "k = min (64 - length tail) (length buf)" and "buf \<noteq> []"
    and c': "c' = c\<lparr>check_buffer := write_at (length tail) (take k buf) (check_buffer c),
                    sha256_size := sha256_size c + of_nat k\<rparr>"
  shows "\<exists>xs' tail'. sha_inv xs' tail' (if sha256_pos c' = 0 then process c' else c')
           \<and> xs' @ tail' @ drop k buf = xs @ tail @ buf"
proof -
  define b where "b = write_at (length tail) (take k buf) (check_buffer c)"
  have i: "64 dvd length xs" "length tail < 64" "length (check_buffer c) = 64"
    "sha256_size c = of_nat (length (xs @ tail))" "sha256_state c = fips_blocks sha256_s xs"
    "take (length tail) (check_buffer c) = tail" using inv by (auto simp: sha_inv_def)
  have b: "length b = 64" "take (length (tail @ take k buf)) b = tail @ take k buf"
    using i k unfolding b_def by (simp_all add: write_at_def)
  have sz: "sha256_size c' = of_nat (length (xs @ tail @ take k buf))" using i k by (simp add: c')
  show ?thesis
  proof (cases "length tail + k = 64")
    case True
    then have e: "b = tail @ take k buf" using b k by (simp add: min_def split: if_splits)
    have l: "length (xs @ tail @ take k buf) = length xs + 64" using True k by simp
    have "sha256_pos c' = 0" using i(1) unfolding sha256_pos_mod sz l unat_of_nat_mod64 by (auto elim!: dvdE)
    moreover have "sha_inv (xs @ tail @ take k buf) [] (process c')"
    proof -
      have "check_buffer c' = tail @ take k buf" "sha256_state c' = fips_blocks sha256_s xs"
        using e i(5) by (simp_all add: c' b_def)
      then show ?thesis
        using i(1) b(1) l sz unfolding e by (simp add: sha_inv_def process_fips fips_blocks_append del: of_nat_add)
    qed
    ultimately show ?thesis by (intro exI [of _ "xs @ tail @ take k buf"] exI [of _ "[]"]) simp
  next
    case False
    have "k \<le> length buf" "length tail + k \<le> 64" using k i(2) by auto
    with False have "sha_inv xs (tail @ take k buf) c'"
      using i b sz by (simp add: sha_inv_def c' b_def)
    then show ?thesis using sha_inv_pos [of xs "tail @ take k buf" c'] k \<open>buf \<noteq> []\<close> i(2)
      by (intro exI [of _ xs] exI [of _ "tail @ take k buf"]) (simp add: min_def split: if_splits)
  qed
qed

lemma sha_inv_update:
  "sha_inv xs tail c \<Longrightarrow> \<exists>xs' tail'. sha_inv xs' tail' (lzma_sha256_update buf c) \<and> xs' @ tail' = xs @ tail @ buf"
proof (induction buf c arbitrary: xs tail rule: lzma_sha256_update.induct)
  case (1 buf c)
  show ?case
  proof (cases "buf = []")
    case True
    then show ?thesis using "1.prems" by (subst lzma_sha256_update.simps) auto
  next
    case False
    define k where "k = min (64 - length tail) (length buf)"
    define c' where "c' = c\<lparr>check_buffer := write_at (length tail) (take k buf) (check_buffer c),
                    sha256_size := sha256_size c + of_nat k\<rparr>"
    have u: "lzma_sha256_update buf c = lzma_sha256_update (drop k buf) (if sha256_pos c' = 0 then process c' else c')"
      using False sha_inv_pos [OF "1.prems"]
      by (subst lzma_sha256_update.simps) (simp add: Let_def k_def c'_def)
    obtain xs' tail' where "sha_inv xs' tail' (if sha256_pos c' = 0 then process c' else c')"
      "xs' @ tail' @ drop k buf = xs @ tail @ buf"
      using sha_inv_turn [OF "1.prems" k_def False c'_def] by blast
    then show ?thesis
      unfolding u
      using "1.IH" [OF False refl refl refl, unfolded sha_inv_pos [OF "1.prems"], folded k_def c'_def, of xs' tail']
      by simp
  qed
qed

section \<open>Padding\<close>

lemma sha256_pad_low:
  "pos \<le> 56 \<Longrightarrow> length (check_buffer c) = 64 \<Longrightarrow>
   sha256_pad pos c = c\<lparr>check_buffer := take pos (check_buffer c) @ replicate (56 - pos) 0 @ drop 56 (check_buffer c)\<rparr>"
proof (induction "56 - pos" arbitrary: pos c)
  case 0
  then show ?case by (subst sha256_pad.simps) simp
next
  case (Suc n)
  then have pos: "n = 56 - (pos + 1)" "pos + 1 \<le> 56" by auto
  have "sha256_pad pos c = sha256_pad (pos + 1) (c\<lparr>check_buffer := (check_buffer c)[pos := 0]\<rparr>)"
    using pos by (subst sha256_pad.simps) simp
  also have "\<dots> = c\<lparr>check_buffer := take (pos + 1) ((check_buffer c)[pos := 0]) @ replicate (56 - (pos + 1)) 0
      @ drop 56 ((check_buffer c)[pos := 0])\<rparr>"
    using Suc.hyps(1) [OF pos] Suc.prems by simp
  also have "take (pos + 1) ((check_buffer c)[pos := 0]) = take pos (check_buffer c) @ [0]"
    using pos Suc.prems by (simp add: take_Suc_conv_app_nth)
  also have "drop 56 ((check_buffer c)[pos := 0]) = drop 56 (check_buffer c)" using pos by simp
  finally show ?case using pos Suc.hyps(2) by (metis append.assoc append_Cons append_Nil replicate_Suc)
qed

lemma sha256_pad_64: "sha256_pad 64 c = sha256_pad 0 (process c)"
  by (subst (1 2) sha256_pad.simps) simp

lemma sha256_pad_high:
  "56 < pos \<Longrightarrow> pos \<le> 64 \<Longrightarrow> length (check_buffer c) = 64 \<Longrightarrow>
   sha256_pad pos c = sha256_pad 0 (process (c\<lparr>check_buffer := take pos (check_buffer c) @ replicate (64 - pos) 0\<rparr>))"
proof (induction "64 - pos" arbitrary: pos c)
  case 0
  then show ?case using sha256_pad_64 by simp
next
  case (Suc n)
  then have pos: "n = 64 - (pos + 1)" "56 < pos + 1" "pos + 1 \<le> 64" by auto
  have "sha256_pad pos c = sha256_pad (pos + 1) (c\<lparr>check_buffer := (check_buffer c)[pos := 0]\<rparr>)"
    using pos Suc.prems by (subst sha256_pad.simps) simp
  also have "\<dots> = sha256_pad 0 (process (c\<lparr>check_buffer := take (pos + 1) ((check_buffer c)[pos := 0])
      @ replicate (64 - (pos + 1)) 0\<rparr>))"
    using Suc.hyps(1) [OF pos] Suc.prems by simp
  also have "take (pos + 1) ((check_buffer c)[pos := 0]) = take pos (check_buffer c) @ [0]"
    using pos Suc.prems by (simp add: take_Suc_conv_app_nth)
  finally show ?case using pos Suc.hyps(2) by (metis append.assoc append_Cons append_Nil replicate_Suc)
qed

text \<open>The padding leaves whole blocks processed and the start of the last one in the buffer.\<close>

lemma sha256_pad_inv:
  assumes inv: "sha_inv xs tail c"
    and c1: "c1 = c\<lparr>check_buffer := (check_buffer c)[length tail := 0x80]\<rparr>"
  shows "\<exists>ys zs. 64 dvd length ys \<and> length zs = 56
     \<and> ys @ zs = xs @ tail @ [0x80] @ replicate ((119 - length tail) mod 64) 0
     \<and> sha256_state (sha256_pad (length tail + 1) c1) = fips_blocks sha256_s ys
     \<and> sha256_size (sha256_pad (length tail + 1) c1) = sha256_size c
     \<and> length (check_buffer (sha256_pad (length tail + 1) c1)) = 64
     \<and> take 56 (check_buffer (sha256_pad (length tail + 1) c1)) = zs"
proof -
  let ?p = "length tail"
  have i: "64 dvd length xs" "?p < 64" "length (check_buffer c) = 64"
    "sha256_state c = fips_blocks sha256_s xs" "take ?p (check_buffer c) = tail" using inv by (auto simp: sha_inv_def)
  have t: "take (?p + 1) (check_buffer c1) = tail @ [0x80]" "length (check_buffer c1) = 64"
    using i by (simp_all add: c1 take_Suc_conv_app_nth)
  show ?thesis
  proof (cases "?p < 56")
    case True
    then have "(119 - ?p) mod 64 = 56 - (?p + 1)" by (simp add: mod_if)
    moreover have "sha256_pad (?p + 1) c1 = c1\<lparr>check_buffer := tail @ [0x80] @ replicate (56 - (?p + 1)) 0
        @ drop 56 (check_buffer c1)\<rparr>"
      using True t by (simp add: sha256_pad_low)
    ultimately show ?thesis
      using True i t
      by - (rule exI [of _ xs], rule exI [of _ "tail @ [0x80] @ replicate (56 - (?p + 1)) 0"], simp add: c1 take_Cons')
  next
    case False
    let ?b = "tail @ [0x80] @ replicate (64 - (?p + 1)) 0"
    have c2: "sha256_pad (?p + 1) c1 = sha256_pad 0 (process (c1\<lparr>check_buffer := ?b\<rparr>))"
      using sha256_pad_high [of "?p + 1" c1] False i(2) t by simp
    have "process (c1\<lparr>check_buffer := ?b\<rparr>) = c1\<lparr>check_buffer := ?b, sha256_state := fips_blocks sha256_s (xs @ ?b)\<rparr>"
      using i by (simp add: process_fips c1 fips_blocks_append)
    then have "sha256_pad (?p + 1) c1 = c1\<lparr>check_buffer := replicate 56 0 @ drop 56 ?b, sha256_state := fips_blocks sha256_s (xs @ ?b)\<rparr>"
      using i(2) c2 by (simp add: sha256_pad_low)
    then show ?thesis
      using i(1,2) False
      by - (rule exI [of _ "xs @ ?b"], rule exI [of _ "replicate 56 0"], simp add: c1 replicate_add [symmetric])
  qed
qed

text \<open>Big-endian stores.\<close>

lemma write32ne_bswap32: "write32ne (bswap32 x) = unaligned_write32be x"
proof -
  have "write32ne (load32 b0 b1 b2 b3) = [b0, b1, b2, b3]" for b0 b1 b2 b3
    by (simp only: write32ne_def bytes_load32)
  moreover have "bswap32 x = load32 (ucast (drop_bit 24 x)) (ucast (drop_bit 16 x)) (ucast (drop_bit 8 x)) (ucast x)"
    by (subst (1) load32_bytes [of x, symmetric]) (rule bswap32_load32)
  ultimately show ?thesis by (simp add: unaligned_write32be_def)
qed

lemma not_bit_u64: "64 \<le> n \<Longrightarrow> \<not> bit (x :: u64) n"
  by (auto dest: bit_imp_le_length)

lemma bit_mask_at: "bit (push_bit m (mask 8) :: u64) n \<longleftrightarrow> n < 64 \<and> m \<le> n \<and> n < m + 8"
  by (auto simp: bit_push_bit_iff bit_mask_iff)

lemma bswap64_masks:
  "bswap64 x = push_bit 56 x OR (push_bit 40 x AND push_bit 48 (mask 8))
     OR (push_bit 24 x AND push_bit 40 (mask 8)) OR (push_bit 8 x AND push_bit 32 (mask 8))
     OR (drop_bit 8 x AND push_bit 24 (mask 8)) OR (drop_bit 24 x AND push_bit 16 (mask 8))
     OR (drop_bit 40 x AND push_bit 8 (mask 8)) OR drop_bit 56 x"
  by (simp add: bswap64_def mask_eq_exp_minus_1 push_bit_eq_mult)

lemma bit_bswap64:
  assumes "k < 8" "i < 8"
  shows "bit (bswap64 x) (8 * k + i) \<longleftrightarrow> bit x (8 * (7 - k) + i)"
  using less8 [OF assms(1)] assms(2) unfolding bswap64_masks
  by (elim disjE; simp only: bit_or_iff bit_and_iff bit_push_bit_iff bit_mask_at bit_drop_bit_eq comp_def)
    (simp_all add: not_bit_u64 bit_mask_iff)

lemma write64ne_bswap64: "write64ne (bswap64 (of_nat n * 8)) = fips_length n"
proof -
  have "ucast (drop_bit (8 * k) (bswap64 (of_nat n * 8))) = (of_nat (8 * n div 256 ^ (7 - k)) :: u8)"
    if "k < 8" for k
  proof (rule bit_word_eqI)
    fix i assume "i < LENGTH(8)"
    then have i: "i < 8" by simp
    have "bit (ucast (drop_bit (8 * k) (bswap64 (of_nat n * 8))) :: u8) i
        \<longleftrightarrow> bit (of_nat (8 * n) :: u64) (8 * (7 - k) + i)"
      using bit_bswap64 [OF that i] i by (simp only: bit_byte_of bit_drop_bit_eq comp_def of_nat_mult of_nat_numeral mult.commute) simp
    also have "\<dots> \<longleftrightarrow> bit (8 * n) (8 * (7 - k) + i)" proof -
      have "8 * (7 - k) + i < 64" using i by linarith
      then show ?thesis by (simp only: bit_of_nat_iff) simp
    qed
    also have "\<dots> \<longleftrightarrow> bit (8 * n div 256 ^ (7 - k)) i"
      by (simp add: bit_iff_odd div_mult2_eq power_add power_mult)
    also have "\<dots> \<longleftrightarrow> bit (of_nat (8 * n div 256 ^ (7 - k)) :: u8) i" using i by (simp only: bit_of_nat_iff) simp
    finally show "bit (ucast (drop_bit (8 * k) (bswap64 (of_nat n * 8))) :: u8) i
        = bit (of_nat (8 * n div 256 ^ (7 - k)) :: u8) i" .
  qed
  then show ?thesis by (simp only: write64ne_def fips_length_def) (simp cong: map_cong)
qed

lemma length_fips_length [simp]: "length (fips_length n) = 8"
  by (simp add: fips_length_def)

lemma lzma_sha256_finish_fips:
  assumes inv: "sha_inv xs tail c"
  shows "take 32 (check_buffer (lzma_sha256_finish c)) = fips_sha256 (xs @ tail)"
proof -
  define c1 where "c1 = c\<lparr>check_buffer := (check_buffer c)[length tail := 0x80]\<rparr>"
  define c2 where "c2 = sha256_pad (length tail + 1) c1"
  let ?n = "length (xs @ tail)"
  obtain ys zs where y: "64 dvd length ys" "length zs = 56"
     "ys @ zs = xs @ tail @ [0x80] @ replicate ((119 - length tail) mod 64) 0"
     "sha256_state c2 = fips_blocks sha256_s ys" "sha256_size c2 = sha256_size c"
     "length (check_buffer c2) = 64" "take 56 (check_buffer c2) = zs"
    using sha256_pad_inv [OF inv c1_def] unfolding c2_def by blast
  have "length tail = ?n mod 64" using inv by (auto simp: sha_inv_def elim!: dvdE)
  then have pad: "ys @ zs @ fips_length ?n = (xs @ tail) @ fips_padding ?n"
    using y(3) by (simp add: fips_padding_def)
  define c3 where "c3 = c2\<lparr>sha256_size := sha256_size c2 * 8,
     check_buffer := write_at 56 (write64ne (bswap64 (sha256_size c2 * 8))) (check_buffer c2)\<rparr>"
  have "write64ne (bswap64 (sha256_size c2 * 8)) = fips_length ?n"
    using y(5) inv write64ne_bswap64 [of ?n] by (simp add: sha_inv_def)
  then have b3: "check_buffer c3 = zs @ fips_length ?n" using y by (simp add: c3_def write_at_def)
  have s: "sha256_state (process c3) = fips_blocks sha256_s ((xs @ tail) @ fips_padding ?n)"
    unfolding pad [symmetric] using y b3 by (simp add: process_fips c3_def fips_blocks_append)
  have f: "lzma_sha256_finish c = process c3\<lparr>check_buffer := write_at 0
      (concat (map (\<lambda>i. write32ne (bswap32 (sha256_state (process c3) ! i))) [0..<8])) (check_buffer (process c3))\<rparr>"
    using sha_inv_pos [OF inv] by (simp add: lzma_sha256_finish_def Let_def c1_def c2_def c3_def)
  have "map (\<lambda>i. unaligned_write32be (fips_blocks sha256_s m ! i)) [0..<8] = map unaligned_write32be (fips_blocks sha256_s m)" for m
    by (rule nth_equalityI) simp_all
  moreover have "length (concat (map unaligned_write32be (fips_blocks sha256_s m))) = 32" for m
  proof -
    have "map length (map unaligned_write32be (fips_blocks sha256_s m)) = replicate 8 4"
      by (simp add: unaligned_write32be_def map_replicate_const comp_def)
    then show ?thesis by (simp add: length_concat sum_list_replicate)
  qed
  ultimately show ?thesis
    unfolding f by (simp add: write32ne_bswap32 s write_at_def fips_sha256_def)
qed

section \<open>Pieces\<close>

text \<open>A message given in pieces is hashed like the whole.\<close>

lemma sha_inv_init: "length (check_buffer c) = 64 \<Longrightarrow> sha_inv [] [] (lzma_sha256_init c)"
  by (simp add: sha_inv_def lzma_sha256_init_def)

lemma length_process [simp]: "check_buffer (process c) = check_buffer c"
  by (simp add: process_def)

lemma sha256_pos_less: "sha256_pos c < 64"
  by (simp add: sha256_pos_mod)

lemma sha256_pos_add:
  "sha256_pos c + n < 64 \<Longrightarrow> sha256_pos (c\<lparr>check_buffer := b, sha256_size := sha256_size c + of_nat n\<rparr>) = sha256_pos c + n"
  by (auto simp: sha256_pos_mod unat_of_nat unat_word_ariths mod_mod_cancel mod_add_left_eq mod_add_right_eq)
   (metis mod_add_left_eq mod_less)

lemma lzma_sha256_update_short:
  assumes "sha256_pos c + length buf < 64"
  shows "lzma_sha256_update buf c = (if buf = [] then c else
     c\<lparr>check_buffer := write_at (sha256_pos c) buf (check_buffer c), sha256_size := sha256_size c + of_nat (length buf)\<rparr>)"
proof -
  have e: "lzma_sha256_update [] x = x" for x by (subst lzma_sha256_update.simps) simp
  show ?thesis
    using assms by (subst lzma_sha256_update.simps) (simp add: Let_def e sha256_pos_add)
qed

lemma lzma_sha256_update_append:
  "length (check_buffer c) = 64 \<Longrightarrow>
   lzma_sha256_update (xs @ ys) c = lzma_sha256_update ys (lzma_sha256_update xs c)"
proof (induction xs c rule: lzma_sha256_update.induct)
  case (1 xs c)
  define p where "p = sha256_pos c"
  have p: "p < 64" by (simp add: p_def sha256_pos_less)
  consider "xs = [] \<or> ys = []" | "64 - p \<le> length xs" "xs \<noteq> []" | "length xs < 64 - p" "xs \<noteq> []" "ys \<noteq> []" by linarith
  then show ?case
  proof cases
    case 1
    then show ?thesis by (auto simp: lzma_sha256_update.simps [of "[]"])
  next
    case 2
    define c' where "c' = c\<lparr>check_buffer := write_at p (take (64 - p) xs) (check_buffer c),
                    sha256_size := sha256_size c + of_nat (64 - p)\<rparr>"
    have u: "lzma_sha256_update (xs @ zs) c
        = lzma_sha256_update (drop (64 - p) xs @ zs) (if sha256_pos c' = 0 then process c' else c')" for zs
      using 2 by (subst lzma_sha256_update.simps) (simp add: Let_def c'_def p_def [symmetric])
    have "length (check_buffer c') = 64" using 2 p "1.prems" by (simp add: c'_def)
    moreover have "min (64 - p) (length xs) = 64 - p" using 2 by simp
    note IH = "1.IH" [OF 2(2) refl refl refl, folded p_def, unfolded this, folded c'_def]
    ultimately show ?thesis using u [of ys] u [of "[]"] IH by simp
  next
    case 3
    let ?k = "min (64 - p) (length (xs @ ys))"
    define c' where "c' = c\<lparr>check_buffer := write_at p (take ?k (xs @ ys)) (check_buffer c),
                    sha256_size := sha256_size c + of_nat ?k\<rparr>"
    define c1 where "c1 = c\<lparr>check_buffer := write_at p xs (check_buffer c), sha256_size := sha256_size c + of_nat (length xs)\<rparr>"
    have x: "lzma_sha256_update xs c = c1" using 3 by (simp add: lzma_sha256_update_short p_def c1_def)
    have p1: "sha256_pos c1 = p + length xs" using 3 by (simp add: c1_def p_def sha256_pos_add)
    have "lzma_sha256_update ys c1
        = lzma_sha256_update (drop (?k - length xs) ys) (if sha256_pos c' = 0 then process c' else c')"
    proof -
      have k: "min (64 - (p + length xs)) (length ys) = ?k - length xs" using 3 by simp
      have "c1\<lparr>check_buffer := write_at (p + length xs) (take (?k - length xs) ys) (check_buffer c1),
          sha256_size := sha256_size c1 + of_nat (?k - length xs)\<rparr> = c'"
        using 3 "1.prems" by (simp add: c1_def c'_def write_at_append of_nat_diff)
      then show ?thesis using 3 by (subst lzma_sha256_update.simps) (simp only: Let_def p1 k if_False)
    qed
    also have "\<dots> = lzma_sha256_update (xs @ ys) c"
      using 3 by (subst (2) lzma_sha256_update.simps) (simp add: Let_def c'_def p_def [symmetric])
    finally show ?thesis by (simp add: x)
  qed
qed

lemma length_lzma_sha256_update:
  "length (check_buffer c) = 64 \<Longrightarrow> length (check_buffer (lzma_sha256_update buf c)) = 64"
proof (induction buf c rule: lzma_sha256_update.induct)
  case (1 buf c)
  have "sha256_pos c + length (take (min (64 - sha256_pos c) (length buf)) buf) \<le> length (check_buffer c)"
    using "1.prems" sha256_pos_less [of c] by simp
  then show ?case using 1 by (subst lzma_sha256_update.simps) (simp add: Let_def)
qed

interpretation sha256: streaming_check lzma_sha256_update "\<lambda>c. length (check_buffer c) = 64"
  by unfold_locales (simp_all add: lzma_sha256_update_append length_lzma_sha256_update lzma_sha256_update.simps [of "[]"])

lemma sha256_message:
  assumes "length (check_buffer c) = 64"
  shows "take 32 (check_buffer (lzma_sha256_finish (lzma_sha256_update msg (lzma_sha256_init c)))) = fips_sha256 msg"
proof -
  obtain xs tail where "sha_inv xs tail (lzma_sha256_update msg (lzma_sha256_init c))" "xs @ tail = msg"
    using sha_inv_update [OF sha_inv_init [OF assms], of msg] by auto
  then show ?thesis using lzma_sha256_finish_fips by metis
qed

end
