(* ===== verification/Check.thy ===== *)
theory Check
  imports Crc Sha256
begin

text \<open>
  The integrity checks behind one interface (\<open>check/check.c\<close>): which check types exist, the size of
  a check, and computing a check over input that comes in pieces.
\<close>

type_synonym lzma_check = u32

abbreviation (input) LZMA_CHECK_NONE :: lzma_check where "LZMA_CHECK_NONE \<equiv> 0"
abbreviation (input) LZMA_CHECK_CRC32 :: lzma_check where "LZMA_CHECK_CRC32 \<equiv> 1"
abbreviation (input) LZMA_CHECK_CRC64 :: lzma_check where "LZMA_CHECK_CRC64 \<equiv> 4"
abbreviation (input) LZMA_CHECK_SHA256 :: lzma_check where "LZMA_CHECK_SHA256 \<equiv> 10"
abbreviation (input) LZMA_CHECK_ID_MAX :: lzma_check where "LZMA_CHECK_ID_MAX \<equiv> 15"
abbreviation (input) UINT32_MAX :: u32 where "UINT32_MAX \<equiv> 0xFFFFFFFF"

text \<open>All three checks are built in.\<close>

definition available_checks :: "bool list" where
  "available_checks = [True, True, False, False, True, False, False, False, False, False, True,
     False, False, False, False, False]"

definition lzma_check_is_supported :: "lzma_check \<Rightarrow> bool" where
  "lzma_check_is_supported type =
     (if type > LZMA_CHECK_ID_MAX then False else available_checks ! unat type)"

definition check_sizes :: "u32 list" where
  "check_sizes = [0, 4, 4, 4, 8, 8, 8, 16, 16, 16, 32, 32, 32, 64, 64, 64]"

definition lzma_check_size :: "lzma_check \<Rightarrow> u32" where
  "lzma_check_size type = (if type > LZMA_CHECK_ID_MAX then UINT32_MAX else check_sizes ! unat type)"

definition lzma_check_init :: "lzma_check \<Rightarrow> lzma_check_state \<Rightarrow> lzma_check_state" where
  "lzma_check_init type check =
     (if type = LZMA_CHECK_NONE then check
      else if type = LZMA_CHECK_CRC32 then check\<lparr>crc32_state := 0\<rparr>
      else if type = LZMA_CHECK_CRC64 then check\<lparr>crc64_state := 0\<rparr>
      else if type = LZMA_CHECK_SHA256 then lzma_sha256_init check
      else check)"

text \<open>\<open>addr\<close> is the address of the buffer.\<close>

definition lzma_check_update :: "lzma_check \<Rightarrow> nat \<Rightarrow> u8 list \<Rightarrow> lzma_check_state \<Rightarrow> lzma_check_state" where
  "lzma_check_update type addr buf check =
     (if type = LZMA_CHECK_CRC32 then check\<lparr>crc32_state := lzma_crc32 addr buf (crc32_state check)\<rparr>
      else if type = LZMA_CHECK_CRC64 then check\<lparr>crc64_state := lzma_crc64 addr buf (crc64_state check)\<rparr>
      else if type = LZMA_CHECK_SHA256 then lzma_sha256_update buf check
      else check)"

definition lzma_check_finish :: "lzma_check \<Rightarrow> lzma_check_state \<Rightarrow> lzma_check_state" where
  "lzma_check_finish type check =
     (if type = LZMA_CHECK_CRC32
      then check\<lparr>check_buffer := write_at 0 (write32ne (conv32le (crc32_state check))) (check_buffer check)\<rparr>
      else if type = LZMA_CHECK_CRC64
      then check\<lparr>check_buffer := write_at 0 (write64ne (conv64le (crc64_state check))) (check_buffer check)\<rparr>
      else if type = LZMA_CHECK_SHA256 then lzma_sha256_finish check
      else check)"

section \<open>Checks in pieces\<close>

abbreviation (input) check_ok :: "lzma_check_state \<Rightarrow> bool" where
  "check_ok check \<equiv> length (check_buffer check) = 64"

interpretation check: streaming_check "lzma_check_update type addr" "\<lambda>check. check_ok check" for type addr
  by unfold_locales
    (simp_all add: lzma_check_update_def lzma_crc32_append [where a = addr and b = addr]
      lzma_crc64_append [where a = addr and b = addr] crc32.upd_Nil crc64.upd_Nil
      sha256.upd_append sha256.upd_Nil sha256.upd_inv)

text \<open>The address of a buffer is immaterial.\<close>

lemma lzma_check_update_addr: "lzma_check_update type addr buf check = lzma_check_update type 0 buf check"
  by (simp add: lzma_check_update_def lzma_crc32_eq_small lzma_crc64_eq_small)

text \<open>The bytes that the file format has for a check of a message.\<close>

definition check_spec :: "lzma_check \<Rightarrow> u8 list \<Rightarrow> u8 list" where
  "check_spec type msg =
     (if type = LZMA_CHECK_CRC32 then write32ne (NOT (crc_ref poly32 msg (NOT 0)))
      else if type = LZMA_CHECK_CRC64 then write64ne (NOT (crc_ref poly64 msg (NOT 0)))
      else if type = LZMA_CHECK_SHA256 then fips_sha256 msg
      else [])"

lemma fold_lzma_check_update:
  assumes "check_ok check"
  shows "fold (\<lambda>(addr, buf). lzma_check_update type addr buf) pieces check
       = lzma_check_update type 0 (concat (map snd pieces)) check"
proof -
  have "(\<lambda>(addr, buf). lzma_check_update type addr buf) = (\<lambda>p. lzma_check_update type 0 (snd p))"
    by (auto simp: fun_eq_iff) (metis lzma_check_update_addr)
  then have "fold (\<lambda>(addr, buf). lzma_check_update type addr buf) pieces check
      = fold (lzma_check_update type 0) (map snd pieces) check"
    by (simp add: fold_map comp_def)
  also have "\<dots> = lzma_check_update type 0 (concat (map snd pieces)) check"
    using assms by (rule check.upd_chunks)
  finally show ?thesis .
qed

lemma supported_types:
  "lzma_check_is_supported type \<longleftrightarrow> type = LZMA_CHECK_NONE \<or> type = LZMA_CHECK_CRC32
     \<or> type = LZMA_CHECK_CRC64 \<or> type = LZMA_CHECK_SHA256"
proof (cases "type > LZMA_CHECK_ID_MAX")
  case True
  then show ?thesis by (auto simp: lzma_check_is_supported_def)
next
  case False
  then have "unat type < 16" by (simp add: word_less_nat_alt word_le_nat_alt not_less)
  then have "unat type = 0 \<or> unat type = 1 \<or> unat type = 2 \<or> unat type = 3 \<or> unat type = 4 \<or> unat type = 5
    \<or> unat type = 6 \<or> unat type = 7 \<or> unat type = 8 \<or> unat type = 9 \<or> unat type = 10 \<or> unat type = 11
    \<or> unat type = 12 \<or> unat type = 13 \<or> unat type = 14 \<or> unat type = 15" by arith
  then show ?thesis using False
    by (elim disjE) (simp_all add: lzma_check_is_supported_def available_checks_def word_unat_eq_iff)
qed

lemma length_check_init: "check_ok check \<Longrightarrow> check_ok (lzma_check_init type check)"
  by (simp add: lzma_check_init_def lzma_sha256_init_def)

lemma check_of_message:
  assumes "lzma_check_is_supported type" "check_ok check"
  shows "take (unat (lzma_check_size type)) (check_buffer (lzma_check_finish type (lzma_check_update type 0 m (lzma_check_init type check))))
       = check_spec type m"
proof -
  consider "type = LZMA_CHECK_NONE" | "type = LZMA_CHECK_CRC32" | "type = LZMA_CHECK_CRC64"
    | "type = LZMA_CHECK_SHA256" using assms(1) by (auto simp: supported_types)
  then show ?thesis
  proof cases
    case 4
    then show ?thesis
      using sha256_message [OF assms(2), of m]
      by (simp add: lzma_check_size_def check_sizes_def lzma_check_finish_def lzma_check_update_def
          lzma_check_init_def check_spec_def)
  qed (simp_all add: assms lzma_check_size_def check_sizes_def lzma_check_finish_def lzma_check_update_def
      lzma_check_init_def check_spec_def write_at_def write32ne_def write64ne_def
      lzma_crc32_eq_small lzma_crc32_small_def crc32_bytes_ref
      lzma_crc64_eq_small lzma_crc64_small_def crc64_bytes_ref)
qed

text \<open>
  C26: for every supported check type, the check that is computed over any sequence of pieces, each
  at any address, and stored at the start of the buffer is the check of the concatenated pieces as
  the file format defines it: little-endian CRC32 or CRC64, or SHA-256 of FIPS 180-4. Its length is
  what \<open>lzma_check_size\<close> says.
\<close>

theorem check_of_pieces:
  assumes "lzma_check_is_supported type" "check_ok check"
  shows "take (unat (lzma_check_size type)) (check_buffer (lzma_check_finish type
           (fold (\<lambda>(addr, buf). lzma_check_update type addr buf) pieces (lzma_check_init type check))))
       = check_spec type (concat (map snd pieces))"
proof -
  have "fold (\<lambda>(addr, buf). lzma_check_update type addr buf) pieces (lzma_check_init type check)
      = lzma_check_update type 0 (concat (map snd pieces)) (lzma_check_init type check)"
    by (rule fold_lzma_check_update) (rule length_check_init [OF assms(2)])
  then show ?thesis by (simp only: check_of_message [OF assms])
qed

theorem check_of_pieces_witness:
  "take 32 (check_buffer (lzma_check_finish 10
       (fold (\<lambda>(addr, buf). lzma_check_update 10 addr buf) [(0, [0x61]), (1, [0x62, 0x63])]
         (lzma_check_init 10 \<lparr>check_buffer = replicate 64 0, crc32_state = 0, crc64_state = 0,
            sha256_state = [], sha256_size = 0\<rparr>))))
   = fips_sha256 [0x61, 0x62, 0x63]"
  using check_of_pieces [of 10 "\<lparr>check_buffer = replicate 64 0, crc32_state = 0, crc64_state = 0,
      sha256_state = [], sha256_size = 0\<rparr>" "[(0, [0x61]), (1, [0x62, 0x63])]"]
  by (simp add: supported_types lzma_check_size_def check_sizes_def check_spec_def)

end
