(* ===== verification/Stream_Flags.thy ===== *)
theory Stream_Flags
  imports Check Vli
begin

text \<open>
  Stream Header and Stream Footer (\<open>common/stream_flags_common.c\<close>, \<open>stream_flags_encoder.c\<close>,
  \<open>stream_flags_decoder.c\<close>). A buffer is a list of bytes together with its address \<open>addr\<close>; a function
  that writes returns the buffer, one that fills \<open>options\<close> returns them.
\<close>

section \<open>Data\<close>

text \<open>\<open>lzma_stream_flags\<close> without its reserved members, which nothing reads.\<close>

record lzma_stream_flags =
  sf_version :: u32
  backward_size :: u64
  sf_check :: lzma_check

abbreviation (input) LZMA_STREAM_FLAGS_SIZE :: nat where "LZMA_STREAM_FLAGS_SIZE \<equiv> 2"
abbreviation (input) LZMA_STREAM_HEADER_SIZE :: nat where "LZMA_STREAM_HEADER_SIZE \<equiv> 12"
abbreviation (input) LZMA_BACKWARD_SIZE_MIN :: u64 where "LZMA_BACKWARD_SIZE_MIN \<equiv> 4"
abbreviation (input) LZMA_BACKWARD_SIZE_MAX :: u64 where "LZMA_BACKWARD_SIZE_MAX \<equiv> 0x400000000"

definition lzma_header_magic :: "u8 list" where "lzma_header_magic = [0xFD, 0x37, 0x7A, 0x58, 0x5A, 0x00]"
definition lzma_footer_magic :: "u8 list" where "lzma_footer_magic = [0x59, 0x5A]"

definition is_backward_size_valid :: "lzma_stream_flags \<Rightarrow> bool" where
  "is_backward_size_valid options \<longleftrightarrow> backward_size options \<ge> LZMA_BACKWARD_SIZE_MIN
     \<and> backward_size options \<le> LZMA_BACKWARD_SIZE_MAX \<and> backward_size options AND 3 = 0"

definition lzma_stream_flags_compare :: "lzma_stream_flags \<Rightarrow> lzma_stream_flags \<Rightarrow> lzma_ret" where
  "lzma_stream_flags_compare a b =
     (if sf_version a \<noteq> 0 \<or> sf_version b \<noteq> 0 then LZMA_OPTIONS_ERROR
      else if sf_check a > LZMA_CHECK_ID_MAX \<or> sf_check b > LZMA_CHECK_ID_MAX then LZMA_PROG_ERROR
      else if sf_check a \<noteq> sf_check b then LZMA_DATA_ERROR
      else if backward_size a \<noteq> LZMA_VLI_UNKNOWN \<and> backward_size b \<noteq> LZMA_VLI_UNKNOWN then
        (if \<not> is_backward_size_valid a \<or> \<not> is_backward_size_valid b then LZMA_PROG_ERROR
         else if backward_size a \<noteq> backward_size b then LZMA_DATA_ERROR else LZMA_OK)
      else LZMA_OK)"

section \<open>Encoder\<close>

text \<open>The flags at position \<open>p\<close> of the buffer; \<open>True\<close> is failure, as in the code.\<close>

definition stream_flags_encode :: "lzma_stream_flags \<Rightarrow> nat \<Rightarrow> u8 list \<Rightarrow> bool \<times> u8 list" where
  "stream_flags_encode options p out =
     (if sf_check options > LZMA_CHECK_ID_MAX then (True, out)
      else (False, out[p := 0x00, p + 1 := ucast (sf_check options)]))"

definition lzma_stream_header_encode :: "nat \<Rightarrow> lzma_stream_flags \<Rightarrow> u8 list \<Rightarrow> lzma_ret \<times> u8 list" where
  "lzma_stream_header_encode addr options out =
     (if sf_version options \<noteq> 0 then (LZMA_OPTIONS_ERROR, out)
      else let out = write_at 0 lzma_header_magic out;
               (err, out) = stream_flags_encode options 6 out
      in if err then (LZMA_PROG_ERROR, out)
      else let crc = lzma_crc32 (addr + 6) (take LZMA_STREAM_FLAGS_SIZE (drop 6 out)) 0
      in (LZMA_OK, write_at (6 + LZMA_STREAM_FLAGS_SIZE) (unaligned_write32le crc) out))"

definition lzma_stream_footer_encode :: "nat \<Rightarrow> lzma_stream_flags \<Rightarrow> u8 list \<Rightarrow> lzma_ret \<times> u8 list" where
  "lzma_stream_footer_encode addr options out =
     (if sf_version options \<noteq> 0 then (LZMA_OPTIONS_ERROR, out)
      else if \<not> is_backward_size_valid options then (LZMA_PROG_ERROR, out)
      else let out = write_at 4 (unaligned_write32le (ucast (backward_size options div 4 - 1))) out;
               (err, out) = stream_flags_encode options (2 * 4) out
      in if err then (LZMA_PROG_ERROR, out)
      else let crc = lzma_crc32 (addr + 4) (take (4 + LZMA_STREAM_FLAGS_SIZE) (drop 4 out)) 0;
               out = write_at 0 (unaligned_write32le crc) out
      in (LZMA_OK, write_at (2 * 4 + LZMA_STREAM_FLAGS_SIZE) lzma_footer_magic out))"

section \<open>Decoder\<close>

definition stream_flags_decode :: "lzma_stream_flags \<Rightarrow> u8 list \<Rightarrow> nat \<Rightarrow> bool \<times> lzma_stream_flags" where
  "stream_flags_decode options inp p =
     (if inp ! p \<noteq> 0x00 \<or> inp ! (p + 1) AND 0xF0 \<noteq> 0 then (True, options)
      else (False, options\<lparr>sf_version := 0, sf_check := ucast (inp ! (p + 1) AND 0x0F)\<rparr>))"

definition lzma_stream_header_decode :: "nat \<Rightarrow> lzma_stream_flags \<Rightarrow> u8 list \<Rightarrow> lzma_ret \<times> lzma_stream_flags" where
  "lzma_stream_header_decode addr options inp =
     (if take 6 inp \<noteq> lzma_header_magic then (LZMA_FORMAT_ERROR, options)
      else if lzma_crc32 (addr + 6) (take LZMA_STREAM_FLAGS_SIZE (drop 6 inp)) 0
           \<noteq> unaligned_read32le inp (6 + LZMA_STREAM_FLAGS_SIZE) then (LZMA_DATA_ERROR, options)
      else let (err, options) = stream_flags_decode options inp 6
      in if err then (LZMA_OPTIONS_ERROR, options)
      else (LZMA_OK, options\<lparr>backward_size := LZMA_VLI_UNKNOWN\<rparr>))"

definition lzma_stream_footer_decode :: "nat \<Rightarrow> lzma_stream_flags \<Rightarrow> u8 list \<Rightarrow> lzma_ret \<times> lzma_stream_flags" where
  "lzma_stream_footer_decode addr options inp =
     (if take 2 (drop (4 * 2 + LZMA_STREAM_FLAGS_SIZE) inp) \<noteq> lzma_footer_magic then (LZMA_FORMAT_ERROR, options)
      else if lzma_crc32 (addr + 4) (take (4 + LZMA_STREAM_FLAGS_SIZE) (drop 4 inp)) 0 \<noteq> unaligned_read32le inp 0
      then (LZMA_DATA_ERROR, options)
      else let (err, options) = stream_flags_decode options inp (4 * 2)
      in if err then (LZMA_OPTIONS_ERROR, options)
      else (LZMA_OK, options\<lparr>backward_size := (ucast (unaligned_read32le inp 4) + 1) * 4\<rparr>))"

section \<open>Round trip\<close>

lemma length12: "length out = 12 \<Longrightarrow> \<exists>a b c d e f g h i j k l. out = [a, b, c, d, e, f, g, h, i, j, k, l]"
  by (auto simp: length_Suc_conv numeral_eq_Suc)

lemma crc32_any_addr: "lzma_crc32 addr buf crc = lzma_crc32_small buf crc"
  by (rule lzma_crc32_eq_small)

text \<open>A check id fits in the low half of a byte.\<close>

lemma check_id_byte:
  assumes "\<not> (x :: u32) > 15"
  shows "(ucast x :: u8) AND 0xF0 = 0" "ucast ((ucast x :: u8) AND 0x0F) = x"
proof -
  have "unat x < 2 ^ 4" using assms by (simp add: not_less word_le_nat_alt)
  then have "take_bit 4 x = x" by (simp add: word_unat_eq_iff take_bit_eq_mod unat_mod_distrib)
  then have b: "n < 4" if "bit x n" for n
    using that by (metis bit_take_bit_iff)
  have m: "(0xF0 :: u8) = push_bit 4 (mask 4)" "(0x0F :: u8) = mask 4"
    by (simp_all add: mask_eq_exp_minus_1 push_bit_eq_mult)
  show "(ucast x :: u8) AND 0xF0 = 0"
    unfolding m by (rule bit_word_eqI) (auto simp: bit_and_iff bit_ucast_iff bit_push_bit_iff dest: b)
  show "ucast ((ucast x :: u8) AND 0x0F) = x"
    unfolding m by (rule bit_word_eqI) (auto simp: bit_and_iff bit_ucast_iff bit_mask_iff dest: b)
qed

lemma backward_size_fits:
  assumes "is_backward_size_valid options"
  shows "(ucast (ucast (backward_size options div 4 - 1) :: u32) + 1) * 4 = backward_size options"
proof -
  define b where "b = unat (backward_size options)"
  have v: "4 \<le> b" "b \<le> 2 ^ 34" "4 dvd b"
  proof -
    have "backward_size options AND 3 = take_bit 2 (backward_size options)"
      by (simp add: take_bit_eq_mask mask_eq_exp_minus_1)
    then have "unat (take_bit 2 (backward_size options)) = 0"
      using assms by (simp add: is_backward_size_valid_def)
    then show "4 dvd b" unfolding b_def by (simp only: unsigned_take_bit_eq) (simp add: take_bit_eq_mod mod_eq_0_iff_dvd)
  qed (use assms in \<open>simp_all add: is_backward_size_valid_def b_def word_le_nat_alt\<close>)
  then obtain k where k: "b = 4 * k" "1 \<le> k" "k \<le> 2 ^ 32" by (auto elim!: dvdE)
  have "unat (backward_size options div 4 - 1) = k - 1"
    using k v unfolding b_def by (simp add: unat_div unat_sub word_le_nat_alt)
  then have "unat (ucast (ucast (backward_size options div 4 - 1) :: u32) :: u64) = k - 1"
    using k(2,3) by (simp add: unsigned_ucast_eq take_bit_eq_mod unat_mod_distrib)
  then have "unat ((ucast (ucast (backward_size options div 4 - 1) :: u32) + 1) * 4 :: u64) = b"
    using k by (simp add: unat_word_ariths)
  then show ?thesis by (simp add: word_unat_eq_iff b_def)
qed

lemma header_bytes:
  assumes "length out = 12" "sf_version options = 0" "\<not> sf_check options > LZMA_CHECK_ID_MAX"
  shows "lzma_stream_header_encode addr options out
    = (LZMA_OK, lzma_header_magic @ [0, ucast (sf_check options)]
         @ unaligned_write32le (lzma_crc32_small [0, ucast (sf_check options)] 0))"
  using length12 [OF assms(1)] assms(2,3)
  by (auto simp: lzma_stream_header_encode_def lzma_header_magic_def write_at_def stream_flags_encode_def
      crc32_any_addr unaligned_write32le_def Let_def)

lemma footer_bytes:
  assumes "length out = 12" "sf_version options = 0" "\<not> sf_check options > LZMA_CHECK_ID_MAX"
    "is_backward_size_valid options"
  defines "body \<equiv> unaligned_write32le (ucast (backward_size options div 4 - 1)) @ [0, ucast (sf_check options)]"
  shows "lzma_stream_footer_encode addr options out
    = (LZMA_OK, unaligned_write32le (lzma_crc32_small body 0) @ body @ lzma_footer_magic)"
  using length12 [OF assms(1)] assms(2,3,4) unfolding body_def
  by (auto simp: lzma_stream_footer_encode_def lzma_footer_magic_def write_at_def stream_flags_encode_def
      crc32_any_addr unaligned_write32le_def Let_def)


text \<open>
  C28: the Stream Header and the Stream Footer that the encoder writes for valid options are read
  back by the decoder: the same check type and version, the same Backward Size from the footer and
  an unknown one from the header, so that the two compare equal.
\<close>

theorem stream_flags_round_trip:
  assumes "length out = 12" "sf_version options = 0" "\<not> sf_check options > LZMA_CHECK_ID_MAX"
    "is_backward_size_valid options"
  shows "\<exists>hdr ftr. lzma_stream_header_encode addr options out = (LZMA_OK, hdr)
     \<and> lzma_stream_footer_encode addr options out = (LZMA_OK, ftr) \<and> length hdr = 12 \<and> length ftr = 12
     \<and> lzma_stream_header_decode addr' any hdr = (LZMA_OK, any\<lparr>sf_version := 0,
          backward_size := LZMA_VLI_UNKNOWN, sf_check := sf_check options\<rparr>)
     \<and> lzma_stream_footer_decode addr' any ftr = (LZMA_OK, any\<lparr>sf_version := 0,
          backward_size := backward_size options, sf_check := sf_check options\<rparr>)
     \<and> lzma_stream_flags_compare (snd (lzma_stream_header_decode addr' any hdr))
          (snd (lzma_stream_footer_decode addr' any ftr)) = LZMA_OK"
proof -
  let ?c = "ucast (sf_check options) :: u8"
  let ?b = "ucast (backward_size options div 4 - 1) :: u32"
  let ?crc = "lzma_crc32_small [0, ?c] 0"
  define crc2 where "crc2 = lzma_crc32_small (unaligned_write32le ?b @ [0, ?c]) 0"
  define hdr where "hdr = lzma_header_magic @ [0, ?c] @ unaligned_write32le ?crc"
  define ftr where "ftr = unaligned_write32le crc2 @ (unaligned_write32le ?b @ [0, ?c]) @ lzma_footer_magic"
  note id = check_id_byte [OF assms(3)]
  have rh: "unaligned_read32le hdr 8 = ?crc"
    using read32le_append [of "lzma_header_magic @ [0, ?c]" 8 ?crc "[]"] by (simp add: hdr_def lzma_header_magic_def)
  have rf: "unaligned_read32le ftr 0 = crc2" "unaligned_read32le ftr 4 = ?b"
    using read32le_append [of "[]" 0 crc2] read32le_append [of "unaligned_write32le crc2" 4 ?b]
    by (simp_all add: ftr_def unaligned_write32le_def)
  have dh: "lzma_stream_header_decode addr' any hdr = (LZMA_OK, any\<lparr>sf_version := 0,
          backward_size := LZMA_VLI_UNKNOWN, sf_check := sf_check options\<rparr>)"
    using rh id by (simp add: lzma_stream_header_decode_def hdr_def lzma_header_magic_def stream_flags_decode_def
        crc32_any_addr unaligned_write32le_def)
  have df: "lzma_stream_footer_decode addr' any ftr = (LZMA_OK, any\<lparr>sf_version := 0,
          backward_size := backward_size options, sf_check := sf_check options\<rparr>)"
    using rf id backward_size_fits [OF assms(4)]
    by (simp add: lzma_stream_footer_decode_def ftr_def lzma_footer_magic_def stream_flags_decode_def
        crc32_any_addr unaligned_write32le_def crc2_def)
  have "lzma_stream_flags_compare (any\<lparr>sf_version := 0, backward_size := LZMA_VLI_UNKNOWN, sf_check := sf_check options\<rparr>)
      (any\<lparr>sf_version := 0, backward_size := backward_size options, sf_check := sf_check options\<rparr>) = LZMA_OK"
    using assms(3) by (simp add: lzma_stream_flags_compare_def)
  then show ?thesis
    using header_bytes [OF assms(1-3), of addr] footer_bytes [OF assms, of addr] dh df
    by (intro exI [where x = hdr] exI [where x = ftr])
      (simp add: hdr_def ftr_def crc2_def lzma_header_magic_def lzma_footer_magic_def unaligned_write32le_def)
qed

theorem stream_flags_round_trip_witness:
  "\<exists>hdr ftr. lzma_stream_header_encode 0 \<lparr>sf_version = 0, backward_size = 8, sf_check = 4\<rparr> (replicate 12 0) = (LZMA_OK, hdr)
     \<and> lzma_stream_footer_encode 0 \<lparr>sf_version = 0, backward_size = 8, sf_check = 4\<rparr> (replicate 12 0) = (LZMA_OK, ftr)
     \<and> lzma_stream_header_decode 3 \<lparr>sf_version = 7, backward_size = 1, sf_check = 1\<rparr> hdr
         = (LZMA_OK, \<lparr>sf_version = 0, backward_size = LZMA_VLI_UNKNOWN, sf_check = 4\<rparr>)
     \<and> lzma_stream_footer_decode 3 \<lparr>sf_version = 7, backward_size = 1, sf_check = 1\<rparr> ftr
         = (LZMA_OK, \<lparr>sf_version = 0, backward_size = 8, sf_check = 4\<rparr>)"
  using stream_flags_round_trip [of "replicate 12 0" "\<lparr>sf_version = 0, backward_size = 8, sf_check = 4\<rparr>" 0 3
      "\<lparr>sf_version = 7, backward_size = 1, sf_check = 1\<rparr>"]
  by (auto simp: is_backward_size_valid_def)

end
