(* ===== verification/Coder.thy ===== *)
theory Coder
  imports Check
begin

text \<open>
  The interface between the coders of a filter chain and the public entry points that drive it
  (\<open>common/common.c\<close>, \<open>common/common.h\<close>): copying between buffers, initialising a stream, one call of
  \<open>lzma_code\<close> with its protocol of actions and return codes, and the queries on a stream. A coder is
  its state together with the functions that its \<open>lzma_next_coder\<close> points to.
\<close>

section \<open>Coders\<close>

type_synonym lzma_action = u32

abbreviation (input) LZMA_RUN :: lzma_action where "LZMA_RUN \<equiv> 0"
abbreviation (input) LZMA_SYNC_FLUSH :: lzma_action where "LZMA_SYNC_FLUSH \<equiv> 1"
abbreviation (input) LZMA_FULL_FLUSH :: lzma_action where "LZMA_FULL_FLUSH \<equiv> 2"
abbreviation (input) LZMA_FINISH :: lzma_action where "LZMA_FINISH \<equiv> 3"
abbreviation (input) LZMA_FULL_BARRIER :: lzma_action where "LZMA_FULL_BARRIER \<equiv> 4"
abbreviation (input) LZMA_ACTION_MAX :: lzma_action where "LZMA_ACTION_MAX \<equiv> 4"

text \<open>
  \<open>lzma_code_function\<close>: the coder, the input buffer and the position in it, the output buffer and
  the position in it, the action; the sizes are the lengths of the buffers. The result is the return
  code with the new coder, input position, output buffer and output position.
\<close>

type_synonym 'c lzma_code_function =
  "'c \<Rightarrow> u8 list \<Rightarrow> nat \<Rightarrow> u8 list \<Rightarrow> nat \<Rightarrow> lzma_action \<Rightarrow> lzma_ret \<times> 'c \<times> nat \<times> u8 list \<times> nat"

definition lzma_bufcpy :: "u8 list \<Rightarrow> nat \<Rightarrow> u8 list \<Rightarrow> nat \<Rightarrow> nat \<times> u8 list \<times> nat" where
  "lzma_bufcpy inp in_pos out out_pos =
     (let copy_size = min (length inp - in_pos) (length out - out_pos)
      in (in_pos + copy_size, write_at out_pos (take copy_size (drop in_pos inp)) out, out_pos + copy_size))"

text \<open>What a position may do in one call: move forward inside its buffer, the bytes before it fixed.\<close>

definition coder_io :: "u8 list \<Rightarrow> nat \<Rightarrow> u8 list \<Rightarrow> nat \<Rightarrow> nat \<Rightarrow> u8 list \<Rightarrow> nat \<Rightarrow> bool" where
  "coder_io inp in_pos out out_pos in_pos' out' out_pos' \<longleftrightarrow>
     in_pos \<le> in_pos' \<and> in_pos' \<le> length inp \<and> out_pos \<le> out_pos' \<and> out_pos' \<le> length out
     \<and> length out' = length out \<and> take out_pos out' = take out_pos out"

lemma lzma_bufcpy_io:
  assumes "lzma_bufcpy inp in_pos out out_pos = (in_pos', out', out_pos')"
    "in_pos \<le> length inp" "out_pos \<le> length out"
  shows "coder_io inp in_pos out out_pos in_pos' out' out_pos'"
    "take (out_pos' - out_pos) (drop out_pos out') = take (in_pos' - in_pos) (drop in_pos inp)"
    "in_pos' = length inp \<or> out_pos' = length out"
  using assms by (auto simp: lzma_bufcpy_def Let_def coder_io_def write_at_def min_def split: if_splits)

lemma lzma_bufcpy_segment:
  assumes "lzma_bufcpy inp in_pos out out_pos = (in_pos', out', out_pos')" "in_pos \<le> length inp" "out_pos \<le> length out"
  shows "coder_io inp in_pos out out_pos in_pos' out' out_pos'"
    "segment out_pos out_pos' out' = segment in_pos in_pos' inp"
    "in_pos' = length inp \<or> out_pos' = length out"
  using lzma_bufcpy_io [OF assms] by (auto simp: segment_def)

section \<open>Streams\<close>

text \<open>
  \<open>lzma_next_coder\<close> with the members a stream uses (a null pointer is \<open>None\<close>), \<open>lzma_internal\<close> and
  \<open>lzma_stream\<close>. The memory at \<open>next_in\<close> and \<open>next_out\<close> is the list of its \<open>avail_in\<close> and \<open>avail_out\<close>
  bytes.
\<close>

record 'c lzma_next_coder =
  nc_coder :: 'c
  nc_code :: "'c lzma_code_function option"
  nc_get_progress :: "('c \<Rightarrow> u64 \<times> u64) option"
  nc_get_check :: "('c \<Rightarrow> lzma_check) option"
  nc_memconfig :: "('c \<Rightarrow> u64 \<Rightarrow> lzma_ret \<times> 'c \<times> u64 \<times> u64) option"

datatype iseq = ISEQ_RUN | ISEQ_SYNC_FLUSH | ISEQ_FULL_FLUSH | ISEQ_FINISH | ISEQ_FULL_BARRIER | ISEQ_END | ISEQ_ERROR

record 'c lzma_internal =
  int_next :: "'c lzma_next_coder"
  sequence :: iseq
  int_avail_in :: nat
  supported_actions :: "bool list"
  allow_buf_error :: bool

record 'c lzma_stream =
  next_in :: "u8 list option"
  avail_in :: nat
  total_in :: u64
  next_out :: "u8 list option"
  avail_out :: nat
  total_out :: u64
  internal :: "'c lzma_internal option"
  reserved_members :: "u64 list"

text \<open>
  \<open>lzma_strm_init\<close>: \<open>alloc\<close> says whether memory can be allocated, \<open>null_coder\<close> is what an
  uninitialised coder is.
\<close>

definition lzma_strm_init :: "'c \<Rightarrow> bool \<Rightarrow> 'c lzma_stream option \<Rightarrow> lzma_ret \<times> 'c lzma_stream option" where
  "lzma_strm_init null_coder alloc strm =
     (case strm of
        None \<Rightarrow> (LZMA_PROG_ERROR, None)
      | Some s \<Rightarrow>
          let fresh = \<lparr>int_next = \<lparr>nc_coder = null_coder, nc_code = None, nc_get_progress = None,
                nc_get_check = None, nc_memconfig = None\<rparr>, sequence = ISEQ_RUN, int_avail_in = 0,
                supported_actions = [], allow_buf_error = False\<rparr>
          in if internal s = None \<and> \<not> alloc then (LZMA_MEM_ERROR, Some s)
          else let i = (case internal s of None \<Rightarrow> fresh | Some i \<Rightarrow> i)
          in (LZMA_OK, Some (s\<lparr>internal := Some (i\<lparr>supported_actions := replicate 5 False, sequence := ISEQ_RUN,
                allow_buf_error := False\<rparr>), total_in := 0, total_out := 0\<rparr>)))"

text \<open>The \<open>switch\<close> on the sequence and the action; \<open>Inl\<close> is an early return.\<close>

definition code_sequence :: "'c lzma_internal \<Rightarrow> nat \<Rightarrow> lzma_action \<Rightarrow> lzma_ret + iseq" where
  "code_sequence i avail action =
     (case sequence i of
        ISEQ_RUN \<Rightarrow>
          Inr (if action = LZMA_SYNC_FLUSH then ISEQ_SYNC_FLUSH
               else if action = LZMA_FULL_FLUSH then ISEQ_FULL_FLUSH
               else if action = LZMA_FINISH then ISEQ_FINISH
               else if action = LZMA_FULL_BARRIER then ISEQ_FULL_BARRIER
               else ISEQ_RUN)
      | ISEQ_SYNC_FLUSH \<Rightarrow>
          if action \<noteq> LZMA_SYNC_FLUSH \<or> int_avail_in i \<noteq> avail then Inl LZMA_PROG_ERROR else Inr ISEQ_SYNC_FLUSH
      | ISEQ_FULL_FLUSH \<Rightarrow>
          if action \<noteq> LZMA_FULL_FLUSH \<or> int_avail_in i \<noteq> avail then Inl LZMA_PROG_ERROR else Inr ISEQ_FULL_FLUSH
      | ISEQ_FINISH \<Rightarrow>
          if action \<noteq> LZMA_FINISH \<or> int_avail_in i \<noteq> avail then Inl LZMA_PROG_ERROR else Inr ISEQ_FINISH
      | ISEQ_FULL_BARRIER \<Rightarrow>
          if action \<noteq> LZMA_FULL_BARRIER \<or> int_avail_in i \<noteq> avail then Inl LZMA_PROG_ERROR else Inr ISEQ_FULL_BARRIER
      | ISEQ_END \<Rightarrow> Inl LZMA_STREAM_END
      | ISEQ_ERROR \<Rightarrow> Inl LZMA_PROG_ERROR)"

text \<open>The \<open>switch\<close> on what the coder returned, given whether it moved a position.\<close>

definition code_result :: "lzma_ret \<Rightarrow> bool \<Rightarrow> 'c lzma_internal \<Rightarrow> lzma_ret \<times> 'c lzma_internal" where
  "code_result ret progress i =
     (case ret of
        LZMA_OK \<Rightarrow>
          if \<not> progress
          then (if allow_buf_error i then (LZMA_BUF_ERROR, i) else (LZMA_OK, i\<lparr>allow_buf_error := True\<rparr>))
          else (LZMA_OK, i\<lparr>allow_buf_error := False\<rparr>)
      | LZMA_TIMED_OUT \<Rightarrow> (LZMA_OK, i\<lparr>allow_buf_error := False\<rparr>)
      | LZMA_SEEK_NEEDED \<Rightarrow>
          (ret, i\<lparr>allow_buf_error := False,
                 sequence := (if sequence i = ISEQ_FINISH then ISEQ_RUN else sequence i)\<rparr>)
      | LZMA_STREAM_END \<Rightarrow>
          (ret, i\<lparr>sequence := (if sequence i = ISEQ_SYNC_FLUSH \<or> sequence i = ISEQ_FULL_FLUSH
                     \<or> sequence i = ISEQ_FULL_BARRIER then ISEQ_RUN else ISEQ_END),
                 allow_buf_error := False\<rparr>)
      | LZMA_NO_CHECK \<Rightarrow> (ret, i\<lparr>allow_buf_error := False\<rparr>)
      | LZMA_UNSUPPORTED_CHECK \<Rightarrow> (ret, i\<lparr>allow_buf_error := False\<rparr>)
      | LZMA_GET_CHECK \<Rightarrow> (ret, i\<lparr>allow_buf_error := False\<rparr>)
      | LZMA_MEMLIMIT_ERROR \<Rightarrow> (ret, i\<lparr>allow_buf_error := False\<rparr>)
      | _ \<Rightarrow> (ret, i\<lparr>sequence := ISEQ_ERROR\<rparr>))"

text \<open>
  The second half of \<open>lzma_code\<close>: the coder is called and its result recorded in the stream; the
  last component is the bytes written before \<open>next_out\<close>.
\<close>

abbreviation (input) bytes_at :: "u8 list option \<Rightarrow> u8 list" where
  "bytes_at p \<equiv> (case p of None \<Rightarrow> [] | Some b \<Rightarrow> b)"

definition code_call ::
    "'c lzma_stream \<Rightarrow> 'c lzma_internal \<Rightarrow> 'c lzma_code_function \<Rightarrow> iseq \<Rightarrow> lzma_action
     \<Rightarrow> lzma_ret \<times> 'c lzma_stream \<times> u8 list" where
  "code_call strm i code seq action =
     (let (ret, coder, in_pos, out, out_pos) =
            code (nc_coder (int_next i)) (bytes_at (next_in strm)) 0 (bytes_at (next_out strm)) 0 action;
          i = i\<lparr>sequence := seq, int_next := (int_next i)\<lparr>nc_coder := coder\<rparr>,
                int_avail_in := avail_in strm - in_pos\<rparr>;
          (ret, i) = code_result ret (out_pos \<noteq> 0 \<or> in_pos \<noteq> 0) i
      in (ret, strm\<lparr>next_in := map_option (drop in_pos) (next_in strm), avail_in := avail_in strm - in_pos,
            total_in := total_in strm + of_nat in_pos,
            next_out := map_option (\<lambda>_. drop out_pos out) (next_out strm),
            avail_out := avail_out strm - out_pos,
            total_out := total_out strm + of_nat out_pos, internal := Some i\<rparr>, take out_pos out))"

definition lzma_code :: "'c lzma_stream \<Rightarrow> lzma_action \<Rightarrow> lzma_ret \<times> 'c lzma_stream \<times> u8 list" where
  "lzma_code strm action =
     (case internal strm of None \<Rightarrow> (LZMA_PROG_ERROR, strm, [])
      | Some i \<Rightarrow>
     (case nc_code (int_next i) of None \<Rightarrow> (LZMA_PROG_ERROR, strm, [])
      | Some code \<Rightarrow>
     if next_in strm = None \<and> avail_in strm \<noteq> 0 \<or> next_out strm = None \<and> avail_out strm \<noteq> 0
        \<or> action > LZMA_ACTION_MAX \<or> \<not> supported_actions i ! unat action
     then (LZMA_PROG_ERROR, strm, [])
     else if list_ex (\<lambda>r. r \<noteq> 0) (reserved_members strm) then (LZMA_OPTIONS_ERROR, strm, [])
     else case code_sequence i (avail_in strm) action of
        Inl ret \<Rightarrow> (ret, strm, [])
      | Inr seq \<Rightarrow> code_call strm i code seq action))"

definition lzma_end :: "'c lzma_stream \<Rightarrow> 'c lzma_stream" where
  "lzma_end strm = strm\<lparr>internal := None\<rparr>"

definition lzma_get_progress :: "'c lzma_stream \<Rightarrow> (u64 \<times> u64) option" where
  "lzma_get_progress strm =
     (case internal strm of None \<Rightarrow> None
      | Some i \<Rightarrow> (case nc_get_progress (int_next i) of
            Some get \<Rightarrow> Some (get (nc_coder (int_next i)))
          | None \<Rightarrow> Some (total_in strm, total_out strm)))"

definition lzma_get_check :: "'c lzma_stream \<Rightarrow> lzma_check option" where
  "lzma_get_check strm =
     (case internal strm of None \<Rightarrow> None
      | Some i \<Rightarrow> (case nc_get_check (int_next i) of
            None \<Rightarrow> Some LZMA_CHECK_NONE
          | Some get \<Rightarrow> Some (get (nc_coder (int_next i)))))"

text \<open>The calls of \<open>memconfig\<close>: the return code, the stream, the usage and the old limit.\<close>

definition stream_memconfig :: "'c lzma_stream \<Rightarrow> u64 \<Rightarrow> (lzma_ret \<times> 'c lzma_stream \<times> u64 \<times> u64) option" where
  "stream_memconfig strm limit =
     (case internal strm of None \<Rightarrow> None
      | Some i \<Rightarrow> (case nc_memconfig (int_next i) of None \<Rightarrow> None
          | Some mc \<Rightarrow> (case mc (nc_coder (int_next i)) limit of (ret, coder, usage, old) \<Rightarrow>
              Some (ret, strm\<lparr>internal := Some (i\<lparr>int_next := (int_next i)\<lparr>nc_coder := coder\<rparr>\<rparr>)\<rparr>, usage, old))))"

definition lzma_memusage :: "'c lzma_stream \<Rightarrow> u64" where
  "lzma_memusage strm =
     (case stream_memconfig strm 0 of Some (LZMA_OK, _, usage, _) \<Rightarrow> usage | _ \<Rightarrow> 0)"

definition lzma_memlimit_get :: "'c lzma_stream \<Rightarrow> u64" where
  "lzma_memlimit_get strm =
     (case stream_memconfig strm 0 of Some (LZMA_OK, _, _, old) \<Rightarrow> old | _ \<Rightarrow> 0)"

definition lzma_memlimit_set :: "'c lzma_stream \<Rightarrow> u64 \<Rightarrow> lzma_ret \<times> 'c lzma_stream" where
  "lzma_memlimit_set strm new_memlimit =
     (case stream_memconfig strm (if new_memlimit = 0 then 1 else new_memlimit) of
        None \<Rightarrow> (LZMA_PROG_ERROR, strm) | Some (ret, strm, _) \<Rightarrow> (ret, strm))"

section \<open>The contract of a coder\<close>

text \<open>
  What \<open>lzma_code\<close> relies on: a coder keeps its own invariant \<open>ok\<close>, moves the two positions forward
  inside the buffers and writes only between the old and the new output position. A coder without
  threads does not time out.
\<close>

definition coder_contract :: "'c lzma_code_function \<Rightarrow> ('c \<Rightarrow> bool) \<Rightarrow> bool" where
  "coder_contract code ok \<longleftrightarrow>
     (\<forall>c inp in_pos out out_pos action ret c' in_pos' out' out_pos'.
        ok c \<and> in_pos \<le> length inp \<and> out_pos \<le> length out
        \<and> code c inp in_pos out out_pos action = (ret, c', in_pos', out', out_pos')
        \<longrightarrow> coder_io inp in_pos out out_pos in_pos' out' out_pos' \<and> ok c' \<and> ret \<noteq> LZMA_TIMED_OUT)"

text \<open>
  \<open>coder_run code c xs ys c' ret\<close>: some calls of a coder in state \<open>c\<close>, with any buffers, positions
  and actions and all but the last returning \<open>LZMA_OK\<close>, read \<open>xs\<close>, wrote \<open>ys\<close> and ended in \<open>c'\<close> with
  \<open>ret\<close>.
\<close>

inductive coder_run :: "'c lzma_code_function \<Rightarrow> 'c \<Rightarrow> u8 list \<Rightarrow> u8 list \<Rightarrow> 'c \<Rightarrow> lzma_ret \<Rightarrow> bool"
  for code :: "'c lzma_code_function" and c :: 'c where
  run_start: "coder_run code c [] [] c LZMA_OK"
| run_call: "coder_run code c xs ys c1 LZMA_OK \<Longrightarrow> code c1 inp in_pos out out_pos action = (ret, c2, in_pos', out', out_pos') \<Longrightarrow>
    in_pos \<le> length inp \<Longrightarrow> out_pos \<le> length out \<Longrightarrow>
    coder_run code c (xs @ segment in_pos in_pos' inp) (ys @ segment out_pos out_pos' out') c2 ret"

lemma coder_run_once:
  assumes "code c inp in_pos out out_pos action = (ret, c', in_pos', out', out_pos')" "in_pos \<le> length inp" "out_pos \<le> length out"
  shows "coder_run code c (segment in_pos in_pos' inp) (segment out_pos out_pos' out') c' ret"
  using run_call [where code = code, OF run_start assms] by simp

lemma coder_run_trans:
  assumes "coder_run code c1 xs' ys' c2 ret" "coder_run code c xs ys c1 LZMA_OK"
  shows "coder_run code c (xs @ xs') (ys @ ys') c2 ret"
  using assms
proof (induction rule: coder_run.induct)
  case run_start
  then show ?case by simp
next
  case (run_call xs' ys' c1' inp in_pos out out_pos action ret c2 in_pos' out' out_pos')
  from coder_run.run_call [where code = code, OF run_call.IH [OF run_call.prems] run_call.hyps(2-4)] show ?case by simp
qed

text \<open>A stream that is set up for the coder and describes its buffers truly.\<close>

definition buffer_ok :: "u8 list option \<Rightarrow> nat \<Rightarrow> bool" where
  "buffer_ok b n \<longleftrightarrow> (case b of None \<Rightarrow> n = 0 | Some b \<Rightarrow> length b = n)"

definition stream_ok :: "'c lzma_code_function \<Rightarrow> ('c \<Rightarrow> bool) \<Rightarrow> 'c lzma_stream \<Rightarrow> bool" where
  "stream_ok code ok strm \<longleftrightarrow> buffer_ok (next_in strm) (avail_in strm) \<and> buffer_ok (next_out strm) (avail_out strm)
     \<and> (case internal strm of None \<Rightarrow> False
        | Some i \<Rightarrow> nc_code (int_next i) = Some code \<and> ok (nc_coder (int_next i)) \<and> length (supported_actions i) = 5)"

text \<open>
  What is left to do: a call that returns \<open>LZMA_OK\<close> has moved a position or has spent the one call
  without progress that is allowed.
\<close>

definition stream_left :: "'c lzma_stream \<Rightarrow> nat" where
  "stream_left strm = 2 * (avail_in strm + avail_out strm)
     + (case internal strm of None \<Rightarrow> 0 | Some i \<Rightarrow> if allow_buf_error i then 0 else 1)"

text \<open>The loop of an application: call until the result is not \<open>LZMA_OK\<close>, at most \<open>n\<close> times.\<close>

fun code_loop :: "nat \<Rightarrow> 'c lzma_stream \<Rightarrow> lzma_action \<Rightarrow> (lzma_ret \<times> 'c lzma_stream \<times> u8 list) option" where
  "code_loop 0 strm action = None"
| "code_loop (Suc n) strm action =
     (case lzma_code strm action of (ret, strm, bs) \<Rightarrow>
        if ret = LZMA_OK
        then map_option (\<lambda>(ret, strm, bs'). (ret, strm, bs @ bs')) (code_loop n strm action)
        else Some (ret, strm, bs))"

lemma code_result_ok:
  "code_result ret progress i = (LZMA_OK, i') \<Longrightarrow> ret \<noteq> LZMA_TIMED_OUT \<Longrightarrow>
   i' = i\<lparr>allow_buf_error := \<not> progress\<rparr> \<and> (progress \<or> \<not> allow_buf_error i)"
  by (cases ret) (auto simp: code_result_def split: if_splits)

lemma code_result_frame:
  "code_result ret progress i = (ret', i') \<Longrightarrow>
   int_next i' = int_next i \<and> supported_actions i' = supported_actions i \<and> int_avail_in i' = int_avail_in i"
  by (cases ret) (auto simp: code_result_def split: if_splits)

locale coder_fn =
  fixes code :: "'c lzma_code_function" and ok :: "'c \<Rightarrow> bool"
  assumes contract: "coder_contract code ok"
begin

text \<open>Either the call returned early or the coder was called.\<close>

lemma lzma_code_cases:
  assumes "stream_ok code ok strm" "lzma_code strm action = (ret, strm', bs)"
  obtains (early) "strm' = strm" "bs = []" "ret \<in> {LZMA_PROG_ERROR, LZMA_OPTIONS_ERROR, LZMA_STREAM_END}"
  | (call) i seq where "internal strm = Some i" "code_call strm i code seq action = (ret, strm', bs)"
proof -
  obtain i where i: "internal strm = Some i" "nc_code (int_next i) = Some code"
    using assms(1) by (auto simp: stream_ok_def split: option.splits)
  have "r \<in> {LZMA_PROG_ERROR, LZMA_STREAM_END}" if "code_sequence i (avail_in strm) action = Inl r" for r
    using that by (auto simp: code_sequence_def split: iseq.splits if_splits)
  then show ?thesis
    using assms(2) i that by (auto simp: lzma_code_def split: if_splits sum.splits)
qed

text \<open>What the call of the coder does to the stream.\<close>

lemma code_call_stream:
  assumes "stream_ok code ok strm" "internal strm = Some i" "code_call strm i code seq action = (ret, strm', bs)"
  shows "\<exists>n m out i'. n \<le> avail_in strm \<and> m \<le> avail_out strm \<and> length out = avail_out strm
     \<and> bs = take m out \<and> stream_ok code ok strm' \<and> internal strm' = Some i'
     \<and> avail_in strm' = avail_in strm - n \<and> avail_out strm' = avail_out strm - m
     \<and> total_in strm' = total_in strm + of_nat n \<and> total_out strm' = total_out strm + of_nat m
     \<and> next_in strm' = map_option (drop n) (next_in strm)
     \<and> (ret = LZMA_OK \<longrightarrow> allow_buf_error i' = (n = 0 \<and> m = 0) \<and> (n \<noteq> 0 \<or> m \<noteq> 0 \<or> \<not> allow_buf_error i))"
proof -
  obtain ret0 c n out m where c: "code (nc_coder (int_next i)) (bytes_at (next_in strm)) 0
      (bytes_at (next_out strm)) 0 action = (ret0, c, n, out, m)"
    by (cases "code (nc_coder (int_next i)) (bytes_at (next_in strm)) 0 (bytes_at (next_out strm)) 0 action") auto
  have "ok (nc_coder (int_next i))" using assms(1,2) by (simp add: stream_ok_def)
  then have k: "coder_io (bytes_at (next_in strm)) 0 (bytes_at (next_out strm)) 0 n out m" "ok c" "ret0 \<noteq> LZMA_TIMED_OUT"
    using contract c unfolding coder_contract_def by blast+
  define i0 where "i0 = i\<lparr>sequence := seq, int_next := (int_next i)\<lparr>nc_coder := c\<rparr>,
                    int_avail_in := avail_in strm - n\<rparr>"
  obtain i' where r: "code_result ret0 (m \<noteq> 0 \<or> n \<noteq> 0) i0 = (ret, i')"
      "strm' = strm\<lparr>next_in := map_option (drop n) (next_in strm), avail_in := avail_in strm - n,
            total_in := total_in strm + of_nat n, next_out := map_option (\<lambda>_. drop m out) (next_out strm),
            avail_out := avail_out strm - m, total_out := total_out strm + of_nat m, internal := Some i'\<rparr>"
      "bs = take m out"
    using assms(3) by (auto simp: code_call_def c Let_def i0_def split: prod.splits)
  have b: "buffer_ok (next_in strm) (avail_in strm)" "buffer_ok (next_out strm) (avail_out strm)"
    using assms(1) by (simp_all add: stream_ok_def)
  then have l: "length (bytes_at (next_in strm)) = avail_in strm" "length (bytes_at (next_out strm)) = avail_out strm"
    by (auto simp: buffer_ok_def split: option.splits)
  have f: "nc_code (int_next i') = Some code" "nc_coder (int_next i') = c" "length (supported_actions i') = 5"
    using code_result_frame [OF r(1)] assms(1,2) by (simp_all add: i0_def stream_ok_def)
  have "stream_ok code ok strm'"
    using b f k l by (auto simp: stream_ok_def r(2) buffer_ok_def coder_io_def split: option.splits)
  moreover have "ret = LZMA_OK \<Longrightarrow> allow_buf_error i' = (n = 0 \<and> m = 0) \<and> (n \<noteq> 0 \<or> m \<noteq> 0 \<or> \<not> allow_buf_error i)"
    using code_result_ok [of ret0 "m \<noteq> 0 \<or> n \<noteq> 0" i0 i'] r(1) k(3) by (auto simp: i0_def)
  ultimately show ?thesis
    using k(1) l r(2,3)
    by - (rule exI [of _ n], rule exI [of _ m], rule exI [of _ out], rule exI [of _ i'], simp add: coder_io_def)
qed

lemma lzma_code_ok:
  assumes "stream_ok code ok strm" "lzma_code strm action = (ret, strm', bs)"
  shows "stream_ok code ok strm'"
  using assms(2)
  by (rule lzma_code_cases [OF assms(1)]) (use assms code_call_stream in \<open>blast+\<close>)

lemma lzma_code_left:
  assumes "stream_ok code ok strm" "lzma_code strm action = (LZMA_OK, strm', bs)"
  shows "stream_left strm' < stream_left strm"
  using assms(2)
proof (rule lzma_code_cases [OF assms(1)])
  fix i seq assume "internal strm = Some i" "code_call strm i code seq action = (LZMA_OK, strm', bs)"
  with code_call_stream [OF assms(1) this] show ?thesis by (auto simp: stream_left_def)
qed auto

lemma code_loop_ends:
  assumes "stream_ok code ok strm" "stream_left strm < n"
  shows "\<exists>ret strm' bs. code_loop n strm action = Some (ret, strm', bs) \<and> ret \<noteq> LZMA_OK"
  using assms
proof (induction n arbitrary: strm)
  case (Suc n)
  obtain ret strm' bs where c: "lzma_code strm action = (ret, strm', bs)" by (cases "lzma_code strm action") auto
  show ?case
  proof (cases "ret = LZMA_OK")
    case True
    then have "stream_left strm' < n" using lzma_code_left [OF Suc.prems(1)] c Suc.prems(2) by fastforce
    from Suc.IH [OF lzma_code_ok [OF Suc.prems(1) c] this] show ?thesis using c True by auto
  next
    case False
    then show ?thesis using c by simp
  qed
qed simp

end

section \<open>The loop ends\<close>

text \<open>The coder that copies, as a chain without a next coder does.\<close>

definition copy_coder :: "unit lzma_code_function" where
  "copy_coder c inp in_pos out out_pos action =
     (case lzma_bufcpy inp in_pos out out_pos of (in_pos, out, out_pos) \<Rightarrow> (LZMA_OK, c, in_pos, out, out_pos))"

lemma copy_coder_contract: "coder_contract copy_coder (\<lambda>_. True)"
  by (auto simp: coder_contract_def copy_coder_def split: prod.splits dest: lzma_bufcpy_io)

text \<open>
  C25: an application that calls \<open>lzma_code\<close> again as long as it returns \<open>LZMA_OK\<close> stops, whatever
  the coder does inside its contract: after at most \<open>2 * (avail_in + avail_out) + 2\<close> calls the result is
  something else. A coder that makes no progress gets one more call and then \<open>LZMA_BUF_ERROR\<close>.
\<close>

theorem lzma_code_loop_ends:
  assumes "coder_contract code ok" "stream_ok code ok strm"
  shows "\<exists>ret strm' bs. code_loop (2 * (avail_in strm + avail_out strm) + 2) strm action = Some (ret, strm', bs)
     \<and> ret \<noteq> LZMA_OK"
  by (rule coder_fn.code_loop_ends [OF coder_fn.intro [OF assms(1)] assms(2)])
    (simp add: stream_left_def split: option.splits)

abbreviation (input) copy_stream :: "unit lzma_stream" where
  "copy_stream \<equiv> \<lparr>next_in = Some [1, 2, 3], avail_in = 3, total_in = 0, next_out = Some [0, 0], avail_out = 2,
     total_out = 0, internal = Some \<lparr>int_next = \<lparr>nc_coder = (), nc_code = Some copy_coder, nc_get_progress = None,
       nc_get_check = None, nc_memconfig = None\<rparr>, sequence = ISEQ_RUN, int_avail_in = 0,
       supported_actions = replicate 5 True, allow_buf_error = False\<rparr>, reserved_members = []\<rparr>"

theorem lzma_code_loop_ends_witness:
  "\<exists>ret strm' bs. code_loop 12 copy_stream LZMA_FINISH = Some (ret, strm', bs) \<and> ret \<noteq> LZMA_OK"
proof -
  have "stream_ok copy_coder (\<lambda>_. True) copy_stream" by (simp add: stream_ok_def buffer_ok_def)
  from lzma_code_loop_ends [OF copy_coder_contract this, of LZMA_FINISH] show ?thesis by simp
qed

end
