(* ===== verification/Bcj_Block.thy ===== *)
theory Bcj_Block
  imports Tuklib_Integer
begin

text \<open>
  Branch converters: each rewrites the relative addresses of branch instructions in a buffer into
  absolute ones, or back. This theory has what they share, the loop over blocks of a fixed size with
  its contract, and the filters of \<open>simple/arm.c\<close> and \<open>simple/powerpc.c\<close>; the definitions of
  \<open>simple/sparc.c\<close> are here, its proof is in the next theory. A filter function returns how many bytes it has dealt
  with and the buffer; \<open>now_pos\<close> is the position of the buffer in the stream.
\<close>

section \<open>Fields that hold an address\<close>

lemma take_bit_word_uint: "uint (take_bit w (x :: u32)) = take_bit w (uint x)"
  by (simp add: unsigned_take_bit_eq)

lemma take_bit_add_cancel:
  assumes "w \<le> 32"
  shows "take_bit w (take_bit w (s + q) - q) = take_bit w (s :: u32)"
    "take_bit w (take_bit w (s - q) + q) = take_bit w s"
proof -
  have "uint (take_bit w (take_bit w (s + q) - q)) = take_bit w (take_bit w (uint s + uint q) - uint q)"
    using assms by (simp add: take_bit_word_uint uint_word_arith_bintrs min_absorb1)
  also have "\<dots> = take_bit w (uint s)" by (simp add: take_bit_eq_mod mod_diff_left_eq)
  finally show "take_bit w (take_bit w (s + q) - q) = take_bit w s" by (simp add: word_uint_eq_iff take_bit_word_uint)
  have "uint (take_bit w (take_bit w (s - q) + q)) = take_bit w (take_bit w (uint s - uint q) + uint q)"
    using assms by (simp add: take_bit_word_uint uint_word_arith_bintrs min_absorb1)
  also have "\<dots> = take_bit w (uint s)" by (simp add: take_bit_eq_mod mod_add_left_eq)
  finally show "take_bit w (take_bit w (s - q) + q) = take_bit w s" by (simp add: word_uint_eq_iff take_bit_word_uint)
qed

text \<open>The low bits of an address are not stored: the sum is formed on shifted values.\<close>

lemma shifted_field:
  assumes "w + k \<le> 32"
  shows "take_bit w (drop_bit k (push_bit k s + push_bit k q)) = take_bit w (s + q :: u32)"
    "take_bit w (drop_bit k (push_bit k s - push_bit k q)) = take_bit w (s - q :: u32)"
proof -
  have d: "take_bit w (drop_bit k (push_bit k x)) = take_bit w x" for x :: u32
    using assms by (intro bit_word_eqI) (auto simp: bit_take_bit_iff bit_drop_bit_eq bit_push_bit_iff)
  have "push_bit k s + push_bit k q = push_bit k (s + q)" "push_bit k s - push_bit k q = push_bit k (s - q)"
    by (simp_all add: push_bit_eq_mult algebra_simps)
  then show "take_bit w (drop_bit k (push_bit k s + push_bit k q)) = take_bit w (s + q :: u32)"
    "take_bit w (drop_bit k (push_bit k s - push_bit k q)) = take_bit w (s - q :: u32)" by (simp_all only: d)
qed

lemma push_drop_aligned: "take_bit k (x :: u32) = 0 \<Longrightarrow> push_bit k (drop_bit k x) = x"
  using bits_ident [of k x] by (simp del: bits_ident)

lemma take_push_0: "take_bit k (push_bit k (x :: u32)) = 0"
  by (rule bit_word_eqI) (auto simp: bit_take_bit_iff bit_push_bit_iff)

lemma aligned_sum:
  assumes "take_bit k x = 0" "take_bit k y = 0"
  shows "take_bit k (x + y :: u32) = 0"
proof -
  have "x + y = push_bit k (drop_bit k x) + push_bit k (drop_bit k y)"
    using assms by (simp only: push_drop_aligned)
  also have "\<dots> = push_bit k (drop_bit k x + drop_bit k y)" by (simp add: push_bit_eq_mult algebra_simps)
  finally show ?thesis by (simp only: take_push_0)
qed

section \<open>Filters on blocks of a fixed size\<close>

text \<open>
  The loop \<open>for (i = 0; i + k <= size; i += k)\<close> of a filter that rewrites each block of \<open>k\<close> bytes by
  itself: how many bytes were filtered, and the buffer. \<open>f pos is_encoder block\<close> is the body, \<open>pos\<close> being
  \<open>now_pos + i\<close>.
\<close>

function block_code :: "nat \<Rightarrow> (u32 \<Rightarrow> bool \<Rightarrow> u8 list \<Rightarrow> u8 list) \<Rightarrow> u32 \<Rightarrow> bool \<Rightarrow> u8 list \<Rightarrow> nat \<times> u8 list" where
  "block_code k f pos is_encoder buffer =
     (if k = 0 \<or> length buffer < k then (0, buffer)
      else let (n, rest) = block_code k f (pos + of_nat k) is_encoder (drop k buffer)
           in (k + n, f pos is_encoder (take k buffer) @ rest))"
  by pat_completeness auto
termination by (relation "measure (\<lambda>(_, _, _, _, buffer). length buffer)") auto

declare block_code.simps [simp del]

text \<open>ARM: the branch-with-link instruction.\<close>

definition arm_instr :: "u32 \<Rightarrow> bool \<Rightarrow> u8 list \<Rightarrow> u8 list" where
  "arm_instr pos is_encoder b =
     (if b ! 3 = 0xEB then
        let src = push_bit 16 (ucast (b ! 2)) OR push_bit 8 (ucast (b ! 1)) OR ucast (b ! 0);
            src = push_bit 2 src;
            dest = (if is_encoder then pos + 8 + src else src - (pos + 8));
            dest = drop_bit 2 dest
        in [ucast dest, ucast (drop_bit 8 dest), ucast (drop_bit 16 dest), b ! 3]
      else b)"

definition arm_code :: "u32 \<Rightarrow> bool \<Rightarrow> u8 list \<Rightarrow> nat \<times> u8 list" where
  "arm_code = block_code 4 arm_instr"

text \<open>PowerPC: relative branch with link.\<close>

definition powerpc_instr :: "u32 \<Rightarrow> bool \<Rightarrow> u8 list \<Rightarrow> u8 list" where
  "powerpc_instr pos is_encoder b =
     (if drop_bit 2 (b ! 0) = 0x12 \<and> b ! 3 AND 3 = 1 then
        let src = push_bit 24 (ucast (b ! 0 AND 3)) OR push_bit 16 (ucast (b ! 1))
              OR push_bit 8 (ucast (b ! 2)) OR (ucast (b ! 3) AND NOT 3);
            dest = (if is_encoder then pos + src else src - pos)
        in [0x48 OR ucast (drop_bit 24 dest AND 0x03), ucast (drop_bit 16 dest), ucast (drop_bit 8 dest),
            (b ! 3 AND 0x03) OR ucast dest]
      else b)"

definition powerpc_code :: "u32 \<Rightarrow> bool \<Rightarrow> u8 list \<Rightarrow> nat \<times> u8 list" where
  "powerpc_code = block_code 4 powerpc_instr"

text \<open>SPARC: call.\<close>

definition sparc_instr :: "u32 \<Rightarrow> bool \<Rightarrow> u8 list \<Rightarrow> u8 list" where
  "sparc_instr pos is_encoder b =
     (if b ! 0 = 0x40 \<and> b ! 1 AND 0xC0 = 0x00 \<or> b ! 0 = 0x7F \<and> b ! 1 AND 0xC0 = 0xC0 then
        let src = push_bit 24 (ucast (b ! 0)) OR push_bit 16 (ucast (b ! 1))
              OR push_bit 8 (ucast (b ! 2)) OR ucast (b ! 3);
            src = push_bit 2 src;
            dest = (if is_encoder then pos + src else src - pos);
            dest = drop_bit 2 dest;
            dest = (push_bit 22 (0 - (drop_bit 22 dest AND 1)) AND 0x3FFFFFFF) OR (dest AND 0x3FFFFF) OR 0x40000000
        in [ucast (drop_bit 24 dest), ucast (drop_bit 16 dest), ucast (drop_bit 8 dest), ucast dest]
      else b)"

definition sparc_code :: "u32 \<Rightarrow> bool \<Rightarrow> u8 list \<Rightarrow> nat \<times> u8 list" where
  "sparc_code = block_code 4 sparc_instr"

text \<open>
  The contract of the body of such a filter, at positions that are multiples of \<open>2 ^ al\<close>: it keeps the
  size of the block, and decoding undoes encoding.
\<close>

locale block_filter =
  fixes k al :: nat and f :: "u32 \<Rightarrow> bool \<Rightarrow> u8 list \<Rightarrow> u8 list"
  assumes k_pos: "0 < k" and k_al: "take_bit al (of_nat k :: u32) = 0"
    and length_f: "length b = k \<Longrightarrow> length (f pos e b) = k"
    and dec_enc: "length b = k \<Longrightarrow> take_bit al pos = 0 \<Longrightarrow> f pos False (f pos True b) = b"
    and enc_dec: "length b = k \<Longrightarrow> take_bit al pos = 0 \<Longrightarrow> f pos True (f pos False b) = b"
begin

lemma block_code_count:
  "block_code k f pos e buf = (n, buf') \<Longrightarrow> length buf' = length buf \<and> n \<le> length buf \<and> length buf - n < k"
proof (induction "length buf" arbitrary: pos buf n buf' rule: less_induct)
  case less
  show ?case
  proof (cases "length buf < k")
    case True
    then show ?thesis using less.prems k_pos by (subst (asm) block_code.simps) auto
  next
    case False
    obtain n1 r where r: "block_code k f (pos + of_nat k) e (drop k buf) = (n1, r)" by fastforce
    have "length r = length (drop k buf) \<and> n1 \<le> length (drop k buf) \<and> length (drop k buf) - n1 < k"
      by (rule less.hyps [OF _ r]) (use False k_pos in simp)
    moreover have "n = k + n1" "buf' = f pos e (take k buf) @ r"
      using less.prems False k_pos by (subst (asm) block_code.simps; simp add: r)+
    ultimately show ?thesis using False length_f [of "take k buf" pos e] by auto
  qed
qed

lemma aligned_add: "take_bit al pos = 0 \<Longrightarrow> take_bit al (pos + of_nat k :: u32) = 0"
  using k_al by (simp add: aligned_sum)

lemma block_code_inverse:
  assumes "take_bit al pos = 0"
  shows "block_code k f pos (\<not> e) (snd (block_code k f pos e buf)) = (fst (block_code k f pos e buf), buf)"
  using assms
proof (induction "length buf" arbitrary: pos buf rule: less_induct)
  case less
  show ?case
  proof (cases "length buf < k")
    case True
    then show ?thesis by (simp add: block_code.simps [of _ _ _ _ buf])
  next
    case False
    obtain n1 r where r: "block_code k f (pos + of_nat k) e (drop k buf) = (n1, r)" by fastforce
    have IH: "block_code k f (pos + of_nat k) (\<not> e) r = (n1, drop k buf)"
      using less.hyps [of "drop k buf" "pos + of_nat k"] False k_pos aligned_add [OF less.prems] r by simp
    let ?b = "f pos e (take k buf)"
    have b: "length ?b = k" "f pos (\<not> e) ?b = take k buf"
      using False length_f [of "take k buf" pos e] less.prems by (cases e; simp add: dec_enc enc_dec)+
    have c: "block_code k f pos e buf = (k + n1, ?b @ r)"
      using False k_pos by (subst block_code.simps) (simp add: r)
    have "block_code k f pos (\<not> e) (?b @ r) = (k + n1, take k buf @ drop k buf)"
      using k_pos b by (subst block_code.simps) (simp add: IH)
    then show ?thesis by (simp add: c)
  qed
qed

end

section \<open>The bodies\<close>

definition adjust :: "bool \<Rightarrow> u32 \<Rightarrow> u32 \<Rightarrow> u32" where
  "adjust e s q = (if e then s + q else s - q)"

lemma adjust_inverse: "w \<le> 32 \<Longrightarrow> take_bit w (adjust (\<not> e) (take_bit w (adjust e s q)) q) = take_bit w s"
  by (simp add: adjust_def take_bit_add_cancel)

lemma adjust_shift:
  assumes "w + k \<le> 32" "take_bit k q = 0"
  shows "take_bit w (drop_bit k (adjust e (push_bit k s) q)) = take_bit w (adjust e s (drop_bit k q))"
  using shifted_field [OF assms(1), of s "drop_bit k q"] push_drop_aligned [OF assms(2)]
  by (simp add: adjust_def)

lemma length4: "length b = 4 \<Longrightarrow> \<exists>b0 b1 b2 b3. b = [b0, b1, b2, b3]"
  by (auto simp: length_Suc_conv numeral_eq_Suc)

text \<open>ARM: the address is the low three bytes.\<close>

lemma load24: "push_bit 16 (ucast b2) OR push_bit 8 (ucast b1) OR ucast b0 = load32 b0 b1 b2 0"
  by (simp add: load32_def ac_simps)

lemma load24_bytes: "load32 (ucast d) (ucast (drop_bit 8 d)) (ucast (drop_bit 16 d)) 0 = take_bit 24 d"
  by (rule bit_word_eqI) (simp only: bit_load32 bit_byte_of bit_drop_bit_eq comp_def bit_take_bit_iff, auto)

lemma take24_load: "take_bit 24 (load32 b0 b1 b2 0) = load32 b0 b1 b2 0"
  by (rule bit_word_eqI) (simp only: bit_load32 bit_take_bit_iff, auto)

lemma bytes_take24:
  "ucast (take_bit 24 d :: u32) = (ucast d :: u8)" "ucast (drop_bit 8 (take_bit 24 d :: u32)) = (ucast (drop_bit 8 d) :: u8)"
  "ucast (drop_bit 16 (take_bit 24 d :: u32)) = (ucast (drop_bit 16 d) :: u8)"
  by (rule bit_word_eqI, simp only: bit_byte_of bit_drop_bit_eq comp_def bit_take_bit_iff, simp)+

lemma arm_instr_adjust:
  assumes "take_bit 2 pos = 0"
  shows "arm_instr pos e [b0, b1, b2, 0xEB] =
     (let s = take_bit 24 (adjust e (load32 b0 b1 b2 0) (drop_bit 2 (pos + 8)))
      in [ucast s, ucast (drop_bit 8 s), ucast (drop_bit 16 s), 0xEB])"
proof -
  let ?d = "adjust e (push_bit 2 (load32 b0 b1 b2 0)) (pos + 8)"
  have a: "take_bit 2 (pos + 8) = 0" using assms by (rule aligned_sum) simp
  have "take_bit 24 (drop_bit 2 ?d) = take_bit 24 (adjust e (load32 b0 b1 b2 0) (drop_bit 2 (pos + 8)))"
    by (rule adjust_shift [OF _ a]) simp
  moreover have "arm_instr pos e [b0, b1, b2, 0xEB] =
      [ucast (drop_bit 2 ?d), ucast (drop_bit 8 (drop_bit 2 ?d)), ucast (drop_bit 16 (drop_bit 2 ?d)), 0xEB]"
    by (simp add: arm_instr_def load24 adjust_def Let_def add.commute [of "pos + 8"])
  ultimately show ?thesis
    by (simp only: Let_def bytes_take24 [of "drop_bit 2 ?d", symmetric])
qed

lemma arm_instr_inverse:
  assumes "take_bit 2 pos = 0" "length b = 4"
  shows "arm_instr pos (\<not> e) (arm_instr pos e b) = b"
proof -
  obtain b0 b1 b2 b3 where b: "b = [b0, b1, b2, b3]" using length4 [OF assms(2)] by blast
  show ?thesis
  proof (cases "b3 = 0xEB")
    case True
    let ?q = "drop_bit 2 (pos + 8)"
    let ?s = "take_bit 24 (adjust e (load32 b0 b1 b2 0) ?q)"
    have "take_bit 24 (adjust (\<not> e) (load32 (ucast ?s) (ucast (drop_bit 8 ?s)) (ucast (drop_bit 16 ?s)) 0) ?q)
        = load32 b0 b1 b2 0"
      by (simp only: load24_bytes take_bit_take_bit min.idem adjust_inverse take24_load)
    then show ?thesis
      using True by (simp only: b arm_instr_adjust [OF assms(1)] Let_def bytes_load32)
  next
    case False
    then show ?thesis by (simp add: b arm_instr_def)
  qed
qed

interpretation arm: block_filter 4 2 arm_instr
proof
  show "length (arm_instr pos e b) = 4" if "length b = 4" for b pos e
    using that by (simp add: arm_instr_def Let_def)
  show "arm_instr pos False (arm_instr pos True b) = b" "arm_instr pos True (arm_instr pos False b) = b"
    if "length b = 4" "take_bit 2 pos = 0" for b pos
    using arm_instr_inverse [OF that(2,1), of True] arm_instr_inverse [OF that(2,1), of False] by simp_all
qed simp_all

text \<open>PowerPC: twenty-four bits from the second to the last byte, the two low bits of the last byte apart.\<close>

definition ppc_src :: "u8 \<Rightarrow> u8 \<Rightarrow> u8 \<Rightarrow> u8 \<Rightarrow> u32" where
  "ppc_src b0 b1 b2 b3 = push_bit 24 (ucast (b0 AND 3)) OR push_bit 16 (ucast b1)
     OR push_bit 8 (ucast b2) OR (ucast b3 AND NOT 3)"

definition ppc_bytes :: "u8 \<Rightarrow> u32 \<Rightarrow> u8 list" where
  "ppc_bytes b3 dest = [0x48 OR ucast (drop_bit 24 dest AND 0x03), ucast (drop_bit 16 dest), ucast (drop_bit 8 dest),
     (b3 AND 0x03) OR ucast dest]"

lemma mask2: "(3 :: 'a::len word) = mask 2"
  by (simp add: mask_eq_exp_minus_1)

lemma bit_ppc_src:
  "bit (ppc_src b0 b1 b2 b3) n \<longleftrightarrow>
     (if n < 8 then 2 \<le> n \<and> bit b3 n else if n < 16 then bit b2 (n - 8) else if n < 24 then bit b1 (n - 16)
      else n < 26 \<and> bit b0 (n - 24))"
  by (simp only: ppc_src_def bit_or_iff bit_pushed_u8 bit_ucast_u8 bit_and_iff bit_not_iff mask2 bit_mask_iff)
    (auto simp: not_bit_u8)

lemma aligned_low_bits: "take_bit 2 (d :: u32) = 0 \<Longrightarrow> bit d n \<Longrightarrow> 2 \<le> n"
  by (metis bit_0_eq bit_take_bit_iff bot_apply bot_bool_def not_le)

lemma bit_48_low: "bit (0x48 :: int) n \<Longrightarrow> 2 \<le> n"
  by (cases "n = 0 \<or> n = 1") (auto simp: bit_0)

lemma ppc_src_bytes:
  assumes "take_bit 2 d = 0"
  shows "ppc_src (0x48 OR ucast (drop_bit 24 d AND 0x03)) (ucast (drop_bit 16 d)) (ucast (drop_bit 8 d))
      ((b3 AND 0x03) OR ucast d) = take_bit 26 d"
  by (rule bit_word_eqI)
    (simp only: bit_ppc_src bit_or_iff bit_and_iff mask2 bit_mask_iff bit_byte_of bit_drop_bit_eq comp_def bit_take_bit_iff,
      auto dest: aligned_low_bits [OF assms] bit_48_low)

lemma ppc_bytes_src:
  assumes "drop_bit 2 b0 = 0x12"
  shows "ppc_bytes b3 (ppc_src b0 b1 b2 b3) = [b0, b1, b2, b3]"
proof -
  have "b0 = push_bit 2 0x12 OR (b0 AND 3)"
    unfolding assms [symmetric] mask2
    by (rule bit_word_eqI) (auto simp: bit_or_iff bit_and_iff bit_push_bit_iff bit_drop_bit_eq bit_mask_iff not_less dest!: le_Suc_ex)
  then have b0: "b0 = 0x48 OR (b0 AND 3)" by simp
  have "ucast (drop_bit 24 (ppc_src b0 b1 b2 b3) AND 0x03) = b0 AND 3"
    by (rule bit_word_eqI)
      (simp only: bit_byte_of bit_and_iff bit_drop_bit_eq comp_def bit_ppc_src mask2 bit_mask_iff, auto)
  moreover have "ucast (drop_bit 16 (ppc_src b0 b1 b2 b3)) = b1" "ucast (drop_bit 8 (ppc_src b0 b1 b2 b3)) = b2"
    by (rule bit_word_eqI, simp only: bit_byte_of bit_drop_bit_eq comp_def bit_ppc_src, simp)+
  moreover have "(b3 AND 0x03) OR ucast (ppc_src b0 b1 b2 b3) = b3"
    by (rule bit_word_eqI)
      (simp only: bit_byte_of bit_or_iff bit_and_iff bit_ppc_src mask2 bit_mask_iff, auto)
  ultimately show ?thesis using b0 by (simp only: ppc_bytes_def)
qed

lemma ppc_bytes_take26: "ppc_bytes b3 (take_bit 26 d) = ppc_bytes b3 d"
proof -
  have "drop_bit 24 (take_bit 26 d) AND 0x03 = drop_bit 24 d AND (0x03 :: u32)"
    by (rule bit_word_eqI) (simp only: bit_and_iff bit_drop_bit_eq comp_def mask2 bit_mask_iff bit_take_bit_iff, auto)
  moreover have "ucast (drop_bit 16 (take_bit 26 d :: u32)) = (ucast (drop_bit 16 d) :: u8)"
    "ucast (drop_bit 8 (take_bit 26 d :: u32)) = (ucast (drop_bit 8 d) :: u8)" "ucast (take_bit 26 d :: u32) = (ucast d :: u8)"
    by (rule bit_word_eqI, simp only: bit_byte_of bit_drop_bit_eq comp_def bit_take_bit_iff, simp)+
  ultimately show ?thesis by (simp only: ppc_bytes_def)
qed

lemma ppc_bytes_branch:
  assumes "take_bit 2 d = 0" "b3 AND 3 = 1"
  shows "drop_bit 2 (0x48 OR ucast (drop_bit 24 d AND 0x03 :: u32) :: u8) = 0x12"
    "((b3 AND 0x03) OR ucast d) AND 3 = (1 :: u8)" "((b3 AND 0x03) OR ucast d) AND 0x03 = b3 AND 0x03"
proof -
  have "drop_bit 2 (ucast (drop_bit 24 d AND 0x03 :: u32) :: u8) = 0"
    by (rule bit_word_eqI) (simp only: bit_byte_of bit_and_iff bit_drop_bit_eq comp_def mask2 bit_mask_iff, auto)
  then show "drop_bit 2 (0x48 OR ucast (drop_bit 24 d AND 0x03 :: u32) :: u8) = 0x12" by (simp add: drop_bit_or)
  have "(ucast d :: u8) AND 0x03 = 0"
    by (rule bit_word_eqI)
      (simp only: bit_byte_of bit_and_iff mask2 bit_mask_iff, auto dest: aligned_low_bits [OF assms(1)])
  then show "((b3 AND 0x03) OR ucast d) AND 0x03 = b3 AND 0x03" by (simp add: bit.conj_disj_distrib2)
  then show "((b3 AND 0x03) OR ucast d) AND 3 = (1 :: u8)" using assms(2) by simp
qed

lemma ppc_src_aligned: "take_bit 2 (ppc_src b0 b1 b2 b3) = 0" "take_bit 26 (ppc_src b0 b1 b2 b3) = ppc_src b0 b1 b2 b3"
  by (rule bit_word_eqI, simp only: bit_ppc_src bit_take_bit_iff, auto)+

lemma adjust_aligned: "take_bit k s = 0 \<Longrightarrow> take_bit k q = 0 \<Longrightarrow> take_bit k (adjust e s q) = 0"
proof -
  assume a: "take_bit k s = 0" "take_bit k q = 0"
  have "take_bit k (- q) = 0"
  proof -
    have "- q = push_bit k (- drop_bit k q)" using push_drop_aligned [OF a(2)] by (simp add: push_bit_eq_mult)
    then show ?thesis by (simp only: take_push_0)
  qed
  then show ?thesis using a aligned_sum [of k s q] aligned_sum [of k s "- q"] by (simp add: adjust_def)
qed

lemma powerpc_instr_adjust:
  "drop_bit 2 b0 = 0x12 \<Longrightarrow> b3 AND 3 = 1 \<Longrightarrow>
   powerpc_instr pos e [b0, b1, b2, b3] = ppc_bytes b3 (adjust e (ppc_src b0 b1 b2 b3) pos)"
  by (simp add: powerpc_instr_def ppc_bytes_def ppc_src_def adjust_def Let_def add.commute)

lemma powerpc_instr_inverse:
  assumes "take_bit 2 pos = 0" "length b = 4"
  shows "powerpc_instr pos (\<not> e) (powerpc_instr pos e b) = b"
proof -
  obtain b0 b1 b2 b3 where b: "b = [b0, b1, b2, b3]" using length4 [OF assms(2)] by blast
  show ?thesis
  proof (cases "drop_bit 2 b0 = 0x12 \<and> b3 AND 3 = 1")
    case True
    let ?d = "adjust e (ppc_src b0 b1 b2 b3) pos"
    have al: "take_bit 2 ?d = 0" by (rule adjust_aligned) (rule ppc_src_aligned assms)+
    note br = ppc_bytes_branch [OF al conjunct2 [OF True]]
    have "powerpc_instr pos (\<not> e) (ppc_bytes b3 ?d)
        = ppc_bytes ((b3 AND 0x03) OR ucast ?d) (adjust (\<not> e) (take_bit 26 ?d) pos)"
      unfolding ppc_bytes_def [of b3 ?d] by (simp only: powerpc_instr_adjust [OF br(1,2)] ppc_src_bytes [OF al])
    also have "\<dots> = ppc_bytes b3 (adjust (\<not> e) (take_bit 26 ?d) pos)" by (simp only: ppc_bytes_def br(3))
    also have "\<dots> = ppc_bytes b3 (take_bit 26 (adjust (\<not> e) (take_bit 26 ?d) pos))" by (simp only: ppc_bytes_take26)
    also have "take_bit 26 (adjust (\<not> e) (take_bit 26 ?d) pos) = ppc_src b0 b1 b2 b3"
      by (simp add: adjust_inverse ppc_src_aligned)
    also have "ppc_bytes b3 (ppc_src b0 b1 b2 b3) = b" using True by (simp only: b ppc_bytes_src)
    finally show ?thesis using True by (simp only: b powerpc_instr_adjust)
  next
    case False
    then show ?thesis by (auto simp: b powerpc_instr_def)
  qed
qed

interpretation powerpc: block_filter 4 2 powerpc_instr
proof
  show "length (powerpc_instr pos e b) = 4" if "length b = 4" for b pos e
    using that by (simp add: powerpc_instr_def Let_def)
  show "powerpc_instr pos False (powerpc_instr pos True b) = b" "powerpc_instr pos True (powerpc_instr pos False b) = b"
    if "length b = 4" "take_bit 2 pos = 0" for b pos
    using powerpc_instr_inverse [OF that(2,1), of True] powerpc_instr_inverse [OF that(2,1), of False] by simp_all
qed simp_all

end
