(* ===== verification/Bcj_Sparc_Thumb.thy ===== *)
theory Bcj_Sparc_Thumb
  imports Bcj_Block
begin

text \<open>
  The branch converters for SPARC (\<open>simple/sparc.c\<close>) and ARM-Thumb (\<open>simple/armthumb.c\<close>): decoding undoes
  encoding.
\<close>

lemma take_bit_adjust: "w \<le> 32 \<Longrightarrow> take_bit w (adjust e (take_bit w s) q) = take_bit w (adjust e s q)"
proof -
  assume w: "w \<le> 32"
  have "uint (take_bit w (take_bit w s + q)) = uint (take_bit w (s + q))"
    "uint (take_bit w (take_bit w s - q)) = uint (take_bit w (s - q))"
    using w by (simp_all add: take_bit_word_uint uint_word_arith_bintrs min_absorb1)
      (simp_all add: take_bit_eq_mod mod_add_left_eq mod_diff_left_eq)
  then show ?thesis by (simp add: adjust_def word_uint_eq_iff)
qed

text \<open>SPARC: a sign-extended displacement of 23 bits below the two opcode bits.\<close>

definition sparc_word :: "u32 \<Rightarrow> u32" where
  "sparc_word y = (push_bit 22 (0 - (drop_bit 22 y AND 1)) AND 0x3FFFFFFF) OR (y AND 0x3FFFFF) OR 0x40000000"

lemma bit_sparc_word:
  assumes "n < 32"
  shows "bit (sparc_word y) n \<longleftrightarrow> (if n < 22 then bit y n else if n < 30 then bit y 22 else n = 30)"
proof -
  have m: "(0x3FFFFFFF :: u32) = mask 30" "(0x3FFFFF :: u32) = mask 22" "(0x40000000 :: u32) = push_bit 30 1"
    by (simp_all add: mask_eq_exp_minus_1 push_bit_eq_mult)
  have "0 - (drop_bit 22 y AND 1) = (if bit y 22 then - 1 else 0)"
    by (simp add: bit_iff_odd_drop_bit and_one_eq odd_iff_mod_2_eq_one)
  then show ?thesis
    unfolding sparc_word_def m using assms
    by (simp only: bit_or_iff bit_and_iff bit_mask_iff bit_push_bit_iff bit_1_iff) auto
qed

lemma sparc_word_take23: "sparc_word (take_bit 23 y) = sparc_word y"
  by (rule bit_word_eqI) (simp add: bit_sparc_word bit_take_bit_iff)

lemma take23_sparc_word: "take_bit 23 (sparc_word y) = take_bit 23 y"
  by (rule bit_word_eqI) (auto simp: bit_sparc_word bit_take_bit_iff less_Suc_eq_le le_less numeral_eq_Suc)

abbreviation (input) is_call :: "u8 \<Rightarrow> u8 \<Rightarrow> bool" where
  "is_call b0 b1 \<equiv> b0 = 0x40 \<and> b1 AND 0xC0 = 0x00 \<or> b0 = 0x7F \<and> b1 AND 0xC0 = 0xC0"

text \<open>A call is recognised by its ten high bits: the opcode and nine equal bits.\<close>

lemma bits_0xC0: "b AND 0xC0 = 0x00 \<longleftrightarrow> \<not> bit b 6 \<and> \<not> bit b 7" "b AND 0xC0 = 0xC0 \<longleftrightarrow> bit b 6 \<and> bit (b :: u8) 7"
proof -
  have m: "(0xC0 :: u8) = push_bit 6 (mask 2)" by (simp add: mask_eq_exp_minus_1 push_bit_eq_mult)
  have n: "bit (0xC0 :: u8) n \<longleftrightarrow> n = 6 \<or> n = 7" for n
    unfolding m by (auto simp: bit_push_bit_iff bit_mask_iff)
  have eq: "(x = y) = (\<forall>n. bit x n = bit y n)" for x y :: u8 by (auto intro: bit_word_eqI)
  show "b AND 0xC0 = 0x00 \<longleftrightarrow> \<not> bit b 6 \<and> \<not> bit b 7" "b AND 0xC0 = 0xC0 \<longleftrightarrow> bit b 6 \<and> bit b 7"
    unfolding eq bit_and_iff n by auto
qed

lemma bits_0x40: "bit (0x40 :: u8) n \<longleftrightarrow> n = 6" and bits_0x7F: "bit (0x7F :: u8) n \<longleftrightarrow> n < 7"
proof -
  have m: "(0x40 :: u8) = push_bit 6 1" "(0x7F :: u8) = mask 7" by (simp_all add: mask_eq_exp_minus_1 push_bit_eq_mult)
  show "bit (0x40 :: u8) n \<longleftrightarrow> n = 6" "bit (0x7F :: u8) n \<longleftrightarrow> n < 7"
    unfolding m by (simp_all only: bit_push_bit_iff bit_mask_iff bit_1_iff) auto
qed

lemma call_word:
  assumes "is_call b0 b1"
  shows "sparc_word (load32 b3 b2 b1 b0) = load32 b3 b2 b1 b0"
proof (rule bit_word_eqI)
  fix n assume "n < LENGTH(32)"
  then have n: "n < 32" by simp
  have b1: "bit b1 (n - 16) = bit b1 6" if "22 \<le> n" "n < 24"
  proof -
    from that have "n - 16 = 6 \<or> n - 16 = 7" by arith
    then show ?thesis using assms unfolding bits_0xC0 by auto
  qed
  have b0: "bit b0 (n - 24) = (if n < 30 then bit b1 6 else n = 30)" if "24 \<le> n"
    using assms unfolding bits_0xC0
    by (elim disjE conjE; simp only: bits_0x40 bits_0x7F) (use that n in auto)
  show "bit (sparc_word (load32 b3 b2 b1 b0)) n = bit (load32 b3 b2 b1 b0) n"
    using b0 b1 n by (simp add: bit_sparc_word bit_load32)
qed

lemma word_call: "is_call (ucast (drop_bit 24 (sparc_word y))) (ucast (drop_bit 16 (sparc_word y)))"
proof (cases "bit y 22")
  case True
  have "ucast (drop_bit 24 (sparc_word y)) = (0x7F :: u8)"
    by (rule bit_word_eqI) (simp only: bit_byte_of bit_drop_bit_eq comp_def bits_0x7F, auto simp: bit_sparc_word True)
  moreover have "ucast (drop_bit 16 (sparc_word y)) AND 0xC0 = (0xC0 :: u8)"
    unfolding bits_0xC0 by (simp only: bit_byte_of bit_drop_bit_eq comp_def) (simp add: bit_sparc_word True)
  ultimately show ?thesis by simp
next
  case False
  have "ucast (drop_bit 24 (sparc_word y)) = (0x40 :: u8)"
    by (rule bit_word_eqI) (simp only: bit_byte_of bit_drop_bit_eq comp_def bits_0x40, auto simp: bit_sparc_word False)
  moreover have "ucast (drop_bit 16 (sparc_word y)) AND 0xC0 = (0x00 :: u8)"
    unfolding bits_0xC0 by (simp only: bit_byte_of bit_drop_bit_eq comp_def) (simp add: bit_sparc_word False)
  ultimately show ?thesis by simp
qed

lemma sparc_instr_adjust:
  assumes "is_call b0 b1" "take_bit 2 pos = 0"
  shows "sparc_instr pos e [b0, b1, b2, b3] =
     (let w = sparc_word (adjust e (load32 b3 b2 b1 b0) (drop_bit 2 pos))
      in [ucast (drop_bit 24 w), ucast (drop_bit 16 w), ucast (drop_bit 8 w), ucast w])"
proof -
  let ?d = "adjust e (push_bit 2 (load32 b3 b2 b1 b0)) pos"
  have l: "push_bit 24 (ucast b0) OR push_bit 16 (ucast b1) OR push_bit 8 (ucast b2) OR ucast b3 = load32 b3 b2 b1 b0"
    by (simp only: load32_def ac_simps)
  have "take_bit 23 (drop_bit 2 ?d) = take_bit 23 (adjust e (load32 b3 b2 b1 b0) (drop_bit 2 pos))"
    by (rule adjust_shift [OF _ assms(2)]) simp
  then have "sparc_word (drop_bit 2 ?d) = sparc_word (adjust e (load32 b3 b2 b1 b0) (drop_bit 2 pos))"
    by (metis sparc_word_take23)
  moreover have "sparc_instr pos e [b0, b1, b2, b3] = (let w = sparc_word (drop_bit 2 ?d)
      in [ucast (drop_bit 24 w), ucast (drop_bit 16 w), ucast (drop_bit 8 w), ucast w])"
  proof -
    have c: "[b0, b1, b2, b3] ! 0 = b0" "[b0, b1, b2, b3] ! 1 = b1" "[b0, b1, b2, b3] ! 2 = b2" "[b0, b1, b2, b3] ! 3 = b3"
      by simp_all
    show ?thesis
      unfolding sparc_instr_def c Let_def l sparc_word_def adjust_def using assms(1) by (simp only: if_True add.commute)
  qed
  ultimately show ?thesis by simp
qed

lemma sparc_instr_inverse:
  assumes "take_bit 2 pos = 0" "length b = 4"
  shows "sparc_instr pos (\<not> e) (sparc_instr pos e b) = b"
proof -
  obtain b0 b1 b2 b3 where b: "b = [b0, b1, b2, b3]" using length4 [OF assms(2)] by blast
  show ?thesis
  proof (cases "is_call b0 b1")
    case True
    let ?v = "load32 b3 b2 b1 b0" and ?q = "drop_bit 2 pos"
    let ?w = "sparc_word (adjust e ?v ?q)"
    have "take_bit 23 (adjust (\<not> e) ?w ?q) = take_bit 23 (adjust (\<not> e) (take_bit 23 (adjust e ?v ?q)) ?q)"
      using take_bit_adjust [of 23 "\<not> e" ?w ?q] by (simp add: take23_sparc_word)
    also have "\<dots> = take_bit 23 ?v" by (rule adjust_inverse) simp
    finally have "sparc_word (adjust (\<not> e) ?w ?q) = ?v" using call_word [OF True] by (metis sparc_word_take23)
    then show ?thesis
      by (simp only: b sparc_instr_adjust [OF True assms(1)] Let_def sparc_instr_adjust [OF word_call assms(1)]
          load32_bytes bytes_load32)
  next
    case False
    then show ?thesis by (auto simp: b sparc_instr_def)
  qed
qed

interpretation sparc: block_filter 4 2 sparc_instr
proof
  show "length (sparc_instr pos e b) = 4" if "length b = 4" for b pos e
    using that by (simp add: sparc_instr_def Let_def)
  show "sparc_instr pos False (sparc_instr pos True b) = b" "sparc_instr pos True (sparc_instr pos False b) = b"
    if "length b = 4" "take_bit 2 pos = 0" for b pos
    using sparc_instr_inverse [OF that(2,1), of True] sparc_instr_inverse [OF that(2,1), of False] by simp_all
qed simp_all

section \<open>ARM-Thumb\<close>

text \<open>
  \<open>armthumb_code\<close>: pairs of half words; the loop goes on by two bytes, by four after a converted pair.
\<close>

definition thumb_src :: "u8 \<Rightarrow> u8 \<Rightarrow> u8 \<Rightarrow> u8 \<Rightarrow> u32" where
  "thumb_src b0 b1 b2 b3 = push_bit 19 (ucast (b1 AND 0x7)) OR push_bit 11 (ucast b0)
     OR push_bit 8 (ucast (b3 AND 0x7)) OR ucast b2"

definition thumb_bytes :: "u32 \<Rightarrow> u8 list" where
  "thumb_bytes dest = [ucast (drop_bit 11 dest), 0xF0 OR ucast (drop_bit 19 dest AND 0x7),
     ucast dest, 0xF8 OR ucast (drop_bit 8 dest AND 0x7)]"

abbreviation (input) is_bl :: "u8 \<Rightarrow> u8 \<Rightarrow> bool" where
  "is_bl b1 b3 \<equiv> b1 AND 0xF8 = 0xF0 \<and> b3 AND 0xF8 = 0xF8"

fun armthumb_code :: "u32 \<Rightarrow> bool \<Rightarrow> u8 list \<Rightarrow> nat \<times> u8 list" where
  "armthumb_code pos is_encoder (b0 # b1 # b2 # b3 # rest) =
     (if b1 AND 0xF8 = 0xF0 \<and> b3 AND 0xF8 = 0xF8 then
        let src = push_bit 1 (thumb_src b0 b1 b2 b3);
            dest = (if is_encoder then pos + 4 + src else src - (pos + 4));
            dest = drop_bit 1 dest;
            (n, rest) = armthumb_code (pos + 4) is_encoder rest
        in (4 + n, thumb_bytes dest @ rest)
      else
        let (n, rest) = armthumb_code (pos + 2) is_encoder (b2 # b3 # rest)
        in (2 + n, b0 # b1 # rest))"
| "armthumb_code pos is_encoder buffer = (0, buffer)"

lemma mask3: "(7 :: 'a::len word) = mask 3"
  by (simp add: mask_eq_exp_minus_1)

lemma bit_thumb_src:
  "bit (thumb_src b0 b1 b2 b3) n \<longleftrightarrow>
     (if n < 8 then bit b2 n else if n < 11 then bit b3 (n - 8) else if n < 19 then bit b0 (n - 11)
      else n < 22 \<and> bit b1 (n - 19))"
  by (simp only: thumb_src_def bit_or_iff bit_pushed_u8 bit_ucast_u8 bit_and_iff mask3 bit_mask_iff)
    (auto simp: not_bit_u8)

text \<open>The marks of the two half words and the bits beside them.\<close>

lemma low3_marks:
  fixes x :: u8
  shows "(0xF0 OR (x AND 7)) AND 7 = x AND 7" "(0xF8 OR (x AND 7)) AND 7 = x AND 7"
    "(0xF0 OR (x AND 7)) AND 0xF8 = 0xF0" "(0xF8 OR (x AND 7)) AND 0xF8 = 0xF8"
proof -
  have z: "(x AND 7) AND 0xF8 = 0" by (simp add: and.assoc)
  show "(0xF0 OR (x AND 7)) AND 7 = x AND 7" "(0xF8 OR (x AND 7)) AND 7 = x AND 7"
    by (simp_all add: bit.conj_disj_distrib2 and.assoc)
  show "(0xF0 OR (x AND 7)) AND 0xF8 = 0xF0" "(0xF8 OR (x AND 7)) AND 0xF8 = 0xF8"
    by (simp_all add: bit.conj_disj_distrib2 z)
qed

lemma split_marks: "x = (x AND 0xF8) OR (x AND (7 :: u8))"
proof -
  have "x AND 0xFF = x" by (simp only: and_FF) (rule bit_word_eqI, simp add: bit_take_bit_iff)
  then have "x = x AND (0xF8 OR 7)" by simp
  then show ?thesis by (simp only: bit.conj_disj_distrib)
qed

lemma ucast_and7: "(ucast (x AND 7 :: u32) :: u8) = ucast x AND 7"
  by (rule bit_word_eqI) (simp only: bit_byte_of bit_and_iff mask3 bit_mask_iff, simp)

lemma thumb_src_bytes:
  "thumb_src (ucast (drop_bit 11 d)) (0xF0 OR ucast (drop_bit 19 d AND 0x7)) (ucast d) (0xF8 OR ucast (drop_bit 8 d AND 0x7))
   = take_bit 22 d"
proof -
  have "thumb_src b0 b1 b2 b3 = thumb_src b0 (b1 AND 7) b2 (b3 AND 7)" for b0 b1 b2 b3
    by (simp add: thumb_src_def and.assoc)
  then have "thumb_src (ucast (drop_bit 11 d)) (0xF0 OR ucast (drop_bit 19 d AND 0x7)) (ucast d) (0xF8 OR ucast (drop_bit 8 d AND 0x7))
      = thumb_src (ucast (drop_bit 11 d)) (ucast (drop_bit 19 d) AND 7) (ucast d) (ucast (drop_bit 8 d) AND 7)"
    by (metis ucast_and7 low3_marks(1,2))
  also have "\<dots> = take_bit 22 d"
    by (rule bit_word_eqI)
      (simp only: bit_thumb_src bit_and_iff mask3 bit_mask_iff bit_byte_of bit_drop_bit_eq comp_def bit_take_bit_iff, auto)
  finally show ?thesis .
qed

lemma thumb_bytes_src:
  assumes "is_bl b1 b3"
  shows "thumb_bytes (thumb_src b0 b1 b2 b3) = [b0, b1, b2, b3]"
proof -
  let ?s = "thumb_src b0 b1 b2 b3"
  have "ucast (drop_bit 11 ?s) = b0" "ucast ?s = b2"
    by (rule bit_word_eqI, simp only: bit_byte_of bit_drop_bit_eq comp_def bit_thumb_src, simp)+
  moreover have "ucast (drop_bit 19 ?s AND 7) = b1 AND 7" "ucast (drop_bit 8 ?s AND 7) = b3 AND 7"
    by (rule bit_word_eqI, simp only: bit_byte_of bit_and_iff mask3 bit_mask_iff bit_drop_bit_eq comp_def bit_thumb_src, auto)+
  ultimately show ?thesis
    using split_marks [of b1] split_marks [of b3] assms by (simp only: thumb_bytes_def)
qed

lemma thumb_bytes_take22: "thumb_bytes (take_bit 22 d) = thumb_bytes d"
proof -
  have "ucast (drop_bit 11 (take_bit 22 d :: u32)) = (ucast (drop_bit 11 d) :: u8)" "ucast (take_bit 22 d :: u32) = (ucast d :: u8)"
    by (rule bit_word_eqI, simp only: bit_byte_of bit_drop_bit_eq comp_def bit_take_bit_iff, simp)+
  moreover have "drop_bit 19 (take_bit 22 d) AND 7 = drop_bit 19 d AND (7 :: u32)"
    "drop_bit 8 (take_bit 22 d) AND 7 = drop_bit 8 d AND (7 :: u32)"
    by (rule bit_word_eqI, simp only: bit_and_iff bit_drop_bit_eq comp_def mask3 bit_mask_iff bit_take_bit_iff, auto)+
  ultimately show ?thesis by (simp only: thumb_bytes_def)
qed

lemma thumb_dest:
  assumes "take_bit 1 pos = 0"
  shows "thumb_bytes (drop_bit 1 (adjust e (push_bit 1 s) (pos + 4)))
       = thumb_bytes (take_bit 22 (adjust e s (drop_bit 1 (pos + 4))))"
proof -
  have "take_bit 1 (pos + 4) = 0" using assms by (rule aligned_sum) simp
  then have "take_bit 22 (drop_bit 1 (adjust e (push_bit 1 s) (pos + 4))) = take_bit 22 (adjust e s (drop_bit 1 (pos + 4)))"
    by (intro adjust_shift) simp_all
  then show ?thesis by (metis thumb_bytes_take22)
qed

lemma armthumb_step:
  assumes "is_bl b1 b3" "take_bit 1 pos = 0"
  shows "armthumb_code pos e (b0 # b1 # b2 # b3 # rest) =
     (case armthumb_code (pos + 4) e rest of (n, rest) \<Rightarrow>
        (4 + n, thumb_bytes (take_bit 22 (adjust e (thumb_src b0 b1 b2 b3) (drop_bit 1 (pos + 4)))) @ rest))"
proof -
  have a: "(if e then pos + 4 + src else src - (pos + 4)) = adjust e src (pos + 4)" for src
    by (simp add: adjust_def)
  show ?thesis
    using assms(1) by (simp only: armthumb_code.simps if_True a Let_def thumb_dest [OF assms(2)] simp_thms)
qed

lemma armthumb_count:
  "armthumb_code pos e buf = (n, buf') \<Longrightarrow> length buf' = length buf \<and> n \<le> length buf \<and> length buf - n < 4"
proof (induction pos e buf arbitrary: n buf' rule: armthumb_code.induct)
  case (1 pos e b0 b1 b2 b3 rest)
  show ?case
  proof (cases "is_bl b1 b3")
    case True
    obtain n1 r where r: "armthumb_code (pos + 4) e rest = (n1, r)" by fastforce
    show ?thesis using "1.IH"(1) [OF True refl refl refl, OF r] "1.prems" True r by (auto simp: Let_def thumb_bytes_def)
  next
    case False
    obtain n1 r where r: "armthumb_code (pos + 2) e (b2 # b3 # rest) = (n1, r)" by fastforce
    show ?thesis using "1.IH"(2) [OF False, OF r] "1.prems" False r by (auto simp: Let_def)
  qed
qed auto

text \<open>Whether the second half word of a buffer is the second of a pair does not change.\<close>

lemma armthumb_second:
  assumes "armthumb_code pos e (b0 # b1 # rest) = (n, buf')"
  shows "\<exists>c0 c1 rest'. buf' = c0 # c1 # rest' \<and> (c1 AND 0xF8 = 0xF8 \<longleftrightarrow> b1 AND 0xF8 = 0xF8)"
proof (cases rest)
  case (Cons b2 r)
  note c = this
  show ?thesis
  proof (cases r)
    case (Cons b3 r')
    show ?thesis
      using assms unfolding c Cons
      by (auto simp: Let_def thumb_bytes_def ucast_and7 low3_marks split: if_splits prod.splits)
  qed (use assms c in auto)
qed (use assms in auto)

lemma armthumb_inverse:
  assumes "take_bit 1 pos = 0"
  shows "armthumb_code pos (\<not> e) (snd (armthumb_code pos e buf)) = (fst (armthumb_code pos e buf), buf)"
  using assms
proof (induction pos e buf rule: armthumb_code.induct)
  case (1 pos e b0 b1 b2 b3 rest)
  have al: "take_bit 1 (pos + 4) = 0" "take_bit 1 (pos + 2) = 0" by (rule aligned_sum [OF "1.prems"], simp)+
  show ?case
  proof (cases "is_bl b1 b3")
    case True
    obtain n r where r: "armthumb_code (pos + 4) e rest = (n, r)" by fastforce
    let ?q = "drop_bit 1 (pos + 4)" and ?s = "thumb_src b0 b1 b2 b3"
    let ?d = "take_bit 22 (adjust e ?s ?q)"
    have "take_bit 22 ?s = ?s" by (rule bit_word_eqI) (auto simp: bit_thumb_src bit_take_bit_iff)
    then have inv: "take_bit 22 (adjust (\<not> e) (take_bit 22 ?d) ?q) = ?s" by (simp add: adjust_inverse)
    have IH: "armthumb_code (pos + 4) (\<not> e) r = (n, rest)"
      using "1.IH"(1) [OF True refl refl refl al(1)] r by simp
    have m: "is_bl (0xF0 OR ucast (drop_bit 19 ?d AND 0x7)) (0xF8 OR ucast (drop_bit 8 ?d AND 0x7))"
      by (simp only: ucast_and7 low3_marks simp_thms)
    have "armthumb_code pos (\<not> e) (thumb_bytes ?d @ r) = (4 + n, thumb_bytes ?s @ rest)"
      unfolding thumb_bytes_def [of ?d] append.simps
      by (simp only: armthumb_step [OF m "1.prems"] thumb_src_bytes IH prod.case inv)
    then show ?thesis
      using True by (simp only: armthumb_step [OF True "1.prems"] r prod.case fst_conv snd_conv thumb_bytes_src append.simps)
  next
    case False
    obtain n r where r: "armthumb_code (pos + 2) e (b2 # b3 # rest) = (n, r)" by fastforce
    obtain c2 c3 r' where c: "r = c2 # c3 # r'" "c3 AND 0xF8 = 0xF8 \<longleftrightarrow> b3 AND 0xF8 = 0xF8"
      using armthumb_second [OF r] by blast
    have IH: "armthumb_code (pos + 2) (\<not> e) r = (n, b2 # b3 # rest)"
      using "1.IH"(2) [OF False al(2)] r by simp
    then have "armthumb_code pos (\<not> e) (b0 # b1 # r) = (2 + n, b0 # b1 # b2 # b3 # rest)"
      using False c by (auto simp: Let_def)
    then show ?thesis using False r by (auto simp: Let_def)
  qed
qed auto

end
