(* ===== verification/Bcj_Ia64.thy ===== *)
theory Bcj_Ia64
  imports Bcj_Sparc_Thumb
begin

text \<open>
  The branch converter for IA-64 (\<open>simple/ia64.c\<close>): the three instruction slots of a bundle are
  converted one after the other and do not disturb each other.
\<close>

section \<open>IA-64\<close>

text \<open>
  A bundle of 16 bytes has three instruction slots of 41 bits after a template of five; the table says
  which slots of a template hold branches. A slot is read and written through the six bytes that
  contain it: \<open>bit_res\<close> is its offset in the first of them.
\<close>

definition BRANCH_TABLE :: "u32 list" where
  "BRANCH_TABLE = [0, 0, 0, 0, 0, 0, 0, 0, 0, 0, 0, 0, 0, 0, 0, 0,
                   4, 4, 6, 6, 0, 0, 7, 7, 4, 4, 0, 0, 4, 4, 0, 0]"

definition ia64_load :: "u8 list \<Rightarrow> u64" where
  "ia64_load c = sum_list (map (\<lambda>j. push_bit (8 * j) (ucast (c ! j))) [0..<6])"

definition ia64_store :: "u64 \<Rightarrow> u8 list" where
  "ia64_store x = map (\<lambda>j. ucast (drop_bit (8 * j) x)) [0..<6]"

definition ia64_is_branch :: "u64 \<Rightarrow> bool" where
  "ia64_is_branch inst_norm \<longleftrightarrow> drop_bit 37 inst_norm AND 0xF = 0x5 \<and> drop_bit 9 inst_norm AND 0x7 = 0"

definition ia64_src :: "u64 \<Rightarrow> u32" where
  "ia64_src inst_norm = ucast (drop_bit 13 inst_norm AND 0xFFFFF) OR ucast (push_bit 20 (drop_bit 36 inst_norm AND 1))"

definition ia64_put :: "u64 \<Rightarrow> u32 \<Rightarrow> u64" where
  "ia64_put inst_norm dest = (inst_norm AND NOT (push_bit 13 0x8FFFFF))
     OR push_bit 13 (ucast (dest AND 0xFFFFF)) OR push_bit (36 - 20) (ucast (dest AND 0x100000))"

definition ia64_instr :: "nat \<Rightarrow> u32 \<Rightarrow> bool \<Rightarrow> u64 \<Rightarrow> u64" where
  "ia64_instr bit_res pos is_encoder instruction =
     (let inst_norm = drop_bit bit_res instruction in
      if ia64_is_branch inst_norm then
        let src = push_bit 4 (ia64_src inst_norm);
            dest = (if is_encoder then pos + src else src - pos);
            dest = drop_bit 4 dest
        in (instruction AND (push_bit bit_res 1 - 1)) OR push_bit bit_res (ia64_put inst_norm dest)
      else instruction)"

definition ia64_slot :: "nat \<Rightarrow> u32 \<Rightarrow> bool \<Rightarrow> u8 list \<Rightarrow> u8 list" where
  "ia64_slot slot pos is_encoder b =
     (let bit_pos = 5 + 41 * slot; byte_pos = bit_pos div 8; bit_res = bit_pos mod 8;
          instruction = ia64_load (take 6 (drop byte_pos b))
      in if ia64_is_branch (drop_bit bit_res instruction)
         then write_at byte_pos (ia64_store (ia64_instr bit_res pos is_encoder instruction)) b
         else b)"

definition ia64_bundle :: "u32 \<Rightarrow> bool \<Rightarrow> u8 list \<Rightarrow> u8 list" where
  "ia64_bundle pos is_encoder b =
     (let m = BRANCH_TABLE ! unat (b ! 0 AND 0x1F)
      in fold (\<lambda>slot b. if drop_bit slot m AND 1 = 0 then b else ia64_slot slot pos is_encoder b) [0..<3] b)"

definition ia64_code :: "u32 \<Rightarrow> bool \<Rightarrow> u8 list \<Rightarrow> nat \<times> u8 list" where
  "ia64_code = block_code 16 ia64_bundle"

text \<open>The field of an instruction: twenty bits and a sign.\<close>

lemma ia64_masks:
  "(0xFFFFF :: 'a::len word) = mask 20" "(0xF :: u64) = mask 4" "(0x100000 :: u32) = push_bit 20 1"
  "push_bit 13 (0x8FFFFF :: u64) = push_bit 13 (mask 20) OR push_bit 36 1"
  by (simp_all add: mask_eq_exp_minus_1 push_bit_eq_mult)

lemma bit_ia64_src:
  "bit (ia64_src x) n \<longleftrightarrow> (if n < 20 then bit x (13 + n) else n = 20 \<and> bit x 36)"
  unfolding ia64_src_def ia64_masks
  by (simp only: bit_or_iff bit_ucast_iff bit_and_iff bit_mask_iff bit_drop_bit_eq bit_push_bit_iff bit_1_iff comp_def) auto

lemma bit_ia64_put:
  "bit (ia64_put x d) n \<longleftrightarrow> n < 64 \<and> (if 13 \<le> n \<and> n < 33 then bit d (n - 13) else if n = 36 then bit d 20 else bit x n)"
  unfolding ia64_put_def ia64_masks
  by (simp only: bit_or_iff bit_ucast_iff bit_and_iff bit_not_iff bit_mask_iff bit_push_bit_iff bit_1_iff comp_def)
    (auto dest: bit_imp_le_length)

lemma ia64_src_put: "ia64_src (ia64_put x d) = take_bit 21 d"
  by (rule bit_word_eqI) (auto simp: bit_ia64_src bit_ia64_put bit_take_bit_iff less_Suc_eq numeral_eq_Suc)

lemma ia64_put_put: "ia64_put (ia64_put x d) d' = ia64_put x d'"
  by (rule bit_word_eqI) (auto simp: bit_ia64_put)

lemma ia64_put_src: "ia64_put x (ia64_src x) = x"
  by (rule bit_word_eqI) (auto simp: bit_ia64_put bit_ia64_src)

lemma ia64_put_take21: "ia64_put x (take_bit 21 d) = ia64_put x d"
  by (rule bit_word_eqI) (auto simp: bit_ia64_put bit_take_bit_iff)

lemma ia64_is_branch_cong:
  assumes "\<And>n. 9 \<le> n \<Longrightarrow> n < 12 \<Longrightarrow> bit x n = bit y n" "\<And>n. 37 \<le> n \<Longrightarrow> n < 41 \<Longrightarrow> bit x n = bit y n"
  shows "ia64_is_branch x = ia64_is_branch y"
proof -
  have "drop_bit 37 x AND 0xF = drop_bit 37 y AND 0xF"
    unfolding ia64_masks by (rule bit_word_eqI) (use assms(2) in \<open>auto simp: bit_and_iff bit_drop_bit_eq bit_mask_iff\<close>)
  moreover have "drop_bit 9 x AND 0x7 = drop_bit 9 y AND 0x7"
    unfolding mask3 by (rule bit_word_eqI) (use assms(1) in \<open>auto simp: bit_and_iff bit_drop_bit_eq bit_mask_iff\<close>)
  ultimately show ?thesis by (simp add: ia64_is_branch_def)
qed

lemma ia64_is_branch_put: "ia64_is_branch (ia64_put x d) = ia64_is_branch x"
  by (rule ia64_is_branch_cong) (auto simp: bit_ia64_put)

lemma low_bits_mask: "x AND (push_bit r 1 - 1) = take_bit r (x :: u64)"
  by (simp add: take_bit_eq_mask mask_eq_exp_minus_1 push_bit_eq_mult)

lemma ia64_instr_adjust:
  assumes "take_bit 4 pos = 0" "ia64_is_branch (drop_bit r x)"
  shows "ia64_instr r pos e x = take_bit r x OR push_bit r (ia64_put (drop_bit r x)
     (take_bit 21 (adjust e (ia64_src (drop_bit r x)) (drop_bit 4 pos))))"
proof -
  let ?s = "ia64_src (drop_bit r x)"
  have a: "(if e then pos + src else src - pos) = adjust e src pos" for src by (simp add: adjust_def)
  have "take_bit 21 (drop_bit 4 (adjust e (push_bit 4 ?s) pos)) = take_bit 21 (adjust e ?s (drop_bit 4 pos))"
    by (rule adjust_shift [OF _ assms(1)]) simp
  then have "ia64_put y (drop_bit 4 (adjust e (push_bit 4 ?s) pos)) = ia64_put y (take_bit 21 (adjust e ?s (drop_bit 4 pos)))" for y
    by (metis ia64_put_take21)
  with assms(2) show ?thesis by (simp only: ia64_instr_def Let_def if_True a low_bits_mask)
qed

lemma ia64_split:
  assumes "r \<le> 7"
  shows "drop_bit r (take_bit r x OR push_bit r (ia64_put (drop_bit r x) d)) = ia64_put (drop_bit r x) d"
    "take_bit r (take_bit r x OR push_bit r (ia64_put (drop_bit r x) d)) = take_bit r x"
proof -
  show "drop_bit r (take_bit r x OR push_bit r (ia64_put (drop_bit r x) d)) = ia64_put (drop_bit r x) d"
    using assms(1)
    by (intro bit_word_eqI)
      (auto simp: bit_or_iff bit_drop_bit_eq bit_push_bit_iff bit_take_bit_iff bit_ia64_put dest: bit_imp_le_length)
  show "take_bit r (take_bit r x OR push_bit r (ia64_put (drop_bit r x) d)) = take_bit r x"
    by (rule bit_word_eqI) (auto simp: bit_or_iff bit_push_bit_iff bit_take_bit_iff)
qed

lemma take_or_push: "take_bit r x OR push_bit r (drop_bit r x) = (x :: u64)"
proof -
  have "take_bit r x AND push_bit r (drop_bit r x) = 0"
    by (rule bit_word_eqI) (auto simp: bit_and_iff bit_push_bit_iff bit_take_bit_iff)
  then show ?thesis using bits_ident [of r x] by (simp add: disjunctive_add_eq_or add.commute del: bits_ident)
qed

lemma ia64_instr_inverse:
  assumes "take_bit 4 pos = 0" "r \<le> 7" "ia64_is_branch (drop_bit r x)"
  shows "ia64_is_branch (drop_bit r (ia64_instr r pos e x))" "ia64_instr r pos (\<not> e) (ia64_instr r pos e x) = x"
proof -
  let ?n = "drop_bit r x" and ?q = "drop_bit 4 pos"
  let ?f = "take_bit 21 (adjust e (ia64_src ?n) ?q)"
  have x': "ia64_instr r pos e x = take_bit r x OR push_bit r (ia64_put ?n ?f)"
    by (rule ia64_instr_adjust [OF assms(1,3)])
  note sp = ia64_split [OF assms(2), of x ?f]
  show br: "ia64_is_branch (drop_bit r (ia64_instr r pos e x))"
    unfolding x' sp(1) using assms(3) by (simp add: ia64_is_branch_put)
  have t: "take_bit 21 (ia64_src ?n) = ia64_src ?n" by (rule bit_word_eqI) (auto simp: bit_ia64_src bit_take_bit_iff)
  have "take_bit 21 (adjust (\<not> e) (take_bit 21 ?f) ?q) = ia64_src ?n" by (simp add: adjust_inverse t)
  then show "ia64_instr r pos (\<not> e) (ia64_instr r pos e x) = x"
    unfolding ia64_instr_adjust [OF assms(1) br] unfolding x' sp(1,2) ia64_src_put ia64_put_put
    by (simp only: ia64_put_src take_or_push)
qed

text \<open>The six bytes.\<close>

lemma bit_ia64_sum:
  "m \<le> 8 \<Longrightarrow> bit (sum_list (map (\<lambda>j. push_bit (8 * j) (ucast (c ! j :: u8))) [0..<m]) :: u64) n
     \<longleftrightarrow> n < 8 * m \<and> bit (c ! (n div 8)) (n mod 8)"
proof (induction m arbitrary: n)
  case (Suc m)
  let ?x = "sum_list (map (\<lambda>j. push_bit (8 * j) (ucast (c ! j :: u8))) [0..<m]) :: u64"
  let ?y = "push_bit (8 * m) (ucast (c ! m)) :: u64"
  have b: "bit ?x i \<longleftrightarrow> i < 8 * m \<and> bit (c ! (i div 8)) (i mod 8)" for i using Suc by simp
  have y: "bit ?y i \<longleftrightarrow> 8 * m \<le> i \<and> i < 8 * m + 8 \<and> bit (c ! m) (i - 8 * m)" for i
    using Suc.prems by (simp only: bit_pushed_u8) auto
  have "?x AND ?y = 0" by (rule bit_word_eqI) (simp only: bit_and_iff b y, auto)
  then have "?x + ?y = ?x OR ?y" by (rule disjunctive_add_eq_or)
  moreover have "i div 8 = m \<and> i mod 8 = i - 8 * m" if "8 * m \<le> i" "i < 8 * m + 8" for i
  proof -
    from that have "i div 8 = m" by (simp add: div_nat_eqI)
    then show ?thesis using minus_div_mult_eq_mod [of i 8] by (simp add: mult.commute)
  qed
  ultimately show ?case by (simp del: push_bit_of_0) (auto simp: bit_or_iff b y)
qed simp

lemma bit_ia64_load: "bit (ia64_load c) n \<longleftrightarrow> n < 48 \<and> bit (c ! (n div 8)) (n mod 8)"
  unfolding ia64_load_def by (subst bit_ia64_sum) simp_all

lemma ia64_load_store: "ia64_load (ia64_store x) = take_bit 48 x"
  by (rule bit_word_eqI) (auto simp: bit_ia64_load ia64_store_def bit_byte_of bit_drop_bit_eq bit_take_bit_iff)

lemma ia64_store_load: "length c = 6 \<Longrightarrow> ia64_store (ia64_load c) = c"
proof (rule nth_equalityI)
  fix i assume "length c = 6" "i < length (ia64_store (ia64_load c))"
  then have i: "i < 6" by (simp add: ia64_store_def)
  have "ucast (drop_bit (8 * i) (ia64_load c)) = c ! i"
    by (rule bit_word_eqI) (use i in \<open>auto simp: bit_byte_of bit_drop_bit_eq bit_ia64_load\<close>)
  then show "ia64_store (ia64_load c) ! i = c ! i" using i by (simp add: ia64_store_def)
qed (simp add: ia64_store_def)

text \<open>
  The first of the six bytes holds only bits below the fields of the slot: it is neither changed nor
  looked at. So the three slots of a bundle do not share a byte.
\<close>

definition ia64_five :: "nat \<Rightarrow> u32 \<Rightarrow> bool \<Rightarrow> u8 list \<Rightarrow> u8 list" where
  "ia64_five r pos e cs = (let x = ia64_load (0 # cs)
     in if ia64_is_branch (drop_bit r x) then tl (ia64_store (ia64_instr r pos e x)) else cs)"

definition ia64_six :: "nat \<Rightarrow> u32 \<Rightarrow> bool \<Rightarrow> u8 list \<Rightarrow> u8 list" where
  "ia64_six r pos e c = (let x = ia64_load c
     in if ia64_is_branch (drop_bit r x) then ia64_store (ia64_instr r pos e x) else c)"

lemma bit_ia64_load_Cons: "8 \<le> n \<Longrightarrow> bit (ia64_load (c0 # cs)) n = bit (ia64_load (0 # cs)) n"
proof -
  assume "8 \<le> n"
  then have "n div 8 \<noteq> 0" by (simp add: div_eq_0_iff)
  then obtain m where "n div 8 = Suc m" using not0_implies_Suc by blast
  then show ?thesis by (simp add: bit_ia64_load)
qed

lemma ia64_six_branch:
  assumes "5 \<le> r"
  shows "ia64_is_branch (drop_bit r (ia64_load (c0 # cs))) = ia64_is_branch (drop_bit r (ia64_load (0 # cs)))"
  by (rule ia64_is_branch_cong) (use assms in \<open>auto simp: bit_drop_bit_eq bit_ia64_load_Cons [of _ c0 cs]\<close>)

lemma ia64_src_Cons:
  assumes "5 \<le> r"
  shows "ia64_src (drop_bit r (ia64_load (c0 # cs))) = ia64_src (drop_bit r (ia64_load (0 # cs)))"
  by (rule bit_word_eqI) (use assms in \<open>auto simp: bit_ia64_src bit_drop_bit_eq bit_ia64_load_Cons [of _ c0 cs]\<close>)

lemma bit_ia64_join:
  "bit (take_bit r x OR push_bit r (ia64_put (drop_bit r x) d)) n \<longleftrightarrow> n < 64 \<and>
     (if n < r + 13 \<or> r + 33 \<le> n \<and> n \<noteq> r + 36 then bit x n else if n = r + 36 then bit d 20 else bit d (n - r - 13))"
proof (cases "n < r")
  case True
  then show ?thesis by (auto simp: bit_or_iff bit_take_bit_iff bit_push_bit_iff dest: bit_imp_le_length)
next
  case False
  then obtain m where "n = r + m" using le_Suc_ex not_less by blast
  then show ?thesis
    by (auto simp: bit_or_iff bit_take_bit_iff bit_push_bit_iff bit_ia64_put bit_drop_bit_eq dest: bit_imp_le_length)
qed

lemma ia64_instr_bits:
  assumes "5 \<le> r" "r \<le> 7" "take_bit 4 pos = 0" "ia64_is_branch (drop_bit r (ia64_load (c0 # cs)))" "n < 48"
  shows "bit (ia64_instr r pos e (ia64_load (c0 # cs))) n
     = (if n < 8 then bit c0 n else bit (ia64_instr r pos e (ia64_load (0 # cs))) n)"
proof -
  have 0: "ia64_is_branch (drop_bit r (ia64_load (0 # cs)))" using assms(4) ia64_six_branch [OF assms(1), of c0 cs] by simp
  show ?thesis
    unfolding ia64_instr_adjust [OF assms(3,4)] ia64_instr_adjust [OF assms(3) 0] ia64_src_Cons [OF assms(1), of c0]
    unfolding bit_ia64_join
    using assms(1,2,5) bit_ia64_load_Cons [of n c0 cs] by (cases "n < 8") (simp_all add: bit_ia64_load)
qed

lemma ia64_six_five:
  assumes "5 \<le> r" "r \<le> 7" "take_bit 4 pos = 0"
  shows "ia64_six r pos e (c0 # cs) = c0 # ia64_five r pos e cs"
proof (cases "ia64_is_branch (drop_bit r (ia64_load (c0 # cs)))")
  case True
  let ?x = "ia64_instr r pos e (ia64_load (c0 # cs))" and ?y = "ia64_instr r pos e (ia64_load (0 # cs))"
  have "ucast ?x = c0"
    by (rule bit_word_eqI) (simp add: bit_byte_of ia64_instr_bits [OF assms True])
  moreover have "map (\<lambda>j. ucast (drop_bit (8 * j) ?x)) [1..<6] = (map (\<lambda>j. ucast (drop_bit (8 * j) ?y)) [1..<6] :: u8 list)"
  proof (rule map_cong [OF refl])
    fix j :: nat assume "j \<in> set [1..<6]"
    then show "ucast (drop_bit (8 * j) ?x) = (ucast (drop_bit (8 * j) ?y) :: u8)"
      by (intro bit_word_eqI) (simp add: bit_byte_of bit_drop_bit_eq ia64_instr_bits [OF assms True])
  qed
  moreover have st: "ia64_store z = ucast z # map (\<lambda>j. ucast (drop_bit (8 * j) z)) [1..<6]" for z
    unfolding ia64_store_def by (subst upt_conv_Cons) simp_all
  ultimately show ?thesis
    using True ia64_six_branch [OF assms(1), of c0 cs] by (simp only: ia64_six_def ia64_five_def st Let_def if_True list.sel)
next
  case False
  then show ?thesis by (simp add: ia64_six_def ia64_five_def ia64_six_branch [OF assms(1), of c0])
qed

lemma length_ia64_store [simp]: "length (ia64_store x) = 6"
  by (simp add: ia64_store_def)

lemma ia64_six_inverse:
  assumes "5 \<le> r" "r \<le> 7" "take_bit 4 pos = 0" "length c = 6"
  shows "ia64_six r pos (\<not> e) (ia64_six r pos e c) = c"
proof (cases "ia64_is_branch (drop_bit r (ia64_load c))")
  case True
  let ?x = "ia64_instr r pos e (ia64_load c)"
  note inv = ia64_instr_inverse [OF assms(3,2) True, of e]
  have "take_bit 48 ?x = ?x"
    unfolding ia64_instr_adjust [OF assms(3) True]
    using assms(2) by (intro bit_word_eqI) (simp only: bit_take_bit_iff bit_ia64_join, auto simp: bit_ia64_load)
  then have "ia64_load (ia64_store ?x) = ?x" by (simp only: ia64_load_store)
  then show ?thesis using True inv assms(4) by (simp add: ia64_six_def Let_def ia64_store_load)
next
  case False
  then show ?thesis by (simp add: ia64_six_def Let_def)
qed

lemma length_ia64_five: "length cs = 5 \<Longrightarrow> length (ia64_five r pos e cs) = 5"
  by (simp add: ia64_five_def Let_def)

lemma ia64_five_inverse:
  assumes "5 \<le> r" "r \<le> 7" "take_bit 4 pos = 0" "length cs = 5"
  shows "ia64_five r pos (\<not> e) (ia64_five r pos e cs) = cs"
  using ia64_six_inverse [OF assms(1-3), of "0 # cs" e] assms(4) by (simp add: ia64_six_five [OF assms(1-3)])

lemma ia64_slot_six:
  "length b = 16 \<Longrightarrow> slot < 3 \<Longrightarrow> ia64_slot slot pos e b
     = write_at ((5 + 41 * slot) div 8) (ia64_six ((5 + 41 * slot) mod 8) pos e (take 6 (drop ((5 + 41 * slot) div 8) b))) b"
  by (auto simp: ia64_slot_def ia64_six_def Let_def write_at_take)

definition ia64_when :: "bool \<Rightarrow> nat \<Rightarrow> u32 \<Rightarrow> bool \<Rightarrow> u8 list \<Rightarrow> u8 list" where
  "ia64_when m r pos e cs = (if m then ia64_five r pos e cs else cs)"

lemma ia64_slots:
  assumes "length A = 5" "length B = 5" "length C = 5" "take_bit 4 pos = 0"
  shows "ia64_slot 0 pos e (b0 # A @ B @ C) = b0 # ia64_five 5 pos e A @ B @ C"
    "ia64_slot 1 pos e (b0 # A @ B @ C) = b0 # A @ ia64_five 6 pos e B @ C"
    "ia64_slot 2 pos e (b0 # A @ B @ C) = b0 # A @ B @ ia64_five 7 pos e C"
proof -
  obtain A' a where A: "A = A' @ [a]" "length A' = 4" using assms(1) by (cases A rule: rev_cases) auto
  obtain B' b where B: "B = B' @ [b]" "length B' = 4" using assms(2) by (cases B rule: rev_cases) auto
  note six = ia64_six_five [OF _ _ assms(4)]
  show "ia64_slot 0 pos e (b0 # A @ B @ C) = b0 # ia64_five 5 pos e A @ B @ C"
    using assms by (simp add: ia64_slot_six six write_at_def length_ia64_five)
  show "ia64_slot 1 pos e (b0 # A @ B @ C) = b0 # A @ ia64_five 6 pos e B @ C"
    using assms A by (simp add: ia64_slot_six six write_at_def length_ia64_five)
  show "ia64_slot 2 pos e (b0 # A @ B @ C) = b0 # A @ B @ ia64_five 7 pos e C"
    using assms B by (simp add: ia64_slot_six six write_at_def length_ia64_five)
qed

lemma ia64_bundle_slots:
  assumes "length A = 5" "length B = 5" "length C = 5" "take_bit 4 pos = 0"
  shows "ia64_bundle pos e (b0 # A @ B @ C) =
     (let m = BRANCH_TABLE ! unat (b0 AND 0x1F)
      in b0 # ia64_when (drop_bit 0 m AND 1 \<noteq> 0) 5 pos e A @ ia64_when (drop_bit 1 m AND 1 \<noteq> 0) 6 pos e B
           @ ia64_when (drop_bit 2 m AND 1 \<noteq> 0) 7 pos e C)"
proof -
  have "[0..<3] = [0, 1, 2 :: nat]" by (simp add: upt_rec)
  then show ?thesis
    using assms by (simp add: ia64_bundle_def ia64_when_def ia64_slots ia64_slots(2) [unfolded One_nat_def] length_ia64_five Let_def del: upt_Suc)
qed

lemma length16: "length b = 16 \<Longrightarrow> \<exists>b0 A B C. b = b0 # A @ B @ C \<and> length A = 5 \<and> length B = 5 \<and> length C = 5"
proof (cases b)
  case (Cons b0 t)
  assume "length b = 16"
  moreover have "t = take 5 t @ take 5 (drop 5 t) @ drop 5 (drop 5 t)" by (simp only: append_take_drop_id)
  ultimately show ?thesis
    using Cons by (intro exI [of _ b0]) (rule exI [of _ "take 5 t"], rule exI [of _ "take 5 (drop 5 t)"], rule exI [of _ "drop 5 (drop 5 t)"], simp)
qed simp

lemma ia64_bundle_inverse:
  assumes "take_bit 4 pos = 0" "length b = 16"
  shows "ia64_bundle pos (\<not> e) (ia64_bundle pos e b) = b"
proof -
  obtain b0 A B C where b: "b = b0 # A @ B @ C" and l: "length A = 5" "length B = 5" "length C = 5"
    using length16 [OF assms(2)] by blast
  have w: "length (ia64_when m r pos e X) = 5" "5 \<le> r \<Longrightarrow> r \<le> 7 \<Longrightarrow> ia64_when m r pos (\<not> e) (ia64_when m r pos e X) = X"
    if "length X = 5" for m r X
    using that by (simp_all add: ia64_when_def length_ia64_five ia64_five_inverse assms(1))
  show ?thesis
    unfolding b ia64_bundle_slots [OF l assms(1)] Let_def
    by (subst ia64_bundle_slots [OF w(1) w(1) w(1) assms(1)]) (simp_all add: l w Let_def)
qed

lemma length_ia64_slot: "length b = 16 \<Longrightarrow> slot < 3 \<Longrightarrow> length (ia64_slot slot pos e b) = 16"
  by (simp add: ia64_slot_def Let_def)

lemma length_ia64_bundle: "length b = 16 \<Longrightarrow> length (ia64_bundle pos e b) = 16"
proof -
  assume "length b = 16"
  moreover have "[0..<3] = [0, 1, 2 :: nat]" by (simp add: upt_rec)
  ultimately show ?thesis by (simp add: ia64_bundle_def Let_def length_ia64_slot del: upt_Suc)
qed

interpretation ia64: block_filter 16 4 ia64_bundle
proof
  show "ia64_bundle pos False (ia64_bundle pos True b) = b" "ia64_bundle pos True (ia64_bundle pos False b) = b"
    if "length b = 16" "take_bit 4 pos = 0" for b pos
    using ia64_bundle_inverse [OF that(2,1), of True] ia64_bundle_inverse [OF that(2,1), of False] by simp_all
qed (simp_all add: length_ia64_bundle)

end
