(* ===== verification/Bcj.thy ===== *)
theory Bcj
  imports Bcj_Ia64
begin

text \<open>
  The contract that the branch converters keep and that the coder around them relies on: a filter
  changes a prefix of the buffer whose length it returns, leaves less than \<open>umax\<close> bytes for later, and
  can be continued from there.
\<close>

section \<open>Contract\<close>

locale simple_filter =
  fixes flt :: "u32 \<Rightarrow> bool \<Rightarrow> u8 list \<Rightarrow> nat \<times> u8 list" and umax al :: nat
  assumes flt_count: "flt pos e xs = (n, r) \<Longrightarrow> length r = length xs \<and> n \<le> length xs \<and> length xs - n < umax"
    and flt_tail: "flt pos e xs = (n, r) \<Longrightarrow> drop n r = drop n xs"
    and flt_cut: "flt pos e xs = (n, r) \<Longrightarrow> flt (pos + of_nat n) e (drop n xs @ ys) = (n2, r2) \<Longrightarrow>
        flt pos e (xs @ ys) = (n + n2, take n r @ r2)"
    and flt_inverse: "take_bit al pos = 0 \<Longrightarrow> flt pos (\<not> e) (snd (flt pos e xs)) = (fst (flt pos e xs), xs)"

context block_filter
begin

lemma block_code_step:
  assumes "k \<le> length xs" "block_code k f (pos + of_nat k) e (drop k xs) = (n, r)"
  shows "block_code k f pos e xs = (k + n, f pos e (take k xs) @ r)"
  using assms k_pos by (subst block_code.simps) auto

lemma block_code_short: "length xs < k \<Longrightarrow> block_code k f pos e xs = (0, xs)"
  by (subst block_code.simps) simp

lemma block_code_tail: "block_code k f pos e xs = (n, r) \<Longrightarrow> drop n r = drop n xs"
proof (induction "length xs" arbitrary: pos xs n r rule: less_induct)
  case less
  show ?case
  proof (cases "length xs < k")
    case True
    then show ?thesis using less.prems by (simp add: block_code_short)
  next
    case False
    obtain n1 r1 where r1: "block_code k f (pos + of_nat k) e (drop k xs) = (n1, r1)" by fastforce
    have "drop n1 r1 = drop n1 (drop k xs)" by (rule less.hyps [OF _ r1]) (use False k_pos in simp)
    moreover have "n = k + n1" "r = f pos e (take k xs) @ r1"
      using less.prems False block_code_step [OF _ r1] by simp_all
    ultimately show ?thesis using False length_f [of "take k xs" pos e] by (simp add: add.commute)
  qed
qed

lemma block_code_cut:
  "block_code k f pos e xs = (n, r) \<Longrightarrow> block_code k f (pos + of_nat n) e (drop n xs @ ys) = (n2, r2) \<Longrightarrow>
   block_code k f pos e (xs @ ys) = (n + n2, take n r @ r2)"
proof (induction "length xs" arbitrary: pos xs n r rule: less_induct)
  case less
  show ?case
  proof (cases "length xs < k")
    case True
    then show ?thesis using less.prems by (simp add: block_code_short)
  next
    case False
    obtain n1 r1 where r1: "block_code k f (pos + of_nat k) e (drop k xs) = (n1, r1)" by fastforce
    have n: "n = k + n1" "r = f pos e (take k xs) @ r1"
      using less.prems False block_code_step [OF _ r1] by simp_all
    have "block_code k f (pos + of_nat k) e (drop k xs @ ys) = (n1 + n2, take n1 r1 @ r2)"
    proof (rule less.hyps [OF _ r1])
      show "block_code k f (pos + of_nat k + of_nat n1) e (drop n1 (drop k xs) @ ys) = (n2, r2)"
        using less.prems(2) by (simp add: n(1) ac_simps)
    qed (use False k_pos in simp)
    then have "block_code k f pos e (xs @ ys) = (k + (n1 + n2), f pos e (take k xs) @ take n1 r1 @ r2)"
      using block_code_step [of "xs @ ys"] False by simp
    then show ?thesis using False length_f [of "take k xs" pos e] by (simp add: n)
  qed
qed

end

sublocale block_filter \<subseteq> simple: simple_filter "block_code k f" k al
proof
  show "length r = length xs \<and> n \<le> length xs \<and> length xs - n < k" if "block_code k f pos e xs = (n, r)" for pos e xs n r
    using that by (rule block_code_count)
  show "drop n r = drop n xs" if "block_code k f pos e xs = (n, r)" for pos e xs n r
    using that by (rule block_code_tail)
  show "block_code k f pos e (xs @ ys) = (n + n2, take n r @ r2)"
    if "block_code k f pos e xs = (n, r)" "block_code k f (pos + of_nat n) e (drop n xs @ ys) = (n2, r2)"
    for pos e xs n r ys n2 r2
    using that by (rule block_code_cut)
  show "block_code k f pos (\<not> e) (snd (block_code k f pos e xs)) = (fst (block_code k f pos e xs), xs)"
    if "take_bit al pos = 0" for pos e xs
    using that by (rule block_code_inverse)
qed

lemma drop4: "drop (4 + n) (a # b # c # d # xs) = drop n xs" and take4: "take (4 + n) (a # b # c # d # xs) = a # b # c # d # take n xs"
  and drop2: "drop (2 + n) (a # b # xs) = drop n xs" and take2: "take (2 + n) (a # b # xs) = a # b # take n xs"
  by (simp_all add: eval_nat_numeral)

lemmas drop_take_numeral = drop4 take4 drop2 take2

lemma armthumb_tail: "armthumb_code pos e xs = (n, r) \<Longrightarrow> drop n r = drop n xs"
proof (induction pos e xs arbitrary: n r rule: armthumb_code.induct)
  case (1 pos e b0 b1 b2 b3 rest)
  show ?case
  proof (cases "is_bl b1 b3")
    case True
    obtain n1 r1 where r: "armthumb_code (pos + 4) e rest = (n1, r1)" by fastforce
    show ?thesis using "1.IH"(1) [OF True refl refl refl, OF r] "1.prems" True r by (auto simp: Let_def thumb_bytes_def drop_take_numeral)
  next
    case False
    obtain n1 r1 where r: "armthumb_code (pos + 2) e (b2 # b3 # rest) = (n1, r1)" by fastforce
    show ?thesis using "1.IH"(2) [OF False, OF r] "1.prems" False r by (auto simp: Let_def drop_take_numeral)
  qed
qed auto

lemma armthumb_cut:
  "armthumb_code pos e xs = (n, r) \<Longrightarrow> armthumb_code (pos + of_nat n) e (drop n xs @ ys) = (n2, r2) \<Longrightarrow>
   armthumb_code pos e (xs @ ys) = (n + n2, take n r @ r2)"
proof (induction pos e xs arbitrary: n r rule: armthumb_code.induct)
  case (1 pos e b0 b1 b2 b3 rest)
  show ?case
  proof (cases "is_bl b1 b3")
    case True
    obtain n1 r1 where r: "armthumb_code (pos + 4) e rest = (n1, r1)" by fastforce
    have n: "n = 4 + n1" "\<exists>a b c d. r = a # b # c # d # r1" using "1.prems"(1) True r by (auto simp: Let_def thumb_bytes_def drop_take_numeral)
    have "armthumb_code (pos + 4) e (rest @ ys) = (n1 + n2, take n1 r1 @ r2)"
      by (rule "1.IH"(1) [OF True refl refl refl, OF r]) (use "1.prems"(2) n in \<open>simp add: add.assoc drop_take_numeral\<close>)
    then show ?thesis using True "1.prems"(1) r by (auto simp: Let_def thumb_bytes_def drop_take_numeral)
  next
    case False
    obtain n1 r1 where r: "armthumb_code (pos + 2) e (b2 # b3 # rest) = (n1, r1)" by fastforce
    have n: "n = 2 + n1" "r = b0 # b1 # r1" using "1.prems"(1) False r by (auto simp: Let_def drop_take_numeral)
    have "armthumb_code (pos + 2) e ((b2 # b3 # rest) @ ys) = (n1 + n2, take n1 r1 @ r2)"
      by (rule "1.IH"(2) [OF False, OF r]) (use "1.prems"(2) n in \<open>simp add: add.assoc drop_take_numeral\<close>)
    then show ?thesis using False n by (auto simp: Let_def drop_take_numeral)
  qed
qed auto

interpretation armthumb: simple_filter armthumb_code 4 1
  by unfold_locales (simp_all add: armthumb_count armthumb_tail armthumb_cut armthumb_inverse)

section \<open>Round trip\<close>

text \<open>
  C29: the branch converters for ARM, ARM-Thumb, PowerPC, SPARC and IA-64 are inverses of themselves:
  at a position with the alignment of the instruction set, decoding what was encoded, or encoding
  what was decoded, gives the buffer back and deals with the same number of bytes.
\<close>

theorem bcj_round_trip:
  assumes "take_bit 4 pos = 0"
  shows "arm_code pos (\<not> e) (snd (arm_code pos e buf)) = (fst (arm_code pos e buf), buf)
    \<and> armthumb_code pos (\<not> e) (snd (armthumb_code pos e buf)) = (fst (armthumb_code pos e buf), buf)
    \<and> powerpc_code pos (\<not> e) (snd (powerpc_code pos e buf)) = (fst (powerpc_code pos e buf), buf)
    \<and> sparc_code pos (\<not> e) (snd (sparc_code pos e buf)) = (fst (sparc_code pos e buf), buf)
    \<and> ia64_code pos (\<not> e) (snd (ia64_code pos e buf)) = (fst (ia64_code pos e buf), buf)"
proof -
  have low: "take_bit k pos = 0" if "k \<le> 4" for k
    using assms that by (metis min.absorb1 take_bit_of_0 take_bit_take_bit)
  show ?thesis
    unfolding arm_code_def powerpc_code_def sparc_code_def ia64_code_def
    using arm.simple.flt_inverse [OF low] armthumb.flt_inverse [OF low] powerpc.simple.flt_inverse [OF low]
      sparc.simple.flt_inverse [OF low] ia64.simple.flt_inverse [OF assms] by simp
qed

theorem bcj_round_trip_witness:
  "arm_code 16 False (snd (arm_code 16 True [1, 2, 3, 0xEB, 9])) = (4, [1, 2, 3, 0xEB, 9])"
proof -
  have "fst (arm_code 16 True [1, 2, 3, 0xEB, 9]) = 4" by (simp add: arm_code_def block_code.simps)
  then show ?thesis using bcj_round_trip [of 16 True "[1, 2, 3, 0xEB, 9]"] by simp
qed

end
