(* ===== verification/Delta.thy ===== *)
theory Delta
  imports Coder
begin

text \<open>
  The delta filter (\<open>delta/delta_common.c\<close>, \<open>delta_decoder.c\<close>, \<open>delta_encoder.c\<close>): the circular history
  that is filled backwards, the coders over the next coder of the chain, the properties field. The
  reference is subtraction of, and addition to, the byte \<open>dist\<close> positions back.
\<close>

section \<open>Data\<close>

record lzma_options_delta =
  delta_type :: u32
  dist :: u32

abbreviation (input) LZMA_DELTA_TYPE_BYTE :: u32 where "LZMA_DELTA_TYPE_BYTE \<equiv> 0"
abbreviation (input) LZMA_DELTA_DIST_MIN :: u32 where "LZMA_DELTA_DIST_MIN \<equiv> 1"
abbreviation (input) LZMA_DELTA_DIST_MAX :: u32 where "LZMA_DELTA_DIST_MAX \<equiv> 256"

text \<open>\<open>lzma_delta_coder\<close>; \<open>next\<close> is the state of the next coder.\<close>

record 'n lzma_delta_coder =
  delta_next :: 'n
  distance :: nat
  delta_pos :: u8
  history :: "u8 list"

section \<open>Operations\<close>

text \<open>\<open>sizeof_coder\<close> is \<open>sizeof(lzma_delta_coder)\<close>; a null pointer to options is \<open>None\<close>.\<close>

definition lzma_delta_coder_memusage :: "u64 \<Rightarrow> lzma_options_delta option \<Rightarrow> u64" where
  "lzma_delta_coder_memusage sizeof_coder opt =
     (case opt of None \<Rightarrow> 0xFFFFFFFFFFFFFFFF
      | Some opt \<Rightarrow>
          if delta_type opt \<noteq> LZMA_DELTA_TYPE_BYTE \<or> dist opt < LZMA_DELTA_DIST_MIN \<or> dist opt > LZMA_DELTA_DIST_MAX
          then 0xFFFFFFFFFFFFFFFF else sizeof_coder)"

text \<open>
  \<open>coder\<close> is what \<open>next->coder\<close> points to, allocated if it is null and memory is available (\<open>alloc\<close>), with
  \<open>LZMA_NEXT_CODER_INIT\<close> as its next coder; \<open>next_init\<close> is \<open>lzma_next_filter_init\<close> for the rest of the chain.
\<close>

definition lzma_delta_coder_init ::
    "u64 \<Rightarrow> bool \<Rightarrow> 'n \<Rightarrow> ('n \<Rightarrow> lzma_ret \<times> 'n) \<Rightarrow> lzma_options_delta option \<Rightarrow> 'n lzma_delta_coder option
     \<Rightarrow> lzma_ret \<times> 'n lzma_delta_coder option" where
  "lzma_delta_coder_init sizeof_coder alloc next_coder_init next_init options coder =
     (if coder = None \<and> \<not> alloc then (LZMA_MEM_ERROR, None)
      else let c = (case coder of Some c \<Rightarrow> c
               | None \<Rightarrow> \<lparr>delta_next = next_coder_init, distance = 0, delta_pos = 0, history = replicate 256 0\<rparr>)
      in if lzma_delta_coder_memusage sizeof_coder options = 0xFFFFFFFFFFFFFFFF then (LZMA_OPTIONS_ERROR, Some c)
      else let (ret, next) = next_init (delta_next c)
      in (ret, Some (c\<lparr>distance := (case options of None \<Rightarrow> 0 | Some opt \<Rightarrow> unat (dist opt)),
                       delta_pos := 0, history := replicate 256 0, delta_next := next\<rparr>)))"

text \<open>\<open>history[(distance + pos) & 0xFF]\<close>, and \<open>history[pos-- & 0xFF] = b\<close>.\<close>

definition delta_get :: "'n lzma_delta_coder \<Rightarrow> u8" where
  "delta_get coder = history coder ! ((distance coder + unat (delta_pos coder)) mod 256)"

definition delta_put :: "u8 \<Rightarrow> 'n lzma_delta_coder \<Rightarrow> 'n lzma_delta_coder" where
  "delta_put b coder = coder\<lparr>history := (history coder)[unat (delta_pos coder) := b], delta_pos := delta_pos coder - 1\<rparr>"

fun decode_buffer :: "'n lzma_delta_coder \<Rightarrow> u8 list \<Rightarrow> 'n lzma_delta_coder \<times> u8 list" where
  "decode_buffer coder [] = (coder, [])"
| "decode_buffer coder (b # buffer) =
     (let b = b + delta_get coder;
          (coder, buffer) = decode_buffer (delta_put b coder) buffer
      in (coder, b # buffer))"

fun copy_and_encode :: "'n lzma_delta_coder \<Rightarrow> u8 list \<Rightarrow> 'n lzma_delta_coder \<times> u8 list" where
  "copy_and_encode coder [] = (coder, [])"
| "copy_and_encode coder (b # inp) =
     (let tmp = delta_get coder;
          (coder, out) = copy_and_encode (delta_put b coder) inp
      in (coder, (b - tmp) # out))"

fun encode_in_place :: "'n lzma_delta_coder \<Rightarrow> u8 list \<Rightarrow> 'n lzma_delta_coder \<times> u8 list" where
  "encode_in_place coder [] = (coder, [])"
| "encode_in_place coder (b # buffer) =
     (let tmp = delta_get coder;
          (coder, buffer) = encode_in_place (delta_put b coder) buffer
      in (coder, (b - tmp) # buffer))"

text \<open>The coders; \<open>code\<close> is the code function of the next coder, \<open>None\<close> if there is none.\<close>

definition delta_decode :: "'n lzma_code_function \<Rightarrow> 'n lzma_delta_coder lzma_code_function" where
  "delta_decode code coder inp in_pos out out_pos action =
     (let (ret, next, in_pos, out, out_pos') = code (delta_next coder) inp in_pos out out_pos action;
          (coder, bs) = decode_buffer (coder\<lparr>delta_next := next\<rparr>) (take (out_pos' - out_pos) (drop out_pos out))
      in (ret, coder, in_pos, write_at out_pos bs out, out_pos'))"

definition delta_encode :: "'n lzma_code_function option \<Rightarrow> 'n lzma_delta_coder lzma_code_function" where
  "delta_encode code coder inp in_pos out out_pos action =
     (case code of
        None \<Rightarrow>
          let size = min (length inp - in_pos) (length out - out_pos);
              (coder, bs) = copy_and_encode coder (take size (drop in_pos inp));
              in_pos = in_pos + size
          in (if action \<noteq> LZMA_RUN \<and> in_pos = length inp then LZMA_STREAM_END else LZMA_OK,
              coder, in_pos, write_at out_pos bs out, out_pos + size)
      | Some code \<Rightarrow>
          let (ret, next, in_pos, out, out_pos') = code (delta_next coder) inp in_pos out out_pos action;
              (coder, bs) = encode_in_place (coder\<lparr>delta_next := next\<rparr>) (take (out_pos' - out_pos) (drop out_pos out))
          in (ret, coder, in_pos, write_at out_pos bs out, out_pos'))"

text \<open>The properties field of the filter; the allocator succeeds iff \<open>alloc\<close>.\<close>

definition lzma_delta_props_decode :: "bool \<Rightarrow> u8 list \<Rightarrow> lzma_ret \<times> lzma_options_delta option" where
  "lzma_delta_props_decode alloc props =
     (if length props \<noteq> 1 then (LZMA_OPTIONS_ERROR, None)
      else if \<not> alloc then (LZMA_MEM_ERROR, None)
      else (LZMA_OK, Some \<lparr>delta_type = LZMA_DELTA_TYPE_BYTE, dist = ucast (props ! 0) + 1\<rparr>))"

definition lzma_delta_props_encode :: "u64 \<Rightarrow> lzma_options_delta option \<Rightarrow> u8 list \<Rightarrow> lzma_ret \<times> u8 list" where
  "lzma_delta_props_encode sizeof_coder options out =
     (if lzma_delta_coder_memusage sizeof_coder options = 0xFFFFFFFFFFFFFFFF then (LZMA_PROG_ERROR, out)
      else (case options of None \<Rightarrow> (LZMA_PROG_ERROR, out)
            | Some opt \<Rightarrow> (LZMA_OK, out[0 := ucast (dist opt - LZMA_DELTA_DIST_MIN)])))"

section \<open>The history\<close>

text \<open>
  The coder has seen the original bytes \<open>xs\<close>: the byte \<open>k + 1\<close> positions back is found \<open>k + 1\<close> cells
  after \<open>pos\<close>, zeros before the start.
\<close>

definition byte_back :: "nat \<Rightarrow> u8 list \<Rightarrow> u8" where
  "byte_back d xs = (if d \<le> length xs then xs ! (length xs - d) else 0)"

definition delta_seen :: "u8 list \<Rightarrow> 'n lzma_delta_coder \<Rightarrow> bool" where
  "delta_seen xs coder \<longleftrightarrow> length (history coder) = 256
     \<and> (\<forall>d. 1 \<le> d \<and> d \<le> 256 \<longrightarrow> history coder ! ((d + unat (delta_pos coder)) mod 256) = byte_back d xs)"

lemma delta_get_back:
  "delta_seen xs coder \<Longrightarrow> 1 \<le> distance coder \<Longrightarrow> distance coder \<le> 256 \<Longrightarrow> delta_get coder = byte_back (distance coder) xs"
  by (simp add: delta_get_def delta_seen_def)

lemma back_snoc: "byte_back d (xs @ [b]) = (if d = 0 then byte_back 0 (xs @ [b]) else if d = 1 then b else byte_back (d - 1) xs)"
  by (auto simp: byte_back_def nth_append)

lemma unat_pred_mod: "(d + unat (p - 1 :: u8)) mod 256 = (d + unat p + 255) mod 256"
proof (cases "1 \<le> unat p")
  case True
  then have "d + unat p + 255 = (d + (unat p - 1)) + 256" by simp
  then have "(d + unat p + 255) mod 256 = (d + (unat p - 1)) mod 256" by (metis mod_add_self2)
  with True show ?thesis by (simp add: unat_sub_if')
next
  case False
  then show ?thesis by (simp add: unat_sub_if' ac_simps)
qed

lemma delta_put_seen:
  assumes "delta_seen xs coder"
  shows "delta_seen (xs @ [b]) (delta_put b coder)"
proof -
  let ?p = "unat (delta_pos coder)"
  have p: "?p < 256" using unsigned_less [of "delta_pos coder"] by simp
  have h: "length (history coder) = 256" using assms by (simp add: delta_seen_def)
  have "(history coder)[?p := b] ! ((d + ?p + 255) mod 256) = byte_back d (xs @ [b])" if d: "1 \<le> d" "d \<le> 256" for d
  proof (cases "d = 1")
    case True
    then show ?thesis using p h by (simp add: back_snoc)
  next
    case False
    with d have e: "(d + ?p + 255) mod 256 = (d - 1 + ?p) mod 256" by (simp add: mod_if)
    have "(d - 1 + ?p) mod 256 \<noteq> ?p" using d False p by (auto simp: mod_if split: if_splits)
    moreover have "history coder ! ((d - 1 + ?p) mod 256) = byte_back (d - 1) xs"
      using assms d False unfolding delta_seen_def by (metis One_nat_def Suc_leI diff_le_self le_trans nat_less_le zero_less_diff)
    ultimately show ?thesis using d False by (simp only: e) (simp add: back_snoc)
  qed
  then show ?thesis using h by (simp add: delta_seen_def delta_put_def unat_pred_mod)
qed

section \<open>Reference\<close>

text \<open>The filter on a whole message: subtract, or add, the original byte \<open>d\<close> positions back.\<close>

definition delta_spec :: "nat \<Rightarrow> u8 list \<Rightarrow> u8 list" where
  "delta_spec d xs = map (\<lambda>i. xs ! i - (if d \<le> i then xs ! (i - d) else 0)) [0..<length xs]"

lemma delta_put_simps [simp]: "distance (delta_put b coder) = distance coder" "delta_next (delta_put b coder) = delta_next coder"
  by (simp_all add: delta_put_def)

lemma encode_in_place_eq: "encode_in_place coder buf = copy_and_encode coder buf"
  by (induction coder buf rule: encode_in_place.induct) simp_all

lemma copy_and_encode_snoc:
  "copy_and_encode coder (xs @ ys) =
     (case copy_and_encode coder xs of (coder, out) \<Rightarrow> case copy_and_encode coder ys of (coder, out') \<Rightarrow> (coder, out @ out'))"
  by (induction coder xs rule: copy_and_encode.induct) (simp_all add: Let_def split: prod.splits)

text \<open>Encoding and decoding keep the history of original bytes; one undoes the other.\<close>

lemma decode_encode:
  "copy_and_encode coder xs = (coder', out) \<Longrightarrow> decode_buffer coder out = (coder', xs)"
  by (induction coder xs arbitrary: coder' out rule: copy_and_encode.induct) (auto simp: Let_def split: prod.splits)

lemma encode_decode:
  "decode_buffer coder out = (coder', xs) \<Longrightarrow> copy_and_encode coder xs = (coder', out)"
  by (induction coder out arbitrary: coder' xs rule: decode_buffer.induct) (auto simp: Let_def split: prod.splits)

lemma copy_and_encode_seen:
  assumes "delta_seen seen coder" "1 \<le> distance coder" "distance coder \<le> 256"
  shows "\<exists>coder'. copy_and_encode coder xs = (coder', drop (length seen) (delta_spec (distance coder) (seen @ xs)))
     \<and> delta_seen (seen @ xs) coder' \<and> distance coder' = distance coder"
  using assms
proof (induction xs arbitrary: seen coder)
  case Nil
  then show ?case by (simp add: delta_spec_def)
next
  case (Cons b xs)
  obtain coder' where c: "copy_and_encode (delta_put b coder) xs
      = (coder', drop (length (seen @ [b])) (delta_spec (distance coder) ((seen @ [b]) @ xs)))"
    "delta_seen ((seen @ [b]) @ xs) coder'" "distance coder' = distance coder"
    using Cons.IH [of "seen @ [b]" "delta_put b coder"] Cons.prems delta_put_seen by auto
  have "delta_spec (distance coder) (seen @ b # xs) ! length seen = b - delta_get coder"
    using Cons.prems by (auto simp: delta_spec_def delta_get_back byte_back_def nth_append)
  moreover have "drop (length seen) (delta_spec (distance coder) (seen @ b # xs))
      = delta_spec (distance coder) (seen @ b # xs) ! length seen
        # drop (length (seen @ [b])) (delta_spec (distance coder) (seen @ b # xs))"
    using Cons_nth_drop_Suc [of "length seen" "delta_spec (distance coder) (seen @ b # xs)"]
    by (simp add: delta_spec_def)
  ultimately show ?case using c by (simp add: Let_def)
qed

lemma lzma_delta_coder_init_seen:
  assumes "lzma_delta_coder_init sizeof_coder alloc nc next_init options coder0 = (LZMA_OK, Some coder)"
  shows "\<exists>opt. options = Some opt \<and> delta_seen [] coder \<and> 1 \<le> distance coder \<and> distance coder \<le> 256
     \<and> distance coder = unat (dist opt)"
  using assms
  by (auto simp: lzma_delta_coder_init_def lzma_delta_coder_memusage_def delta_seen_def byte_back_def Let_def
      word_less_nat_alt word_le_nat_alt not_less split: option.splits if_splits prod.splits)

text \<open>
  Over any cut of the input into pieces the encoder's loop computes the difference, and the decoder's
  loop undoes it: decoding the pieces gives the input back and leaves both in the same state.
\<close>

lemma delta_pieces:
  fixes xs ys :: "u8 list"
  assumes "delta_seen [] coder" "1 \<le> distance coder" "distance coder \<le> 256"
  shows "\<exists>c1 c2 out1 out2. copy_and_encode coder xs = (c1, out1) \<and> copy_and_encode c1 ys = (c2, out2)
     \<and> out1 @ out2 = delta_spec (distance coder) (xs @ ys)
     \<and> decode_buffer coder out1 = (c1, xs) \<and> decode_buffer c1 out2 = (c2, ys)
     \<and> encode_in_place coder (xs @ ys) = (c2, out1 @ out2)"
proof -
  obtain c1 out1 where 1: "copy_and_encode coder xs = (c1, out1)" by fastforce
  obtain c2 out2 where 2: "copy_and_encode c1 ys = (c2, out2)" by fastforce
  have 3: "copy_and_encode coder (xs @ ys) = (c2, out1 @ out2)" by (simp add: copy_and_encode_snoc 1 2)
  moreover have "out1 @ out2 = delta_spec (distance coder) (xs @ ys)"
    using copy_and_encode_seen [of "[]" coder "xs @ ys"] assms 3 by auto
  ultimately show ?thesis
    using 1 2 by (auto simp: encode_in_place_eq decode_encode)
qed

section \<open>The coders keep the contract\<close>

lemma length_decode_buffer: "decode_buffer coder bs = (coder', out) \<Longrightarrow> length out = length bs"
  by (induction coder bs arbitrary: coder' out rule: decode_buffer.induct) (auto simp: Let_def split: prod.splits)

lemma length_copy_and_encode: "copy_and_encode coder bs = (coder', out) \<Longrightarrow> length out = length bs"
  by (induction coder bs arbitrary: coder' out rule: copy_and_encode.induct) (auto simp: Let_def split: prod.splits)

lemma decode_buffer_next: "delta_next (fst (decode_buffer coder bs)) = delta_next coder"
  by (induction coder bs rule: decode_buffer.induct) (simp_all add: Let_def split_def)

lemma coder_io_rewrite:
  assumes "coder_io inp in_pos out out_pos in_pos' out' out_pos'" "length bs = out_pos' - out_pos"
  shows "coder_io inp in_pos out out_pos in_pos' (write_at out_pos bs out') out_pos'"
  using assms by (auto simp: coder_io_def write_at_def)

lemma delta_decode_contract:
  assumes "coder_contract code ok"
  shows "coder_contract (delta_decode code) (\<lambda>coder. ok (delta_next coder))"
  unfolding coder_contract_def
proof (intro allI impI, elim conjE)
  fix coder inp in_pos out out_pos action ret coder' in_pos' out' out_pos'
  assume ok: "ok (delta_next coder)" and p: "in_pos \<le> length inp" "out_pos \<le> length out"
    and d: "delta_decode code coder inp in_pos out out_pos action = (ret, coder', in_pos', out', out_pos')"
  obtain n out1 where c: "code (delta_next coder) inp in_pos out out_pos action = (ret, n, in_pos', out1, out_pos')"
    using d by (auto simp: delta_decode_def Let_def split: prod.splits)
  then have io: "coder_io inp in_pos out out_pos in_pos' out1 out_pos'" "ok n" "ret \<noteq> LZMA_TIMED_OUT"
    using assms ok p unfolding coder_contract_def by blast+
  obtain bs where b: "decode_buffer (coder\<lparr>delta_next := n\<rparr>) (take (out_pos' - out_pos) (drop out_pos out1)) = (coder', bs)"
    "out' = write_at out_pos bs out1"
    using d c by (auto simp: delta_decode_def Let_def split: prod.splits)
  have "length bs = out_pos' - out_pos" using length_decode_buffer [OF b(1)] io(1) by (auto simp: coder_io_def)
  then show "coder_io inp in_pos out out_pos in_pos' out' out_pos' \<and> ok (delta_next coder') \<and> ret \<noteq> LZMA_TIMED_OUT"
    using coder_io_rewrite [OF io(1)] io(2,3) decode_buffer_next [of "coder\<lparr>delta_next := n\<rparr>"] b by (metis fst_conv lzma_delta_coder.select_convs(1) lzma_delta_coder.surjective lzma_delta_coder.update_convs(1))
qed

lemma delta_encode_contract: "coder_contract (delta_encode None) (\<lambda>_. True)"
  by (auto simp: coder_contract_def delta_encode_def Let_def coder_io_def write_at_def
      dest: length_copy_and_encode split: prod.splits if_splits)

section \<open>Runs of the coders\<close>

lemma delta_spec_prefix: "take (length xs) (delta_spec d (xs @ ys)) = delta_spec d xs"
  by (rule nth_equalityI) (auto simp: delta_spec_def nth_append)

lemma delta_spec_more: "delta_spec d (xs @ ys) = delta_spec d xs @ drop (length xs) (delta_spec d (xs @ ys))"
  using append_take_drop_id [of "length xs" "delta_spec d (xs @ ys)"] by (simp only: delta_spec_prefix)

lemma length_delta_spec [simp]: "length (delta_spec d xs) = length xs"
  by (simp add: delta_spec_def)

text \<open>The differences determine the data.\<close>

lemma delta_spec_inj:
  assumes "1 \<le> d" "d \<le> 256" "delta_spec d xs = delta_spec d ys"
  shows "xs = ys"
proof -
  define c :: "unit lzma_delta_coder" where "c = \<lparr>delta_next = (), distance = d, delta_pos = 0, history = replicate 256 0\<rparr>"
  have c: "delta_seen [] c" "1 \<le> distance c" "distance c \<le> 256"
    using assms(1,2) by (simp_all add: c_def delta_seen_def byte_back_def)
  have d: "distance c = d" by (simp add: c_def)
  have "snd (decode_buffer c (delta_spec d zs)) = zs" for zs
  proof -
    obtain c' where "copy_and_encode c zs = (c', delta_spec d zs)"
      using copy_and_encode_seen [OF c, of zs] by (auto simp: d)
    from decode_encode [OF this] show ?thesis by simp
  qed
  with assms(3) show ?thesis by metis
qed

text \<open>
  A coder that has seen the original bytes \<open>seen\<close>, with distance \<open>d\<close>. One call of each coder: the new
  original bytes are those the decoder wrote, or the encoder was given.
\<close>

definition delta_at :: "nat \<Rightarrow> u8 list \<Rightarrow> 'n lzma_delta_coder \<Rightarrow> bool" where
  "delta_at d seen coder \<longleftrightarrow> delta_seen seen coder \<and> distance coder = d \<and> 1 \<le> d \<and> d \<le> 256"

lemma delta_at_next [simp]: "delta_at d seen (coder\<lparr>delta_next := n\<rparr>) = delta_at d seen coder"
  by (simp add: delta_at_def delta_seen_def)

lemma delta_at_encode:
  assumes "delta_at d seen coder" "copy_and_encode coder bs = (coder', zs)"
  shows "delta_at d (seen @ bs) coder'" "delta_spec d (seen @ bs) = delta_spec d seen @ zs"
    "delta_next coder' = delta_next coder"
proof -
  obtain c where c: "copy_and_encode coder bs = (c, drop (length seen) (delta_spec d (seen @ bs)))"
    "delta_seen (seen @ bs) c" "distance c = d"
    using copy_and_encode_seen [of seen coder bs] assms(1) by (auto simp: delta_at_def)
  then have e: "c = coder'" "zs = drop (length seen) (delta_spec d (seen @ bs))" using assms(2) by simp_all
  show "delta_at d (seen @ bs) coder'" using c e assms(1) by (simp add: delta_at_def)
  show "delta_spec d (seen @ bs) = delta_spec d seen @ zs" unfolding e(2) by (rule delta_spec_more)
  show "delta_next coder' = delta_next coder"
    using decode_buffer_next [of coder zs] decode_encode [OF assms(2)] by simp
qed

lemma delta_at_decode:
  assumes "delta_at d seen coder" "decode_buffer coder zs = (coder', bs)"
  shows "delta_at d (seen @ bs) coder'" "delta_spec d (seen @ bs) = delta_spec d seen @ zs"
    "delta_next coder' = delta_next coder"
  using delta_at_encode [OF assms(1) encode_decode [OF assms(2)]] by simp_all

lemma segment_rewrite:
  assumes "coder_io inp in_pos out out_pos in_pos' out' out_pos'" "length bs = out_pos' - out_pos"
  shows "segment out_pos out_pos' (write_at out_pos bs out') = bs"
  using assms segment_write_same [of out_pos bs out'] by (auto simp: coder_io_def)

lemma delta_decode_step:
  assumes "coder_contract code ok" "ok (delta_next coder)" "in_pos \<le> length inp" "out_pos \<le> length out" "delta_at d seen coder"
    and run: "delta_decode code coder inp in_pos out out_pos action = (ret, coder', in_pos', out', out_pos')"
  shows "\<exists>zs. coder_run code (delta_next coder) (segment in_pos in_pos' inp) zs (delta_next coder') ret \<and> ok (delta_next coder')
     \<and> delta_at d (seen @ segment out_pos out_pos' out') coder'
     \<and> delta_spec d (seen @ segment out_pos out_pos' out') = delta_spec d seen @ zs"
proof -
  obtain n out1 where c: "code (delta_next coder) inp in_pos out out_pos action = (ret, n, in_pos', out1, out_pos')"
    using run by (auto simp: delta_decode_def Let_def split: prod.splits)
  have io: "coder_io inp in_pos out out_pos in_pos' out1 out_pos'" "ok n"
    using assms(1-4) c unfolding coder_contract_def by blast+
  define zs where "zs = segment out_pos out_pos' out1"
  obtain bs where b: "decode_buffer (coder\<lparr>delta_next := n\<rparr>) zs = (coder', bs)" "out' = write_at out_pos bs out1"
    using run c by (auto simp: delta_decode_def Let_def zs_def segment_def split: prod.splits)
  have "length bs = out_pos' - out_pos" using length_decode_buffer [OF b(1)] io(1) by (simp add: zs_def coder_io_def)
  then have w: "segment out_pos out_pos' out' = bs" unfolding b(2) by (rule segment_rewrite [OF io(1)])
  have "delta_at d seen (coder\<lparr>delta_next := n\<rparr>)" using assms(5) by simp
  note at = delta_at_decode [OF this b(1)]
  have "coder_run code (delta_next coder) (segment in_pos in_pos' inp) zs n ret"
    unfolding zs_def by (rule coder_run_once [where code = code, OF c assms(3,4)])
  then show ?thesis using at io(2) by (intro exI [of _ zs]) (simp add: w)
qed

lemma delta_encode_step:
  assumes "coder_contract code ok" "ok (delta_next coder)" "in_pos \<le> length inp" "out_pos \<le> length out" "delta_at d seen coder"
    and run: "delta_encode (Some code) coder inp in_pos out out_pos action = (ret, coder', in_pos', out', out_pos')"
  shows "\<exists>zs. coder_run code (delta_next coder) (segment in_pos in_pos' inp) zs (delta_next coder') ret \<and> ok (delta_next coder')
     \<and> delta_at d (seen @ zs) coder' \<and> delta_spec d (seen @ zs) = delta_spec d seen @ segment out_pos out_pos' out'"
proof -
  obtain n out1 where c: "code (delta_next coder) inp in_pos out out_pos action = (ret, n, in_pos', out1, out_pos')"
    using run by (auto simp: delta_encode_def Let_def split: prod.splits)
  have io: "coder_io inp in_pos out out_pos in_pos' out1 out_pos'" "ok n"
    using assms(1-4) c unfolding coder_contract_def by blast+
  define zs where "zs = segment out_pos out_pos' out1"
  obtain bs where b: "copy_and_encode (coder\<lparr>delta_next := n\<rparr>) zs = (coder', bs)" "out' = write_at out_pos bs out1"
    using run c by (auto simp: delta_encode_def encode_in_place_eq Let_def zs_def segment_def split: prod.splits)
  have "length bs = out_pos' - out_pos" using length_copy_and_encode [OF b(1)] io(1) by (simp add: zs_def coder_io_def)
  then have w: "segment out_pos out_pos' out' = bs" unfolding b(2) by (rule segment_rewrite [OF io(1)])
  have "delta_at d seen (coder\<lparr>delta_next := n\<rparr>)" using assms(5) by simp
  note at = delta_at_encode [OF this b(1)]
  have "coder_run code (delta_next coder) (segment in_pos in_pos' inp) zs n ret"
    unfolding zs_def by (rule coder_run_once [where code = code, OF c assms(3,4)])
  then show ?thesis using at io(2) by (intro exI [of _ zs]) (simp add: w)
qed

lemma delta_encode_last_step:
  assumes "in_pos \<le> length inp" "out_pos \<le> length out" "delta_at d seen coder"
    and run: "delta_encode None coder inp in_pos out out_pos action = (ret, coder', in_pos', out', out_pos')"
  shows "delta_at d (seen @ segment in_pos in_pos' inp) coder'"
    "delta_spec d (seen @ segment in_pos in_pos' inp) = delta_spec d seen @ segment out_pos out_pos' out'"
    "ret = (if action \<noteq> LZMA_RUN \<and> in_pos' = length inp then LZMA_STREAM_END else LZMA_OK)"
    "in_pos' = length inp \<or> out_pos' = length out"
proof -
  let ?n = "min (length inp - in_pos) (length out - out_pos)"
  obtain bs where b: "copy_and_encode coder (segment in_pos (in_pos + ?n) inp) = (coder', bs)"
    "in_pos' = in_pos + ?n" "out_pos' = out_pos + ?n" "out' = write_at out_pos bs out"
    "ret = (if action \<noteq> LZMA_RUN \<and> in_pos + ?n = length inp then LZMA_STREAM_END else LZMA_OK)"
    using run by (auto simp: delta_encode_def Let_def segment_def split: prod.splits)
  note at = delta_at_encode [OF assms(3) b(1)]
  have "length bs = ?n" using length_copy_and_encode [OF b(1)] assms(1) by simp
  then have w: "segment out_pos out_pos' out' = bs"
    using segment_write_same [of out_pos bs out] assms(2) by (simp add: b(3,4))
  show "delta_at d (seen @ segment in_pos in_pos' inp) coder'" using at(1) by (simp only: b(2))
  show "delta_spec d (seen @ segment in_pos in_pos' inp) = delta_spec d seen @ segment out_pos out_pos' out'"
    using at(2) by (simp only: b(2) w)
  show "ret = (if action \<noteq> LZMA_RUN \<and> in_pos' = length inp then LZMA_STREAM_END else LZMA_OK)" using b(2,5) by simp
  show "in_pos' = length inp \<or> out_pos' = length out" using assms(1,2) unfolding b(2,3) by linarith
qed

lemma delta_decode_run:
  assumes "coder_contract code ok" "ok (delta_next coder)" "delta_at d [] coder"
    and run: "coder_run (delta_decode code) coder xs ys coder' ret"
  shows "ok (delta_next coder') \<and> delta_at d ys coder'
     \<and> coder_run code (delta_next coder) xs (delta_spec d ys) (delta_next coder') ret"
  using run
proof (induction rule: coder_run.induct)
  case run_start
  then show ?case using assms(2,3) coder_run.run_start by (simp add: delta_spec_def)
next
  case (run_call xs ys c1 inp in_pos out out_pos action ret c2 in_pos' out' out_pos')
  then obtain zs where "coder_run code (delta_next c1) (segment in_pos in_pos' inp) zs (delta_next c2) ret" "ok (delta_next c2)"
    "delta_at d (ys @ segment out_pos out_pos' out') c2"
    "delta_spec d (ys @ segment out_pos out_pos' out') = delta_spec d ys @ zs"
    using delta_decode_step [OF assms(1) _ run_call.hyps(3,4)] by blast
  with run_call.IH show ?case using coder_run_trans by metis
qed

lemma delta_encode_run:
  assumes "coder_contract code ok" "ok (delta_next coder)" "delta_at d [] coder"
    and run: "coder_run (delta_encode (Some code)) coder xs ys coder' ret"
  shows "\<exists>zs. ok (delta_next coder') \<and> delta_at d zs coder' \<and> ys = delta_spec d zs
     \<and> coder_run code (delta_next coder) xs zs (delta_next coder') ret"
  using run
proof (induction rule: coder_run.induct)
  case run_start
  then show ?case using assms(2,3) coder_run.run_start by (intro exI [of _ "[]"]) (simp add: delta_spec_def)
next
  case (run_call xs ys c1 inp in_pos out out_pos action ret c2 in_pos' out' out_pos')
  then obtain z0 where z0: "ok (delta_next c1)" "delta_at d z0 c1" "ys = delta_spec d z0"
    "coder_run code (delta_next coder) xs z0 (delta_next c1) LZMA_OK" by blast
  obtain zs where zs: "coder_run code (delta_next c1) (segment in_pos in_pos' inp) zs (delta_next c2) ret" "ok (delta_next c2)"
    "delta_at d (z0 @ zs) c2" "delta_spec d (z0 @ zs) = delta_spec d z0 @ segment out_pos out_pos' out'"
    using delta_encode_step [OF assms(1) z0(1) run_call.hyps(3,4) z0(2) run_call.hyps(2)] by blast
  show ?case
    using zs z0(3) coder_run_trans [OF zs(1) z0(4)] by (intro exI [of _ "z0 @ zs"]) simp
qed

lemma delta_encode_last_run:
  assumes "delta_at d [] coder" and run: "coder_run (delta_encode None) coder xs ys coder' ret"
  shows "delta_at d xs coder' \<and> ys = delta_spec d xs"
  using run
proof (induction rule: coder_run.induct)
  case run_start
  then show ?case using assms(1) by (simp add: delta_spec_def)
next
  case (run_call xs ys c1 inp in_pos out out_pos action ret c2 in_pos' out' out_pos')
  then show ?case using delta_encode_last_step(1,2) [OF run_call.hyps(3,4) _ run_call.hyps(2)] by simp
qed

lemma copy_coder_run: "coder_run copy_coder c xs ys c' ret \<Longrightarrow> ys = xs"
proof (induction rule: coder_run.induct)
  case (run_call xs ys c1 inp in_pos out out_pos action ret c2 in_pos' out' out_pos')
  then have "lzma_bufcpy inp in_pos out out_pos = (in_pos', out', out_pos')"
    by (auto simp: copy_coder_def split: prod.splits)
  from lzma_bufcpy_segment(2) [OF this run_call.hyps(3,4)] run_call.IH show ?case by simp
qed simp

section \<open>Properties\<close>

text \<open>
  C32: the delta coders. Over any sequence of calls from a freshly initialised coder with accepted
  options, the decoder writes data of which the next coder wrote the difference to the byte \<open>dist\<close>
  positions back, and nothing else has that difference; the encoder writes the difference of what
  the next coder wrote, or, at the end of the chain, of its input. Each returns what the next coder
  returns; the encoder at the end of the chain stops only at the end of the input or of the room,
  and ends the stream exactly when all input is taken under an action other than \<open>LZMA_RUN\<close>.
\<close>

theorem delta_filter:
  assumes "lzma_delta_coder_init sizeof_coder alloc nc next_init (Some opt) coder0 = (LZMA_OK, Some coder)"
    and "coder_contract code ok" "ok (delta_next coder)"
  shows "(\<forall>xs ys coder' ret. coder_run (delta_decode code) coder xs ys coder' ret \<longrightarrow>
        (\<exists>zs. coder_run code (delta_next coder) xs zs (delta_next coder') ret
           \<and> {ws. delta_spec (unat (dist opt)) ws = zs} = {ys}))
    \<and> (\<forall>xs ys coder' ret. coder_run (delta_encode (Some code)) coder xs ys coder' ret \<longrightarrow>
        (\<exists>zs. coder_run code (delta_next coder) xs zs (delta_next coder') ret \<and> ys = delta_spec (unat (dist opt)) zs))
    \<and> (\<forall>xs ys coder' ret. coder_run (delta_encode None) coder xs ys coder' ret \<longrightarrow> ys = delta_spec (unat (dist opt)) xs)
    \<and> (\<forall>inp in_pos out out_pos action ret coder' in_pos' out' out_pos'.
        in_pos \<le> length inp \<longrightarrow> out_pos \<le> length out \<longrightarrow>
        delta_encode None coder inp in_pos out out_pos action = (ret, coder', in_pos', out', out_pos') \<longrightarrow>
        (in_pos' = length inp \<or> out_pos' = length out)
        \<and> ret = (if action \<noteq> LZMA_RUN \<and> in_pos' = length inp then LZMA_STREAM_END else LZMA_OK))"
proof -
  let ?d = "unat (dist opt)"
  have at: "delta_at ?d [] coder" using lzma_delta_coder_init_seen [OF assms(1)] by (auto simp: delta_at_def)
  then have inj: "{ws. delta_spec ?d ws = delta_spec ?d ys} = {ys}" for ys
    using delta_spec_inj [of ?d _ ys] by (auto simp: delta_at_def)
  show ?thesis
    using delta_decode_run [OF assms(2,3) at] delta_encode_run [OF assms(2,3) at] delta_encode_last_run [OF at]
      delta_encode_last_step(3,4) [OF _ _ at] inj by (intro conjI allI impI) metis+
qed

text \<open>Distance 2: the encoder on \<open>[5, 6, 8]\<close>, and the decoder over the coder that copies.\<close>

theorem delta_filter_witness:
  "let coder = \<lparr>delta_next = (), distance = 2, delta_pos = 0, history = replicate 256 0\<rparr> in
   (\<exists>coder'. coder_run (delta_encode None) coder [5, 6, 8] [5, 6, 3] coder' LZMA_STREAM_END)
   \<and> (\<exists>coder'. coder_run (delta_decode copy_coder) coder [5, 6, 3] [5, 6, 8] coder' LZMA_OK
        \<and> coder_run copy_coder () [5, 6, 3] (delta_spec 2 [5, 6, 8]) () LZMA_OK)"
proof -
  let ?c = "\<lparr>delta_next = (), distance = 2, delta_pos = 0, history = replicate 256 0\<rparr>"
  have init: "lzma_delta_coder_init 1 True () (\<lambda>n. (LZMA_OK, n)) (Some \<lparr>delta_type = 0, dist = 2\<rparr>) None = (LZMA_OK, Some ?c)"
    by (simp add: lzma_delta_coder_init_def lzma_delta_coder_memusage_def)
  note runs = delta_filter [OF init copy_coder_contract TrueI]
  obtain r1 e1 n1 o1 m1 where e: "delta_encode None ?c [5, 6, 8] 0 [0, 0, 0] 0 LZMA_FINISH = (r1, e1, n1, o1, m1)"
    by (metis prod_cases5)
  obtain r2 e2 n2 o2 m2 where d: "delta_decode copy_coder ?c [5, 6, 3] 0 [0, 0, 0] 0 LZMA_FINISH = (r2, e2, n2, o2, m2)"
    by (metis prod_cases5)
  have e': "r1 = LZMA_STREAM_END" "n1 = 3" "m1 = 3"
    using e by (auto simp: delta_encode_def Let_def split: prod.splits)
  have d': "r2 = LZMA_OK" "n2 = 3" "m2 = 3"
    using d by (auto simp: delta_decode_def copy_coder_def lzma_bufcpy_def Let_def split: prod.splits)
  have ol: "length o1 = 3" "length o2 = 3"
  proof -
    show "length o1 = 3" using e by (auto simp: delta_encode_def Let_def length_copy_and_encode length_write_at split: prod.splits)
    show "length o2 = 3" using d
      by (auto simp: delta_decode_def copy_coder_def lzma_bufcpy_def Let_def length_write_at split: prod.splits dest!: length_decode_buffer)
  qed
  have E: "coder_run (delta_encode None) ?c [5, 6, 8] o1 e1 LZMA_STREAM_END"
    using coder_run_once [where code = "delta_encode None", OF e] e' ol by (simp add: segment_def)
  have D: "coder_run (delta_decode copy_coder) ?c [5, 6, 3] o2 e2 LZMA_OK"
    using coder_run_once [where code = "delta_decode copy_coder", OF d] d' ol by (simp add: segment_def)
  have spec: "delta_spec 2 [5, 6, 8] = [5, 6, 3]" by (simp add: delta_spec_def upt_rec)
  have 1: "o1 = [5, 6, 3]" using conjunct1 [OF conjunct2 [OF conjunct2 [OF runs]]] E spec by fastforce
  obtain zs where zs: "coder_run copy_coder () [5, 6, 3] zs () LZMA_OK" "{ws. delta_spec 2 ws = zs} = {o2}"
    using conjunct1 [OF runs, rule_format, OF D] by auto
  have z: "zs = [5, 6, 3]" using copy_coder_run [OF zs(1)] .
  have "[5, 6, 8] \<in> {ws. delta_spec 2 ws = zs}" unfolding z using spec by (rule CollectI)
  then have 2: "o2 = [5, 6, 8]" unfolding zs(2) by simp
  have zs': "coder_run copy_coder () [5, 6, 3] (delta_spec 2 [5, 6, 8]) () LZMA_OK"
    unfolding spec using zs(1) unfolding z .
  show ?thesis unfolding Let_def using E [unfolded 1] D [unfolded 2] zs' by blast
qed

interpretation delta_enc: coder_fn "delta_encode None" "\<lambda>_. True"
  by unfold_locales (rule delta_encode_contract)

interpretation delta_dec: coder_fn "delta_decode copy_coder" "\<lambda>_. True"
  by unfold_locales (use delta_decode_contract [OF copy_coder_contract] in simp)

end
