(* ===== verification/Simple_Streams.thy ===== *)
theory Simple_Streams
  imports Simple_Coder Delta
begin

text \<open>
  The coder around a branch converter over any sequence of calls: its output is the converter applied
  to the whole data, and it stays inside its buffers.
\<close>

section \<open>The next coder\<close>

definition next_ok :: "'n lzma_code_function option \<Rightarrow> ('n \<Rightarrow> bool) \<Rightarrow> bool" where
  "next_ok code ok \<longleftrightarrow> (case code of None \<Rightarrow> True | Some code \<Rightarrow> coder_contract code ok)"

text \<open>
  Between the states \<open>c\<close> and \<open>c'\<close> of the coder the input \<open>xs\<close> was consumed and the data \<open>d\<close> supplied: by
  calls of the next coder, the last of which ended the stream if \<open>c'\<close> says so, or by the input itself
  if there is no next coder. After the end nothing is consumed or supplied.
\<close>

definition supplied ::
  "'n lzma_code_function option \<Rightarrow> 'n lzma_simple_coder \<Rightarrow> u8 list \<Rightarrow> u8 list \<Rightarrow> 'n lzma_simple_coder \<Rightarrow> bool" where
  "supplied code c xs d c' \<longleftrightarrow>
     (if end_was_reached c then xs = [] \<and> d = [] \<and> sc_next c' = sc_next c \<and> end_was_reached c'
      else case code of
        None \<Rightarrow> d = xs \<and> sc_next c' = sc_next c \<and> (end_was_reached c' \<longrightarrow> is_encoder c)
      | Some f \<Rightarrow> coder_run f (sc_next c) xs d (sc_next c') (if end_was_reached c' then LZMA_STREAM_END else LZMA_OK))"

lemma supplied_refl: "supplied code c [] [] c"
  by (auto simp: supplied_def coder_run.run_start split: option.split)

lemma supplied_same:
  "sc_next c0 = sc_next c \<Longrightarrow> end_was_reached c0 = end_was_reached c \<Longrightarrow> is_encoder c0 = is_encoder c \<Longrightarrow>
   supplied code c0 xs d c' = supplied code c xs d c'"
  "sc_next c1 = sc_next c' \<Longrightarrow> end_was_reached c1 = end_was_reached c' \<Longrightarrow>
   supplied code c xs d c1 = supplied code c xs d c'"
  by (simp_all add: supplied_def split: option.split)

lemma supplied_trans:
  assumes "supplied code c xs d c1" "supplied code c1 xs' d' c2" "is_encoder c1 = is_encoder c"
  shows "supplied code c (xs @ xs') (d @ d') c2"
proof (cases "end_was_reached c1")
  case True
  with assms show ?thesis by (auto simp: supplied_def split: if_splits option.splits)
next
  case False
  then have nf: "\<not> end_was_reached c" using assms(1) by (auto simp: supplied_def)
  show ?thesis
  proof (cases code)
    case None
    with False nf assms show ?thesis by (simp add: supplied_def)
  next
    case (Some f)
    then have "coder_run f (sc_next c) xs d (sc_next c1) LZMA_OK"
      "coder_run f (sc_next c1) xs' d' (sc_next c2) (if end_was_reached c2 then LZMA_STREAM_END else LZMA_OK)"
      using False nf assms(1,2) by (simp_all add: supplied_def)
    from coder_run_trans [OF this(2,1)] show ?thesis using Some nf by (simp add: supplied_def)
  qed
qed

lemma copy_or_code_io:
  assumes "next_ok code ok" "ok (sc_next c)" "in_pos \<le> length inp" "out_pos \<le> length out"
    "copy_or_code code c inp in_pos out out_pos action = (ret, c', in_pos', out', out_pos')"
  shows "coder_io inp in_pos out out_pos in_pos' out' out_pos'" "ok (sc_next c')"
    "ret \<noteq> LZMA_TIMED_OUT" "ret \<noteq> LZMA_STREAM_END"
    "ret = LZMA_OK \<Longrightarrow> \<not> end_was_reached c \<Longrightarrow> supplied code c (segment in_pos in_pos' inp) (segment out_pos out_pos' out') c'"
    "c' = c\<lparr>sc_next := sc_next c', end_was_reached := end_was_reached c'\<rparr>"
proof -
  have "coder_io inp in_pos out out_pos in_pos' out' out_pos' \<and> ok (sc_next c') \<and> ret \<noteq> LZMA_TIMED_OUT
      \<and> ret \<noteq> LZMA_STREAM_END
      \<and> (ret = LZMA_OK \<longrightarrow> \<not> end_was_reached c \<longrightarrow> supplied code c (segment in_pos in_pos' inp) (segment out_pos out_pos' out') c')
      \<and> c' = c\<lparr>sc_next := sc_next c', end_was_reached := end_was_reached c'\<rparr>"
  proof (cases code)
    case None
    obtain ip o1 op where b: "lzma_bufcpy inp in_pos out out_pos = (ip, o1, op)" by (cases "lzma_bufcpy inp in_pos out out_pos")
    with lzma_bufcpy_segment [OF b assms(3,4)] None assms(2,5) show ?thesis
      by (auto simp: copy_or_code_def supplied_def split: if_splits)
  next
    case (Some f)
    obtain r n ip o1 op where f: "f (sc_next c) inp in_pos out out_pos action = (r, n, ip, o1, op)"
      by (cases "f (sc_next c) inp in_pos out out_pos action")
    then have "coder_io inp in_pos out out_pos ip o1 op \<and> ok n \<and> r \<noteq> LZMA_TIMED_OUT"
      using assms(1-4) Some unfolding next_ok_def coder_contract_def by auto
    moreover note coder_run_once [where code = f, OF f assms(3,4)]
    ultimately show ?thesis using Some f assms(5) by (auto simp: copy_or_code_def supplied_def Let_def split: if_splits)
  qed
  then show "coder_io inp in_pos out out_pos in_pos' out' out_pos'" "ok (sc_next c')"
    "ret \<noteq> LZMA_TIMED_OUT" "ret \<noteq> LZMA_STREAM_END"
    "ret = LZMA_OK \<Longrightarrow> \<not> end_was_reached c \<Longrightarrow> supplied code c (segment in_pos in_pos' inp) (segment out_pos out_pos' out') c'"
    "c' = c\<lparr>sc_next := sc_next c', end_was_reached := end_was_reached c'\<rparr>" by blast+
qed

section \<open>What the coder holds\<close>

definition sc_wf :: "nat \<Rightarrow> 'n lzma_simple_coder \<Rightarrow> bool" where
  "sc_wf umax c \<longleftrightarrow> length (sc_buffer c) = allocated c \<and> sc_pos c \<le> sc_size c \<and> filtered c \<le> sc_size c
     \<and> sc_size c \<le> allocated c \<and> allocated c = 2 * umax"

text \<open>
  \<open>sc_rel flt start D E c\<close>: the data \<open>D\<close> has been supplied and \<open>E\<close> has been output. Before the end, the filter
  on \<open>D\<close> and anything after it gives \<open>E\<close>, then the filtered bytes in the buffer, then what the filter
  makes of the unfiltered bytes of the buffer and what follows.
\<close>

definition sc_rel :: "filter_fn \<Rightarrow> u32 \<Rightarrow> u8 list \<Rightarrow> u8 list \<Rightarrow> 'n lzma_simple_coder \<Rightarrow> bool" where
  "sc_rel flt start D E c \<longleftrightarrow>
     (let pend = segment (sc_pos c) (filtered c) (sc_buffer c);
          raw = segment (max (sc_pos c) (filtered c)) (sc_size c) (sc_buffer c);
          e = is_encoder c
      in if end_was_reached c
         then filtered c = sc_size c \<and> E @ segment (sc_pos c) (sc_size c) (sc_buffer c) = snd (flt start e D)
         else \<forall>ys. flt start e (D @ ys) =
           (length (E @ pend) + fst (flt (now_pos c) e (raw @ ys)), E @ pend @ snd (flt (now_pos c) e (raw @ ys))))"

lemma sc_rel_flush:
  assumes "sc_wf umax c" "sc_rel flt start D E c" "sc_pos c \<le> filtered c" "sc_pos c + k \<le> filtered c"
  shows "sc_rel flt start D (E @ segment (sc_pos c) (sc_pos c + k) (sc_buffer c)) (c\<lparr>sc_pos := sc_pos c + k\<rparr>)"
proof -
  have s: "segment (sc_pos c) (sc_pos c + k) b @ segment (sc_pos c + k) n b = segment (sc_pos c) n b"
    if "filtered c \<le> n" for b :: "u8 list" and n using assms(4) that by (intro segment_append) auto
  have m: "max (sc_pos c + k) (filtered c) = max (sc_pos c) (filtered c)" using assms(3,4) by simp
  have l: "length (E @ segment (sc_pos c) (sc_pos c + k) b) + length (segment (sc_pos c + k) (filtered c) b)
      = length (E @ segment (sc_pos c) (filtered c) b)" for b :: "u8 list"
    using s [of "filtered c" b] by (metis append.assoc length_append order_refl)
  show ?thesis
    using assms(2) s [of "filtered c" "sc_buffer c"] s [of "sc_size c" "sc_buffer c"] assms(1) l [of "sc_buffer c"]
    by (auto simp: sc_rel_def Let_def m sc_wf_def)
qed

lemma flush_buffer_io:
  assumes "sc_wf umax c" "sc_pos c \<le> filtered c" "out_pos \<le> length out"
    "flush_buffer c out out_pos = (c', out', out_pos')"
  shows "\<exists>k. c' = c\<lparr>sc_pos := sc_pos c + k\<rparr> \<and> sc_pos c + k \<le> filtered c
     \<and> segment out_pos out_pos' out' = segment (sc_pos c) (sc_pos c + k) (sc_buffer c)
     \<and> out_pos \<le> out_pos' \<and> out_pos' \<le> length out \<and> length out' = length out \<and> take out_pos out' = take out_pos out"
proof -
  let ?b = "take (filtered c) (sc_buffer c)"
  obtain p where b: "lzma_bufcpy ?b (sc_pos c) out out_pos = (p, out', out_pos')" "c' = c\<lparr>sc_pos := p\<rparr>"
    using assms(4) by (auto simp: flush_buffer_def split: prod.splits)
  have l: "length ?b = filtered c" using assms(1) by (simp add: sc_wf_def)
  note cp = lzma_bufcpy_segment [OF b(1) _ assms(3)]
  obtain k where k: "p = sc_pos c + k" "sc_pos c + k \<le> filtered c"
    using cp(1) l assms(2) by (auto simp: coder_io_def le_iff_add)
  have "segment out_pos out_pos' out' = segment (sc_pos c) (sc_pos c + k) (sc_buffer c)"
    using cp(2) l assms(2) k by (simp add: segment_take)
  then show ?thesis using cp(1) l assms(2) k b(2) by (auto simp: coder_io_def)
qed

lemma flush_buffer_rel:
  assumes "sc_wf umax c" "sc_rel flt start D E c" "sc_pos c \<le> filtered c" "out_pos \<le> length out"
    "flush_buffer c out out_pos = (c', out', out_pos')"
  shows "sc_rel flt start D (E @ segment out_pos out_pos' out') c'"
  using flush_buffer_io [OF assms(1,3,4,5)] sc_rel_flush [OF assms(1-3)] by auto

lemma sc_rel_filtered_0:
  assumes "sc_rel flt start D E c" "\<not> end_was_reached c" "filtered c \<le> sc_pos c"
  shows "sc_rel flt start D E (c\<lparr>filtered := 0\<rparr>)"
  using assms by (simp add: sc_rel_def Let_def segment_empty max_def)

lemma write_at_keep: "p + length bs \<le> length xs \<Longrightarrow> i \<le> p \<Longrightarrow> take i (write_at p bs xs) = take i xs"
  by (simp add: write_at_def min_def)

context simple_filter
begin

text \<open>The data in hand, \<open>raw\<close>, is extended by \<open>d\<close> and filtered.\<close>

lemma rel_step:
  assumes "\<And>ys. flt start e (D @ ys) = (length E + fst (flt p e (raw @ ys)), E @ snd (flt p e (raw @ ys)))"
    and "flt p e (raw @ d) = (n, X)"
  shows "flt start e (D @ d) = (length E + n, E @ X)"
    "flt start e ((D @ d) @ ys) = (length (E @ take n X) + fst (flt (p + of_nat n) e (drop n (raw @ d) @ ys)),
       (E @ take n X) @ snd (flt (p + of_nat n) e (drop n (raw @ d) @ ys)))"
proof -
  show "flt start e (D @ d) = (length E + n, E @ X)" using assms by simp
  obtain n2 r2 where r: "flt (p + of_nat n) e (drop n (raw @ d) @ ys) = (n2, r2)" by fastforce
  have "flt p e ((raw @ d) @ ys) = (n + n2, take n X @ r2)" by (rule flt_cut [OF assms(2) r])
  moreover have "length (take n X) = n" using flt_count [OF assms(2)] by simp
  ultimately show "flt start e ((D @ d) @ ys) = (length (E @ take n X) + fst (flt (p + of_nat n) e (drop n (raw @ d) @ ys)),
       (E @ take n X) @ snd (flt (p + of_nat n) e (drop n (raw @ d) @ ys)))"
    using assms(1) [of "d @ ys"] r by simp
qed

lemma fill_out_rel:
  assumes "next_ok code ok" "ok (sc_next c)" "sc_wf umax c" "filtered c = 0"
    "in_pos \<le> length inp" "out_pos \<le> length out"
    and room: "sc_size c - sc_pos c < length out - out_pos \<or> sc_size c - sc_pos c = 0"
    and run: "fill_out flt code c inp in_pos out out_pos action = (ret, c', in_pos', out', out_pos')"
  shows "coder_io inp in_pos out out_pos in_pos' out' out_pos' \<and> ok (sc_next c') \<and> sc_wf umax c'
     \<and> ret \<noteq> LZMA_TIMED_OUT \<and> ret \<noteq> LZMA_STREAM_END
     \<and> (ret = LZMA_OK \<longrightarrow> sc_pos c' = 0 \<and> filtered c' = 0 \<and> (end_was_reached c' \<longrightarrow> sc_size c' = 0)
         \<and> is_encoder c' = is_encoder c
         \<and> (\<not> end_was_reached c \<longrightarrow> (\<exists>d. supplied code c (segment in_pos in_pos' inp) d c' \<and> (\<forall>start D E. sc_rel flt start D E c
               \<longrightarrow> sc_rel flt start (D @ d) (E @ segment out_pos out_pos' out') c'))))"
proof -
  let ?e = "is_encoder c" and ?la = "sc_size c - sc_pos c"
  define raw where "raw = segment (sc_pos c) (sc_size c) (sc_buffer c)"
  have lr: "length raw = ?la" using assms(3) by (simp add: raw_def sc_wf_def)
  have fit: "out_pos + ?la \<le> length out" using room assms(6) by linarith
  define out1 where "out1 = write_at out_pos raw out"
  have o1: "length out1 = length out" "take out_pos out1 = take out_pos out" "segment out_pos (out_pos + ?la) out1 = raw"
    using fit lr segment_write_same [of out_pos raw out] by (simp_all add: out1_def write_at_keep)
  obtain ret1 c1 ip out2 op2 where cc: "copy_or_code code c inp in_pos out1 (out_pos + ?la) action = (ret1, c1, ip, out2, op2)"
    by (cases "copy_or_code code c inp in_pos out1 (out_pos + ?la) action")
  have "out_pos + ?la \<le> length out1" using fit o1(1) by simp
  note io = copy_or_code_io [OF assms(1,2,5) this cc]
  have c1: "sc_wf umax c1" "now_pos c1 = now_pos c" "is_encoder c1 = ?e" "sc_buffer c1 = sc_buffer c" "filtered c1 = 0"
    using assms(3,4) by (subst io(6), simp add: sc_wf_def)+
  have o2: "length out2 = length out" "take out_pos out2 = take out_pos out" "op2 \<le> length out" "out_pos + ?la \<le> op2"
    "in_pos \<le> ip" "ip \<le> length inp" "segment out_pos (out_pos + ?la) out2 = raw"
  proof -
    have t: "take (out_pos + ?la) out2 = take (out_pos + ?la) out1" using io(1) by (simp add: coder_io_def)
    from t have "take out_pos out2 = take out_pos out1" by (metis min.absorb1 le_add1 take_take)
    then show "take out_pos out2 = take out_pos out" using o1(2) by simp
    show "segment out_pos (out_pos + ?la) out2 = raw" using segment_eq_take [OF t, of out_pos] o1(3) by simp
  qed (use io(1) o1(1) in \<open>auto simp: coder_io_def\<close>)
  show ?thesis
  proof (cases "ret1 = LZMA_OK")
    case False
    then have "ret = ret1" "c' = c1" "in_pos' = ip" "out' = out2" "out_pos' = op2"
      using run cc by (simp_all add: fill_out_def Let_def raw_def segment_def out1_def)
    then show ?thesis using False io(2-4) o2 c1(1) by (simp add: coder_io_def)
  next
    case True
    define d where "d = segment (out_pos + ?la) op2 out2"
    have X: "segment out_pos op2 out2 = raw @ d"
      using segment_append [of out_pos "out_pos + ?la" op2 out2] o2(4,7) by (simp add: d_def)
    obtain n X where f: "flt (now_pos c) ?e (raw @ d) = (n, X)" by fastforce
    note ct = flt_count [OF f] and tl = flt_tail [OF f]
    have lX: "length (raw @ d) = op2 - out_pos" using X o2(1,3) by (metis length_segment)
    define out3 where "out3 = write_at out_pos X out2"
    have o3: "length out3 = length out" "take out_pos out3 = take out_pos out" "segment out_pos op2 out3 = X"
      using ct lX o2 segment_write_same [of out_pos X out2] by (auto simp: out3_def write_at_keep)
    have st: "flt start ?e (D @ d) = (length E + n, E @ X)"
      "\<And>ys. flt start ?e ((D @ d) @ ys) = (length (E @ take n X) + fst (flt (now_pos c + of_nat n) ?e (drop n (raw @ d) @ ys)),
         (E @ take n X) @ snd (flt (now_pos c + of_nat n) ?e (drop n (raw @ d) @ ys)))"
      if "\<not> end_was_reached c" "sc_rel flt start D E c" for start D E
    proof -
      have rel0: "flt start ?e (D @ ys) = (length E + fst (flt (now_pos c) ?e (raw @ ys)), E @ snd (flt (now_pos c) ?e (raw @ ys)))" for ys
        using that assms(4) by (simp add: sc_rel_def Let_def raw_def segment_empty)
      show "flt start ?e (D @ d) = (length E + n, E @ X)"
        "\<And>ys. flt start ?e ((D @ d) @ ys) = (length (E @ take n X) + fst (flt (now_pos c + of_nat n) ?e (drop n (raw @ d) @ ys)),
         (E @ take n X) @ snd (flt (now_pos c + of_nat n) ?e (drop n (raw @ d) @ ys)))"
        by (rule rel_step [OF rel0 f])+
    qed
    let ?u = "op2 - out_pos - n"
    define c2 where "c2 = c1\<lparr>now_pos := now_pos c + of_nat n, sc_pos := 0, sc_size := ?u\<rparr>"
    have run2: "fill_out flt code c inp in_pos out out_pos action =
        (if end_was_reached c1 then (LZMA_OK, c2\<lparr>sc_size := 0\<rparr>, ip, out3, op2)
         else if ?u > 0 then (LZMA_OK, c2\<lparr>sc_buffer := write_at 0 (take ?u (drop (op2 - ?u) out3)) (sc_buffer c)\<rparr>, ip, out3, op2 - ?u)
         else (LZMA_OK, c2, ip, out3, op2))"
    proof -
      have "take (op2 - out_pos) (drop out_pos out2) = raw @ d" using X by (simp add: segment_def)
      then show ?thesis
        using cc True f c1
        by (simp add: fill_out_def call_filter_def Let_def out1_def [unfolded raw_def segment_def] out3_def [symmetric] c2_def split_def)
    qed
    have sup: "supplied code c (segment in_pos ip inp) d c'"
      if "\<not> end_was_reached c" "sc_next c' = sc_next c1" "end_was_reached c' = end_was_reached c1" for c' :: "'a lzma_simple_coder"
      using io(5) [OF True that(1)] by (simp add: d_def supplied_same(2) [OF that(2,3)])
    have ok2: "ok (sc_next c2)" using io(2) by (simp add: c2_def)
    have iof: "coder_io inp in_pos out out_pos ip out3 op" if "out_pos \<le> op" "op \<le> op2" for op
      using that o2 o3 by (simp add: coder_io_def)
    show ?thesis
    proof (cases "end_was_reached c1")
      case end_true: True
      then have r: "ret = LZMA_OK" "c' = c2\<lparr>sc_size := 0\<rparr>" "in_pos' = ip" "out' = out3" "out_pos' = op2"
        using run run2 by simp_all
      have "sc_rel flt start (D @ d) (E @ segment out_pos op2 out3) c'" if "\<not> end_was_reached c" "sc_rel flt start D E c" for start D E
        using st(1) [OF that] o3(3) end_true c1 by (simp add: sc_rel_def r c2_def)
      moreover have "supplied code c (segment in_pos ip inp) d c'" if "\<not> end_was_reached c"
        by (rule sup [OF that]) (simp_all add: r c2_def)
      moreover have "sc_wf umax c'" "ok (sc_next c')" "sc_pos c' = 0" "filtered c' = 0" "sc_size c' = 0" "is_encoder c' = ?e"
        using ok2 c1 by (simp_all add: r sc_wf_def c2_def)
      moreover have "coder_io inp in_pos out out_pos ip out3 op2" using iof [of op2] o2(3,4) by simp
      ultimately show ?thesis unfolding r(1,3-5) by (intro conjI impI exI [of _ d]) simp_all
    next
      case end_false: False
      have le: "n \<le> op2 - out_pos" "?u < umax" using ct lX by simp_all
      then have op: "op2 - ?u = out_pos + n" using o2(4) by simp
      define b where "b = write_at 0 (segment (out_pos + n) op2 out3) (sc_buffer c)"
      have seg: "segment (out_pos + n) op2 out3 = drop n (raw @ d)" "segment out_pos (out_pos + n) out3 = take n X"
        using drop_segment [of n out_pos op2 out3] take_segment [of n out_pos op2 out3] o3(3) tl le o2(4) by (simp_all add: min_absorb2)
      have u: "length (drop n (raw @ d)) = ?u" using lX by simp
      have lb: "length (sc_buffer c) = 2 * umax" using assms(3) by (simp add: sc_wf_def)
      have b: "length b = 2 * umax" "segment 0 ?u b = drop n (raw @ d)"
        using u le(2) lb segment_write_same [of 0 "drop n (raw @ d)" "sc_buffer c"] by (simp_all add: b_def seg(1) length_write_at)
      have "(LZMA_OK, c2, ip, out3, op2) = (LZMA_OK, c2\<lparr>sc_buffer := b\<rparr>, ip, out3, out_pos + n)" if "\<not> 0 < ?u"
      proof -
        have "b = sc_buffer c2" using that c1(4) u by (simp add: b_def seg(1) c2_def)
        then show ?thesis using that op by simp
      qed
      moreover have "(LZMA_OK, c2\<lparr>sc_buffer := write_at 0 (take ?u (drop (op2 - ?u) out3)) (sc_buffer c)\<rparr>, ip, out3, op2 - ?u)
          = (LZMA_OK, c2\<lparr>sc_buffer := b\<rparr>, ip, out3, out_pos + n)"
        unfolding b_def segment_def op by simp
      ultimately have "(ret, c', in_pos', out', out_pos') = (LZMA_OK, c2\<lparr>sc_buffer := b\<rparr>, ip, out3, out_pos + n)"
        using run run2 end_false by presburger
      then have r: "ret = LZMA_OK" "c' = c2\<lparr>sc_buffer := b\<rparr>" "in_pos' = ip" "out' = out3" "out_pos' = out_pos + n"
        by simp_all
      have "sc_rel flt start (D @ d) (E @ segment out_pos (out_pos + n) out3) c'"
        if "\<not> end_was_reached c" "sc_rel flt start D E c" for start D E
        unfolding seg(2) using st(2) [OF that] end_false c1 b(2) by (simp add: sc_rel_def r c2_def)
      moreover have "supplied code c (segment in_pos ip inp) d c'" if "\<not> end_was_reached c"
        by (rule sup [OF that]) (simp_all add: r c2_def)
      moreover have "sc_wf umax c'" "ok (sc_next c')" "sc_pos c' = 0" "filtered c' = 0" "\<not> end_was_reached c'" "is_encoder c' = ?e"
        using ok2 c1 b(1) le(2) end_false by (simp_all add: r sc_wf_def c2_def)
      moreover have "coder_io inp in_pos out out_pos ip out3 (out_pos + n)" using iof [of "out_pos + n"] le(1) o2(4) by simp
      ultimately show ?thesis unfolding r(1,3-5) by (intro conjI impI exI [of _ d]) simp_all
    qed
  qed
qed

end

context simple_filter
begin

lemma fill_buffer_rel:
  assumes "next_ok code ok" "ok (sc_next c)" "sc_wf umax c" "filtered c = 0" "sc_pos c = 0"
    "in_pos \<le> length inp" "out_pos \<le> length out"
    and run: "fill_buffer flt code c inp in_pos out out_pos action = (ret, c', in_pos', out', out_pos')"
  shows "coder_io inp in_pos out out_pos in_pos' out' out_pos' \<and> ok (sc_next c') \<and> sc_wf umax c'
     \<and> ret \<noteq> LZMA_TIMED_OUT \<and> ret \<noteq> LZMA_STREAM_END
     \<and> (ret = LZMA_OK \<longrightarrow> is_encoder c' = is_encoder c
         \<and> (\<not> end_was_reached c \<longrightarrow> (\<exists>d. supplied code c (segment in_pos in_pos' inp) d c' \<and> (\<forall>start D E. sc_rel flt start D E c
               \<longrightarrow> sc_rel flt start (D @ d) (E @ segment out_pos out_pos' out') c'))))"
proof -
  let ?e = "is_encoder c"
  define raw where "raw = segment 0 (sc_size c) (sc_buffer c)"
  have w: "length (sc_buffer c) = 2 * umax" "sc_size c \<le> 2 * umax" "allocated c = 2 * umax" using assms(3) by (simp_all add: sc_wf_def)
  obtain ret1 c1 ip b1 s1 where cc: "copy_or_code code c inp in_pos (sc_buffer c) (sc_size c) action = (ret1, c1, ip, b1, s1)"
    by (cases "copy_or_code code c inp in_pos (sc_buffer c) (sc_size c) action")
  have "sc_size c \<le> length (sc_buffer c)" using w by simp
  note io = copy_or_code_io [OF assms(1,2,6) this cc]
  have c1: "now_pos c1 = now_pos c" "is_encoder c1 = ?e" "filtered c1 = 0" "allocated c1 = 2 * umax" "sc_pos c1 = 0"
    using assms(4,5) w(3) by (subst io(6), simp)+
  have b1: "length b1 = 2 * umax" "sc_size c \<le> s1" "s1 \<le> 2 * umax" "in_pos \<le> ip" "ip \<le> length inp"
    "segment 0 (sc_size c) b1 = raw"
    using io(1) w segment_eq_take [of "sc_size c" b1 "sc_buffer c" 0] by (auto simp: coder_io_def raw_def)
  show ?thesis
  proof (cases "ret1 = LZMA_OK")
    case False
    then have "ret = ret1" "c' = c1\<lparr>sc_buffer := b1, sc_size := s1\<rparr>" "in_pos' = ip" "out' = out" "out_pos' = out_pos"
      using run cc by (simp_all add: fill_buffer_def Let_def)
    then show ?thesis using False io(2-4) b1 c1 assms(7) by (simp add: coder_io_def sc_wf_def)
  next
    case True
    define d where "d = segment (sc_size c) s1 b1"
    have X: "take s1 b1 = raw @ d"
      using segment_append [of 0 "sc_size c" s1 b1] b1(2,6) by (simp add: d_def segment_def)
    obtain n X where f: "flt (now_pos c) ?e (raw @ d) = (n, X)" by fastforce
    note ct = flt_count [OF f] and tl = flt_tail [OF f]
    have lX: "length (raw @ d) = s1" using X b1(1,3) by (metis length_take min.absorb2)
    define b2 where "b2 = write_at 0 X b1"
    have b2: "length b2 = 2 * umax" "segment 0 s1 b2 = X"
      using ct lX b1 segment_write_same [of 0 X b1] by (auto simp: b2_def)
    have seg: "segment 0 n b2 = take n X" "segment n s1 b2 = drop n (raw @ d)"
      using drop_segment [of n 0 s1 b2] take_segment [of n 0 s1 b2] b2(2) tl ct lX by (simp_all add: min_absorb2)
    define c2 where "c2 = c1\<lparr>sc_size := s1, now_pos := now_pos c + of_nat n, sc_buffer := b2,
        filtered := (if end_was_reached c1 then s1 else n)\<rparr>"
    have wf2: "sc_wf umax c2" using c1 b1(3) b2(1) ct lX by (simp add: sc_wf_def c2_def)
    have rel2: "sc_rel flt start (D @ d) E c2" if "\<not> end_was_reached c" "sc_rel flt start D E c" for start D E
    proof -
      have rel0: "flt start ?e (D @ ys) = (length E + fst (flt (now_pos c) ?e (raw @ ys)), E @ snd (flt (now_pos c) ?e (raw @ ys)))" for ys
        using that assms(4,5) by (simp add: sc_rel_def Let_def raw_def)
      show ?thesis using rel_step [OF rel0 f] b2(2) seg c1 by (simp add: sc_rel_def c2_def)
    qed
    have run2: "fill_buffer flt code c inp in_pos out out_pos action =
        (case flush_buffer c2 out out_pos of (c, out, out_pos) \<Rightarrow> (LZMA_OK, c, ip, out, out_pos))"
      using cc True X f c1 by (simp add: fill_buffer_def call_filter_def Let_def b2_def [symmetric] split_def c2_def)
    obtain c3 out3 op3 where fl: "flush_buffer c2 out out_pos = (c3, out3, op3)" by (cases "flush_buffer c2 out out_pos")
    have r: "ret = LZMA_OK" "c' = c3" "in_pos' = ip" "out' = out3" "out_pos' = op3" using run run2 fl by simp_all
    have "sc_pos c2 \<le> filtered c2" using c1(5) by (simp add: c2_def)
    note fr = flush_buffer_io [OF wf2 this assms(7) fl] and rel3 = flush_buffer_rel [OF wf2 _ this assms(7) fl]
    obtain k where k: "c3 = c2\<lparr>sc_pos := sc_pos c2 + k\<rparr>" "sc_pos c2 + k \<le> filtered c2"
      "out_pos \<le> op3" "op3 \<le> length out" "length out3 = length out" "take out_pos out3 = take out_pos out" using fr by blast
    have "sc_wf umax c3" using wf2 k(1,2) by (auto simp: sc_wf_def)
    moreover have "coder_io inp in_pos out out_pos ip out3 op3" using k(3-6) b1(4,5) by (simp add: coder_io_def)
    moreover have "ok (sc_next c3)" "is_encoder c3 = ?e" using io(2) c1(2) by (simp_all add: k(1) c2_def)
    moreover have "supplied code c (segment in_pos ip inp) d c3" if "\<not> end_was_reached c"
    proof -
      have "supplied code c (segment in_pos ip inp) d c1" using io(5) [OF True that] by (simp only: d_def)
      moreover have "sc_next c3 = sc_next c1" "end_was_reached c3 = end_was_reached c1" by (simp_all add: k(1) c2_def)
      ultimately show ?thesis using supplied_same(2) [of c3 c1] by blast
    qed
    moreover have "sc_rel flt start (D @ d) (E @ segment out_pos op3 out3) c3"
      if "\<not> end_was_reached c" "sc_rel flt start D E c" for start D E
      by (rule rel3 [OF rel2 [OF that]])
    ultimately show ?thesis unfolding r by (intro conjI impI exI [of _ d]) simp_all
  qed
qed

lemma move_buffer_rel:
  assumes "sc_wf umax c" "filtered c = 0"
  shows "sc_wf umax (move_buffer c)" "\<not> end_was_reached c \<Longrightarrow> sc_rel flt start D E c \<Longrightarrow> sc_rel flt start D E (move_buffer c)"
    "sc_pos (move_buffer c) = 0" "filtered (move_buffer c) = 0" "end_was_reached (move_buffer c) = end_was_reached c"
    "is_encoder (move_buffer c) = is_encoder c" "sc_next (move_buffer c) = sc_next c"
proof -
  let ?n = "sc_size c - sc_pos c"
  let ?b = "write_at 0 (segment (sc_pos c) (sc_size c) (sc_buffer c)) (sc_buffer c)"
  have l: "length (segment (sc_pos c) (sc_size c) (sc_buffer c)) = ?n" "?n \<le> length (sc_buffer c)"
    using assms(1) by (auto simp: sc_wf_def)
  then have b: "length ?b = length (sc_buffer c)" "segment 0 ?n ?b = segment (sc_pos c) (sc_size c) (sc_buffer c)"
    using segment_write_same [of 0 "segment (sc_pos c) (sc_size c) (sc_buffer c)" "sc_buffer c"] by simp_all
  have m: "move_buffer c = (if sc_pos c > 0 then c\<lparr>sc_buffer := ?b, sc_size := ?n, sc_pos := 0\<rparr> else c)"
    by (simp add: move_buffer_def Let_def segment_def)
  show "sc_wf umax (move_buffer c)" using assms(1,2) b(1) by (auto simp: m sc_wf_def)
  show "\<not> end_was_reached c \<Longrightarrow> sc_rel flt start D E c \<Longrightarrow> sc_rel flt start D E (move_buffer c)"
    using assms(2) b(2) by (simp add: m sc_rel_def Let_def segment_empty)
qed (use assms in \<open>auto simp: move_buffer_def Let_def\<close>)

end

section \<open>One call\<close>

lemma coder_io_trans:
  assumes "coder_io inp ip out op ip1 out1 op1" "coder_io inp ip1 out1 op1 ip2 out2 op2"
  shows "coder_io inp ip out op ip2 out2 op2" "segment op op1 out1 @ segment op1 op2 out2 = segment op op2 out2"
proof -
  have t: "take op1 out2 = take op1 out1" using assms(2) by (simp add: coder_io_def)
  have le: "op \<le> op1" "op1 \<le> op2" using assms by (simp_all add: coder_io_def)
  have "take op out2 = take op out1" using arg_cong [OF t, of "take op"] le by (simp add: min_absorb1)
  then show "coder_io inp ip out op ip2 out2 op2" using assms by (auto simp: coder_io_def)
  show "segment op op1 out1 @ segment op1 op2 out2 = segment op op2 out2"
    using segment_append [OF le, of out2] segment_eq_take [OF t, of op] by simp
qed

lemma coder_io_refl: "in_pos \<le> length inp \<Longrightarrow> out_pos \<le> length out \<Longrightarrow> coder_io inp in_pos out out_pos in_pos out out_pos"
  by (simp add: coder_io_def)

context simple_filter
begin

text \<open>What a call does, and what it means for the data if the end had not been reached before.\<close>

definition call_ok where
  "call_ok code ok c inp in_pos out out_pos ret c' in_pos' out' out_pos' \<longleftrightarrow>
     coder_io inp in_pos out out_pos in_pos' out' out_pos' \<and> ok (sc_next c') \<and> sc_wf umax c' \<and> ret \<noteq> LZMA_TIMED_OUT
     \<and> (ret = LZMA_OK \<or> ret = LZMA_STREAM_END \<longrightarrow> is_encoder c' = is_encoder c
         \<and> (\<not> end_was_reached c \<longrightarrow> (\<exists>d. supplied code c (segment in_pos in_pos' inp) d c' \<and> (\<forall>start D E. sc_rel flt start D E c
               \<longrightarrow> sc_rel flt start (D @ d) (E @ segment out_pos out_pos' out') c'))))"

lemma call_ok_trans:
  assumes "call_ok code ok c inp ip out op LZMA_OK c1 ip1 out1 op1" "call_ok code ok c1 inp ip1 out1 op1 ret c2 ip2 out2 op2"
    "\<not> end_was_reached c \<Longrightarrow> end_was_reached c1 \<Longrightarrow> ip2 = ip1 \<and> op2 = op1 \<and> out2 = out1 \<and> c2 = c1"
  shows "call_ok code ok c inp ip out op ret c2 ip2 out2 op2"
proof -
  have a: "coder_io inp ip out op ip1 out1 op1" "coder_io inp ip1 out1 op1 ip2 out2 op2"
    using assms(1,2) by (simp_all add: call_ok_def)
  note io = coder_io_trans [OF a]
  have le: "ip \<le> ip1" "ip1 \<le> ip2" using a by (simp_all add: coder_io_def)
  have "\<exists>d. supplied code c (segment ip ip2 inp) d c2 \<and> (\<forall>start D E. sc_rel flt start D E c \<longrightarrow> sc_rel flt start (D @ d) (E @ segment op op2 out2) c2)"
    if r: "ret = LZMA_OK \<or> ret = LZMA_STREAM_END" "\<not> end_was_reached c"
  proof -
    obtain d1 where d1: "supplied code c (segment ip ip1 inp) d1 c1"
      "\<And>start D E. sc_rel flt start D E c \<Longrightarrow> sc_rel flt start (D @ d1) (E @ segment op op1 out1) c1"
      using assms(1) r(2) by (auto simp: call_ok_def)
    show ?thesis
    proof (cases "end_was_reached c1")
      case True
      then show ?thesis using assms(3) [OF r(2) True] d1 by auto
    next
      case False
      obtain d2 where d2: "supplied code c1 (segment ip1 ip2 inp) d2 c2"
        "\<And>start D E. sc_rel flt start D E c1 \<Longrightarrow> sc_rel flt start (D @ d2) (E @ segment op1 op2 out2) c2"
        using assms(2) r(1) False by (auto simp: call_ok_def)
      have "sc_rel flt start (D @ d1 @ d2) (E @ segment op op2 out2) c2" if "sc_rel flt start D E c" for start D E
        using d2(2) [OF d1(2) [OF that]] io(2) by simp
      moreover have "is_encoder c1 = is_encoder c" using assms(1) by (simp add: call_ok_def)
      ultimately show ?thesis using supplied_trans [OF d1(1) d2(1)] by (auto simp: segment_append [OF le])
    qed
  qed
  then show ?thesis using assms(1,2) io(1) by (auto simp: call_ok_def)
qed

lemma simple_rest_ok:
  assumes "next_ok code ok" "ok (sc_next c)" "sc_wf umax c" "filtered c \<le> sc_pos c"
    "in_pos \<le> length inp" "out_pos \<le> length out"
    and run: "simple_rest flt code c inp in_pos out out_pos action = (ret, c', in_pos', out', out_pos')"
  shows "call_ok code ok c inp in_pos out out_pos ret c' in_pos' out' out_pos'"
    "ret = LZMA_STREAM_END \<Longrightarrow> end_was_reached c' \<and> sc_pos c' = sc_size c'"
    "ret = LZMA_OK \<Longrightarrow> \<not> (end_was_reached c' \<and> sc_pos c' = sc_size c')"
proof -
  define c0 where "c0 = c\<lparr>filtered := 0\<rparr>"
  have w0: "sc_wf umax c0" "filtered c0 = 0" "ok (sc_next c0)" using assms(2,3) by (simp_all add: c0_def sc_wf_def)
  have same: "call_ok code ok c inp in_pos out out_pos r c1 ip1 out1 op1"
    if "call_ok code ok c0 inp in_pos out out_pos r c1 ip1 out1 op1" for r c1 ip1 out1 op1
  proof -
    have e: "is_encoder c0 = is_encoder c" "end_was_reached c0 = end_was_reached c" by (simp_all add: c0_def)
    have s: "supplied code c0 xs d c' = supplied code c xs d c'" for xs d c'
      by (rule supplied_same(1)) (simp_all add: c0_def)
    have "sc_rel flt s D E c0" if "\<not> end_was_reached c" "sc_rel flt s D E c" for s D E
      using sc_rel_filtered_0 [OF that(2,1) assms(4)] by (simp add: c0_def)
    then show ?thesis using that unfolding call_ok_def e s by blast
  qed
  obtain ret1 c1 ip1 out1 op1 where s1: "(if length out - out_pos > sc_size c0 - sc_pos c0 \<or> sc_size c0 - sc_pos c0 = 0
      then fill_out flt code c0 inp in_pos out out_pos action
      else (LZMA_OK, move_buffer c0, in_pos, out, out_pos)) = (ret1, c1, ip1, out1, op1)" by (metis prod_cases5)
  have 1: "call_ok code ok c0 inp in_pos out out_pos ret1 c1 ip1 out1 op1 \<and> ret1 \<noteq> LZMA_STREAM_END
     \<and> (ret1 = LZMA_OK \<longrightarrow> sc_pos c1 = 0 \<and> filtered c1 = 0 \<and> (\<not> end_was_reached c0 \<longrightarrow> end_was_reached c1 \<longrightarrow> sc_size c1 = 0))"
  proof (cases "length out - out_pos > sc_size c0 - sc_pos c0 \<or> sc_size c0 - sc_pos c0 = 0")
    case True
    then show ?thesis
      using fill_out_rel [OF assms(1) w0(3,1,2) assms(5,6), of action ret1 c1 ip1 out1 op1] s1 by (auto simp: call_ok_def)
  next
    case False
    then have e: "ret1 = LZMA_OK" "c1 = move_buffer c0" "ip1 = in_pos" "out1 = out" "op1 = out_pos" using s1 by auto
    have "supplied code c0 [] [] (move_buffer c0)"
      using supplied_refl [of code c0]
      by (simp only: supplied_same(2) [OF move_buffer_rel(7) [OF w0(1,2)] move_buffer_rel(5) [OF w0(1,2)]])
    then show ?thesis
      using move_buffer_rel [OF w0(1,2)] w0(3) coder_io_refl [OF assms(5,6)]
      by (auto simp: e call_ok_def intro!: exI [of _ "[]"])
  qed
  have r1: "simple_rest flt code c inp in_pos out out_pos action =
     (if ret1 \<noteq> LZMA_OK then (ret1, c1, ip1, out1, op1)
      else
        let (ret, coder, in_pos, out, out_pos) =
              (if sc_size c1 > 0 then fill_buffer flt code c1 inp ip1 out1 op1 action
               else (LZMA_OK, c1, ip1, out1, op1))
        in if ret \<noteq> LZMA_OK then (ret, coder, in_pos, out, out_pos)
        else (if end_was_reached coder \<and> sc_pos coder = sc_size coder then LZMA_STREAM_END else LZMA_OK,
              coder, in_pos, out, out_pos))"
    by (simp only: simple_rest_def Let_def c0_def [symmetric] s1 prod.case)
  note run1 = run [unfolded r1]
  have "call_ok code ok c0 inp in_pos out out_pos ret c' in_pos' out' out_pos'
     \<and> (ret = LZMA_STREAM_END \<longrightarrow> end_was_reached c' \<and> sc_pos c' = sc_size c')
     \<and> (ret = LZMA_OK \<longrightarrow> \<not> (end_was_reached c' \<and> sc_pos c' = sc_size c'))"
  proof (cases "ret1 = LZMA_OK")
    case False
    then have "ret = ret1" "c' = c1" "in_pos' = ip1" "out' = out1" "out_pos' = op1" using run1 by simp_all
    then show ?thesis using 1 False by simp
  next
    case ok1: True
    have io1: "ip1 \<le> length inp" "op1 \<le> length out1" "ok (sc_next c1)" "sc_wf umax c1"
      using 1 by (auto simp: call_ok_def coder_io_def)
    obtain ret2 c2 ip2 out2 op2 where s2: "(if sc_size c1 > 0 then fill_buffer flt code c1 inp ip1 out1 op1 action
               else (LZMA_OK, c1, ip1, out1, op1)) = (ret2, c2, ip2, out2, op2)" by (metis prod_cases5)
    have 2: "call_ok code ok c1 inp ip1 out1 op1 ret2 c2 ip2 out2 op2" "ret2 \<noteq> LZMA_STREAM_END"
    proof -
      have "call_ok code ok c1 inp ip1 out1 op1 ret2 c2 ip2 out2 op2 \<and> ret2 \<noteq> LZMA_STREAM_END"
      proof (cases "sc_size c1 > 0")
        case True
        have "sc_pos c1 = 0" "filtered c1 = 0" using 1 ok1 by simp_all
        then show ?thesis
          using fill_buffer_rel [OF assms(1) io1(3,4) _ _ io1(1,2), of action ret2 c2 ip2 out2 op2] s2 True
          by (auto simp: call_ok_def)
      next
        case False
        then have e: "ret2 = LZMA_OK" "c2 = c1" "ip2 = ip1" "out2 = out1" "op2 = op1" using s2 by auto
        have "supplied code c1 [] [] c1" by (rule supplied_refl)
        then show ?thesis
          using io1 coder_io_refl [OF io1(1,2)] by (auto simp: e call_ok_def intro!: exI [of _ "[]"])
      qed
      then show "call_ok code ok c1 inp ip1 out1 op1 ret2 c2 ip2 out2 op2" "ret2 \<noteq> LZMA_STREAM_END" by simp_all
    qed
    have 3: "call_ok code ok c0 inp in_pos out out_pos ret2 c2 ip2 out2 op2"
    proof (rule call_ok_trans [OF _ 2(1)])
      show "call_ok code ok c0 inp in_pos out out_pos LZMA_OK c1 ip1 out1 op1" using 1 ok1 by simp
      show "ip2 = ip1 \<and> op2 = op1 \<and> out2 = out1 \<and> c2 = c1" if "\<not> end_was_reached c0" "end_was_reached c1"
        using 1 ok1 that s2 by simp
    qed
    have r: "(ret, c', in_pos', out', out_pos') =
        (if ret2 \<noteq> LZMA_OK then (ret2, c2, ip2, out2, op2)
         else (if end_was_reached c2 \<and> sc_pos c2 = sc_size c2 then LZMA_STREAM_END else LZMA_OK, c2, ip2, out2, op2))"
      using run1 ok1 s2 by simp
    then have e: "c' = c2" "in_pos' = ip2" "out' = out2" "out_pos' = op2"
      "ret = (if ret2 \<noteq> LZMA_OK then ret2 else if end_was_reached c2 \<and> sc_pos c2 = sc_size c2 then LZMA_STREAM_END else LZMA_OK)"
      by (auto split: if_splits)
    show ?thesis using 3 2(2) unfolding e by (auto simp: call_ok_def)
  qed
  then show "call_ok code ok c inp in_pos out out_pos ret c' in_pos' out' out_pos'"
    "ret = LZMA_STREAM_END \<Longrightarrow> end_was_reached c' \<and> sc_pos c' = sc_size c'"
    "ret = LZMA_OK \<Longrightarrow> \<not> (end_was_reached c' \<and> sc_pos c' = sc_size c')" using same by blast+
qed

lemma simple_code_ok:
  assumes "next_ok code ok" "ok (sc_next c)" "sc_wf umax c" "in_pos \<le> length inp" "out_pos \<le> length out"
    and run: "simple_code flt code c inp in_pos out out_pos action = (ret, c', in_pos', out', out_pos')"
  shows "coder_io inp in_pos out out_pos in_pos' out' out_pos' \<and> ok (sc_next c') \<and> sc_wf umax c' \<and> ret \<noteq> LZMA_TIMED_OUT"
    "sc_rel flt start D E c \<Longrightarrow> \<not> (end_was_reached c \<and> sc_pos c = sc_size c) \<Longrightarrow> ret = LZMA_OK \<or> ret = LZMA_STREAM_END \<Longrightarrow>
     is_encoder c' = is_encoder c \<and> (ret = LZMA_STREAM_END \<longleftrightarrow> end_was_reached c' \<and> sc_pos c' = sc_size c')
     \<and> (\<exists>d. supplied code c (segment in_pos in_pos' inp) d c' \<and> sc_rel flt start (D @ d) (E @ segment out_pos out_pos' out') c')"
proof -
  let ?A = "coder_io inp in_pos out out_pos in_pos' out' out_pos' \<and> ok (sc_next c') \<and> sc_wf umax c' \<and> ret \<noteq> LZMA_TIMED_OUT"
  let ?B = "sc_rel flt start D E c \<longrightarrow> \<not> (end_was_reached c \<and> sc_pos c = sc_size c) \<longrightarrow> ret = LZMA_OK \<or> ret = LZMA_STREAM_END \<longrightarrow>
     is_encoder c' = is_encoder c \<and> (ret = LZMA_STREAM_END \<longleftrightarrow> end_was_reached c' \<and> sc_pos c' = sc_size c')
     \<and> (\<exists>d. supplied code c (segment in_pos in_pos' inp) d c' \<and> sc_rel flt start (D @ d) (E @ segment out_pos out_pos' out') c')"
  have nil: "supplied code c [] [] c'" if "sc_next c' = sc_next c" "end_was_reached c' = end_was_reached c"
    using supplied_refl [of code c] by (simp add: supplied_same(2) [OF that])
  consider "action = LZMA_SYNC_FLUSH" | "action \<noteq> LZMA_SYNC_FLUSH" "sc_pos c < filtered c"
    | "action \<noteq> LZMA_SYNC_FLUSH" "filtered c \<le> sc_pos c" by linarith
  then have "?A \<and> ?B"
  proof cases
    case 1
    then have "ret = LZMA_OPTIONS_ERROR" "c' = c" "in_pos' = in_pos" "out' = out" "out_pos' = out_pos"
      using run by (simp_all add: simple_code_def)
    then show ?thesis using assms(2-5) coder_io_refl by auto
  next
    case 3
    have r: "simple_rest flt code c inp in_pos out out_pos action = (ret, c', in_pos', out', out_pos')"
      using run 3 by (simp add: simple_code_def)
    have "\<not> end_was_reached c" if "sc_rel flt start D E c" "\<not> (end_was_reached c \<and> sc_pos c = sc_size c)"
      using that 3(2) assms(3) by (auto simp: sc_rel_def Let_def sc_wf_def)
    then show ?thesis
      using simple_rest_ok [OF assms(1-3) 3(2) assms(4,5) r] unfolding call_ok_def by blast
  next
    case 2
    obtain c1 out1 op1 where f: "flush_buffer c out out_pos = (c1, out1, op1)" by (cases "flush_buffer c out out_pos")
    have "sc_pos c \<le> filtered c" using 2(2) by simp
    note fio = flush_buffer_io [OF assms(3) this assms(5) f] and frel = flush_buffer_rel [OF assms(3) _ this assms(5) f]
    obtain k where k: "c1 = c\<lparr>sc_pos := sc_pos c + k\<rparr>" "sc_pos c + k \<le> filtered c"
      "out_pos \<le> op1" "op1 \<le> length out" "length out1 = length out" "take out_pos out1 = take out_pos out" using fio by blast
    have w1: "sc_wf umax c1" "ok (sc_next c1)" using assms(2,3) k(1,2) by (auto simp: sc_wf_def)
    have io1: "coder_io inp in_pos out out_pos in_pos out1 op1" using k(3-6) assms(4) by (simp add: coder_io_def)
    have same: "filtered c1 = filtered c" "sc_size c1 = sc_size c" "end_was_reached c1 = end_was_reached c" "is_encoder c1 = is_encoder c"
      by (simp_all add: k(1))
    have run2: "(ret, c', in_pos', out', out_pos') =
        (if sc_pos c1 < filtered c1 then (LZMA_OK, c1, in_pos, out1, op1)
         else if end_was_reached c1 then (LZMA_STREAM_END, c1, in_pos, out1, op1)
         else simple_rest flt code c1 inp in_pos out1 op1 action)"
      using run 2 f by (simp add: simple_code_def)
    consider (a) "sc_pos c1 < filtered c1" | (b) "filtered c1 \<le> sc_pos c1" "end_was_reached c1"
      | (c) "filtered c1 \<le> sc_pos c1" "\<not> end_was_reached c1" by linarith
    then show ?thesis
    proof cases
      case a
      then have e: "ret = LZMA_OK" "c' = c1" "in_pos' = in_pos" "out' = out1" "out_pos' = op1" using run2 by simp_all
      have "sc_pos c1 \<noteq> sc_size c1" using a w1 by (auto simp: sc_wf_def)
      moreover have "supplied code c [] [] c'" by (rule nil) (simp_all add: e(2) k(1))
      ultimately show ?thesis using e io1 w1 same frel [of flt start D E] by (auto intro!: exI [of _ "[]"])
    next
      case b
      then have e: "ret = LZMA_STREAM_END" "c' = c1" "in_pos' = in_pos" "out' = out1" "out_pos' = op1" using run2 by simp_all
      have "sc_pos c1 = sc_size c1" if "sc_rel flt start D E c"
        using that b w1(1) same by (auto simp: sc_rel_def Let_def sc_wf_def)
      moreover have "supplied code c [] [] c'" by (rule nil) (simp_all add: e(2) k(1))
      ultimately show ?thesis using e io1 w1 same b frel [of flt start D E] by (auto intro!: exI [of _ "[]"])
    next
      case c
      then have r: "simple_rest flt code c1 inp in_pos out1 op1 action = (ret, c', in_pos', out', out_pos')" using run2 by simp
      have "op1 \<le> length out1" using k(4,5) by simp
      note rest = simple_rest_ok [OF assms(1) w1(2,1) c(1) assms(4) this r]
      have io2: "coder_io inp in_pos out1 op1 in_pos' out' out_pos'" using rest(1) by (simp add: call_ok_def)
      note tr = coder_io_trans [OF io1 io2]
      have A: ?A using rest(1) tr(1) by (simp add: call_ok_def)
      have ?B
      proof (intro impI)
        assume rel: "sc_rel flt start D E c" and ret: "ret = LZMA_OK \<or> ret = LZMA_STREAM_END"
        obtain d where d: "supplied code c1 (segment in_pos in_pos' inp) d c'"
          "sc_rel flt start (D @ d) ((E @ segment out_pos op1 out1) @ segment op1 out_pos' out') c'"
          using rest(1) ret c(2) frel [OF rel] unfolding call_ok_def by blast
        have "supplied code c (segment in_pos in_pos' inp) d c'"
          by (rule supplied_same(1) [THEN iffD1, OF _ _ _ d(1)]) (simp_all add: k(1))
        moreover have "sc_rel flt start (D @ d) (E @ segment out_pos out_pos' out') c'" using d(2) tr(2) by simp
        ultimately show "is_encoder c' = is_encoder c \<and> (ret = LZMA_STREAM_END \<longleftrightarrow> end_was_reached c' \<and> sc_pos c' = sc_size c')
            \<and> (\<exists>d. supplied code c (segment in_pos in_pos' inp) d c' \<and> sc_rel flt start (D @ d) (E @ segment out_pos out_pos' out') c')"
          using rest ret same(4) unfolding call_ok_def by blast
      qed
      with A show ?thesis by blast
    qed
  qed
  then show ?A "sc_rel flt start D E c \<Longrightarrow> \<not> (end_was_reached c \<and> sc_pos c = sc_size c) \<Longrightarrow> ret = LZMA_OK \<or> ret = LZMA_STREAM_END \<Longrightarrow>
     is_encoder c' = is_encoder c \<and> (ret = LZMA_STREAM_END \<longleftrightarrow> end_was_reached c' \<and> sc_pos c' = sc_size c')
     \<and> (\<exists>d. supplied code c (segment in_pos in_pos' inp) d c' \<and> sc_rel flt start (D @ d) (E @ segment out_pos out_pos' out') c')"
    by blast+
qed

end

section \<open>Sequences of calls\<close>

text \<open>The filters, with the number of bytes that \<open>unfiltered_max\<close> and the alignment are.\<close>

definition bcj_filter :: "filter_fn \<Rightarrow> nat \<Rightarrow> nat \<Rightarrow> bool" where
  "bcj_filter flt umax align \<longleftrightarrow> (flt, umax, align) \<in> {(arm_code, 4, 4), (armthumb_code, 4, 2), (powerpc_code, 4, 4),
     (sparc_code, 4, 4), (ia64_code, 16, 16)}"

lemma bcj_filter_laws: "bcj_filter flt umax align \<Longrightarrow> \<exists>al. simple_filter flt umax al"
  using arm.simple.simple_filter_axioms armthumb.simple_filter_axioms powerpc.simple.simple_filter_axioms
    sparc.simple.simple_filter_axioms ia64.simple.simple_filter_axioms
  by (auto simp: bcj_filter_def arm_code_def powerpc_code_def sparc_code_def ia64_code_def)

context simple_filter
begin

lemma simple_run_rel:
  assumes next_ok: "next_ok code ok" and fresh: "ok (sc_next c)" "sc_wf umax c" "sc_rel flt start [] [] c" "\<not> end_was_reached c"
    and run: "coder_run (simple_code flt code) c xs ys c' ret"
  shows "ret = LZMA_OK \<or> ret = LZMA_STREAM_END \<longrightarrow>
     ok (sc_next c') \<and> sc_wf umax c' \<and> is_encoder c' = is_encoder c
     \<and> (ret = LZMA_STREAM_END \<longleftrightarrow> end_was_reached c' \<and> sc_pos c' = sc_size c')
     \<and> (\<exists>D. supplied code c xs D c' \<and> sc_rel flt start D ys c')"
  using run
proof (induction rule: coder_run.induct)
  case run_start
  then show ?case using fresh supplied_refl [of code c] by auto
next
  case (run_call xs ys c1 inp in_pos out out_pos action ret c2 in_pos' out' out_pos')
  have "is_encoder c1 = is_encoder c" "\<not> (end_was_reached c1 \<and> sc_pos c1 = sc_size c1)" "ok (sc_next c1)" "sc_wf umax c1"
    using run_call.IH by auto
  note c1 = this
  obtain D where D: "supplied code c xs D c1" "sc_rel flt start D ys c1" using run_call.IH by auto
  note one = simple_code_ok [OF next_ok c1(3,4) run_call.hyps(3,4,2)]
  show ?case
  proof
    assume ret: "ret = LZMA_OK \<or> ret = LZMA_STREAM_END"
    obtain d where d: "supplied code c1 (segment in_pos in_pos' inp) d c2" "sc_rel flt start (D @ d) (ys @ segment out_pos out_pos' out') c2"
      "is_encoder c2 = is_encoder c1" "ret = LZMA_STREAM_END \<longleftrightarrow> end_was_reached c2 \<and> sc_pos c2 = sc_size c2"
      using one(2) [OF D(2) c1(2) ret] by blast
    have "supplied code c (xs @ segment in_pos in_pos' inp) (D @ d) c2" by (rule supplied_trans [OF D(1) d(1) c1(1)])
    then show "ok (sc_next c2) \<and> sc_wf umax c2 \<and> is_encoder c2 = is_encoder c
       \<and> (ret = LZMA_STREAM_END \<longleftrightarrow> end_was_reached c2 \<and> sc_pos c2 = sc_size c2)
       \<and> (\<exists>D. supplied code c (xs @ segment in_pos in_pos' inp) D c2 \<and> sc_rel flt start D (ys @ segment out_pos out_pos' out') c2)"
      using one(1) d c1(1) by auto
  qed
qed

lemma sc_rel_result:
  assumes "sc_wf umax c" "sc_rel flt start D E c"
  shows "\<exists>rest. snd (flt start (is_encoder c) D) = E @ rest \<and> length rest = sc_size c - sc_pos c"
proof (cases "end_was_reached c")
  case True
  then show ?thesis using assms by (auto simp: sc_rel_def Let_def sc_wf_def intro!: exI [of _ "segment (sc_pos c) (sc_size c) (sc_buffer c)"])
next
  case False
  let ?pend = "segment (sc_pos c) (filtered c) (sc_buffer c)"
  let ?raw = "segment (max (sc_pos c) (filtered c)) (sc_size c) (sc_buffer c)"
  obtain n r where f: "flt (now_pos c) (is_encoder c) ?raw = (n, r)" by fastforce
  have "flt start (is_encoder c) (D @ []) = (length (E @ ?pend) + fst (flt (now_pos c) (is_encoder c) (?raw @ [])),
      E @ ?pend @ snd (flt (now_pos c) (is_encoder c) (?raw @ [])))"
    using assms(2) False unfolding sc_rel_def Let_def by presburger
  then have "snd (flt start (is_encoder c) D) = E @ ?pend @ r" using f by simp
  moreover have "length (?pend @ r) = sc_size c - sc_pos c"
    using flt_count [OF f] assms(1) by (auto simp: sc_wf_def max_def)
  ultimately show ?thesis by blast
qed

lemma simple_contract:
  assumes "next_ok code ok"
  shows "coder_contract (simple_code flt code) (\<lambda>c. ok (sc_next c) \<and> sc_wf umax c)"
  unfolding coder_contract_def using simple_code_ok(1) [OF assms] by blast

end

lemma simple_init_rel:
  assumes "lzma_simple_coder_init alloc nc next_init start_offset umax alignment encoder None = (LZMA_OK, Some c)"
  shows "sc_wf umax c" "sc_rel flt (now_pos c) [] [] c" "is_encoder c = encoder" "\<not> end_was_reached c"
    "now_pos c = (case start_offset of None \<Rightarrow> 0 | Some p \<Rightarrow> p)" "sc_next c = snd (next_init nc)"
  using assms by (auto simp: lzma_simple_coder_init_def Let_def sc_wf_def sc_rel_def split: if_splits prod.splits)

text \<open>
  C30: a freshly initialised coder around one of the branch converters, called any number of times with
  any pieces of input and any room for output, writes what the converter makes of the whole of the
  data supplied: by the next coder, which has read the input, or by the input itself at the end of
  the chain. At most \<open>2 * umax\<close> bytes are held back; the coder returns \<open>LZMA_STREAM_END\<close> exactly when the
  next coder has (or an encoder at the end of the chain has finished) and nothing is held back.
\<close>

theorem simple_coder_streams:
  assumes "bcj_filter flt umax align"
    "lzma_simple_coder_init True nc next_init start_offset umax (of_nat align) encoder None = (LZMA_OK, Some c)"
    "case code of None \<Rightarrow> True | Some f \<Rightarrow> coder_contract f ok" "ok (sc_next c)"
    "coder_run (simple_code flt code) c xs ys c' ret" "ret = LZMA_OK \<or> ret = LZMA_STREAM_END"
  shows "\<exists>zs rest end_reached.
     (case code of
        None \<Rightarrow> zs = xs \<and> (end_reached \<longrightarrow> encoder)
      | Some f \<Rightarrow> coder_run f (sc_next c) xs zs (sc_next c') (if end_reached then LZMA_STREAM_END else LZMA_OK))
     \<and> snd (flt (case start_offset of None \<Rightarrow> 0 | Some p \<Rightarrow> p) encoder zs) = ys @ rest \<and> length rest \<le> 2 * umax
     \<and> (ret = LZMA_STREAM_END \<longleftrightarrow> end_reached \<and> rest = [])"
proof -
  obtain al where law: "simple_filter flt umax al" using bcj_filter_laws [OF assms(1)] by blast
  note init = simple_init_rel [OF assms(2)]
  have "next_ok code ok" using assms(3) by (simp add: next_ok_def)
  note run = simple_filter.simple_run_rel [OF law this assms(4) init(1,2,4) assms(5), THEN mp, OF assms(6)]
  obtain zs where zs: "supplied code c xs zs c'" "sc_rel flt (now_pos c) zs ys c'" using run by blast
  obtain rest where "snd (flt (now_pos c) (is_encoder c') zs) = ys @ rest" "length rest = sc_size c' - sc_pos c'"
    using simple_filter.sc_rel_result [OF law _ zs(2)] run by blast
  moreover have "sc_pos c' \<le> sc_size c'" "sc_size c' \<le> 2 * umax" using run by (simp_all add: sc_wf_def)
  moreover have "ret = LZMA_STREAM_END \<longleftrightarrow> end_was_reached c' \<and> sc_pos c' = sc_size c'" using run by blast
  moreover have "case code of
        None \<Rightarrow> zs = xs \<and> (end_was_reached c' \<longrightarrow> encoder)
      | Some f \<Rightarrow> coder_run f (sc_next c) xs zs (sc_next c') (if end_was_reached c' then LZMA_STREAM_END else LZMA_OK)"
    using zs(1) init(3,4) by (cases code) (simp_all add: supplied_def)
  ultimately show ?thesis
    using run init(3,5) by (intro exI [of _ zs] exI [of _ rest] exI [of _ "end_was_reached c'"]) auto
qed

text \<open>The ARM encoder above the delta encoder, in one call.\<close>

abbreviation (input) arm_delta :: "unit lzma_delta_coder lzma_simple_coder" where
  "arm_delta \<equiv> \<lparr>sc_next = \<lparr>delta_next = (), distance = 1, delta_pos = 0, history = replicate 256 0\<rparr>,
     end_was_reached = False, is_encoder = True, now_pos = 0, allocated = 8, sc_pos = 0,
     filtered = 0, sc_size = 0, sc_buffer = replicate 8 0\<rparr>"

theorem simple_coder_streams_witness:
  "\<exists>ys c' zs n. coder_run (simple_code arm_code (Some (delta_encode None))) arm_delta [0, 0, 2, 0xED] ys c' LZMA_STREAM_END
     \<and> coder_run (delta_encode None) (sc_next arm_delta) [0, 0, 2, 0xED] zs n LZMA_STREAM_END
     \<and> ys = snd (arm_code 0 True zs)"
proof -
  have init: "lzma_simple_coder_init True (sc_next arm_delta) (\<lambda>n. (LZMA_OK, n)) None 4 (of_nat 4) True None = (LZMA_OK, Some arm_delta)"
    by (simp add: lzma_simple_coder_init_def)
  have b: "bcj_filter arm_code 4 4" by (simp add: bcj_filter_def)
  obtain ret c' n out m where s: "simple_code arm_code (Some (delta_encode None)) arm_delta [0, 0, 2, 0xED] 0 (replicate 9 0) 0 LZMA_FINISH
      = (ret, c', n, out, m)" by (metis prod_cases5)
  obtain d1 bs where d: "copy_and_encode (sc_next arm_delta) [0, 0, 2, 0xED] = (d1, bs)" by fastforce
  obtain k b2 where f: "arm_code 0 True bs = (k, b2)" by fastforce
  have l: "length bs = 4" using length_copy_and_encode [OF d] by simp
  have r: "ret = LZMA_STREAM_END" "n = 4"
    using s d f l by (auto simp: simple_code_def simple_rest_def fill_out_def copy_or_code_def delta_encode_def call_filter_def
        Let_def write_at_def)
  have run: "coder_run (simple_code arm_code (Some (delta_encode None))) arm_delta [0, 0, 2, 0xED] (segment 0 m out) c' LZMA_STREAM_END"
    using coder_run_once [where code = "simple_code arm_code (Some (delta_encode None))", OF s] r by (simp add: segment_def)
  have contract: "case Some (delta_encode None) of None \<Rightarrow> True | Some f \<Rightarrow> coder_contract f (\<lambda>_. True)"
    by (simp add: delta_encode_contract)
  obtain zs where "coder_run (delta_encode None) (sc_next arm_delta) [0, 0, 2, 0xED] zs (sc_next c') LZMA_STREAM_END"
    "snd (arm_code 0 True zs) = segment 0 m out"
    using simple_coder_streams [OF b init contract TrueI run disjI2 [OF refl]] by auto
  with run show ?thesis by metis
qed

text \<open>
  C31: the coder around a branch converter never leaves its buffers: whatever the next coder does inside
  its contract, the positions stay inside the input and output buffers, only the output between the old
  and the new position is written, and the \<open>2 * umax\<close> bytes of the buffer of the coder are not overrun.
  This carries over to a chain of such coders with the delta filter on top.
\<close>

theorem simple_coder_bounds:
  assumes "bcj_filter flt umax align" "coder_contract code ok"
  shows "coder_contract (simple_code flt (Some code)) (\<lambda>c. ok (sc_next c) \<and> sc_wf umax c)
     \<and> coder_contract (delta_decode (simple_code flt (Some code))) (\<lambda>c. ok (sc_next (delta_next c)) \<and> sc_wf umax (delta_next c))"
proof -
  obtain al where law: "simple_filter flt umax al" using bcj_filter_laws [OF assms(1)] by blast
  have "next_ok (Some code) ok" using assms(2) by (simp add: next_ok_def)
  then have "coder_contract (simple_code flt (Some code)) (\<lambda>c. ok (sc_next c) \<and> sc_wf umax c)"
    by (rule simple_filter.simple_contract [OF law])
  then show ?thesis using delta_decode_contract by fastforce
qed

theorem simple_coder_bounds_witness:
  "coder_contract (simple_code sparc_code (Some copy_coder)) (\<lambda>c. sc_wf 4 c)"
proof -
  have "bcj_filter sparc_code 4 4" by (simp add: bcj_filter_def)
  from simple_coder_bounds [OF this copy_coder_contract] show ?thesis by simp
qed

interpretation arm_coder: coder_fn "simple_code arm_code None" "\<lambda>c. sc_wf 4 c"
proof
  have "next_ok None (\<lambda>_. True)" by (simp add: next_ok_def)
  from arm.simple.simple_contract [OF this] show "coder_contract (simple_code arm_code None) (\<lambda>c. sc_wf 4 c)"
    by (simp add: arm_code_def)
qed

end
