(* ===== verification/Lzma_Props.thy ===== *)
theory Lzma_Props
  imports Tuklib_Integer
begin

text \<open>
  The options of LZMA and LZMA2 and their encodings in a file header: the byte with \<open>lc\<close>, \<open>lp\<close> and \<open>pb\<close>
  and the dictionary size (\<open>lzma/lzma_decoder.c\<close>, \<open>lzma_encoder.c\<close>, \<open>lzma2_decoder.c\<close>,
  \<open>lzma2_encoder.c\<close>), with the table of distance slots that the latter uses (\<open>lzma/fastpos.h\<close>,
  \<open>fastpos_tablegen.c\<close>).
\<close>

section \<open>Options\<close>

text \<open>\<open>lzma_options_lzma\<close> with the members that decoders read.\<close>

record lzma_options_lzma =
  dict_size :: u32
  preset_dict :: "u8 list option"
  preset_dict_size :: u32
  opt_lc :: u32
  opt_lp :: u32
  opt_pb :: u32

abbreviation (input) LZMA_LCLP_MAX :: u32 where "LZMA_LCLP_MAX \<equiv> 4"
abbreviation (input) LZMA_PB_MAX :: u32 where "LZMA_PB_MAX \<equiv> 4"
abbreviation (input) LZMA_DICT_SIZE_MIN :: u32 where "LZMA_DICT_SIZE_MIN \<equiv> 4096"

definition is_lclppb_valid :: "lzma_options_lzma \<Rightarrow> bool" where
  "is_lclppb_valid options \<longleftrightarrow> opt_lc options \<le> LZMA_LCLP_MAX \<and> opt_lp options \<le> LZMA_LCLP_MAX
     \<and> opt_lc options + opt_lp options \<le> LZMA_LCLP_MAX \<and> opt_pb options \<le> LZMA_PB_MAX"

section \<open>The LZMA1 properties\<close>

text \<open>The functions return whether there was an error, as the C functions do.\<close>

definition lzma_lzma_lclppb_decode :: "lzma_options_lzma \<Rightarrow> u8 \<Rightarrow> bool \<times> lzma_options_lzma" where
  "lzma_lzma_lclppb_decode options byte =
     (if byte > (4 * 5 + 4) * 9 + 8 then (True, options)
      else
        let pb = ucast (byte div (9 * 5));
            byte = byte - ucast (pb * 9 * 5);
            lp = ucast (byte div 9);
            lc = ucast byte - lp * 9
        in (lc + lp > LZMA_LCLP_MAX, options\<lparr>opt_pb := pb, opt_lp := lp, opt_lc := lc\<rparr>))"

definition lzma_lzma_lclppb_encode :: "lzma_options_lzma \<Rightarrow> bool \<times> u8" where
  "lzma_lzma_lclppb_encode options =
     (if \<not> is_lclppb_valid options then (True, 0)
      else (False, ucast ((opt_pb options * 5 + opt_lp options) * 9 + opt_lc options)))"

text \<open>
  \<open>alloc\<close> is what \<open>lzma_alloc\<close> returns: nothing, or memory with whatever it contains. A null pointer
  to options is dereferenced by the encoders.
\<close>

definition lzma_lzma_props_decode ::
    "lzma_options_lzma option \<Rightarrow> u8 list \<Rightarrow> lzma_ret \<times> lzma_options_lzma option" where
  "lzma_lzma_props_decode alloc props =
     (if length props \<noteq> 5 then (LZMA_OPTIONS_ERROR, None)
      else case alloc of
        None \<Rightarrow> (LZMA_MEM_ERROR, None)
      | Some opt \<Rightarrow>
          let (err, opt) = lzma_lzma_lclppb_decode opt (props ! 0)
          in if err then (LZMA_OPTIONS_ERROR, None)
             else (LZMA_OK, Some (opt\<lparr>dict_size := unaligned_read32le props 1, preset_dict := None, preset_dict_size := 0\<rparr>)))"

definition lzma_lzma_props_encode :: "lzma_options_lzma option \<Rightarrow> u8 list \<Rightarrow> (lzma_ret \<times> u8 list) res" where
  "lzma_lzma_props_encode options out =
     (case options of
        None \<Rightarrow> Crash
      | Some opt \<Rightarrow>
          let (err, byte) = lzma_lzma_lclppb_encode opt
          in Ret (if err then (LZMA_PROG_ERROR, out)
                  else (LZMA_OK, write_at 1 (unaligned_write32le (dict_size opt)) (out[0 := byte]))))"

section \<open>Distance slots\<close>

text \<open>
  The table that \<open>fastpos_tablegen.c\<close> writes: for every slot up to twice \<open>FASTPOS_BITS\<close> a run of entries.
\<close>

abbreviation (input) FASTPOS_BITS :: nat where "FASTPOS_BITS \<equiv> 13"

definition fastpos_fill :: "nat \<Rightarrow> nat list" where
  "fastpos_fill slots =
     fold (\<lambda>slot_fast fastpos. fastpos @ replicate (2 ^ (slot_fast div 2 - 1)) slot_fast) [2..<slots] [0, 1]"

definition lzma_fastpos :: "nat list" where
  "lzma_fastpos = fastpos_fill (2 * FASTPOS_BITS)"

abbreviation (input) fastpos_shift :: "nat \<Rightarrow> nat \<Rightarrow> nat" where
  "fastpos_shift extra n \<equiv> extra + n * (FASTPOS_BITS - 1)"

definition fastpos_limit :: "nat \<Rightarrow> nat \<Rightarrow> u32" where
  "fastpos_limit extra n = push_bit (FASTPOS_BITS + fastpos_shift extra n) 1"

definition fastpos_result :: "u32 \<Rightarrow> nat \<Rightarrow> nat \<Rightarrow> u32" where
  "fastpos_result dist extra n =
     of_nat (lzma_fastpos ! unat (drop_bit (fastpos_shift extra n) dist)) + 2 * of_nat (fastpos_shift extra n)"

definition get_dist_slot :: "u32 \<Rightarrow> u32" where
  "get_dist_slot dist =
     (if dist < fastpos_limit 0 0 then of_nat (lzma_fastpos ! unat dist)
      else if dist < fastpos_limit 0 1 then fastpos_result dist 0 1
      else fastpos_result dist 0 2)"

section \<open>The LZMA2 property\<close>

definition lzma2_dict_size :: "u8 \<Rightarrow> u32" where
  "lzma2_dict_size prop =
     (if prop = 40 then 0xFFFFFFFF else push_bit (unat (prop div 2) + 11) (2 OR (ucast prop AND 1)))"

definition lzma_lzma2_props_decode ::
    "lzma_options_lzma option \<Rightarrow> u8 list \<Rightarrow> lzma_ret \<times> lzma_options_lzma option" where
  "lzma_lzma2_props_decode alloc props =
     (if length props \<noteq> 1 then (LZMA_OPTIONS_ERROR, None)
      else if props ! 0 AND 0xC0 \<noteq> 0 then (LZMA_OPTIONS_ERROR, None)
      else if props ! 0 > 40 then (LZMA_OPTIONS_ERROR, None)
      else case alloc of
        None \<Rightarrow> (LZMA_MEM_ERROR, None)
      | Some opt \<Rightarrow>
          (LZMA_OK, Some (opt\<lparr>dict_size := lzma2_dict_size (props ! 0), preset_dict := None, preset_dict_size := 0\<rparr>)))"

text \<open>The rounding of the dictionary size, and the encoder.\<close>

definition dict_round :: "u32 \<Rightarrow> u32" where
  "dict_round d =
     (let d = d - 1;
          d = d OR drop_bit 2 d;
          d = d OR drop_bit 3 d;
          d = d OR drop_bit 4 d;
          d = d OR drop_bit 8 d
      in d OR drop_bit 16 d)"

definition lzma_lzma2_props_encode :: "lzma_options_lzma option \<Rightarrow> u8 list \<Rightarrow> (lzma_ret \<times> u8 list) res" where
  "lzma_lzma2_props_encode options out =
     (case options of
        None \<Rightarrow> Crash
      | Some opt \<Rightarrow>
          let d = dict_round (max (dict_size opt) LZMA_DICT_SIZE_MIN)
          in Ret (LZMA_OK, out[0 := (if d = 0xFFFFFFFF then 40 else ucast (get_dist_slot (d + 1) - 24))]))"


section \<open>The slots\<close>

text \<open>The first distance of a slot: from slot 2 on, two slots for every power of two.\<close>

definition slot_start :: "nat \<Rightarrow> nat" where
  "slot_start s = (if s < 2 then s else (2 + s mod 2) * 2 ^ (s div 2 - 1))"

lemma slot_start_Suc: "2 \<le> s \<Longrightarrow> slot_start (Suc s) = slot_start s + 2 ^ (s div 2 - 1)"
proof (cases "even s")
  case True
  assume "2 \<le> s"
  with True show ?thesis by (auto simp: slot_start_def elim!: evenE)
next
  case False
  assume "2 \<le> s"
  with False obtain m where "s = 2 * m + 1" "1 \<le> m" by (auto elim!: oddE)
  then show ?thesis by (cases m) (auto simp: slot_start_def)
qed

lemma slot_start_less: "slot_start s < slot_start (Suc s)"
  by (cases "2 \<le> s") (simp add: slot_start_Suc, auto simp: slot_start_def)

lemma slot_start_mono: "s \<le> t \<Longrightarrow> slot_start s \<le> slot_start t"
  by (rule lift_Suc_mono_le [of slot_start]) (simp_all add: slot_start_less less_imp_le)

lemma slot_unique:
  assumes "slot_start s \<le> n" "n < slot_start (Suc s)" "slot_start t \<le> n" "n < slot_start (Suc t)"
  shows "s = t"
proof (rule ccontr)
  assume "s \<noteq> t"
  then have "Suc s \<le> t \<or> Suc t \<le> s" by linarith
  then have "slot_start (Suc s) \<le> slot_start t \<or> slot_start (Suc t) \<le> slot_start s"
    using slot_start_mono by blast
  with assms show False by linarith
qed

lemma slot_start_shift: "2 \<le> s \<Longrightarrow> slot_start (s + 2 * k) = slot_start s * 2 ^ k"
proof -
  assume s: "2 \<le> s"
  then obtain m where "s div 2 = Suc m" by (cases "s div 2") auto
  with s show ?thesis by (simp add: slot_start_def power_add algebra_simps)
qed

lemma fill_Suc: "2 \<le> s \<Longrightarrow> fastpos_fill (Suc s) = fastpos_fill s @ replicate (2 ^ (s div 2 - 1)) s"
  by (simp add: fastpos_fill_def)

lemma length_fill: "length (fastpos_fill (k + 2)) = slot_start (k + 2)"
  by (induction k) (simp add: fastpos_fill_def slot_start_def, simp add: fill_Suc slot_start_Suc)

lemma fill_nth:
  "n < slot_start (k + 2) \<Longrightarrow> slot_start (fastpos_fill (k + 2) ! n) \<le> n \<and> n < slot_start (Suc (fastpos_fill (k + 2) ! n))"
proof (induction k)
  case 0
  then have "n = 0 \<or> n = 1" by (auto simp: slot_start_def)
  then show ?case by (auto simp: fastpos_fill_def slot_start_def)
next
  case (Suc k)
  show ?case
  proof (cases "n < slot_start (k + 2)")
    case True
    then show ?thesis using Suc.IH length_fill [of k] by (simp add: fill_Suc nth_append)
  next
    case False
    then have "fastpos_fill (Suc k + 2) ! n = k + 2"
      using Suc.prems length_fill [of k] by (simp add: fill_Suc nth_append slot_start_Suc)
    then show ?thesis using False Suc.prems by simp
  qed
qed

lemma fastpos_nth:
  "n < 2 ^ FASTPOS_BITS \<Longrightarrow> slot_start (lzma_fastpos ! n) \<le> n \<and> n < slot_start (Suc (lzma_fastpos ! n))"
  using fill_nth [of n 24] by (simp add: lzma_fastpos_def slot_start_def)

lemma slot_bound: "slot_start s \<le> n \<Longrightarrow> n < 2 ^ 32 \<Longrightarrow> s < 64"
proof (rule ccontr)
  assume "slot_start s \<le> n" "n < 2 ^ 32" "\<not> s < 64"
  then have "slot_start 64 \<le> slot_start s" by (intro slot_start_mono) simp
  with \<open>slot_start s \<le> n\<close> \<open>n < 2 ^ 32\<close> show False by (simp add: slot_start_def)
qed

text \<open>The table look-up on shifted distances.\<close>

lemma shifted_slot:
  fixes d :: nat
  assumes s: "slot_start s \<le> d div 2 ^ k" "d div 2 ^ k < slot_start (Suc s)" and d: "2 ^ (k + 1) \<le> d"
  shows "slot_start (s + 2 * k) \<le> d" "d < slot_start (Suc (s + 2 * k))"
proof -
  have "2 \<le> d div 2 ^ k" using d by (simp add: less_eq_div_iff_mult_less_eq)
  then have 2: "2 \<le> s" using s by (cases s; cases "s - 1") (auto simp: slot_start_def)
  from s(1) show "slot_start (s + 2 * k) \<le> d"
    by (simp add: slot_start_shift 2 less_eq_div_iff_mult_less_eq)
  from s(2) show "d < slot_start (Suc (s + 2 * k))"
    using slot_start_shift [of "Suc s" k] 2 by (simp add: div_less_iff_less_mult)
qed

lemma get_dist_slot_start:
  "slot_start (unat (get_dist_slot d)) \<le> unat d \<and> unat d < slot_start (Suc (unat (get_dist_slot d)))"
proof -
  define n where "n = unat d"
  have n: "n < 2 ^ 32" unfolding n_def using unsigned_less [of d] by simp
  have look: "slot_start (unat (of_nat (lzma_fastpos ! (n div 2 ^ k)) + 2 * of_nat k :: u32)) \<le> n
      \<and> n < slot_start (Suc (unat (of_nat (lzma_fastpos ! (n div 2 ^ k)) + 2 * of_nat k :: u32)))"
    if k: "k = 0 \<or> 2 ^ (k + 1) \<le> n" "n div 2 ^ k < 2 ^ FASTPOS_BITS" for k
  proof -
    let ?s = "lzma_fastpos ! (n div 2 ^ k)"
    have s: "slot_start (?s + 2 * k) \<le> n \<and> n < slot_start (Suc (?s + 2 * k))"
      using k fastpos_nth [OF k(2)] shifted_slot [of ?s n k] by auto
    then have "?s + 2 * k < 64" using slot_bound n by blast
    then have "unat (of_nat ?s + 2 * of_nat k :: u32) = ?s + 2 * k"
      using unat_of_nat [of "?s + 2 * k", where 'a = 32] by (simp add: take_bit_nat_eq_self)
    with s show ?thesis by simp
  qed
  have dr: "unat (drop_bit k d) = n div 2 ^ k" for k 
    using unat_drop_bit_eq [of k d] by (simp only: n_def drop_bit_eq_div [where 'a = nat])
  have lim: "d < fastpos_limit 0 0 \<longleftrightarrow> n < 2 ^ 13" "d < fastpos_limit 0 1 \<longleftrightarrow> n < 2 ^ 25"
    by (simp_all add: n_def fastpos_limit_def push_bit_eq_mult word_less_nat_alt)
  consider "n < 2 ^ 13" | "2 ^ 13 \<le> n" "n < 2 ^ 25" | "2 ^ 25 \<le> n" by linarith
  then show ?thesis
  proof cases
    case 1
    then show ?thesis using look [of 0] lim(1) by (simp add: get_dist_slot_def n_def [symmetric])
  next
    case 2
    then show ?thesis using look [of 12] lim
      by (simp add: get_dist_slot_def fastpos_result_def dr n_def [symmetric] div_less_iff_less_mult)
  next
    case 3
    then show ?thesis using look [of 24] lim n
      by (simp add: get_dist_slot_def fastpos_result_def dr n_def [symmetric] div_less_iff_less_mult)
  qed
qed


section \<open>Rounding the dictionary size\<close>

definition smear :: "u32 \<Rightarrow> u32" where
  "smear d =
     (let d = d OR drop_bit 2 d; d = d OR drop_bit 3 d; d = d OR drop_bit 4 d; d = d OR drop_bit 8 d
      in d OR drop_bit 16 d)"

lemma dict_round_smear: "dict_round d = smear (d - 1)"
  unfolding dict_round_def smear_def Let_def by (rule refl)

lemma not_bit_smear: "\<not> bit x j \<Longrightarrow> (\<And>k. 2 \<le> k \<Longrightarrow> \<not> bit x (k + j)) \<Longrightarrow> \<not> bit (smear x) j"
proof -
  assume "\<not> bit x j" and k: "\<And>k. 2 \<le> k \<Longrightarrow> \<not> bit x (k + j)"
  with k [of 2] show ?thesis by (simp add: smear_def bit_or_iff bit_drop_bit_eq)
qed

lemma bit_smear_self: "bit x j \<Longrightarrow> bit (smear x) j"
  by (simp add: smear_def Let_def bit_or_iff)

lemma bit_smear_up:
  assumes "bit x (j + k)" "2 \<le> k" shows "bit (smear x) j"
proof -
  have "k < 32" using bit_imp_le_length [OF assms(1)] by simp
  with assms(2) have "k = 2 \<or> k = 3 \<or> k = 4 \<or> k = 5 \<or> k = 6 \<or> k = 7 \<or> k = 8 \<or> k = 9 \<or> k = 10 \<or> k = 11
    \<or> k = 12 \<or> k = 13 \<or> k = 14 \<or> k = 15 \<or> k = 16 \<or> k = 17 \<or> k = 18 \<or> k = 19 \<or> k = 20 \<or> k = 21
    \<or> k = 22 \<or> k = 23 \<or> k = 24 \<or> k = 25 \<or> k = 26 \<or> k = 27 \<or> k = 28 \<or> k = 29 \<or> k = 30 \<or> k = 31"
    by presburger
  then show ?thesis using assms(1)
    by (elim disjE) (simp_all add: smear_def bit_or_iff bit_drop_bit_eq ac_simps)
qed

lemma bit_u32_odd: "bit (x :: u32) j \<longleftrightarrow> odd (unat x div 2 ^ j)"
proof -
  have "bit x j \<longleftrightarrow> bit (unat x) j" by (simp add: bit_unsigned_iff)
  then show ?thesis by (simp only: bit_iff_odd)
qed

text \<open>A number in the slot \<open>s\<close> has its highest bit at \<open>s div 2\<close>, and the bit below it says whether \<open>s\<close> is odd.\<close>

lemma slot_bits:
  assumes s: "slot_start s \<le> unat (x :: u32)" "unat x < slot_start (Suc s)" "2 \<le> s"
  shows "bit x (s div 2)" "bit x (s div 2 - 1) \<longleftrightarrow> odd s" "s div 2 < j \<Longrightarrow> \<not> bit x j"
proof -
  obtain m where m: "s div 2 = Suc m" using s(3) by (cases "s div 2") auto
  have st: "slot_start s = (2 + s mod 2) * 2 ^ m" using s(3) m by (simp add: slot_start_def)
  have nx: "slot_start (Suc s) = (3 + s mod 2) * 2 ^ m" using slot_start_Suc [OF s(3)] st m by (simp add: algebra_simps)
  have q: "unat x div 2 ^ m = 2 + s mod 2"
    by (rule div_nat_eqI) (use s st nx in \<open>simp_all add: algebra_simps\<close>)
  then show "bit x (s div 2 - 1) \<longleftrightarrow> odd s" by (simp add: bit_u32_odd m)
  have "unat x div 2 ^ Suc m = (2 + s mod 2) div 2" 
    unfolding q [symmetric] by (simp only: power_Suc2 div_mult2_eq)
  then show "bit x (s div 2)" by (simp add: bit_u32_odd m)
  assume j: "s div 2 < j"
  have "(3 + s mod 2) * 2 ^ m \<le> 4 * 2 ^ m" by (rule mult_le_mono1) simp
  with s(2) nx have "unat x < 4 * 2 ^ m" by linarith
  then have "unat x < 2 ^ (m + 2)" by simp
  also have "(2 :: nat) ^ (m + 2) \<le> 2 ^ j" using j m by (intro power_increasing) auto
  finally show "\<not> bit x j" by (simp add: bit_u32_odd)
qed

lemma unat_of_nat_less: "x = of_nat n \<Longrightarrow> n < 2 ^ 32 \<Longrightarrow> unat (x :: u32) = n"
  by (simp add: unat_of_nat)

lemma smear_slot:
  assumes s: "slot_start s \<le> unat (x :: u32)" "unat x < slot_start (Suc s)" "2 \<le> s"
  shows "unat (smear x) = slot_start (Suc s) - 1"
proof -
  obtain m where m: "s div 2 = Suc m" using s(3) by (cases "s div 2") auto
  note b = slot_bits [OF s]
  have 32: "Suc m < 32" using bit_imp_le_length [OF b(1)] m by simp
  have st: "slot_start (Suc s) = (3 + s mod 2) * 2 ^ m"
    using slot_start_Suc [OF s(3)] s(3) m by (simp add: slot_start_def algebra_simps)
  have bits: "bit (smear x) j \<longleftrightarrow> j < m \<or> j = Suc m \<or> j = m \<and> odd s" for j
  proof -
    consider "j < m" | "j = m" | "j = Suc m" | "Suc m < j" by linarith
    then show ?thesis
    proof cases
      case 1
      then show ?thesis using b(1) bit_smear_up [of x j "Suc m - j"] m by simp
    next
      case 2
      then show ?thesis using b m bit_smear_self [of x j] not_bit_smear [of x j] by auto
    next
      case 3
      then show ?thesis using b m bit_smear_self [of x j] by auto
    next
      case 4
      then show ?thesis using b m not_bit_smear [of x j] by auto
    qed
  qed
  show ?thesis
  proof (cases "odd s")
    case True
    have "smear x = mask (m + 2)" by (rule bit_word_eqI) (simp only: bits True bit_mask_iff, auto)
    then have e: "smear x = of_nat (2 ^ (m + 2) - 1)" by (simp add: mask_eq_exp_minus_1 of_nat_diff)
    have "(2 :: nat) ^ (m + 2) \<le> 2 ^ 32" using 32 by (intro power_increasing) auto
    then have "(2 :: nat) ^ (m + 2) - 1 < 2 ^ 32" by simp
    with e have "unat (smear x) = 2 ^ (m + 2) - 1" by (rule unat_of_nat_less)
    with True st show ?thesis by (simp add: odd_iff_mod_2_eq_one)
  next
    case False
    have "smear x = push_bit (Suc m) 1 OR mask m"
      by (rule bit_word_eqI) (simp only: bits False bit_mask_iff bit_or_iff bit_push_bit_iff bit_1_iff, auto)
    also have "\<dots> = push_bit (Suc m) 1 + mask m"
      by (rule disjunctive_add_eq_or [symmetric], rule bit_word_eqI)
        (simp only: bit_mask_iff bit_and_iff bit_push_bit_iff bit_1_iff bit_0_eq, auto)
    finally have e: "smear x = of_nat (2 ^ Suc m + (2 ^ m - 1))"
      by (simp add: push_bit_eq_mult mask_eq_exp_minus_1 of_nat_diff)
    have "(2 :: nat) ^ Suc m + (2 ^ m - 1) < 2 ^ 32"
    proof -
      have "(2 :: nat) ^ m \<le> 2 ^ 30" using 32 by (intro power_increasing) auto
      then show ?thesis by simp
    qed
    with e have "unat (smear x) = 2 ^ Suc m + (2 ^ m - 1)" by (rule unat_of_nat_less)
    with False st show ?thesis by (simp add: even_iff_mod_2_eq_zero)
  qed
qed


section \<open>Round trips\<close>

lemma lzma2_dict_size_slot:
  assumes "p < 40"
  shows "unat (lzma2_dict_size p) = slot_start (unat p + 24)"
proof -
  let ?n = "unat p"
  have n: "?n < 40" using assms by (simp add: word_less_nat_alt)
  have "(ucast p AND 1 :: u32) = of_bool (bit p 0)"
    by (rule bit_word_eqI) (auto simp: bit_and_iff bit_1_iff bit_ucast_iff intro!: gr0I)
  moreover have "bit p 0 \<longleftrightarrow> odd ?n"
  proof -
    have "bit p 0 \<longleftrightarrow> bit ?n 0" by (simp only: bit_unsigned_iff) simp
    then show ?thesis by (simp only: bit_0)
  qed
  ultimately have low: "(2 OR (ucast p AND 1) :: u32) = of_nat (2 + ?n mod 2)"
    by (cases "even ?n") (simp_all add: even_iff_mod_2_eq_zero odd_iff_mod_2_eq_one)
  have ne: "p \<noteq> 40" and d: "unat (p div 2) = ?n div 2" using assms by (auto simp: unat_div_distrib)
  have "push_bit k (of_nat m) = (of_nat (m * 2 ^ k) :: u32)" for k m by (simp add: push_bit_eq_mult)
  then have "lzma2_dict_size p = of_nat ((2 + ?n mod 2) * 2 ^ (?n div 2 + 11))"
    unfolding lzma2_dict_size_def low d using ne by (simp only: if_False)
  moreover have "(2 + ?n mod 2) * 2 ^ (?n div 2 + 11) < 2 ^ 32"
  proof -
    have "(2 :: nat) ^ (?n div 2 + 11) \<le> 2 ^ 30" using n by (intro power_increasing) auto
    then have "(2 + ?n mod 2) * 2 ^ (?n div 2 + 11) \<le> 3 * 2 ^ 30" by (intro mult_le_mono) auto
    then show ?thesis by simp
  qed
  ultimately have "unat (lzma2_dict_size p) = (2 + ?n mod 2) * 2 ^ (?n div 2 + 11)" by (rule unat_of_nat_less)
  moreover have "(?n + 24) mod 2 = ?n mod 2" "(?n + 24) div 2 - 1 = ?n div 2 + 11" by (simp_all add: mod_add_eq [symmetric])
  ultimately show ?thesis by (simp only: slot_start_def) simp
qed

lemma lzma2_dict_size_40: "unat (lzma2_dict_size 40) = slot_start 64 - 1"
  by (simp add: lzma2_dict_size_def slot_start_def)

lemma lzma2_dict_size_le:
  assumes "p \<le> 40"
  shows "unat (lzma2_dict_size p) = slot_start (unat p + 24) - (if p = 40 then 1 else 0)"
proof (cases "p = 40")
  case True
  then show ?thesis using lzma2_dict_size_40 by simp
next
  case False
  then have "p < 40" using assms by simp
  with False lzma2_dict_size_slot [OF this] show ?thesis by simp
qed

text \<open>
  The byte that the encoder writes: the number, less 24, of the first slot that does not begin below
  the dictionary size.
\<close>

lemma lzma2_prop_byte:
  fixes d :: u32
  assumes d: "4096 \<le> d"
  defines "s \<equiv> unat (get_dist_slot (d - 1))"
  defines "p \<equiv> (if dict_round d = 0xFFFFFFFF then 40 else ucast (get_dist_slot (dict_round d + 1) - 24) :: u8)"
  shows "unat p = s - 23" "23 \<le> s" "s < 64" "slot_start s < unat d" "unat d \<le> slot_start (Suc s)"
proof -
  have u: "unat (d - 1) = unat d - 1" "4096 \<le> unat d"
    using d by (simp_all add: unat_sub word_le_nat_alt)
  have sl: "slot_start s \<le> unat (d - 1)" "unat (d - 1) < slot_start (Suc s)"
    using get_dist_slot_start [of "d - 1"] by (simp_all add: s_def)
  then show "slot_start s < unat d" "unat d \<le> slot_start (Suc s)" using u by auto
  show s23: "23 \<le> s"
  proof (rule ccontr)
    assume "\<not> 23 \<le> s"
    then have "slot_start (Suc s) \<le> slot_start 23" by (intro slot_start_mono) simp
    then show False using sl(2) u by (simp add: slot_start_def)
  qed
  have "unat (d - 1) < 2 ^ 32" using unsigned_less [of "d - 1"] by simp
  with sl(1) show s64: "s < 64" by (rule slot_bound)
  have r: "unat (dict_round d) = slot_start (Suc s) - 1"
    unfolding dict_round_smear by (rule smear_slot) (use sl s23 in auto)
  show "unat p = s - 23"
  proof (cases "s = 63")
    case True
    then have "unat (dict_round d) = unat (0xFFFFFFFF :: u32)" using r by (simp add: slot_start_def)
    then have "dict_round d = 0xFFFFFFFF" by (simp only: word_unat_eq_iff)
    then show ?thesis using True by (simp add: p_def)
  next
    case False
    then have "slot_start (Suc s) \<le> slot_start 63" using s64 by (intro slot_start_mono) simp
    then have st: "slot_start (Suc s) \<le> 3 * 2 ^ 30" by (simp add: slot_start_def)
    then have ne: "dict_round d \<noteq> 0xFFFFFFFF" using r by (auto simp: word_unat_eq_iff)
    have pos: "0 < slot_start (Suc s)" using slot_start_less [of s] by simp
    have r1: "unat (dict_round d + 1) = slot_start (Suc s)"
      using r st pos by (simp add: unat_word_ariths)
    have g: "unat (get_dist_slot (dict_round d + 1)) = Suc s"
      using slot_unique get_dist_slot_start [of "dict_round d + 1"] slot_start_less [of "Suc s"] unfolding r1 by blast
    then have "24 \<le> get_dist_slot (dict_round d + 1)" using s23 by (simp add: word_le_nat_alt)
    then have "unat (get_dist_slot (dict_round d + 1) - 24) = s - 23" using g by (simp add: unat_sub)
    then show ?thesis using ne s64 by (simp add: p_def unsigned_ucast_eq take_bit_nat_eq_self)
  qed
qed


text \<open>
  LZMA2: the encoder writes a byte that decodes to the smallest dictionary size a byte can stand for
  that is as large as the one asked for, and at least \<open>LZMA_DICT_SIZE_MIN\<close>.
\<close>

definition lzma2_dict_fits :: "u32 \<Rightarrow> u8 \<Rightarrow> bool" where
  "lzma2_dict_fits d p \<longleftrightarrow> p \<le> 40 \<and> max d LZMA_DICT_SIZE_MIN \<le> lzma2_dict_size p
     \<and> (\<forall>q\<le>40. max d LZMA_DICT_SIZE_MIN \<le> lzma2_dict_size q \<longrightarrow> lzma2_dict_size p \<le> lzma2_dict_size q)"

lemma lzma2_dict_size_mono: "p \<le> q \<Longrightarrow> q \<le> 40 \<Longrightarrow> unat (lzma2_dict_size p) \<le> unat (lzma2_dict_size q)"
proof -
  assume pq: "p \<le> q" "q \<le> 40"
  then have p: "p \<le> 40" by simp
  have "p < q \<Longrightarrow> slot_start (unat p + 24) < slot_start (unat q + 24)"
    using slot_start_less [of "unat p + 24"] slot_start_mono [of "Suc (unat p + 24)" "unat q + 24"]
    by (simp add: word_less_nat_alt)
  moreover have "p < q" "p \<noteq> 40" if "p \<noteq> q" using that pq by auto
  ultimately show ?thesis
    using lzma2_dict_size_le [OF p] lzma2_dict_size_le [OF pq(2)] by (cases "p = q") auto
qed

lemma lzma2_prop_fits:
  fixes d :: u32
  defines "r \<equiv> dict_round (max d LZMA_DICT_SIZE_MIN)"
  shows "lzma2_dict_fits d (if r = 0xFFFFFFFF then 40 else ucast (get_dist_slot (r + 1) - 24))"
    (is "lzma2_dict_fits d ?p")
proof -
  let ?m = "max d LZMA_DICT_SIZE_MIN"
  define s where "s = unat (get_dist_slot (?m - 1))"
  have m: "4096 \<le> ?m" by simp
  note b = lzma2_prop_byte [OF m, folded r_def s_def]
  have p40: "?p \<le> 40" using b(1-3) by (simp add: word_le_nat_alt)
  have p24: "unat ?p + 24 = Suc s" using b(1,2) by simp
  have m32: "unat ?m < 2 ^ 32" using unsigned_less [of ?m] by simp
  have "unat ?m \<le> unat (lzma2_dict_size ?p)"
  proof (cases "?p = 40")
    case True
    show ?thesis unfolding True lzma2_dict_size_40 using m32 by (simp add: slot_start_def)
  next
    case False
    then show ?thesis using lzma2_dict_size_le [OF p40] b(5) unfolding p24 by simp
  qed
  moreover have "unat (lzma2_dict_size ?p) \<le> unat (lzma2_dict_size q)" if q: "q \<le> 40" "unat ?m \<le> unat (lzma2_dict_size q)" for q
  proof (rule ccontr)
    assume n: "\<not> unat (lzma2_dict_size ?p) \<le> unat (lzma2_dict_size q)"
    then have "\<not> ?p \<le> q" using lzma2_dict_size_mono [of ?p q] q(1) by blast
    then have "unat q + 24 \<le> s" using p24 by (simp add: word_le_nat_alt)
    then have "slot_start (unat q + 24) \<le> slot_start s" by (rule slot_start_mono)
    then show False using b(4) q(2) lzma2_dict_size_le [OF q(1)] by simp
  qed
  ultimately show ?thesis using p40 by (simp add: lzma2_dict_fits_def word_le_nat_alt)
qed

lemma lzma2_props_round_trip:
  "\<exists>p. lzma2_dict_fits (dict_size opt) p
     \<and> (\<forall>out. out \<noteq> [] \<longrightarrow> lzma_lzma2_props_encode (Some opt) out = Ret (LZMA_OK, write_at 0 [p] out))
     \<and> (\<forall>mem. lzma_lzma2_props_decode (Some mem) [p]
          = (LZMA_OK, Some (mem\<lparr>dict_size := lzma2_dict_size p, preset_dict := None, preset_dict_size := 0\<rparr>)))"
proof -
  let ?r = "dict_round (max (dict_size opt) LZMA_DICT_SIZE_MIN)"
  let ?p = "if ?r = 0xFFFFFFFF then 40 else ucast (get_dist_slot (?r + 1) - 24) :: u8"
  have fits: "lzma2_dict_fits (dict_size opt) ?p" by (rule lzma2_prop_fits)
  then have p: "?p \<le> 40" by (simp add: lzma2_dict_fits_def)
  have and0: "q AND 0xC0 = 0" if "q \<le> 40" for q :: u8
  proof -
    have "unat q < 2 ^ 6" using that by (simp add: word_le_nat_alt)
    then have "take_bit 6 q = q" by (simp add: take_bit_eq_mod word_unat_eq_iff unat_mod_distrib)
    then have "q AND 0xC0 = (q AND mask 6) AND 0xC0" by (simp only: take_bit_eq_mask)
    then show ?thesis by (simp add: and.assoc mask_eq_exp_minus_1)
  qed
  show ?thesis
    by (rule exI [of _ ?p])
      (use fits and0 [OF p] p in \<open>auto simp: lzma_lzma2_props_encode_def lzma_lzma2_props_decode_def Let_def
         write_at_one\<close>)
qed

text \<open>LZMA1: the byte with the three parameters and the dictionary size come back.\<close>

lemma u32_le4: "(x :: u32) \<le> 4 \<Longrightarrow> x = 0 \<or> x = 1 \<or> x = 2 \<or> x = 3 \<or> x = 4"
proof -
  assume "x \<le> 4"
  then have "unat x \<le> 4" by (simp add: word_le_nat_alt)
  then have "unat x = 0 \<or> unat x = 1 \<or> unat x = 2 \<or> unat x = 3 \<or> unat x = 4" by linarith
  then show ?thesis by (simp add: word_unat_eq_iff)
qed

lemma lclppb_round_trip:
  assumes "is_lclppb_valid opt"
  shows "lzma_lzma_lclppb_encode opt = (False, ucast ((opt_pb opt * 5 + opt_lp opt) * 9 + opt_lc opt))"
    "lzma_lzma_lclppb_decode mem (ucast ((opt_pb opt * 5 + opt_lp opt) * 9 + opt_lc opt))
       = (False, mem\<lparr>opt_pb := opt_pb opt, opt_lp := opt_lp opt, opt_lc := opt_lc opt\<rparr>)"
proof -
  show "lzma_lzma_lclppb_encode opt = (False, ucast ((opt_pb opt * 5 + opt_lp opt) * 9 + opt_lc opt))"
    using assms by (simp add: lzma_lzma_lclppb_encode_def)
  have a: "opt_lc opt \<le> 4" "opt_lp opt \<le> 4" "opt_lc opt + opt_lp opt \<le> 4" "opt_pb opt \<le> 4"
    using assms by (auto simp: is_lclppb_valid_def)
  show "lzma_lzma_lclppb_decode mem (ucast ((opt_pb opt * 5 + opt_lp opt) * 9 + opt_lc opt))
       = (False, mem\<lparr>opt_pb := opt_pb opt, opt_lp := opt_lp opt, opt_lc := opt_lc opt\<rparr>)"
    using u32_le4 [OF a(1)] u32_le4 [OF a(2)] u32_le4 [OF a(4)] a(3)
    by (elim disjE) (simp_all add: lzma_lzma_lclppb_decode_def)
qed

lemma lzma_props_round_trip:
  assumes "is_lclppb_valid opt"
  shows "\<exists>bs. length bs = 5
     \<and> (\<forall>out. 5 \<le> length out \<longrightarrow> lzma_lzma_props_encode (Some opt) out = Ret (LZMA_OK, write_at 0 bs out))
     \<and> (\<forall>mem. lzma_lzma_props_decode (Some mem) bs = (LZMA_OK, Some (mem\<lparr>dict_size := dict_size opt, preset_dict := None,
          preset_dict_size := 0, opt_lc := opt_lc opt, opt_lp := opt_lp opt, opt_pb := opt_pb opt\<rparr>)))"
proof -
  define b where "b = (ucast ((opt_pb opt * 5 + opt_lp opt) * 9 + opt_lc opt) :: u8)"
  note c = lclppb_round_trip [OF assms, folded b_def]
  let ?bs = "b # unaligned_write32le (dict_size opt)"
  have l: "length (unaligned_write32le (dict_size opt)) = 4" by (simp add: unaligned_write32le_def)
  have "write_at 1 (unaligned_write32le (dict_size opt)) (out[0 := b]) = write_at 0 ?bs out" if "5 \<le> length out" for out
    using write_at_Cons [of 0 b "unaligned_write32le (dict_size opt)" out] that l by simp
  moreover have "unaligned_read32le ?bs 1 = dict_size opt"
    using read32le_append [of "[b]" 1 "dict_size opt" "[]"] by simp
  ultimately show ?thesis
    by (intro exI [of _ ?bs]) (simp add: lzma_lzma_props_encode_def lzma_lzma_props_decode_def c l)
qed

end
