(* ===== verification/Filters.thy ===== *)
theory Filters
  imports Lzma_Props Vli Delta Simple_Coder
begin

text \<open>
  Filter chains: the table of filters and the validation of a chain (\<open>common/filter_common.c\<close>), the
  tables of decoders and encoders with their properties (\<open>filter_decoder.c\<close>, \<open>filter_encoder.c\<close>), and
  the Filter Flags field of a Block Header (\<open>filter_flags_decoder.c\<close>, \<open>filter_flags_encoder.c\<close>).
\<close>

section \<open>Filters and their options\<close>

abbreviation (input) LZMA_FILTER_DELTA :: lzma_vli where "LZMA_FILTER_DELTA \<equiv> 0x03"
abbreviation (input) LZMA_FILTER_X86 :: lzma_vli where "LZMA_FILTER_X86 \<equiv> 0x04"
abbreviation (input) LZMA_FILTER_POWERPC :: lzma_vli where "LZMA_FILTER_POWERPC \<equiv> 0x05"
abbreviation (input) LZMA_FILTER_IA64 :: lzma_vli where "LZMA_FILTER_IA64 \<equiv> 0x06"
abbreviation (input) LZMA_FILTER_ARM :: lzma_vli where "LZMA_FILTER_ARM \<equiv> 0x07"
abbreviation (input) LZMA_FILTER_ARMTHUMB :: lzma_vli where "LZMA_FILTER_ARMTHUMB \<equiv> 0x08"
abbreviation (input) LZMA_FILTER_SPARC :: lzma_vli where "LZMA_FILTER_SPARC \<equiv> 0x09"
abbreviation (input) LZMA_FILTER_LZMA2 :: lzma_vli where "LZMA_FILTER_LZMA2 \<equiv> 0x21"
abbreviation (input) LZMA_FILTER_LZMA1 :: lzma_vli where "LZMA_FILTER_LZMA1 \<equiv> 0x4000000000000001"
abbreviation (input) LZMA_FILTER_RESERVED_START :: lzma_vli where "LZMA_FILTER_RESERVED_START \<equiv> 0x4000000000000000"
abbreviation (input) LZMA_FILTERS_MAX :: nat where "LZMA_FILTERS_MAX \<equiv> 4"
abbreviation (input) UINT64_MAX :: u64 where "UINT64_MAX \<equiv> 0xFFFFFFFFFFFFFFFF"

text \<open>
  What \<open>void *options\<close> can point to. Reading a structure as another one is undefined, so a function
  that finds the wrong one crashes; \<open>lzma_options_bcj\<close> has the start offset as its only member.
\<close>

datatype filter_options =
    Options_Lzma lzma_options_lzma
  | Options_Bcj u32
  | Options_Delta lzma_options_delta

record lzma_filter =
  filter_id :: lzma_vli
  options :: "filter_options option"

abbreviation no_filter :: lzma_filter where
  "no_filter \<equiv> \<lparr>filter_id = LZMA_VLI_UNKNOWN, options = None\<rparr>"

definition lzma_opt :: "filter_options option \<Rightarrow> lzma_options_lzma option res" where
  "lzma_opt p = (case p of None \<Rightarrow> Ret None | Some (Options_Lzma opt) \<Rightarrow> Ret (Some opt) | _ \<Rightarrow> Crash)"

definition bcj_opt :: "filter_options option \<Rightarrow> u32 option res" where
  "bcj_opt p = (case p of None \<Rightarrow> Ret None | Some (Options_Bcj start_offset) \<Rightarrow> Ret (Some start_offset) | _ \<Rightarrow> Crash)"

definition delta_opt :: "filter_options option \<Rightarrow> lzma_options_delta option res" where
  "delta_opt p = (case p of None \<Rightarrow> Ret None | Some (Options_Delta opt) \<Rightarrow> Ret (Some opt) | _ \<Rightarrow> Crash)"

section \<open>Chains\<close>

text \<open>The table \<open>features\<close> (the sizes of the options only serve to copy them).\<close>

record filter_features =
  feat_id :: lzma_vli
  non_last_ok :: bool
  last_ok :: bool
  changes_size :: bool

definition features :: "filter_features list" where
  "features =
     [\<lparr>feat_id = LZMA_FILTER_LZMA1, non_last_ok = False, last_ok = True, changes_size = True\<rparr>,
      \<lparr>feat_id = LZMA_FILTER_LZMA2, non_last_ok = False, last_ok = True, changes_size = True\<rparr>,
      \<lparr>feat_id = LZMA_FILTER_X86, non_last_ok = True, last_ok = False, changes_size = False\<rparr>,
      \<lparr>feat_id = LZMA_FILTER_POWERPC, non_last_ok = True, last_ok = False, changes_size = False\<rparr>,
      \<lparr>feat_id = LZMA_FILTER_IA64, non_last_ok = True, last_ok = False, changes_size = False\<rparr>,
      \<lparr>feat_id = LZMA_FILTER_ARM, non_last_ok = True, last_ok = False, changes_size = False\<rparr>,
      \<lparr>feat_id = LZMA_FILTER_ARMTHUMB, non_last_ok = True, last_ok = False, changes_size = False\<rparr>,
      \<lparr>feat_id = LZMA_FILTER_SPARC, non_last_ok = True, last_ok = False, changes_size = False\<rparr>,
      \<lparr>feat_id = LZMA_FILTER_DELTA, non_last_ok = True, last_ok = False, changes_size = False\<rparr>]"

definition find_features :: "lzma_vli \<Rightarrow> filter_features option" where
  "find_features fid = find (\<lambda>f. feat_id f = fid) features"

text \<open>
  \<open>lzma_filters_copy\<close>: the memory of the source array is a list; running past its end crashes. \<open>allocs i\<close>
  says whether the allocation for filter \<open>i\<close> succeeds. On an error the options copied so far are freed
  and their pointers cleared.
\<close>

fun filters_copy_loop :: "(nat \<Rightarrow> bool) \<Rightarrow> nat \<Rightarrow> lzma_filter list \<Rightarrow> lzma_filter list \<Rightarrow> (lzma_ret \<times> nat \<times> lzma_filter list) res" where
  "filters_copy_loop allocs i [] dest = Crash"
| "filters_copy_loop allocs i (f # src) dest =
     (if filter_id f = LZMA_VLI_UNKNOWN then Ret (LZMA_OK, i, dest)
      else if i = LZMA_FILTERS_MAX then Ret (LZMA_OPTIONS_ERROR, i, dest)
      else if length dest \<le> i then Crash
      else if options f = None then filters_copy_loop allocs (i + 1) src (dest[i := f])
      else
        let dest = dest[i := (dest ! i)\<lparr>filter_id := filter_id f\<rparr>] in
        if find_features (filter_id f) = None then Ret (LZMA_OPTIONS_ERROR, i, dest)
        else if \<not> allocs i then Ret (LZMA_MEM_ERROR, i, dest[i := (dest ! i)\<lparr>options := None\<rparr>])
        else filters_copy_loop allocs (i + 1) src (dest[i := f]))"

definition lzma_filters_copy ::
    "(nat \<Rightarrow> bool) \<Rightarrow> lzma_filter list option \<Rightarrow> lzma_filter list option \<Rightarrow> (lzma_ret \<times> lzma_filter list option) res" where
  "lzma_filters_copy allocs src dest =
     (case (src, dest) of
        (Some src, Some dest) \<Rightarrow>
          bindR (filters_copy_loop allocs 0 src dest) (\<lambda>(ret, i, dest).
            if ret \<noteq> LZMA_OK
            then Ret (ret, Some (map (\<lambda>f. f\<lparr>options := None\<rparr>) (take i dest) @ drop i dest))
            else if length dest \<le> i then Crash
            else Ret (LZMA_OK, Some (dest[i := no_filter])))
      | _ \<Rightarrow> Ret (LZMA_PROG_ERROR, dest))"

fun validate_loop :: "lzma_filter list \<Rightarrow> bool \<Rightarrow> nat \<Rightarrow> nat \<Rightarrow> (lzma_ret \<times> nat) res" where
  "validate_loop [] non_last changes_size_count i = Crash"
| "validate_loop (f # fs) non_last changes_size_count i =
     (case find_features (filter_id f) of
        None \<Rightarrow> Ret (LZMA_OPTIONS_ERROR, 0)
      | Some ft \<Rightarrow>
          if \<not> non_last then Ret (LZMA_OPTIONS_ERROR, 0)
          else
            let changes_size_count = changes_size_count + (if changes_size ft then 1 else 0);
                i = i + 1
            in case fs of
                 [] \<Rightarrow> Crash
               | g # _ \<Rightarrow>
                   if filter_id g \<noteq> LZMA_VLI_UNKNOWN then validate_loop fs (non_last_ok ft) changes_size_count i
                   else if i > LZMA_FILTERS_MAX \<or> \<not> last_ok ft \<or> changes_size_count > 3
                   then Ret (LZMA_OPTIONS_ERROR, 0)
                   else Ret (LZMA_OK, i))"

text \<open>\<open>validate_chain\<close>: the return code and \<open>*count\<close>.\<close>

definition validate_chain :: "lzma_filter list option \<Rightarrow> (lzma_ret \<times> nat) res" where
  "validate_chain filters =
     (case filters of
        None \<Rightarrow> Ret (LZMA_PROG_ERROR, 0)
      | Some [] \<Rightarrow> Crash
      | Some (f # fs) \<Rightarrow>
          if filter_id f = LZMA_VLI_UNKNOWN then Ret (LZMA_PROG_ERROR, 0) else validate_loop (f # fs) True 0 0)"




section \<open>The tables of coders\<close>

text \<open>
  The functions that the tables name: the initialisation of a coder stays a name, since it is called
  through the chain; the others are called here. \<open>sizes\<close> has the sizes of the coder structures.
\<close>

datatype init_function =
    lzma_lzma_init | lzma_lzma2_init | lzma_simple_x86_init | lzma_simple_powerpc_init | lzma_simple_ia64_init
  | lzma_simple_arm_init | lzma_simple_armthumb_init | lzma_simple_sparc_init | lzma_delta_init

record coder_sizes =
  size_lz :: u64
  size_lzma1 :: u64
  size_lzma2 :: u64
  size_delta :: u64

definition lzma_lz_decoder_memusage :: "coder_sizes \<Rightarrow> u32 \<Rightarrow> u64" where
  "lzma_lz_decoder_memusage sizes dictionary_size = size_lz sizes + ucast dictionary_size"

definition lzma_lzma_decoder_memusage_nocheck :: "coder_sizes \<Rightarrow> lzma_options_lzma option \<Rightarrow> u64 res" where
  "lzma_lzma_decoder_memusage_nocheck sizes opt =
     (case opt of None \<Rightarrow> Crash
      | Some opt \<Rightarrow> Ret (size_lzma1 sizes + lzma_lz_decoder_memusage sizes (dict_size opt)))"

definition lzma_lzma_decoder_memusage :: "coder_sizes \<Rightarrow> filter_options option \<Rightarrow> u64 res" where
  "lzma_lzma_decoder_memusage sizes p =
     bindR (lzma_opt p) (\<lambda>opt.
       case opt of None \<Rightarrow> Crash
       | Some o' \<Rightarrow> if \<not> is_lclppb_valid o' then Ret UINT64_MAX else lzma_lzma_decoder_memusage_nocheck sizes opt)"

definition lzma_lzma2_decoder_memusage :: "coder_sizes \<Rightarrow> filter_options option \<Rightarrow> u64 res" where
  "lzma_lzma2_decoder_memusage sizes p =
     bindR (lzma_opt p) (\<lambda>opt.
       bindR (lzma_lzma_decoder_memusage_nocheck sizes opt) (\<lambda>usage. Ret (size_lzma2 sizes + usage)))"

definition delta_memusage :: "coder_sizes \<Rightarrow> filter_options option \<Rightarrow> u64 res" where
  "delta_memusage sizes p = bindR (delta_opt p) (\<lambda>opt. Ret (lzma_delta_coder_memusage (size_delta sizes) opt))"

text \<open>
  \<open>lzma_filter_decoder\<close>: a missing \<open>memusage\<close> is a null pointer. The result of \<open>props_decode\<close> is the
  return code and the new options; its first argument is the memory that the allocator returns.
\<close>

record lzma_filter_decoder =
  fd_id :: lzma_vli
  fd_init :: init_function
  fd_memusage :: "(coder_sizes \<Rightarrow> filter_options option \<Rightarrow> u64 res) option"
  fd_props_decode :: "lzma_options_lzma option \<Rightarrow> u8 list \<Rightarrow> lzma_ret \<times> filter_options option"

definition lzma_props where
  "lzma_props alloc props = (case lzma_lzma_props_decode alloc props of (ret, opt) \<Rightarrow> (ret, map_option Options_Lzma opt))"
definition lzma2_props where
  "lzma2_props alloc props = (case lzma_lzma2_props_decode alloc props of (ret, opt) \<Rightarrow> (ret, map_option Options_Lzma opt))"
definition bcj_props where
  "bcj_props alloc props = (case lzma_simple_props_decode (alloc \<noteq> (None :: lzma_options_lzma option)) props
     of (ret, opt) \<Rightarrow> (ret, map_option Options_Bcj opt))"
definition delta_props where
  "delta_props alloc props = (case lzma_delta_props_decode (alloc \<noteq> (None :: lzma_options_lzma option)) props
     of (ret, opt) \<Rightarrow> (ret, map_option Options_Delta opt))"

definition bcj_decoder :: "lzma_vli \<Rightarrow> init_function \<Rightarrow> lzma_filter_decoder" where
  "bcj_decoder fid init = \<lparr>fd_id = fid, fd_init = init, fd_memusage = None, fd_props_decode = bcj_props\<rparr>"

definition decoders :: "lzma_filter_decoder list" where
  "decoders =
     [\<lparr>fd_id = LZMA_FILTER_LZMA1, fd_init = lzma_lzma_init,
        fd_memusage = Some lzma_lzma_decoder_memusage, fd_props_decode = lzma_props\<rparr>,
      \<lparr>fd_id = LZMA_FILTER_LZMA2, fd_init = lzma_lzma2_init,
        fd_memusage = Some lzma_lzma2_decoder_memusage, fd_props_decode = lzma2_props\<rparr>,
      bcj_decoder LZMA_FILTER_X86 lzma_simple_x86_init,
      bcj_decoder LZMA_FILTER_POWERPC lzma_simple_powerpc_init,
      bcj_decoder LZMA_FILTER_IA64 lzma_simple_ia64_init,
      bcj_decoder LZMA_FILTER_ARM lzma_simple_arm_init,
      bcj_decoder LZMA_FILTER_ARMTHUMB lzma_simple_armthumb_init,
      bcj_decoder LZMA_FILTER_SPARC lzma_simple_sparc_init,
      \<lparr>fd_id = LZMA_FILTER_DELTA, fd_init = lzma_delta_init,
        fd_memusage = Some delta_memusage, fd_props_decode = delta_props\<rparr>]"

definition decoder_find :: "lzma_vli \<Rightarrow> lzma_filter_decoder option" where
  "decoder_find fid = find (\<lambda>d. fd_id d = fid) decoders"

definition lzma_filter_decoder_is_supported :: "lzma_vli \<Rightarrow> bool" where
  "lzma_filter_decoder_is_supported fid \<longleftrightarrow> decoder_find fid \<noteq> None"

definition lzma_properties_decode ::
    "lzma_filter \<Rightarrow> lzma_options_lzma option \<Rightarrow> u8 list \<Rightarrow> lzma_ret \<times> lzma_filter" where
  "lzma_properties_decode flt alloc props =
     (case decoder_find (filter_id flt) of
        None \<Rightarrow> (LZMA_OPTIONS_ERROR, flt\<lparr>options := None\<rparr>)
      | Some fd \<Rightarrow> (case fd_props_decode fd alloc props of (ret, opt) \<Rightarrow> (ret, flt\<lparr>options := opt\<rparr>)))"

text \<open>\<open>lzma_raw_coder_memusage\<close> with the decoders: the sum over the chain, once it is valid.\<close>

abbreviation (input) LZMA_MEMUSAGE_BASE :: u64 where "LZMA_MEMUSAGE_BASE \<equiv> 0x8000"

fun memusage_loop :: "coder_sizes \<Rightarrow> lzma_filter list \<Rightarrow> u64 \<Rightarrow> u64 res" where
  "memusage_loop sizes [] acc = Crash"
| "memusage_loop sizes (f # fs) acc =
     (let go = (\<lambda>acc. case fs of
                  [] \<Rightarrow> Crash
                | g # _ \<Rightarrow> if filter_id g \<noteq> LZMA_VLI_UNKNOWN then memusage_loop sizes fs acc else Ret (acc + LZMA_MEMUSAGE_BASE))
      in case decoder_find (filter_id f) of
           None \<Rightarrow> Ret UINT64_MAX
         | Some fc \<Rightarrow> (case fd_memusage fc of
             None \<Rightarrow> go (acc + 1024)
           | Some memusage \<Rightarrow>
               bindR (memusage sizes (options f)) (\<lambda>usage.
                 if usage = UINT64_MAX then Ret UINT64_MAX else go (acc + usage))))"

definition lzma_raw_decoder_memusage :: "coder_sizes \<Rightarrow> lzma_filter list option \<Rightarrow> u64 res" where
  "lzma_raw_decoder_memusage sizes filters =
     bindR (validate_chain filters) (\<lambda>(ret, _).
       if ret \<noteq> LZMA_OK then Ret UINT64_MAX
       else case filters of None \<Rightarrow> Crash | Some fs \<Rightarrow> memusage_loop sizes fs 0)"

section \<open>Initialising a chain\<close>

text \<open>
  \<open>lzma_filter_info\<close> and the part of \<open>lzma_next_coder\<close> that the initialisation of chains uses. \<open>nil\<close> is the
  state of an uninitialised coder and \<open>run\<close> calls an initialisation function on the array of filters.
\<close>

record lzma_filter_info =
  fi_id :: lzma_vli
  fi_init :: "init_function option"
  fi_options :: "filter_options option"

record 'c next_coder =
  nx_coder :: 'c
  nx_id :: lzma_vli
  nx_init :: "init_function option"

definition lzma_next_end :: "'c \<Rightarrow> 'c next_coder \<Rightarrow> 'c next_coder" where
  "lzma_next_end nil next =
     (if nx_init next \<noteq> None then \<lparr>nx_coder = nil, nx_id = LZMA_VLI_UNKNOWN, nx_init = None\<rparr> else next)"

definition lzma_next_coder_init :: "'c \<Rightarrow> init_function option \<Rightarrow> 'c next_coder \<Rightarrow> 'c next_coder" where
  "lzma_next_coder_init nil func next =
     (let next = (if func \<noteq> nx_init next then lzma_next_end nil next else next) in next\<lparr>nx_init := func\<rparr>)"

definition lzma_next_filter_init ::
    "'c \<Rightarrow> (init_function \<Rightarrow> lzma_filter_info list \<Rightarrow> 'c next_coder \<Rightarrow> lzma_ret \<times> 'c next_coder)
     \<Rightarrow> 'c next_coder \<Rightarrow> lzma_filter_info list \<Rightarrow> (lzma_ret \<times> 'c next_coder) res" where
  "lzma_next_filter_init nil run next filters =
     (case filters of
        [] \<Rightarrow> Crash
      | f # _ \<Rightarrow>
          let next = (lzma_next_coder_init nil (fi_init f) next)\<lparr>nx_id := fi_id f\<rparr>
          in case fi_init f of None \<Rightarrow> Ret (LZMA_OK, next) | Some init \<Rightarrow> Ret (run init filters next))"

text \<open>The loops that fill the array of filters, in order for a decoder and reversed for an encoder.\<close>

definition chain_infos :: "(lzma_vli \<Rightarrow> init_function option) \<Rightarrow> lzma_filter list \<Rightarrow> lzma_filter_info list option" where
  "chain_infos coder_find chain =
     those (map (\<lambda>f. case coder_find (filter_id f) of None \<Rightarrow> None
        | Some init \<Rightarrow> Some \<lparr>fi_id = filter_id f, fi_init = Some init, fi_options = options f\<rparr>) chain)"

definition lzma_raw_coder_init ::
    "'c \<Rightarrow> (init_function \<Rightarrow> lzma_filter_info list \<Rightarrow> 'c next_coder \<Rightarrow> lzma_ret \<times> 'c next_coder)
     \<Rightarrow> 'c next_coder \<Rightarrow> lzma_filter list option \<Rightarrow> (lzma_vli \<Rightarrow> init_function option) \<Rightarrow> bool
     \<Rightarrow> (lzma_ret \<times> 'c next_coder) res" where
  "lzma_raw_coder_init nil run next opts coder_find is_enc =
     bindR (validate_chain opts) (\<lambda>(ret, count).
       if ret \<noteq> LZMA_OK then Ret (ret, next)
       else case opts of
         None \<Rightarrow> Crash
       | Some fs \<Rightarrow> (case chain_infos coder_find (take count fs) of
           None \<Rightarrow> Ret (LZMA_OPTIONS_ERROR, next)
         | Some infos \<Rightarrow>
             let filters = (if is_enc then rev infos else infos)
                   @ [\<lparr>fi_id = LZMA_VLI_UNKNOWN, fi_init = None, fi_options = None\<rparr>]
             in bindR (lzma_next_filter_init nil run next filters) (\<lambda>(ret, next).
                  Ret (ret, if ret \<noteq> LZMA_OK then lzma_next_end nil next else next))))"

definition lzma_raw_decoder_init where
  "lzma_raw_decoder_init nil run next opts =
     lzma_raw_coder_init nil run next opts (\<lambda>fid. map_option fd_init (decoder_find fid)) False"

section \<open>The table of encoders\<close>

text \<open>\<open>lzma_filter_encoder\<close> with the members that the headers need.\<close>

record lzma_filter_encoder =
  fe_id :: lzma_vli
  fe_init :: init_function
  fe_props_size_get :: "(filter_options option \<Rightarrow> (lzma_ret \<times> u32) res) option"
  fe_props_size_fixed :: u32
  fe_props_encode :: "coder_sizes \<Rightarrow> filter_options option \<Rightarrow> u8 list \<Rightarrow> (lzma_ret \<times> u8 list) res"

definition bcj_encoder :: "lzma_vli \<Rightarrow> init_function \<Rightarrow> lzma_filter_encoder" where
  "bcj_encoder fid init =
     \<lparr>fe_id = fid, fe_init = init,
      fe_props_size_get = Some (\<lambda>p. bindR (bcj_opt p) (\<lambda>opt. Ret (lzma_simple_props_size opt))),
      fe_props_size_fixed = 0,
      fe_props_encode = (\<lambda>_ p out. bindR (bcj_opt p) (\<lambda>opt. Ret (lzma_simple_props_encode opt out)))\<rparr>"

definition encoders :: "lzma_filter_encoder list" where
  "encoders =
     [\<lparr>fe_id = LZMA_FILTER_LZMA1, fe_init = lzma_lzma_init, fe_props_size_get = None, fe_props_size_fixed = 5,
        fe_props_encode = (\<lambda>_ p out. bindR (lzma_opt p) (\<lambda>opt. lzma_lzma_props_encode opt out))\<rparr>,
      \<lparr>fe_id = LZMA_FILTER_LZMA2, fe_init = lzma_lzma2_init, fe_props_size_get = None, fe_props_size_fixed = 1,
        fe_props_encode = (\<lambda>_ p out. bindR (lzma_opt p) (\<lambda>opt. lzma_lzma2_props_encode opt out))\<rparr>,
      bcj_encoder LZMA_FILTER_X86 lzma_simple_x86_init,
      bcj_encoder LZMA_FILTER_POWERPC lzma_simple_powerpc_init,
      bcj_encoder LZMA_FILTER_IA64 lzma_simple_ia64_init,
      bcj_encoder LZMA_FILTER_ARM lzma_simple_arm_init,
      bcj_encoder LZMA_FILTER_ARMTHUMB lzma_simple_armthumb_init,
      bcj_encoder LZMA_FILTER_SPARC lzma_simple_sparc_init,
      \<lparr>fe_id = LZMA_FILTER_DELTA, fe_init = lzma_delta_init, fe_props_size_get = None, fe_props_size_fixed = 1,
        fe_props_encode = (\<lambda>sizes p out. bindR (delta_opt p) (\<lambda>opt.
          Ret (lzma_delta_props_encode (size_delta sizes) opt out)))\<rparr>]"

definition encoder_find :: "lzma_vli \<Rightarrow> lzma_filter_encoder option" where
  "encoder_find fid = find (\<lambda>e. fe_id e = fid) encoders"

definition lzma_filter_encoder_is_supported :: "lzma_vli \<Rightarrow> bool" where
  "lzma_filter_encoder_is_supported fid \<longleftrightarrow> encoder_find fid \<noteq> None"

definition lzma_raw_encoder_init where
  "lzma_raw_encoder_init nil run next opts =
     lzma_raw_coder_init nil run next opts (\<lambda>fid. map_option fe_init (encoder_find fid)) True"

text \<open>The return code and \<open>*size\<close>.\<close>

definition lzma_properties_size :: "lzma_filter \<Rightarrow> (lzma_ret \<times> u32) res" where
  "lzma_properties_size flt =
     (case encoder_find (filter_id flt) of
        None \<Rightarrow> Ret (if filter_id flt \<le> LZMA_VLI_MAX then LZMA_OPTIONS_ERROR else LZMA_PROG_ERROR, 0)
      | Some fe \<Rightarrow> (case fe_props_size_get fe of
          None \<Rightarrow> Ret (LZMA_OK, fe_props_size_fixed fe)
        | Some get \<Rightarrow> get (options flt)))"

definition lzma_properties_encode :: "coder_sizes \<Rightarrow> lzma_filter \<Rightarrow> u8 list \<Rightarrow> (lzma_ret \<times> u8 list) res" where
  "lzma_properties_encode sizes flt props =
     (case encoder_find (filter_id flt) of
        None \<Rightarrow> Ret (LZMA_PROG_ERROR, props)
      | Some fe \<Rightarrow> fe_props_encode fe sizes (options flt) props)"

section \<open>Filter Flags\<close>

definition lzma_filter_flags_size :: "lzma_filter \<Rightarrow> (lzma_ret \<times> u32) res" where
  "lzma_filter_flags_size flt =
     (if filter_id flt \<ge> LZMA_FILTER_RESERVED_START then Ret (LZMA_PROG_ERROR, 0)
      else bindR (lzma_properties_size flt) (\<lambda>(ret, size).
        if ret \<noteq> LZMA_OK then Ret (ret, size)
        else Ret (LZMA_OK, size + (of_nat (lzma_vli_size (filter_id flt)) + of_nat (lzma_vli_size (ucast size))))))"

text \<open>The return code, the buffer and \<open>*out_pos\<close>.\<close>

definition lzma_filter_flags_encode ::
    "coder_sizes \<Rightarrow> lzma_filter \<Rightarrow> u8 list \<Rightarrow> nat \<Rightarrow> nat \<Rightarrow> (lzma_ret \<times> u8 list \<times> nat) res" where
  "lzma_filter_flags_encode sizes flt out out_pos out_size =
     (if filter_id flt \<ge> LZMA_FILTER_RESERVED_START then Ret (LZMA_PROG_ERROR, out, out_pos)
      else bindR (lzma_vli_encode (filter_id flt) None out out_pos out_size) (\<lambda>(ret, _, out, out_pos).
        if ret \<noteq> LZMA_OK then Ret (ret, out, out_pos)
        else bindR (lzma_properties_size flt) (\<lambda>(ret, props_size).
          if ret \<noteq> LZMA_OK then Ret (ret, out, out_pos)
          else bindR (lzma_vli_encode (ucast props_size) None out out_pos out_size) (\<lambda>(ret, _, out, out_pos).
            if ret \<noteq> LZMA_OK then Ret (ret, out, out_pos)
            else if out_size - out_pos < unat props_size then Ret (LZMA_PROG_ERROR, out, out_pos)
            else bindR (lzma_properties_encode sizes flt (drop out_pos out)) (\<lambda>(ret, props).
              if ret \<noteq> LZMA_OK then Ret (ret, take out_pos out @ props, out_pos)
              else Ret (LZMA_OK, take out_pos out @ props, out_pos + unat props_size))))))"

text \<open>The return code, the filter and \<open>*in_pos\<close>.\<close>

definition lzma_filter_flags_decode ::
    "lzma_filter \<Rightarrow> lzma_options_lzma option \<Rightarrow> u8 list \<Rightarrow> nat \<Rightarrow> nat \<Rightarrow> lzma_ret \<times> lzma_filter \<times> nat" where
  "lzma_filter_flags_decode flt alloc inp in_pos in_size =
     (let flt = flt\<lparr>options := None\<rparr>;
          (ret, fid, _, in_pos) = lzma_vli_decode (filter_id flt) None inp in_pos in_size;
          flt = flt\<lparr>filter_id := fid\<rparr>
      in if ret \<noteq> LZMA_OK then (ret, flt, in_pos)
      else if fid \<ge> LZMA_FILTER_RESERVED_START then (LZMA_DATA_ERROR, flt, in_pos)
      else
        let (ret, props_size, _, in_pos) = lzma_vli_decode 0 None inp in_pos in_size
        in if ret \<noteq> LZMA_OK then (ret, flt, in_pos)
        else if in_size - in_pos < unat props_size then (LZMA_DATA_ERROR, flt, in_pos)
        else
          let (ret, flt) = lzma_properties_decode flt alloc (take (unat props_size) (drop in_pos inp))
          in (ret, flt, in_pos + unat props_size))"


section \<open>The options a filter needs\<close>

text \<open>A filter with the options that its ID asks for, as the encoder of a header accepts it.\<close>

definition bcj_ids :: "lzma_vli list" where
  "bcj_ids = [LZMA_FILTER_X86, LZMA_FILTER_POWERPC, LZMA_FILTER_IA64, LZMA_FILTER_ARM, LZMA_FILTER_ARMTHUMB, LZMA_FILTER_SPARC]"

inductive filter_ok :: "lzma_filter \<Rightarrow> bool" where
  Lzma2: "filter_ok \<lparr>filter_id = LZMA_FILTER_LZMA2, options = Some (Options_Lzma opt)\<rparr>"
| Bcj: "fid \<in> set bcj_ids \<Longrightarrow> filter_ok \<lparr>filter_id = fid, options = map_option Options_Bcj start_offset\<rparr>"
| Delta: "delta_type opt = LZMA_DELTA_TYPE_BYTE \<Longrightarrow> LZMA_DELTA_DIST_MIN \<le> dist opt \<Longrightarrow> dist opt \<le> LZMA_DELTA_DIST_MAX \<Longrightarrow>
    filter_ok \<lparr>filter_id = LZMA_FILTER_DELTA, options = Some (Options_Delta opt)\<rparr>"

text \<open>
  What comes back of a filter through its properties: the same filter, except that the dictionary size
  of LZMA2 is rounded up, and that a start offset of zero is the same as none.
\<close>

inductive read_back :: "lzma_filter \<Rightarrow> lzma_filter \<Rightarrow> bool" where
  Lzma2_back: "lzma2_dict_fits (dict_size opt) p \<Longrightarrow> dict_size opt' = lzma2_dict_size p \<Longrightarrow> preset_dict opt' = None \<Longrightarrow>
    read_back \<lparr>filter_id = LZMA_FILTER_LZMA2, options = Some (Options_Lzma opt)\<rparr>
      \<lparr>filter_id = LZMA_FILTER_LZMA2, options = Some (Options_Lzma opt')\<rparr>"
| Bcj_back: "fid \<in> set bcj_ids \<Longrightarrow>
    read_back \<lparr>filter_id = fid, options = map_option Options_Bcj start_offset\<rparr>
      \<lparr>filter_id = fid, options = (case start_offset of None \<Rightarrow> None
         | Some s \<Rightarrow> if s = 0 then None else Some (Options_Bcj s))\<rparr>"
| Delta_back: "read_back \<lparr>filter_id = LZMA_FILTER_DELTA, options = Some (Options_Delta opt)\<rparr>
      \<lparr>filter_id = LZMA_FILTER_DELTA, options = Some (Options_Delta opt)\<rparr>"

inductive_cases filter_okE: "filter_ok f"

text \<open>\<open>props\<close> are the properties of the filter \<open>f\<close>: what the encoder writes and the decoder reads.\<close>

definition props_code :: "coder_sizes \<Rightarrow> lzma_filter \<Rightarrow> u8 list \<Rightarrow> bool" where
  "props_code sizes f props \<longleftrightarrow> length props \<le> 4
     \<and> lzma_properties_size f = Ret (LZMA_OK, of_nat (length props))
     \<and> (\<forall>out. length props \<le> length out \<longrightarrow> lzma_properties_encode sizes f out = Ret (LZMA_OK, write_at 0 props out))
     \<and> (\<forall>mem. \<exists>g. lzma_properties_decode \<lparr>filter_id = filter_id f, options = None\<rparr> (Some mem) props = (LZMA_OK, g)
          \<and> read_back f g)"

lemmas props_defs = props_code_def lzma_properties_size_def lzma_properties_encode_def lzma_properties_decode_def

lemma finds:
  "encoder_find LZMA_FILTER_LZMA2 = Some (encoders ! 1)" "decoder_find LZMA_FILTER_LZMA2 = Some (decoders ! 1)"
  "encoder_find LZMA_FILTER_DELTA = Some (encoders ! 8)" "decoder_find LZMA_FILTER_DELTA = Some (decoders ! 8)"
  by (simp_all add: encoder_find_def encoders_def bcj_encoder_def decoder_find_def decoders_def bcj_decoder_def)

lemma find_bcj:
  assumes "fid \<in> set bcj_ids"
  shows "\<exists>init. encoder_find fid = Some (bcj_encoder fid init) \<and> decoder_find fid = Some (bcj_decoder fid init)"
  using assms
  by (auto simp: bcj_ids_def encoder_find_def encoders_def bcj_encoder_def decoder_find_def decoders_def bcj_decoder_def)

lemma props_code_lzma2: "\<exists>props. props_code sizes \<lparr>filter_id = LZMA_FILTER_LZMA2, options = Some (Options_Lzma opt)\<rparr> props"
proof -
  from lzma2_props_round_trip [of opt] obtain p where p: "lzma2_dict_fits (dict_size opt) p"
    "\<And>out. out \<noteq> [] \<Longrightarrow> lzma_lzma2_props_encode (Some opt) out = Ret (LZMA_OK, write_at 0 [p] out)"
    "\<And>mem. lzma_lzma2_props_decode (Some mem) [p]
       = (LZMA_OK, Some (mem\<lparr>dict_size := lzma2_dict_size p, preset_dict := None, preset_dict_size := 0\<rparr>))"
    by blast
  have e: "out \<noteq> []" if "Suc 0 \<le> length out" for out :: "u8 list" using that by auto
  have "props_code sizes \<lparr>filter_id = LZMA_FILTER_LZMA2, options = Some (Options_Lzma opt)\<rparr> [p]"
    using p read_back.Lzma2_back [OF p(1)]
    by (auto simp: props_defs finds encoders_def decoders_def lzma_opt_def lzma2_props_def dest!: e)
  then show ?thesis by blast
qed

lemma props_code_delta:
  assumes "size_delta sizes \<noteq> UINT64_MAX" "delta_type opt = LZMA_DELTA_TYPE_BYTE"
    "LZMA_DELTA_DIST_MIN \<le> dist opt" "dist opt \<le> LZMA_DELTA_DIST_MAX"
  shows "\<exists>props. props_code sizes \<lparr>filter_id = LZMA_FILTER_DELTA, options = Some (Options_Delta opt)\<rparr> props"
proof -
  have "unat (dist opt - 1) = unat (dist opt) - 1" "1 \<le> unat (dist opt)" "unat (dist opt) \<le> 256"
    using assms(3,4) by (simp_all add: unat_sub word_le_nat_alt)
  then have "dist opt - 1 < 2 ^ 8" by (simp add: word_less_nat_alt)
  then have "take_bit 8 (dist opt - 1) = dist opt - 1" using less_mask_eq by (simp only: take_bit_eq_mask)
  moreover have "ucast (ucast (dist opt - 1) :: u8) = take_bit 8 (dist opt - 1)"
    by (rule bit_word_eqI) (auto simp: bit_ucast_iff bit_take_bit_iff)
  ultimately have "ucast (ucast (dist opt - 1) :: u8) + 1 = dist opt" by simp
  then have b: "\<lparr>delta_type = 0, dist = ucast (ucast (dist opt - 1) :: u8) + 1\<rparr> = opt" using assms(2) by (cases opt) simp
  have mu: "lzma_delta_coder_memusage (size_delta sizes) (Some opt) \<noteq> UINT64_MAX"
    using assms by (auto simp: lzma_delta_coder_memusage_def)
  have "props_code sizes \<lparr>filter_id = LZMA_FILTER_DELTA, options = Some (Options_Delta opt)\<rparr> [ucast (dist opt - 1)]"
    using mu b read_back.Delta_back [of opt]
    by (auto simp: props_defs finds encoders_def decoders_def delta_opt_def delta_props_def lzma_delta_props_encode_def
        lzma_delta_props_decode_def write_at_one Suc_le_eq)
  then show ?thesis by blast
qed

lemma props_code_bcj:
  assumes "fid \<in> set bcj_ids"
  shows "\<exists>props. props_code sizes \<lparr>filter_id = fid, options = map_option Options_Bcj start_offset\<rparr> props"
proof -
  obtain init where e: "encoder_find fid = Some (bcj_encoder fid init)" and d: "decoder_find fid = Some (bcj_decoder fid init)"
    using find_bcj [OF assms] by blast
  have opt: "bcj_opt (map_option Options_Bcj start_offset) = Ret start_offset"
    by (cases start_offset) (simp_all add: bcj_opt_def)
  show ?thesis
  proof (cases "start_offset = None \<or> start_offset = Some 0")
    case True
    then have "props_code sizes \<lparr>filter_id = fid, options = map_option Options_Bcj start_offset\<rparr> []"
      using e d opt assms read_back.Bcj_back [OF assms, of start_offset]
      by (auto simp: props_defs
          bcj_encoder_def bcj_decoder_def lzma_simple_props_size_def lzma_simple_props_encode_def bcj_props_def
          lzma_simple_props_decode_def)
    then show ?thesis by blast
  next
    case False
    then obtain s where s: "start_offset = Some s" "s \<noteq> 0" by (cases start_offset) auto
    have "unaligned_read32le (unaligned_write32le s) 0 = s" using read32le_append [of "[]" 0 s "[]"] by simp
    moreover have "length (unaligned_write32le s) = 4" by (simp add: unaligned_write32le_def)
    ultimately have "props_code sizes \<lparr>filter_id = fid, options = map_option Options_Bcj start_offset\<rparr> (unaligned_write32le s)"
      using e d opt assms s read_back.Bcj_back [OF assms, of start_offset]
      by (auto simp: props_defs
          bcj_encoder_def bcj_decoder_def lzma_simple_props_size_def lzma_simple_props_encode_def bcj_props_def
          lzma_simple_props_decode_def)
    then show ?thesis by blast
  qed
qed

lemma filter_props:
  assumes "size_delta sizes \<noteq> UINT64_MAX" "filter_ok f"
  shows "\<exists>props. props_code sizes f props"
  using assms(2) by cases (use assms(1) props_code_lzma2 props_code_bcj props_code_delta in blast)+

section \<open>Round trip of Filter Flags\<close>

text \<open>\<open>bs\<close> is the Filter Flags field of \<open>f\<close>.\<close>

definition flags_code :: "coder_sizes \<Rightarrow> lzma_filter \<Rightarrow> u8 list \<Rightarrow> bool" where
  "flags_code sizes f bs \<longleftrightarrow> length bs \<le> 14
     \<and> lzma_filter_flags_size f = Ret (LZMA_OK, of_nat (length bs))
     \<and> (\<forall>out p out_size. p + length bs \<le> out_size \<longrightarrow> out_size \<le> length out \<longrightarrow>
          lzma_filter_flags_encode sizes f out p out_size = Ret (LZMA_OK, write_at p bs out, p + length bs))
     \<and> (\<forall>xs ys in_size flt mem. length xs + length bs \<le> in_size \<longrightarrow>
          (\<exists>g. lzma_filter_flags_decode flt (Some mem) (xs @ bs @ ys) (length xs) in_size
             = (LZMA_OK, g, length xs + length bs) \<and> read_back f g))"

lemma filter_ok_id: "filter_ok f \<Longrightarrow> filter_id f < LZMA_FILTER_RESERVED_START"
  by (elim filter_okE) (auto simp: bcj_ids_def)

lemma filter_flags:
  assumes "size_delta sizes \<noteq> UINT64_MAX" "filter_ok f"
  shows "\<exists>bs. flags_code sizes f bs"
proof -
  obtain props where pc: "props_code sizes f props" using filter_props [OF assms] by blast
  let ?n = "of_nat (length props) :: u32" and ?m = "of_nat (length props) :: u64"
  define bi where "bi = vli_bytes (filter_id f)"
  define bn where "bn = vli_bytes ?m"
  have len: "length props \<le> 4" using pc by (simp add: props_code_def)
  have fid: "\<not> LZMA_FILTER_RESERVED_START \<le> filter_id f" "filter_id f \<le> LZMA_VLI_MAX"
    using filter_ok_id [OF assms(2)] by (simp_all add: not_le word_less_nat_alt word_le_nat_alt)
  have un: "unat ?n = length props" "unat ?m = length props" "ucast ?n = ?m"
  proof -
    show 1: "unat ?n = length props" "unat ?m = length props" using len by (simp_all add: unat_of_nat take_bit_nat_eq_self)
    show "ucast ?n = ?m" using of_nat_unat [of ?n, where 'a = "64 word"] unfolding 1 by simp
  qed
  have m: "?m \<le> LZMA_VLI_MAX" using len un by (simp add: word_le_nat_alt)
  have li: "length bi \<le> 9" unfolding bi_def by (rule vli_max_bytes [OF fid(2)])
  have ln: "length bn \<le> 1" unfolding bn_def by (rule vli_bytes_length) (use len un in auto)
  have "lzma_filter_flags_size f = Ret (LZMA_OK, of_nat (length (bi @ bn @ props)))"
    using pc fid(1) vli_size_bytes [OF fid(2), folded bi_def] vli_size_bytes [OF m, folded bn_def] un(3)
    by (simp add: lzma_filter_flags_size_def props_code_def ac_simps)
  moreover have "lzma_filter_flags_encode sizes f out p out_size
       = Ret (LZMA_OK, write_at p (bi @ bn @ props) out, p + length (bi @ bn @ props))"
    if l: "p + length (bi @ bn @ props) \<le> out_size" "out_size \<le> length out" for out p out_size
  proof -
    let ?o1 = "write_at p bi out" and ?p1 = "p + length bi"
    let ?o2 = "write_at ?p1 bn ?o1" and ?p2 = "p + length bi + length bn"
    have e1: "lzma_vli_encode (filter_id f) None out p out_size = Ret (LZMA_OK, length bi, ?o1, ?p1)"
      unfolding bi_def by (rule vli_encode_bytes [OF fid(2)]) (use l bi_def in auto)
    have e2: "lzma_vli_encode ?m None ?o1 ?p1 out_size = Ret (LZMA_OK, length bn, ?o2, ?p2)"
      unfolding bn_def by (rule vli_encode_bytes [OF m]) (use l bn_def in auto)
    have o2: "?o2 = write_at p (bi @ bn) out" by (rule write_at_append) (use l in auto)
    have "lzma_properties_encode sizes f (drop ?p2 ?o2) = Ret (LZMA_OK, write_at 0 props (drop ?p2 ?o2))"
      using pc l by (simp add: props_code_def)
    moreover have "take ?p2 ?o2 @ write_at 0 props (drop ?p2 ?o2) = write_at ?p2 props ?o2"
      by (simp add: write_at_def ac_simps)
    moreover have "\<dots> = write_at p (bi @ bn @ props) out"
      using write_at_append [of p "bi @ bn" props out] l unfolding o2 by (simp add: add.assoc)
    ultimately show ?thesis
      using fid(1) e1 e2 pc l un unfolding lzma_filter_flags_encode_def by (simp add: props_code_def)
  qed
  moreover have "\<exists>g. lzma_filter_flags_decode flt (Some mem) (xs @ (bi @ bn @ props) @ ys) (length xs) in_size
      = (LZMA_OK, g, length xs + length (bi @ bn @ props)) \<and> read_back f g"
    if l: "length xs + length (bi @ bn @ props) \<le> in_size" for xs ys in_size flt mem
  proof -
    obtain g where g: "lzma_properties_decode \<lparr>filter_id = filter_id f, options = None\<rparr> (Some mem) props = (LZMA_OK, g)"
      "read_back f g" using pc by (auto simp: props_code_def)
    have d1: "lzma_vli_decode (filter_id flt) None (xs @ bi @ bn @ props @ ys) (length xs) in_size
        = (LZMA_OK, filter_id f, length bi, length xs + length bi)"
      unfolding bi_def by (rule vli_decode_bytes [OF fid(2)]) (use l bi_def in simp)
    have d2: "lzma_vli_decode 0 None (xs @ bi @ bn @ props @ ys) (length xs + length bi) in_size
        = (LZMA_OK, ?m, length bn, length xs + length bi + length bn)"
      using vli_decode_bytes [OF m, of "xs @ bi" in_size 0 "props @ ys"] l unfolding bn_def [symmetric] by simp
    show ?thesis
      using l d1 d2 g fid(1) un by (cases flt, intro exI [of _ g]) (simp add: lzma_filter_flags_decode_def Let_def add.assoc)
  qed
  ultimately show ?thesis
    using li ln len by (intro exI [of _ "bi @ bn @ props"]) (simp add: flags_code_def)
qed


section \<open>Well-formed chains\<close>

text \<open>
  The typing rules of a chain: the last filter is LZMA1 or LZMA2, the ones before it change addresses
  or take differences.
\<close>

definition last_ids :: "lzma_vli list" where "last_ids = [LZMA_FILTER_LZMA1, LZMA_FILTER_LZMA2]"

inductive chain_wf :: "lzma_filter list \<Rightarrow> bool" where
  Chain_last: "filter_id f \<in> set last_ids \<Longrightarrow> chain_wf [f]"
| Chain_more: "filter_id f \<in> set (LZMA_FILTER_DELTA # bcj_ids) \<Longrightarrow> chain_wf fs \<Longrightarrow> chain_wf (f # fs)"

inductive_simps chain_wf_Cons: "chain_wf (f # fs)"
inductive_simps chain_wf_Nil [simp]: "chain_wf []"

lemma find_features_cases:
  "find_features fid = (if fid \<in> set last_ids then Some \<lparr>feat_id = fid, non_last_ok = False, last_ok = True, changes_size = True\<rparr>
     else if fid \<in> set (LZMA_FILTER_DELTA # bcj_ids)
       then Some \<lparr>feat_id = fid, non_last_ok = True, last_ok = False, changes_size = False\<rparr>
     else None)"
  by (auto simp: find_features_def features_def last_ids_def bcj_ids_def)

lemma ids_disjoint: "fid \<in> set last_ids \<Longrightarrow> fid \<notin> set (LZMA_FILTER_DELTA # bcj_ids)"
  by (auto simp: last_ids_def bcj_ids_def)

lemma validate_loop_after_last:
  assumes "f # fs \<noteq> []"
  shows "validate_loop (f # fs) False ch i = Ret (LZMA_OPTIONS_ERROR, 0)"
  by (simp add: find_features_cases)

lemma validate_loop_wf:
  assumes "fs \<noteq> []" "filter_id t = LZMA_VLI_UNKNOWN" "list_all (\<lambda>f. filter_id f \<noteq> LZMA_VLI_UNKNOWN) fs"
  shows "validate_loop (fs @ t # rest) True 0 i =
     Ret (if chain_wf fs \<and> i + length fs \<le> LZMA_FILTERS_MAX then (LZMA_OK, i + length fs) else (LZMA_OPTIONS_ERROR, 0))"
  using assms(1,3)
proof (induction fs arbitrary: i)
  case (Cons f fs)
  show ?case
  proof (cases fs)
    case Nil
    then show ?thesis using assms(2)
      by (auto simp: find_features_cases chain_wf_Cons)
  next
    case (Cons g gs)
    then have "fs \<noteq> []" "filter_id g \<noteq> LZMA_VLI_UNKNOWN" using \<open>list_all _ (f # fs)\<close> by auto
    with Cons \<open>list_all _ (f # fs)\<close> Cons.IH [of "i + 1"] ids_disjoint [of "filter_id f"] show ?thesis
      by (auto simp: find_features_cases chain_wf_Cons simp del: validate_loop.simps(2)
          intro!: trans [OF validate_loop.simps(2)])
  qed
qed simp

lemma validate_chain_wf:
  assumes "fs \<noteq> []" "filter_id t = LZMA_VLI_UNKNOWN" "list_all (\<lambda>f. filter_id f \<noteq> LZMA_VLI_UNKNOWN) fs"
  shows "validate_chain (Some (fs @ t # rest)) =
     Ret (if chain_wf fs \<and> length fs \<le> LZMA_FILTERS_MAX then (LZMA_OK, length fs) else (LZMA_OPTIONS_ERROR, 0))"
  using validate_loop_wf [OF assms, of rest 0] assms(1,3)
  by (cases fs) (simp_all add: validate_chain_def del: validate_loop.simps)

section \<open>What decoding gives\<close>

lemma decoder_find_cases:
  assumes "decoder_find fid = Some fd" "fid < LZMA_FILTER_RESERVED_START"
  shows "fid = LZMA_FILTER_LZMA2 \<or> fid \<in> set bcj_ids \<or> fid = LZMA_FILTER_DELTA"
  using assms by (auto simp: decoder_find_def decoders_def bcj_decoder_def bcj_ids_def split: if_splits)

lemma delta_dist_ok:
  fixes b :: u8
  shows "LZMA_DELTA_DIST_MIN \<le> ucast b + 1" "ucast b + 1 \<le> LZMA_DELTA_DIST_MAX"
proof -
  have l: "unat b < 2 ^ 8" using unsigned_less [of b, where 'a = nat] by simp
  then have b: "unat (ucast b :: u32) = unat b" "unat b < 256"
    by (simp_all add: unsigned_ucast_eq take_bit_nat_eq_self)
  then have "unat (ucast b + 1 :: u32) = unat b + 1" by (simp add: unat_word_ariths)
  then show "LZMA_DELTA_DIST_MIN \<le> ucast b + 1" "ucast b + 1 \<le> LZMA_DELTA_DIST_MAX"
    using b by (simp_all add: word_le_nat_alt)
qed

lemma properties_decode_ok:
  assumes "lzma_properties_decode flt alloc props = (LZMA_OK, g)" "filter_id flt < LZMA_FILTER_RESERVED_START"
  shows "filter_ok g"
proof -
  obtain fd where fd: "decoder_find (filter_id flt) = Some fd"
    using assms(1) by (cases "decoder_find (filter_id flt)") (auto simp: lzma_properties_decode_def)
  from decoder_find_cases [OF this assms(2)] consider "filter_id flt = LZMA_FILTER_LZMA2"
    | "filter_id flt \<in> set bcj_ids" | "filter_id flt = LZMA_FILTER_DELTA" by blast
  then show ?thesis
  proof cases
    case 1
    then show ?thesis using assms(1)
      by (cases flt) (auto simp: lzma_properties_decode_def finds decoders_def lzma2_props_def lzma_lzma2_props_decode_def
          intro: filter_ok.Lzma2 split: if_splits option.splits prod.splits)
  next
    case 2
    then obtain opt where "g = flt\<lparr>options := map_option Options_Bcj opt\<rparr>"
      using assms(1) find_bcj [OF 2]
      by (auto simp: lzma_properties_decode_def bcj_decoder_def bcj_props_def split: prod.splits)
    then show ?thesis using filter_ok.Bcj [OF 2, of opt] by (cases flt) simp
  next
    case 3
    then show ?thesis using assms(1) delta_dist_ok
      by (cases flt) (auto simp: lzma_properties_decode_def finds decoders_def delta_props_def lzma_delta_props_decode_def
          intro!: filter_ok.Delta split: if_splits)
  qed
qed

lemma flags_decode_ok:
  "lzma_filter_flags_decode flt alloc inp in_pos in_size = (LZMA_OK, g, in_pos') \<Longrightarrow> filter_ok g"
  by (auto simp: lzma_filter_flags_decode_def Let_def not_le split: if_splits prod.splits dest: properties_decode_ok)

lemma filter_ok_not_unknown: "filter_ok f \<Longrightarrow> filter_id f \<noteq> LZMA_VLI_UNKNOWN"
  using filter_ok_id [of f] by auto

text \<open>The memory usage of decoded filters can be computed: no options are read as something else.\<close>

lemma memusage_ok:
  assumes "filter_ok f" "decoder_find (filter_id f) = Some fc" "fd_memusage fc = Some memusage"
  shows "\<exists>usage. memusage sizes (options f) = Ret usage"
  using assms(1)
proof cases
  case (Bcj fid start_offset)
  then show ?thesis using find_bcj [of fid] assms(2,3) by (auto simp: bcj_decoder_def)
qed (use assms(2,3) in \<open>auto simp: finds decoders_def lzma_lzma2_decoder_memusage_def lzma_opt_def
       lzma_lzma_decoder_memusage_nocheck_def delta_memusage_def delta_opt_def\<close>)

lemma memusage_loop_ok:
  assumes "fs \<noteq> []" "list_all filter_ok fs" "filter_id t = LZMA_VLI_UNKNOWN"
  shows "\<exists>usage. memusage_loop sizes (fs @ t # rest) acc = Ret usage"
  using assms(1,2)
proof (induction fs arbitrary: acc)
  case (Cons f fs)
  have ok: "filter_ok f" "list_all filter_ok fs" using Cons.prems by auto
  have go: "\<exists>usage. (case fs @ t # rest of [] \<Rightarrow> Crash
      | g # _ \<Rightarrow> if filter_id g \<noteq> LZMA_VLI_UNKNOWN then memusage_loop sizes (fs @ t # rest) a else Ret (a + 0x8000)) = Ret usage" for a
    using Cons.IH [OF _ ok(2), of a] assms(3) by (cases fs) auto
  show ?case
  proof (cases "decoder_find (filter_id f)")
    case fc: (Some fc)
    show ?thesis
    proof (cases "fd_memusage fc")
      case None
      then show ?thesis using fc go by simp
    next
      case (Some m)
      then obtain usage where "m sizes (options f) = Ret usage" using memusage_ok [OF ok(1) fc] by blast
      then show ?thesis using fc \<open>fd_memusage fc = Some m\<close> go by (cases "usage = UINT64_MAX") (simp_all add: Let_def)
    qed
  qed simp
qed simp

lemma raw_decoder_memusage_ok:
  assumes "fs \<noteq> []" "list_all filter_ok fs" "filter_id t = LZMA_VLI_UNKNOWN"
  shows "\<exists>usage. lzma_raw_decoder_memusage sizes (Some (fs @ t # rest)) = Ret usage"
proof -
  have "list_all (\<lambda>f. filter_id f \<noteq> LZMA_VLI_UNKNOWN) fs"
    using assms(2) by (auto simp: list_all_iff filter_ok_not_unknown)
  then show ?thesis using validate_chain_wf [OF assms(1,3)] memusage_loop_ok [OF assms, of sizes rest 0]
    by (simp add: lzma_raw_decoder_memusage_def)
qed

end
