(* ===== verification/Block_Header.thy ===== *)
theory Block_Header
  imports Filters Stream_Flags
begin

text \<open>
  Block Headers: the sizes of a Block (\<open>common/block_util.c\<close>), the encoder and the decoder of its header
  (\<open>block_header_encoder.c\<close>, \<open>block_header_decoder.c\<close>). It is proved that the decoder reads back what
  the encoder writes, and what a header that decodes says of the filters in it.
\<close>

section \<open>Blocks\<close>

text \<open>\<open>lzma_block\<close> without the raw check and the reserved members, which the header does not contain.\<close>

record lzma_block =
  blk_version :: u32
  header_size :: u32
  blk_check :: lzma_check
  compressed_size :: lzma_vli
  uncompressed_size :: lzma_vli
  blk_filters :: "lzma_filter list option"
  ignore_check :: bool

abbreviation (input) LZMA_BLOCK_HEADER_SIZE_MIN :: u32 where "LZMA_BLOCK_HEADER_SIZE_MIN \<equiv> 8"
abbreviation (input) LZMA_BLOCK_HEADER_SIZE_MAX :: u32 where "LZMA_BLOCK_HEADER_SIZE_MAX \<equiv> 1024"
abbreviation (input) UNPADDED_SIZE_MAX :: lzma_vli where "UNPADDED_SIZE_MAX \<equiv> 0x7FFFFFFFFFFFFFFC"

definition lzma_vli_is_valid :: "lzma_vli \<Rightarrow> bool" where
  "lzma_vli_is_valid vli \<longleftrightarrow> vli \<le> LZMA_VLI_MAX \<or> vli = LZMA_VLI_UNKNOWN"

definition lzma_block_unpadded_size :: "lzma_block option \<Rightarrow> lzma_vli" where
  "lzma_block_unpadded_size block =
     (case block of
        None \<Rightarrow> 0
      | Some b \<Rightarrow>
          if blk_version b > 1 \<or> header_size b < LZMA_BLOCK_HEADER_SIZE_MIN
             \<or> header_size b > LZMA_BLOCK_HEADER_SIZE_MAX \<or> header_size b AND 3 \<noteq> 0
             \<or> \<not> lzma_vli_is_valid (compressed_size b) \<or> compressed_size b = 0
             \<or> blk_check b > LZMA_CHECK_ID_MAX
          then 0
          else if compressed_size b = LZMA_VLI_UNKNOWN then LZMA_VLI_UNKNOWN
          else
            let unpadded_size = compressed_size b + ucast (header_size b) + ucast (lzma_check_size (blk_check b))
            in if unpadded_size > UNPADDED_SIZE_MAX then 0 else unpadded_size)"

definition lzma_block_compressed_size :: "lzma_block \<Rightarrow> lzma_vli \<Rightarrow> lzma_ret \<times> lzma_block" where
  "lzma_block_compressed_size block unpadded_size =
     (if lzma_block_unpadded_size (Some block) = 0 then (LZMA_PROG_ERROR, block)
      else
        let container_size = header_size block + lzma_check_size (blk_check block)
        in if unpadded_size \<le> ucast container_size then (LZMA_DATA_ERROR, block)
        else
          let size = unpadded_size - ucast container_size
          in if compressed_size block \<noteq> LZMA_VLI_UNKNOWN \<and> compressed_size block \<noteq> size
             then (LZMA_DATA_ERROR, block)
             else (LZMA_OK, block\<lparr>compressed_size := size\<rparr>))"

definition vli_ceil4 :: "lzma_vli \<Rightarrow> lzma_vli" where
  "vli_ceil4 vli = (vli + 3) AND NOT 3"

definition lzma_block_total_size :: "lzma_block option \<Rightarrow> lzma_vli" where
  "lzma_block_total_size block =
     (let unpadded_size = lzma_block_unpadded_size block
      in if unpadded_size \<noteq> LZMA_VLI_UNKNOWN then vli_ceil4 unpadded_size else unpadded_size)"

section \<open>The encoder\<close>

fun filters_size_loop :: "lzma_filter list \<Rightarrow> nat \<Rightarrow> u32 \<Rightarrow> (lzma_ret \<times> u32) res" where
  "filters_size_loop [] i hsize = Crash"
| "filters_size_loop (f # fs) i hsize =
     (if filter_id f = LZMA_VLI_UNKNOWN then Ret (LZMA_OK, hsize)
      else if i = LZMA_FILTERS_MAX then Ret (LZMA_PROG_ERROR, hsize)
      else bindR (lzma_filter_flags_size f) (\<lambda>(ret, add).
        if ret \<noteq> LZMA_OK then Ret (ret, hsize) else filters_size_loop fs (i + 1) (hsize + add)))"

text \<open>The filter array of a Block: null, without a terminator, empty, or with a first filter.\<close>

definition block_filters_missing :: "lzma_block \<Rightarrow> bool res" where
  "block_filters_missing block =
     (case blk_filters block of
        None \<Rightarrow> Ret True | Some [] \<Rightarrow> Crash | Some (f # _) \<Rightarrow> Ret (filter_id f = LZMA_VLI_UNKNOWN))"

definition lzma_block_header_size :: "lzma_block \<Rightarrow> (lzma_ret \<times> lzma_block) res" where
  "lzma_block_header_size block =
     (if blk_version block > 1 then Ret (LZMA_OPTIONS_ERROR, block)
      else
        let size = 1 + 1 + 4;
            add = of_nat (lzma_vli_size (compressed_size block))
        in if compressed_size block \<noteq> LZMA_VLI_UNKNOWN \<and> (add = 0 \<or> compressed_size block = 0)
        then Ret (LZMA_PROG_ERROR, block)
        else
          let size = (if compressed_size block \<noteq> LZMA_VLI_UNKNOWN then size + add else size);
              add = of_nat (lzma_vli_size (uncompressed_size block))
          in if uncompressed_size block \<noteq> LZMA_VLI_UNKNOWN \<and> add = 0 then Ret (LZMA_PROG_ERROR, block)
          else
            let size = (if uncompressed_size block \<noteq> LZMA_VLI_UNKNOWN then size + add else size)
            in bindR (block_filters_missing block) (\<lambda>missing.
              if missing then Ret (LZMA_PROG_ERROR, block)
              else case blk_filters block of None \<Rightarrow> Crash
              | Some fs \<Rightarrow>
                  bindR (filters_size_loop fs 0 size) (\<lambda>(ret, size).
                    if ret \<noteq> LZMA_OK then Ret (ret, block)
                    else Ret (LZMA_OK, block\<lparr>header_size := (size + 3) AND NOT 3\<rparr>))))"

text \<open>An optional size field with its flag in the second byte.\<close>

definition encode_size_field ::
    "lzma_vli \<Rightarrow> u8 \<Rightarrow> u8 list \<Rightarrow> nat \<Rightarrow> nat \<Rightarrow> (lzma_ret \<times> u8 list \<times> nat) res" where
  "encode_size_field vli flag out out_pos out_size =
     (if vli = LZMA_VLI_UNKNOWN then Ret (LZMA_OK, out, out_pos)
      else bindR (lzma_vli_encode vli None out out_pos out_size) (\<lambda>(ret, _, out, out_pos).
        if ret \<noteq> LZMA_OK then Ret (ret, out, out_pos)
        else Ret (LZMA_OK, out[1 := out ! 1 OR flag], out_pos)))"

text \<open>The loop over the filters: the return code, the number of filters, the buffer and the position.\<close>

fun encode_filters ::
    "coder_sizes \<Rightarrow> lzma_filter list \<Rightarrow> nat \<Rightarrow> u8 list \<Rightarrow> nat \<Rightarrow> nat \<Rightarrow> (lzma_ret \<times> nat \<times> u8 list \<times> nat) res" where
  "encode_filters sizes [] filter_count out out_pos out_size = Crash"
| "encode_filters sizes (f # fs) filter_count out out_pos out_size =
     (if filter_count = LZMA_FILTERS_MAX then Ret (LZMA_PROG_ERROR, filter_count, out, out_pos)
      else bindR (lzma_filter_flags_encode sizes f out out_pos out_size) (\<lambda>(ret, out, out_pos).
        if ret \<noteq> LZMA_OK then Ret (ret, filter_count, out, out_pos)
        else case fs of
            [] \<Rightarrow> Crash
          | g # _ \<Rightarrow>
              if filter_id g \<noteq> LZMA_VLI_UNKNOWN then encode_filters sizes fs (filter_count + 1) out out_pos out_size
              else Ret (LZMA_OK, filter_count + 1, out, out_pos)))"

text \<open>\<open>addr\<close> is the address of the buffer, which the CRC looks at.\<close>

definition lzma_block_header_encode ::
    "coder_sizes \<Rightarrow> nat \<Rightarrow> lzma_block \<Rightarrow> u8 list \<Rightarrow> (lzma_ret \<times> u8 list) res" where
  "lzma_block_header_encode sizes addr block out =
     (if lzma_block_unpadded_size (Some block) = 0 \<or> \<not> lzma_vli_is_valid (uncompressed_size block)
      then Ret (LZMA_PROG_ERROR, out)
      else
        let out_size = unat (header_size block) - 4;
            out = out[0 := of_nat (out_size div 4)];
            out = out[1 := 0x00]
        in bindR (encode_size_field (compressed_size block) 0x40 out 2 out_size) (\<lambda>(ret, out, out_pos).
        if ret \<noteq> LZMA_OK then Ret (ret, out)
        else bindR (encode_size_field (uncompressed_size block) 0x80 out out_pos out_size) (\<lambda>(ret, out, out_pos).
        if ret \<noteq> LZMA_OK then Ret (ret, out)
        else bindR (block_filters_missing block) (\<lambda>missing.
        if missing then Ret (LZMA_PROG_ERROR, out)
        else case blk_filters block of None \<Rightarrow> Crash
        | Some fs \<Rightarrow> bindR (encode_filters sizes fs 0 out out_pos out_size) (\<lambda>(ret, filter_count, out, out_pos).
        if ret \<noteq> LZMA_OK then Ret (ret, out)
        else
          let out = out[1 := out ! 1 OR of_nat (filter_count - 1)];
              out = write_at out_pos (replicate (out_size - out_pos) 0x00) out
          in Ret (LZMA_OK, write_at out_size (unaligned_write32le (lzma_crc32 addr (take out_size out) 0)) out))))))"

section \<open>The decoder\<close>

definition lzma_block_header_size_decode :: "u8 \<Rightarrow> u32" where
  "lzma_block_header_size_decode b = (ucast b + 1) * 4"

definition free_properties :: "lzma_filter list \<Rightarrow> lzma_filter list" where
  "free_properties filters = replicate LZMA_FILTERS_MAX no_filter @ drop LZMA_FILTERS_MAX filters"

text \<open>The loop over the filters; \<open>allocs i\<close> is what the allocator returns for filter \<open>i\<close>.\<close>

function decode_filters ::
    "(nat \<Rightarrow> lzma_options_lzma option) \<Rightarrow> nat \<Rightarrow> nat \<Rightarrow> lzma_filter list \<Rightarrow> u8 list \<Rightarrow> nat \<Rightarrow> nat
     \<Rightarrow> lzma_ret \<times> lzma_filter list \<times> nat" where
  "decode_filters allocs i filter_count filters inp in_pos in_size =
     (if i < filter_count then
        let (ret, f, in_pos) = lzma_filter_flags_decode (filters ! i) (allocs i) inp in_pos in_size;
            filters = filters[i := f]
        in if ret \<noteq> LZMA_OK then (ret, free_properties filters, in_pos)
           else decode_filters allocs (i + 1) filter_count filters inp in_pos in_size
      else (LZMA_OK, filters, in_pos))"
  by pat_completeness auto
termination by (relation "measure (\<lambda>(_, i, n, _). n - i)") auto

declare decode_filters.simps [simp del]

text \<open>
  \<open>blk_filters\<close> must point to an array of five filters. The definition follows the early returns: first
  the header size and the CRC, then the two sizes, the filters and the padding, in three functions.
\<close>

definition block_header_filters ::
    "(nat \<Rightarrow> lzma_options_lzma option) \<Rightarrow> lzma_block \<Rightarrow> lzma_filter list \<Rightarrow> u8 list \<Rightarrow> nat \<Rightarrow> nat \<Rightarrow> lzma_ret \<times> lzma_block" where
  "block_header_filters allocs block filters inp in_pos in_size =
     (let filter_count = unat (inp ! 1 AND 3) + 1;
          (ret, filters, in_pos) = decode_filters allocs 0 filter_count filters inp in_pos in_size
      in if ret \<noteq> LZMA_OK then (ret, block\<lparr>blk_filters := Some filters\<rparr>)
      else if list_ex (\<lambda>b. b \<noteq> 0x00) (segment in_pos in_size inp)
      then (LZMA_OPTIONS_ERROR, block\<lparr>blk_filters := Some (free_properties filters)\<rparr>)
      else (LZMA_OK, block\<lparr>blk_filters := Some filters\<rparr>))"

definition block_header_fields ::
    "(nat \<Rightarrow> lzma_options_lzma option) \<Rightarrow> lzma_block \<Rightarrow> lzma_filter list \<Rightarrow> u8 list \<Rightarrow> nat \<Rightarrow> lzma_ret \<times> lzma_block" where
  "block_header_fields allocs block filters inp in_size =
     (let (ret, c_size, _, in_pos) =
            (if inp ! 1 AND 0x40 \<noteq> 0 then lzma_vli_decode (compressed_size block) None inp 2 in_size
             else (LZMA_OK, LZMA_VLI_UNKNOWN, 0, 2));
          block = block\<lparr>compressed_size := c_size\<rparr>
      in if ret \<noteq> LZMA_OK then (ret, block)
      else if inp ! 1 AND 0x40 \<noteq> 0 \<and> lzma_block_unpadded_size (Some block) = 0 then (LZMA_DATA_ERROR, block)
      else
        let (ret, u_size, _, in_pos) =
              (if inp ! 1 AND 0x80 \<noteq> 0 then lzma_vli_decode (uncompressed_size block) None inp in_pos in_size
               else (LZMA_OK, LZMA_VLI_UNKNOWN, 0, in_pos));
            block = block\<lparr>uncompressed_size := u_size\<rparr>
        in if ret \<noteq> LZMA_OK then (ret, block)
        else block_header_filters allocs block filters inp in_pos in_size)"

definition lzma_block_header_decode ::
    "(nat \<Rightarrow> lzma_options_lzma option) \<Rightarrow> nat \<Rightarrow> lzma_block \<Rightarrow> u8 list \<Rightarrow> (lzma_ret \<times> lzma_block) res" where
  "lzma_block_header_decode allocs addr block inp =
     (case blk_filters block of
        None \<Rightarrow> Crash
      | Some fs \<Rightarrow>
      if length fs \<le> LZMA_FILTERS_MAX then Crash
      else
        let filters = replicate (LZMA_FILTERS_MAX + 1) no_filter @ drop (LZMA_FILTERS_MAX + 1) fs;
            block = block\<lparr>blk_filters := Some filters,
                          blk_version := (if blk_version block > 1 then 1 else blk_version block),
                          ignore_check := False\<rparr>
        in Ret
          (if lzma_block_header_size_decode (inp ! 0) \<noteq> header_size block \<or> blk_check block > LZMA_CHECK_ID_MAX
           then (LZMA_PROG_ERROR, block)
           else
             let in_size = unat (header_size block) - 4
             in if lzma_crc32 addr (take in_size inp) 0 \<noteq> unaligned_read32le inp in_size then (LZMA_DATA_ERROR, block)
             else if inp ! 1 AND 0x3C \<noteq> 0 then (LZMA_OPTIONS_ERROR, block)
             else block_header_fields allocs block filters inp in_size))"


section \<open>Round trip\<close>

text \<open>The loops over a list of filters, given the Filter Flags field of each.\<close>

lemma flags_code_parts:
  assumes "flags_code sizes f bs"
  shows "lzma_filter_flags_size f = Ret (LZMA_OK, of_nat (length bs))" "length bs \<le> 14"
    "p + length bs \<le> out_size \<Longrightarrow> out_size \<le> length out \<Longrightarrow>
       lzma_filter_flags_encode sizes f out p out_size = Ret (LZMA_OK, write_at p bs out, p + length bs)"
    "length xs + length bs \<le> in_size \<Longrightarrow>
       \<exists>g. lzma_filter_flags_decode flt (Some mem) (xs @ bs @ ys) (length xs) in_size
         = (LZMA_OK, g, length xs + length bs) \<and> read_back f g"
  using assms unfolding flags_code_def by blast+

lemma filters_size_loop_code:
  assumes "list_all2 (flags_code sizes) fs bss" "list_all filter_ok fs" "filter_id t = LZMA_VLI_UNKNOWN"
  shows "filters_size_loop (fs @ t # rest) i h =
     (if i + length fs \<le> LZMA_FILTERS_MAX \<or> LZMA_FILTERS_MAX < i then Ret (LZMA_OK, h + of_nat (length (concat bss)))
      else Ret (LZMA_PROG_ERROR, h + of_nat (length (concat (take (LZMA_FILTERS_MAX - i) bss)))))"
  using assms(1,2)
proof (induction fs bss arbitrary: i h rule: list_all2_induct)
  case Nil
  then show ?case using assms(3) by auto
next
  case (Cons f fs bs bss)
  then have "filter_id f \<noteq> LZMA_VLI_UNKNOWN" "list_all filter_ok fs" by (auto simp: filter_ok_not_unknown)
  moreover have "take (4 - i) (bs # bss) = bs # take (3 - i) bss" if "i < 4"
  proof -
    have "4 - i = Suc (3 - i)" using that by simp
    then show ?thesis by simp
  qed
  ultimately show ?case
    using Cons.IH [of "Suc i" "h + of_nat (length bs)"] flags_code_parts(1) [OF Cons.hyps(1)]
    by (auto simp: add.assoc)
qed

lemma encode_filters_code:
  assumes "list_all2 (flags_code sizes) fs bss" "list_all filter_ok fs" "filter_id t = LZMA_VLI_UNKNOWN" "fs \<noteq> []"
    "c + length fs \<le> LZMA_FILTERS_MAX" "p + length (concat bss) \<le> out_size" "out_size \<le> length out"
  shows "encode_filters sizes (fs @ t # rest) c out p out_size =
     Ret (LZMA_OK, c + length fs, write_at p (concat bss) out, p + length (concat bss))"
  using assms(1,2,4-7)
proof (induction fs bss arbitrary: c p out rule: list_all2_induct)
  case (Cons f fs bs bss)
  have e: "lzma_filter_flags_encode sizes f out p out_size = Ret (LZMA_OK, write_at p bs out, p + length bs)"
    by (rule flags_code_parts(3) [OF Cons.hyps(1)]) (use Cons.prems in auto)
  show ?case
  proof (cases fs)
    case Nil
    then show ?thesis using Cons.hyps(2) Cons.prems e assms(3) by simp
  next
    case (Cons g gs)
    then have id: "filter_id g \<noteq> LZMA_VLI_UNKNOWN" "list_all filter_ok fs" "fs \<noteq> []"
      using \<open>list_all filter_ok (f # fs)\<close> by (auto simp: filter_ok_not_unknown)
    have "encode_filters sizes (fs @ t # rest) (c + 1) (write_at p bs out) (p + length bs) out_size =
        Ret (LZMA_OK, c + 1 + length fs, write_at (p + length bs) (concat bss) (write_at p bs out), p + length bs + length (concat bss))"
      by (rule Cons.IH) (use Cons.prems id in auto)
    moreover have "write_at (p + length bs) (concat bss) (write_at p bs out) = write_at p (concat (bs # bss)) out"
      using write_at_append [of p bs "concat bss" out] Cons.prems by simp
    ultimately show ?thesis using e id(1) Cons Cons.prems by (simp add: add.assoc)
  qed
qed simp

lemma decode_filters_code:
  assumes "list_all2 (flags_code sizes) fs bss" "i + length fs = n" "n \<le> length filters"
    "\<forall>k<n. allocs k \<noteq> None" "length xs + length (concat bss) \<le> in_size"
  shows "\<exists>gs. list_all2 read_back fs gs
     \<and> decode_filters allocs i n filters (xs @ concat bss @ ys) (length xs) in_size
         = (LZMA_OK, write_at i gs filters, length xs + length (concat bss))"
  using assms
proof (induction fs bss arbitrary: i filters xs rule: list_all2_induct)
  case Nil
  then show ?case by (subst decode_filters.simps) simp
next
  case (Cons f fs bs bss)
  have "i < n" using Cons.prems(1) by simp
  then obtain mem where mem: "allocs i = Some mem" using Cons.prems(3) by blast
  obtain g where g: "lzma_filter_flags_decode (filters ! i) (Some mem) (xs @ bs @ concat bss @ ys) (length xs) in_size
      = (LZMA_OK, g, length xs + length bs)" "read_back f g"
    using flags_code_parts(4) [OF Cons.hyps(1), of xs in_size "filters ! i" mem "concat bss @ ys"] Cons.prems by auto
  have "\<exists>gs. list_all2 read_back fs gs
     \<and> decode_filters allocs (i + 1) n (filters[i := g]) ((xs @ bs) @ concat bss @ ys) (length (xs @ bs)) in_size
         = (LZMA_OK, write_at (i + 1) gs (filters[i := g]), length (xs @ bs) + length (concat bss))"
    by (rule Cons.IH) (use Cons.prems in auto)
  then obtain gs where gs: "list_all2 read_back fs gs"
     "decode_filters allocs (i + 1) n (filters[i := g]) (xs @ bs @ concat bss @ ys) (length xs + length bs) in_size
         = (LZMA_OK, write_at (i + 1) gs (filters[i := g]), length xs + length bs + length (concat bss))" by auto
  have "length gs = length fs" using gs(1) by (simp add: list_all2_lengthD)
  then have "write_at (i + 1) gs (filters[i := g]) = write_at i (g # gs) filters"
    using write_at_Cons [of i g gs filters] Cons.prems by simp
  then show ?case using gs g mem Cons.prems
    by (intro exI [of _ "g # gs"]) (subst decode_filters.simps, simp add: Let_def add.assoc)
qed


text \<open>An optional size: its bytes, the step of the encoder, and the step of the decoder.\<close>

definition vli_field :: "lzma_vli \<Rightarrow> u8 list" where
  "vli_field v = (if v = LZMA_VLI_UNKNOWN then [] else vli_bytes v)"

lemma encode_size_field_code:
  assumes "lzma_vli_is_valid v" "2 \<le> p" "p + length (vli_field v) \<le> out_size" "out_size \<le> length out"
  shows "encode_size_field v flag out p out_size =
     Ret (LZMA_OK, (write_at p (vli_field v) out)[1 := out ! 1 OR (if v = LZMA_VLI_UNKNOWN then 0 else flag)],
          p + length (vli_field v))"
proof (cases "v = LZMA_VLI_UNKNOWN")
  case True
  then show ?thesis by (simp add: encode_size_field_def vli_field_def)
next
  case False
  then have "v \<le> LZMA_VLI_MAX" using assms(1) by (simp add: lzma_vli_is_valid_def)
  moreover have "write_at p (vli_bytes v) out ! 1 = out ! 1"
    using assms by (simp add: write_at_def nth_append)
  ultimately show ?thesis
    using False assms vli_encode_bytes [of v p out_size out] by (simp add: encode_size_field_def vli_field_def)
qed

lemma decode_size_field_code:
  assumes "lzma_vli_is_valid v" "length xs + length (vli_field v) \<le> in_size"
  shows "\<exists>n. (if v \<noteq> LZMA_VLI_UNKNOWN then lzma_vli_decode v0 None (xs @ vli_field v @ ys) (length xs) in_size
       else (LZMA_OK, LZMA_VLI_UNKNOWN, 0, length xs))
     = (LZMA_OK, v, n, length xs + length (vli_field v))"
  using assms vli_decode_bytes [of v xs in_size v0 ys]
  by (auto simp: vli_field_def lzma_vli_is_valid_def)

text \<open>The second byte of the header: the flags of the sizes and the number of filters less one.\<close>

definition block_flags :: "lzma_vli \<Rightarrow> lzma_vli \<Rightarrow> nat \<Rightarrow> u8" where
  "block_flags c u n = (0 OR (if c = LZMA_VLI_UNKNOWN then 0 else 0x40)
     OR (if u = LZMA_VLI_UNKNOWN then 0 else 0x80)) OR of_nat (n - 1)"

lemma block_flags_read:
  assumes "1 \<le> n" "n \<le> 4"
  shows "block_flags c u n AND 0x3C = 0" "block_flags c u n AND 0x40 \<noteq> 0 \<longleftrightarrow> c \<noteq> LZMA_VLI_UNKNOWN"
    "block_flags c u n AND 0x80 \<noteq> 0 \<longleftrightarrow> u \<noteq> LZMA_VLI_UNKNOWN" "unat (block_flags c u n AND 3) + 1 = n"
proof -
  have "n = 1 \<or> n = 2 \<or> n = 3 \<or> n = 4" using assms by linarith
  then show "block_flags c u n AND 0x3C = 0" "block_flags c u n AND 0x40 \<noteq> 0 \<longleftrightarrow> c \<noteq> LZMA_VLI_UNKNOWN"
    "block_flags c u n AND 0x80 \<noteq> 0 \<longleftrightarrow> u \<noteq> LZMA_VLI_UNKNOWN" "unat (block_flags c u n AND 3) + 1 = n"
    by (auto simp: block_flags_def)
qed

lemma write_at_behind2: "write_at (Suc (Suc k)) bs (x # y # tail) = x # y # write_at k bs tail"
  by (simp add: write_at_def)

text \<open>The header without its CRC.\<close>

definition header_body :: "lzma_block \<Rightarrow> u8 list list \<Rightarrow> u8 list" where
  "header_body block bss =
     (let fields = vli_field (compressed_size block) @ vli_field (uncompressed_size block) @ concat bss;
          out_size = unat (header_size block) - 4
      in [of_nat (out_size div 4), block_flags (compressed_size block) (uncompressed_size block) (length bss)]
         @ fields @ replicate (out_size - (2 + length fields)) 0)"

lemma length_header_body:
  "2 + length (vli_field (compressed_size block) @ vli_field (uncompressed_size block) @ concat bss) \<le> unat (header_size block) - 4
   \<Longrightarrow> length (header_body block bss) = unat (header_size block) - 4"
  by (simp add: header_body_def Let_def)

lemma header_encode_code:
  assumes code: "list_all2 (flags_code sizes) fs bss" and ok: "list_all filter_ok fs"
    and t: "filter_id t = LZMA_VLI_UNKNOWN" and fs: "blk_filters block = Some (fs @ t # rest)" "fs \<noteq> []"
      "length fs \<le> LZMA_FILTERS_MAX"
    and valid: "lzma_block_unpadded_size (Some block) \<noteq> 0" "lzma_vli_is_valid (uncompressed_size block)"
    and "2 + length (vli_field (compressed_size block) @ vli_field (uncompressed_size block) @ concat bss)
        \<le> unat (header_size block) - 4"
    and "length out = unat (header_size block)"
  shows "lzma_block_header_encode sizes addr block out =
     Ret (LZMA_OK, header_body block bss @ unaligned_write32le (lzma_crc32 addr (header_body block bss) 0))"
proof -
  let ?c = "compressed_size block" and ?u = "uncompressed_size block"
  define n where "n = unat (header_size block) - 4"
  have room: "2 + length (vli_field ?c @ vli_field ?u @ concat bss) \<le> n" using assms(9) by (simp only: n_def)
  have out: "length out = n + 4" using assms(10) room by (simp add: n_def)
  have vc: "lzma_vli_is_valid ?c" using valid(1) by (auto simp: lzma_block_unpadded_size_def split: if_splits)
  have len: "length bss = length fs" using code by (simp add: list_all2_lengthD)
  have id: "filter_id (hd fs) \<noteq> LZMA_VLI_UNKNOWN" using ok fs(2) by (cases fs) (auto simp: filter_ok_not_unknown)
  have missing: "block_filters_missing block = Ret False"
    using fs(1,2) id by (cases fs) (simp_all add: block_filters_missing_def)
  define o0 where "o0 = out[0 := of_nat (n div 4), 1 := 0x00]"
  define f1 where "f1 = (0 OR (if ?c = LZMA_VLI_UNKNOWN then 0 else 0x40) :: u8)"
  define f2 where "f2 = (f1 OR (if ?u = LZMA_VLI_UNKNOWN then 0 else 0x80) :: u8)"
  define o1 where "o1 = (write_at 2 (vli_field ?c) o0)[1 := f1]"
  define p1 where "p1 = 2 + length (vli_field ?c)"
  define o2 where "o2 = (write_at p1 (vli_field ?u) o1)[1 := f2]"
  define p2 where "p2 = p1 + length (vli_field ?u)"
  have l0: "length o0 = length out" "o0 ! 1 = 0" using out room by (simp_all add: o0_def)
  have e1: "encode_size_field ?c 0x40 o0 2 n = Ret (LZMA_OK, o1, p1)"
    using encode_size_field_code [OF vc, of 2 n o0 "0x40"] room out l0 by (simp add: o1_def p1_def f1_def)
  have l1: "length o1 = length out" "o1 ! 1 = f1" using room out l0 by (simp_all add: o1_def)
  have e2: "encode_size_field ?u 0x80 o1 p1 n = Ret (LZMA_OK, o2, p2)"
    using encode_size_field_code [OF valid(2), of p1 n o1 "0x80"] room out l1 by (simp add: o2_def p2_def p1_def f2_def)
  have l2: "length o2 = length out" using room out l1 by (simp add: o2_def p1_def)
  have e3: "encode_filters sizes (fs @ t # rest) 0 o2 p2 n
      = Ret (LZMA_OK, length fs, write_at p2 (concat bss) o2, p2 + length (concat bss))"
    using encode_filters_code [OF code ok t fs(2), of 0 p2 n o2 rest] fs(3) room out l2 by (simp add: p1_def p2_def)
  obtain x y tail where o: "out = x # y # tail" using out room by (cases out; cases "tl out") auto
  let ?fields = "vli_field ?c @ vli_field ?u @ concat bss"
  let ?z = "replicate (n - (2 + length ?fields)) (0 :: u8)"
  have tail: "length ?fields \<le> length tail" "length (?fields @ ?z) \<le> length tail" "length tail = n + 2"
    "length (?fields @ ?z) = n - 2" using o out room by auto
  have o0': "o0 = of_nat (n div 4) # 0 # tail" by (simp add: o0_def o)
  have o1': "o1 = of_nat (n div 4) # f1 # write_at 0 (vli_field ?c) tail"
    by (simp add: o1_def o0' write_at_behind2 numeral_2_eq_2)
  have o2': "o2 = of_nat (n div 4) # f2 # write_at 0 (vli_field ?c @ vli_field ?u) tail"
    using write_at_append [of 0 "vli_field ?c" "vli_field ?u" tail] tail(1)
    by (simp add: o2_def p1_def o1' write_at_behind2)
  have o3: "write_at p2 (concat bss) o2 = of_nat (n div 4) # f2 # write_at 0 ?fields tail"
    using write_at_append [of 0 "vli_field ?c @ vli_field ?u" "concat bss" tail] tail(1)
    by (simp add: o2' p2_def p1_def write_at_behind2)
  have o4: "write_at (p2 + length (concat bss)) (replicate (n - (p2 + length (concat bss))) 0)
        (of_nat (n div 4) # fl # write_at 0 ?fields tail) = of_nat (n div 4) # fl # write_at 0 (?fields @ ?z) tail" for fl
    using write_at_append [of 0 ?fields ?z tail] tail(2) by (simp add: p2_def p1_def write_at_behind2 add.assoc)
  define out5 where "out5 = of_nat (n div 4) # block_flags ?c ?u (length bss) # write_at 0 (?fields @ ?z) tail"
  note o5 = o4 [of "block_flags ?c ?u (length bss)", folded out5_def]
  have fl: "f2 OR of_nat (length fs - 1) = block_flags ?c ?u (length bss)" by (simp add: block_flags_def f2_def f1_def len)
  have t5: "take n out5 = header_body block bss"
  proof -
    have "n = Suc (Suc (n - 2))" using room by simp
    then have "take n out5 = of_nat (n div 4) # block_flags ?c ?u (length bss) # take (n - 2) (write_at 0 (?fields @ ?z) tail)"
      unfolding out5_def by (metis take_Suc_Cons)
    also have "take (n - 2) (write_at 0 (?fields @ ?z) tail) = ?fields @ ?z"
      using tail(4) by (simp add: write_at_def)
    finally show ?thesis by (simp add: header_body_def Let_def n_def)
  qed
  have l5: "length out5 = n + 4" using tail room by (simp add: out5_def)
  have "write_at n crc out5 = header_body block bss @ crc" if "length crc = 4" for crc
    using that l5 t5 by (simp add: write_at_def)
  then have crc: "write_at n (unaligned_write32le w) out5 = header_body block bss @ unaligned_write32le w" for w
    by (simp add: unaligned_write32le_def)
  have n1: "(a # b # zs)[1 := b'] = a # b' # zs" "(a # b # zs) ! 1 = b" for a b b' :: u8 and zs by simp_all
  show ?thesis
    using valid e1 e2 e3 missing fs(1)
    by (simp add: lzma_block_header_encode_def o0_def [symmetric] o3 o5 n1 fl Let_def t5 crc
        n_def [symmetric] del: One_nat_def list_update.simps nth.simps nth_Cons_0 nth_Cons_Suc nth_Cons')
qed


lemma and_3: "unat (w AND 3 :: u32) = unat w mod 4"
proof -
  have "w AND 3 = take_bit 2 w" by (simp add: take_bit_eq_mask mask_eq_exp_minus_1)
  then show ?thesis by (simp only: unsigned_take_bit_eq take_bit_eq_mod [where 'a = nat]) simp
qed

lemma header_size_decode_byte:
  assumes "LZMA_BLOCK_HEADER_SIZE_MIN \<le> h" "h \<le> LZMA_BLOCK_HEADER_SIZE_MAX" "h AND 3 = 0"
  shows "lzma_block_header_size_decode (of_nat ((unat h - 4) div 4)) = h"
proof -
  have h: "8 \<le> unat h" "unat h \<le> 1024" "unat h mod 4 = 0"
    using assms and_3 [of h] by (simp_all add: word_le_nat_alt)
  let ?k = "(unat h - 4) div 4"
  have k: "?k < 256" "(?k + 1) * 4 = unat h" using h by presburger+
  then have "unat (of_nat ?k :: u8) = ?k" by (simp add: unat_of_nat)
  then have "ucast (of_nat ?k :: u8) = (of_nat ?k :: u32)" using of_nat_unat [of "of_nat ?k :: u8", where 'a = "32 word"] by simp
  then have "lzma_block_header_size_decode (of_nat ?k) = of_nat ((?k + 1) * 4)"
    by (simp add: lzma_block_header_size_decode_def)
  then show ?thesis unfolding k(2) by simp
qed

lemma header_decode_code:
  assumes code: "list_all2 (flags_code sizes) fs bss" and fs: "fs \<noteq> []" "length fs \<le> LZMA_FILTERS_MAX"
    and valid: "lzma_block_unpadded_size (Some block) \<noteq> 0" "lzma_vli_is_valid (uncompressed_size block)"
    and room: "2 + length (vli_field (compressed_size block) @ vli_field (uncompressed_size block) @ concat bss)
        \<le> unat (header_size block) - 4"
    and dest: "blk_filters dest = Some old" "LZMA_FILTERS_MAX < length old" "header_size dest = header_size block"
      "blk_check dest = blk_check block" and allocs: "\<forall>k<LZMA_FILTERS_MAX. allocs k \<noteq> None"
  shows "\<exists>gs dest'. lzma_block_header_decode allocs addr dest
        (header_body block bss @ unaligned_write32le (lzma_crc32 addr' (header_body block bss) 0)) = Ret (LZMA_OK, dest')
     \<and> list_all2 read_back fs gs
     \<and> blk_filters dest' = Some (gs @ replicate (5 - length fs) no_filter @ drop 5 old)
     \<and> compressed_size dest' = compressed_size block \<and> uncompressed_size dest' = uncompressed_size block
     \<and> header_size dest' = header_size block \<and> blk_check dest' = blk_check block \<and> \<not> ignore_check dest'"
proof -
  let ?c = "compressed_size block" and ?u = "uncompressed_size block"
  define n where "n = unat (header_size block) - 4"
  let ?B = "header_body block bss"
  let ?crc = "lzma_crc32 addr' ?B 0"
  define inp where "inp = ?B @ unaligned_write32le ?crc"
  have vc: "lzma_vli_is_valid ?c" and hs: "8 \<le> header_size block" "header_size block \<le> 1024" "header_size block AND 3 = 0"
    and ck: "\<not> blk_check block > LZMA_CHECK_ID_MAX"
    using valid(1) by (auto simp: lzma_block_unpadded_size_def not_less split: if_splits)
  have len: "length bss = length fs" using code by (simp add: list_all2_lengthD)
  let ?fl = "block_flags ?c ?u (length fs)"
  have nf: "1 \<le> length fs" using fs(1) by (cases fs) auto
  note flags = block_flags_read [OF nf fs(2), of ?c ?u]
  define Z where "Z = replicate (n - (2 + length (vli_field ?c @ vli_field ?u @ concat bss))) (0 :: u8)"
  define N where "N = (of_nat (n div 4) :: u8)"
  have body: "?B = [N, ?fl] @ vli_field ?c @ vli_field ?u @ concat bss @ Z"
    by (simp add: header_body_def Let_def n_def Z_def N_def len)
  have lB: "length ?B = n" using length_header_body [OF room] by (simp add: n_def)
  have i01: "inp ! 0 = N" "inp ! 1 = ?fl" by (simp_all add: inp_def body)
  have N: "lzma_block_header_size_decode N = header_size block"
    using header_size_decode_byte [OF hs] by (simp add: N_def n_def)
  have crc: "lzma_crc32 addr (take n inp) 0 = unaligned_read32le inp n"
    using read32le_append [OF lB, of ?crc "[]"] lB by (simp add: inp_def crc32_any_addr)
  let ?tail = "unaligned_write32le ?crc"
  let ?p1 = "2 + length (vli_field ?c)"
  have l: "length [N, ?fl] = 2" "length ([N, ?fl] @ vli_field ?c) = ?p1" by simp_all
  have r: "2 + length (vli_field ?c) \<le> n" "?p1 + length (vli_field ?u) \<le> n" using room by (auto simp: n_def)
  have "[N, ?fl] @ vli_field ?c @ (vli_field ?u @ concat bss @ Z @ ?tail) = inp"
    "([N, ?fl] @ vli_field ?c) @ vli_field ?u @ (concat bss @ Z @ ?tail) = inp" by (simp_all add: inp_def body)
  note cat = this
  note d1' = decode_size_field_code [OF vc, of "[N, ?fl]" n "compressed_size dest" "vli_field ?u @ concat bss @ Z @ ?tail",
      unfolded cat l, OF r(1)]
  note d2' = decode_size_field_code [OF valid(2), of "[N, ?fl] @ vli_field ?c" n "uncompressed_size dest" "concat bss @ Z @ ?tail",
      unfolded cat l, OF r(2)]
  obtain k1 where d1: "(if ?c \<noteq> LZMA_VLI_UNKNOWN then lzma_vli_decode (compressed_size dest) None inp 2 n
       else (LZMA_OK, LZMA_VLI_UNKNOWN, 0, 2)) = (LZMA_OK, ?c, k1, ?p1)" using d1' by blast
  obtain k2 where d2: "(if ?u \<noteq> LZMA_VLI_UNKNOWN then lzma_vli_decode (uncompressed_size dest) None inp ?p1 n
       else (LZMA_OK, LZMA_VLI_UNKNOWN, 0, ?p1)) = (LZMA_OK, ?u, k2, ?p1 + length (vli_field ?u))" using d2' by blast
  let ?p2 = "?p1 + length (vli_field ?u)" and ?F = "replicate 5 no_filter @ drop 5 old"
  obtain gs where gs: "list_all2 read_back fs gs"
    "decode_filters allocs 0 (length fs) ?F inp ?p2 n = (LZMA_OK, write_at 0 gs ?F, ?p2 + length (concat bss))"
    using decode_filters_code [OF code, of 0 "length fs" ?F allocs "[N, ?fl] @ vli_field ?c @ vli_field ?u" n "Z @ ?tail"]
      room fs(2) allocs dest(2) by (auto simp: inp_def body n_def)
  have lg: "length gs = length fs" using gs(1) by (simp add: list_all2_lengthD)
  have wg: "write_at 0 gs ?F = gs @ replicate (5 - length fs) no_filter @ drop 5 old"
    using fs(2) lg by (simp add: write_at_def)
  have pad: "segment (?p2 + length (concat bss)) n inp = Z"
  proof -
    have "segment (?p2 + length (concat bss)) n inp = segment (?p2 + length (concat bss)) n ?B"
      using segment_take [of n n "?p2 + length (concat bss)" inp] lB by (simp add: inp_def)
    also have "\<dots> = Z" using lB by (simp add: segment_def body)
    finally show ?thesis .
  qed
  have z: "\<not> list_ex (\<lambda>b. b \<noteq> 0) Z" by (simp add: Z_def list_ex_iff)
  define ver where "ver = (if blk_version dest > 1 then 1 else blk_version dest)"
  define base where "base = dest\<lparr>blk_filters := Some ?F, blk_version := ver, ignore_check := False\<rparr>"
  define b1 where "b1 = base\<lparr>compressed_size := ?c\<rparr>"
  have up: "lzma_block_unpadded_size (Some b1) \<noteq> 0"
  proof -
    have "ver \<le> 1" by (simp add: ver_def not_less)
    then have "lzma_block_unpadded_size (Some b1) = lzma_block_unpadded_size (Some block)"
      using valid(1) dest(3,4)
      by (auto simp: b1_def base_def lzma_block_unpadded_size_def not_less split: if_splits)
    then show ?thesis using valid(1) by simp
  qed
  have bf: "block_header_filters allocs (b1\<lparr>uncompressed_size := ?u\<rparr>) ?F inp ?p2 n
      = (LZMA_OK, b1\<lparr>uncompressed_size := ?u, blk_filters := Some (write_at 0 gs ?F)\<rparr>)"
    unfolding block_header_filters_def i01(2) flags(4) gs(2) Let_def prod.case pad using z by simp
  have b1u: "uncompressed_size b1 = uncompressed_size dest" "compressed_size base = compressed_size dest"
    by (simp_all add: b1_def base_def)
  have "block_header_fields allocs base ?F inp n
      = (LZMA_OK, b1\<lparr>uncompressed_size := ?u, blk_filters := Some (write_at 0 gs ?F)\<rparr>)"
    unfolding block_header_fields_def i01(2) flags(2,3) b1u d1 Let_def prod.case b1_def [symmetric]
    unfolding b1u d2 prod.case bf using up by simp
  then have "lzma_block_header_decode allocs addr dest inp
      = Ret (LZMA_OK, b1\<lparr>uncompressed_size := ?u, blk_filters := Some (write_at 0 gs ?F)\<rparr>)"
    using dest i01 N crc flags(1) ck
    by (simp add: lzma_block_header_decode_def Let_def base_def ver_def n_def)
  then show ?thesis using gs(1) dest unfolding wg inp_def
    by - (rule exI [of _ gs], rule exI, rule conjI, assumption, auto simp: b1_def base_def)
qed


lemma filters_code:
  assumes "size_delta sizes \<noteq> UINT64_MAX" "list_all filter_ok fs"
  shows "\<exists>bss. list_all2 (flags_code sizes) fs bss"
  using assms(2)
proof (induction fs)
  case (Cons f fs)
  then obtain bs bss where "flags_code sizes f bs" "list_all2 (flags_code sizes) fs bss"
    using filter_flags [OF assms(1), of f] by auto
  then show ?case by (intro exI [of _ "bs # bss"]) simp
qed (intro exI [of _ "[]"], simp)

lemma flags_code_lengths: "list_all2 (flags_code sizes) fs bss \<Longrightarrow> length (concat bss) \<le> 14 * length fs"
  by (induction fs bss rule: list_all2_induct) (auto dest: flags_code_parts(2))

lemma round_up_4:
  fixes w :: u32
  assumes "unat w < 2 ^ 31"
  shows "unat w \<le> unat ((w + 3) AND NOT 3)"
proof -
  let ?y = "w + 3"
  have y: "unat ?y = unat w + 3" using assms by (simp add: unat_word_ariths)
  have m: "(3 :: u32) = mask 2" by (simp add: mask_eq_exp_minus_1)
  have Suc2: "\<And>n. 2 \<le> n \<Longrightarrow> Suc (Suc (n - 2)) = n" by simp
  have "?y AND NOT 3 = push_bit 2 (drop_bit 2 ?y)" unfolding m
    using Suc2 by (intro bit_word_eqI) (auto simp: bit_and_iff bit_not_iff bit_mask_iff bit_push_bit_iff bit_drop_bit_eq)
  moreover have "push_bit 2 (drop_bit 2 ?y) + take_bit 2 ?y = ?y" by (rule bits_ident)
  ultimately have e: "?y AND NOT 3 = ?y - (?y AND 3)" by (simp add: m take_bit_eq_mask algebra_simps)
  have "unat (?y AND 3) \<le> 3" by (simp add: and_3)
  moreover have "?y AND 3 \<le> ?y" by (rule word_and_le2)
  ultimately show ?thesis using y unfolding e by (simp add: unat_sub)
qed

lemma vli_field_unknown [simp]: "vli_field LZMA_VLI_UNKNOWN = []"
  by (simp add: vli_field_def)

lemma vli_field_size:
  assumes "v = LZMA_VLI_UNKNOWN \<or> lzma_vli_size v \<noteq> 0"
  shows "lzma_vli_is_valid v" "length (vli_field v) \<le> 9"
    "v \<noteq> LZMA_VLI_UNKNOWN \<Longrightarrow> lzma_vli_size v = length (vli_field v)"
proof -
  have "v \<le> LZMA_VLI_MAX" if "v \<noteq> LZMA_VLI_UNKNOWN" using assms that by (auto simp: lzma_vli_size_def split: if_splits)
  then show "lzma_vli_is_valid v" "length (vli_field v) \<le> 9"
    "v \<noteq> LZMA_VLI_UNKNOWN \<Longrightarrow> lzma_vli_size v = length (vli_field v)"
    using vli_max_bytes [of v] vli_size_bytes [of v] by (auto simp: lzma_vli_is_valid_def vli_field_def)
qed

lemma header_size_room:
  assumes size: "lzma_block_header_size b0 = Ret (LZMA_OK, block)"
    and fs: "blk_filters b0 = Some (fs @ t # rest)" "filter_id t = LZMA_VLI_UNKNOWN" "list_all filter_ok fs"
    and code: "list_all2 (flags_code sizes) fs bss"
  shows "\<exists>h. block = b0\<lparr>header_size := h\<rparr>" "fs \<noteq> []" "length fs \<le> LZMA_FILTERS_MAX"
    "lzma_vli_is_valid (uncompressed_size block)"
    "2 + length (vli_field (compressed_size block) @ vli_field (uncompressed_size block) @ concat bss)
        \<le> unat (header_size block) - 4"
proof -
  let ?c = "compressed_size b0" and ?u = "uncompressed_size b0"
  have c: "?c = LZMA_VLI_UNKNOWN \<or> lzma_vli_size ?c \<noteq> 0"
    by (rule ccontr) (use size in \<open>auto simp: lzma_block_header_size_def Let_def split: if_splits\<close>)
  have u: "?u = LZMA_VLI_UNKNOWN \<or> lzma_vli_size ?u \<noteq> 0"
    by (rule ccontr) (use size in \<open>auto simp: lzma_block_header_size_def Let_def split: if_splits\<close>)
  have ne: "fs \<noteq> []" using size fs(1,2)
    by (auto simp: lzma_block_header_size_def block_filters_missing_def Let_def split: if_splits)
  then have "block_filters_missing b0 = Ret False"
    using fs by (cases fs) (auto simp: block_filters_missing_def filter_ok_not_unknown)
  note le = filters_size_loop_code [OF code fs(3,2), of rest 0]
  define h where "h = 6 + of_nat (length (vli_field ?c)) + of_nat (length (vli_field ?u)) + (of_nat (length (concat bss)) :: u32)"
  have b4: "length fs \<le> 4 \<and> block = b0\<lparr>header_size := (h + 3) AND NOT 3\<rparr>"
    using size \<open>block_filters_missing b0 = Ret False\<close> fs(1) le vli_field_size(3) [OF c] vli_field_size(3) [OF u]
    by (auto simp: lzma_block_header_size_def Let_def h_def split: if_splits)
  then show 4: "length fs \<le> LZMA_FILTERS_MAX" and b: "\<exists>h. block = b0\<lparr>header_size := h\<rparr>" by auto
  show "fs \<noteq> []" by (rule ne)
  show "lzma_vli_is_valid (uncompressed_size block)" using b vli_field_size(1) [OF u] by auto
  define n where "n = 6 + length (vli_field ?c) + length (vli_field ?u) + length (concat bss)"
  have n: "n \<le> 80"
    using flags_code_lengths [OF code] 4 vli_field_size(2) [OF c] vli_field_size(2) [OF u] by (simp add: n_def)
  have "h = of_nat n" by (simp add: h_def n_def)
  then have "unat h = n" using n by (intro unat_of_nat_less) auto
  then show "2 + length (vli_field (compressed_size block) @ vli_field (uncompressed_size block) @ concat bss)
        \<le> unat (header_size block) - 4"
    using round_up_4 [of h] n b4 by (simp add: n_def)
qed

section \<open>Headers that decode\<close>

lemma decode_filters_ok:
  assumes "decode_filters allocs i n filters inp in_pos in_size = (LZMA_OK, fs, in_pos')" "n \<le> length filters"
  shows "length fs = length filters \<and> (\<forall>k. i \<le> k \<and> k < n \<longrightarrow> filter_ok (fs ! k))
     \<and> (\<forall>k. k < i \<or> n \<le> k \<longrightarrow> fs ! k = filters ! k)"
  using assms
proof (induction allocs i n filters inp in_pos in_size rule: decode_filters.induct)
  case (1 allocs i n filters inp in_pos in_size)
  show ?case
  proof (cases "i < n")
    case False
    then show ?thesis using "1.prems" by (subst (asm) decode_filters.simps) auto
  next
    case True
    obtain ret f p where f: "lzma_filter_flags_decode (filters ! i) (allocs i) inp in_pos in_size = (ret, f, p)"
      by (metis prod_cases3)
    then have ret: "ret = LZMA_OK" and d: "decode_filters allocs (i + 1) n (filters[i := f]) inp p in_size = (LZMA_OK, fs, in_pos')"
      using "1.prems"(1) True by (auto simp: decode_filters.simps [of allocs i] Let_def split: if_splits)
    have "filter_ok f" using f ret flags_decode_ok by blast
    moreover have "length fs = length (filters[i := f]) \<and> (\<forall>k. i + 1 \<le> k \<and> k < n \<longrightarrow> filter_ok (fs ! k))
        \<and> (\<forall>k. k < i + 1 \<or> n \<le> k \<longrightarrow> fs ! k = filters[i := f] ! k)"
      using "1.IH" [OF True f [symmetric] refl refl refl] ret d "1.prems"(2) by simp
    moreover have "i \<le> k \<longleftrightarrow> k = i \<or> i + 1 \<le> k" for k by auto
    ultimately show ?thesis using True "1.prems"(2) by (auto simp: nth_list_update)
  qed
qed


lemma header_decode_filters:
  assumes "lzma_block_header_decode allocs addr block inp = Ret (LZMA_OK, block')"
  shows "\<exists>fs rest. blk_filters block' = Some (fs @ no_filter # rest) \<and> fs \<noteq> [] \<and> length fs \<le> LZMA_FILTERS_MAX
     \<and> list_all filter_ok fs"
proof -
  obtain old where old: "blk_filters block = Some old" "4 < length old"
    using assms by (cases "blk_filters block") (auto simp: lzma_block_header_decode_def split: if_splits)
  let ?F = "replicate 5 no_filter @ drop 5 old"
  obtain base where "block_header_fields allocs base ?F inp (unat (header_size block) - 4) = (LZMA_OK, block')"
    using assms old by (auto simp: lzma_block_header_decode_def Let_def split: if_splits)
  then obtain b p where "block_header_filters allocs b ?F inp p (unat (header_size block) - 4) = (LZMA_OK, block')"
    by (auto simp: block_header_fields_def Let_def split: if_splits prod.splits)
  moreover define n where "n = unat (inp ! 1 AND 3) + 1"
  ultimately obtain filters p' where d: "decode_filters allocs 0 n ?F inp p (unat (header_size block) - 4) = (LZMA_OK, filters, p')"
    and b': "blk_filters block' = Some filters"
    by (auto simp: block_header_filters_def Let_def n_def split: if_splits prod.splits)
  have "unat (inp ! 1 AND 3) \<le> unat (3 :: u8)" by (rule word_le_nat_alt [THEN iffD1]) (rule word_and_le1)
  then have n: "1 \<le> n" "n \<le> 4" by (simp_all add: n_def)
  from decode_filters_ok [OF d] n old(2) have f: "length filters = length ?F" "\<forall>k<n. filter_ok (filters ! k)"
    "filters ! n = ?F ! n" by auto
  have nth: "?F ! n = no_filter" using n by (simp add: nth_append)
  have l: "n < length filters" using f(1) n old(2) by simp
  have "filters = take n filters @ no_filter # drop (Suc n) filters"
    using id_take_nth_drop [OF l] f(3) nth by simp
  moreover have "list_all filter_ok (take n filters)" using f(2) l by (simp add: list_all_length)
  ultimately show ?thesis using b' n l
    by (intro exI [of _ "take n filters"] exI [of _ "drop (Suc n) filters"]) auto
qed

section \<open>Properties\<close>

text \<open>
  C33: round trip of Block Headers. For a block whose filters have the options that their IDs ask for,
  \<open>lzma_block_header_size\<close> reserves enough room, \<open>lzma_block_header_encode\<close> succeeds, and
  \<open>lzma_block_header_decode\<close> reads the sizes and the filters back: the same filters, the dictionary size
  of LZMA2 rounded up to the next one that can be stored, a start offset of zero as none.
\<close>

theorem block_header_round_trip:
  assumes "size_delta sizes \<noteq> UINT64_MAX"
    and "blk_filters b0 = Some (fs @ t # rest)" "filter_id t = LZMA_VLI_UNKNOWN" "list_all filter_ok fs"
    and "lzma_block_header_size b0 = Ret (LZMA_OK, block)" "lzma_block_unpadded_size (Some block) \<noteq> 0"
    and "length out = unat (header_size block)"
    and "blk_filters dest = Some old" "LZMA_FILTERS_MAX < length old" "header_size dest = header_size block"
      "blk_check dest = blk_check block" "\<forall>k<LZMA_FILTERS_MAX. allocs k \<noteq> None"
  shows "\<exists>out' dest' gs. lzma_block_header_encode sizes addr block out = Ret (LZMA_OK, out')
     \<and> length out' = length out
     \<and> lzma_block_header_decode allocs addr' dest out' = Ret (LZMA_OK, dest')
     \<and> compressed_size dest' = compressed_size block \<and> uncompressed_size dest' = uncompressed_size block
     \<and> blk_filters dest' = Some (gs @ replicate (5 - length fs) no_filter @ drop 5 old)
     \<and> list_all2 read_back fs gs \<and> \<not> ignore_check dest'"
proof -
  obtain bss where code: "list_all2 (flags_code sizes) fs bss" using filters_code [OF assms(1,4)] by blast
  note room = header_size_room [OF assms(5,2,3,4) code]
  have fs: "blk_filters block = Some (fs @ t # rest)" using room(1) assms(2) by auto
  let ?out = "header_body block bss @ unaligned_write32le (lzma_crc32 addr (header_body block bss) 0)"
  have "4 \<le> unat (header_size block)" using room(5) by simp
  then have "length ?out = length out"
    using length_header_body [OF room(5)] assms(7) by (simp add: unaligned_write32le_def)
  moreover have "lzma_block_header_encode sizes addr block out = Ret (LZMA_OK, ?out)"
    by (rule header_encode_code [OF code assms(4,3) fs room(2,3) assms(6) room(4,5) assms(7)])
  ultimately show ?thesis
    using header_decode_code [OF code room(2,3) assms(6) room(4,5) assms(8-12), of addr' addr] by blast
qed

text \<open>
  C34: type safety of the filters in a Block Header. When a header decodes, the array holds one to four
  filters and a terminator; every filter has options of the kind that its ID asks for, with a distance
  in range for the delta filter. \<open>validate_chain\<close> then decides exactly whether the chain is well formed,
  and \<open>lzma_raw_decoder_memusage\<close> returns a number: no options are read as those of another filter.
\<close>

theorem block_header_filters_typed:
  assumes "lzma_block_header_decode allocs addr block inp = Ret (LZMA_OK, block')"
  shows "\<exists>fs rest. blk_filters block' = Some (fs @ no_filter # rest) \<and> fs \<noteq> [] \<and> length fs \<le> LZMA_FILTERS_MAX
     \<and> list_all filter_ok fs
     \<and> validate_chain (blk_filters block') = Ret (if chain_wf fs then (LZMA_OK, length fs) else (LZMA_OPTIONS_ERROR, 0))
     \<and> (\<exists>usage. lzma_raw_decoder_memusage sizes (blk_filters block') = Ret usage)"
proof -
  obtain fs rest where f: "blk_filters block' = Some (fs @ no_filter # rest)" "fs \<noteq> []" "length fs \<le> LZMA_FILTERS_MAX"
    "list_all filter_ok fs" using header_decode_filters [OF assms] by blast
  have "list_all (\<lambda>f. filter_id f \<noteq> LZMA_VLI_UNKNOWN) fs" using f(4) by (auto simp: list_all_iff filter_ok_not_unknown)
  then show ?thesis
    using f validate_chain_wf [OF f(2), of no_filter rest] raw_decoder_memusage_ok [OF f(2,4), of no_filter sizes rest] by auto
qed


text \<open>Witnesses: a Block with the filters ARM and LZMA2, and both sizes unknown.\<close>

definition example_sizes :: coder_sizes where
  "example_sizes = \<lparr>size_lz = 200, size_lzma1 = 28000, size_lzma2 = 100, size_delta = 400\<rparr>"
definition example_opt :: lzma_options_lzma where
  "example_opt = \<lparr>dict_size = 1048576, preset_dict = None, preset_dict_size = 0, opt_lc = 3, opt_lp = 0, opt_pb = 2\<rparr>"
definition example_filters :: "lzma_filter list" where
  "example_filters = [\<lparr>filter_id = LZMA_FILTER_ARM, options = None\<rparr>,
     \<lparr>filter_id = LZMA_FILTER_LZMA2, options = Some (Options_Lzma example_opt)\<rparr>]"
definition example_block :: "u32 \<Rightarrow> lzma_filter list \<Rightarrow> lzma_block" where
  "example_block h fs = \<lparr>blk_version = 0, header_size = h, blk_check = 1, compressed_size = LZMA_VLI_UNKNOWN,
     uncompressed_size = LZMA_VLI_UNKNOWN, blk_filters = Some fs, ignore_check = False\<rparr>"
definition example_dest :: lzma_block where
  "example_dest = example_block 12 (replicate 5 no_filter)"

lemmas example_defs = example_sizes_def example_filters_def example_block_def example_dest_def

lemma example_ok: "list_all filter_ok example_filters" "size_delta example_sizes \<noteq> UINT64_MAX"
proof -
  have "filter_ok \<lparr>filter_id = LZMA_FILTER_ARM, options = map_option Options_Bcj None\<rparr>"
    by (rule filter_ok.Bcj) (simp add: bcj_ids_def)
  then show "list_all filter_ok example_filters" by (simp add: example_filters_def filter_ok.Lzma2)
qed (simp add: example_sizes_def)

lemma example_flags:
  "lzma_filter_flags_size \<lparr>filter_id = LZMA_FILTER_ARM, options = None\<rparr> = Ret (LZMA_OK, 2)"
  "lzma_filter_flags_size \<lparr>filter_id = LZMA_FILTER_LZMA2, options = Some (Options_Lzma opt)\<rparr> = Ret (LZMA_OK, 3)"
  by (simp_all add: lzma_filter_flags_size_def lzma_properties_size_def encoder_find_def encoders_def bcj_encoder_def
      lzma_vli_size_def vli_size_loop.simps bcj_opt_def lzma_simple_props_size_def)

lemma example_size: "lzma_block_header_size (example_block 0 (example_filters @ [no_filter]))
    = Ret (LZMA_OK, example_block 12 (example_filters @ [no_filter]))"
  by (simp add: lzma_block_header_size_def block_filters_missing_def example_defs Let_def example_flags)

lemma example_unpadded: "lzma_block_unpadded_size (Some (example_block 12 fs)) \<noteq> 0"
  by (simp add: lzma_block_unpadded_size_def example_block_def lzma_vli_is_valid_def)

theorem block_header_round_trip_witness:
  "\<exists>out' dest' gs. lzma_block_header_encode example_sizes 0 (example_block 12 (example_filters @ [no_filter])) (replicate 12 0xAA)
       = Ret (LZMA_OK, out')
     \<and> lzma_block_header_decode (\<lambda>_. Some example_opt) 1 example_dest out' = Ret (LZMA_OK, dest')
     \<and> blk_filters dest' = Some (gs @ replicate 3 no_filter) \<and> list_all2 read_back example_filters gs"
proof -
  have l: "length example_filters = 2" by (simp add: example_filters_def)
  have "blk_filters example_dest = Some (replicate 5 no_filter)" "header_size example_dest = 12" "blk_check example_dest = 1"
    by (simp_all add: example_dest_def example_block_def)
  then show ?thesis
    using block_header_round_trip [OF example_ok(2) _ _ example_ok(1) example_size example_unpadded,
        where t = no_filter and rest = "[]" and out = "replicate 12 0xAA" and dest = example_dest
          and old = "replicate 5 no_filter" and allocs = "\<lambda>_. Some example_opt" and addr = 0 and addr' = 1]
    by (auto simp: example_block_def l)
qed

lemma example_decodes:
  "\<exists>inp block'. lzma_block_header_decode (\<lambda>_. Some example_opt) 0 example_dest inp = Ret (LZMA_OK, block')"
proof -
  let ?b = "example_block 12 (example_filters @ [no_filter])"
  obtain bss where code: "list_all2 (flags_code example_sizes) example_filters bss"
    using filters_code [OF example_ok(2,1)] by blast
  have f: "blk_filters (example_block 0 (example_filters @ [no_filter])) = Some (example_filters @ no_filter # [])"
    "filter_id no_filter = LZMA_VLI_UNKNOWN" by (simp_all add: example_block_def)
  note room = header_size_room [OF example_size f example_ok(1) code]
  have d: "blk_filters example_dest = Some (replicate 5 no_filter)" "LZMA_FILTERS_MAX < length (replicate 5 no_filter)"
    "header_size example_dest = header_size ?b" "blk_check example_dest = blk_check ?b"
    "\<forall>k<LZMA_FILTERS_MAX. (\<lambda>_. Some example_opt) k \<noteq> None" by (simp_all add: example_dest_def example_block_def)
  show ?thesis using header_decode_code [OF code room(2,3) example_unpadded room(4,5) d, of 0 0] by blast
qed

theorem block_header_filters_typed_witness:
  "\<exists>inp block' fs rest. lzma_block_header_decode (\<lambda>_. Some example_opt) 0 example_dest inp = Ret (LZMA_OK, block')
     \<and> blk_filters block' = Some (fs @ no_filter # rest) \<and> list_all filter_ok fs
     \<and> (\<exists>usage. lzma_raw_decoder_memusage example_sizes (blk_filters block') = Ret usage)"
proof -
  obtain inp block' where d: "lzma_block_header_decode (\<lambda>_. Some example_opt) 0 example_dest inp = Ret (LZMA_OK, block')"
    using example_decodes by blast
  show ?thesis using d block_header_filters_typed [OF d, of example_sizes] by blast
qed

end
