(* ===== verification/Index_Hash.thy ===== *)
theory Index_Hash
  imports Block_Header
begin

text \<open>
  The Index hash (\<open>common/index_hash.c\<close>, \<open>common/index.h\<close>): the decoder of a Stream keeps totals and a SHA-256
  of the sizes of all Blocks instead of the list of them, and compares these with the Index at the end of
  the Stream.
\<close>

section \<open>Sizes of an Index\<close>

abbreviation (input) UNPADDED_SIZE_MIN :: lzma_vli where "UNPADDED_SIZE_MIN \<equiv> 5"
abbreviation (input) LZMA_BACKWARD_SIZE_MAX :: lzma_vli where "LZMA_BACKWARD_SIZE_MAX \<equiv> 0x400000000"
abbreviation (input) LZMA_CHECK_BEST :: lzma_check where "LZMA_CHECK_BEST \<equiv> LZMA_CHECK_SHA256"

definition index_size_unpadded :: "lzma_vli \<Rightarrow> lzma_vli \<Rightarrow> lzma_vli" where
  "index_size_unpadded count index_list_size = 1 + of_nat (lzma_vli_size count) + index_list_size + 4"

definition index_size :: "lzma_vli \<Rightarrow> lzma_vli \<Rightarrow> lzma_vli" where
  "index_size count index_list_size = vli_ceil4 (index_size_unpadded count index_list_size)"

definition index_stream_size :: "lzma_vli \<Rightarrow> lzma_vli \<Rightarrow> lzma_vli \<Rightarrow> lzma_vli" where
  "index_stream_size blocks_size count index_list_size = 12 + blocks_size + index_size count index_list_size + 12"

section \<open>Data\<close>

record lzma_index_hash_info =
  ii_blocks_size :: lzma_vli
  ii_uncompressed_size :: lzma_vli
  ii_count :: lzma_vli
  ii_index_list_size :: lzma_vli
  ii_check :: lzma_check_state

datatype index_hash_seq = IH_BLOCK | IH_COUNT | IH_UNPADDED | IH_UNCOMPRESSED | IH_PADDING_INIT | IH_PADDING | IH_CRC32

record lzma_index_hash =
  ih_sequence :: index_hash_seq
  ih_blocks :: lzma_index_hash_info
  ih_records :: lzma_index_hash_info
  ih_remaining :: lzma_vli
  ih_unpadded_size :: lzma_vli
  ih_uncompressed_size :: lzma_vli
  ih_pos :: nat
  ih_crc32 :: u32

section \<open>Operations\<close>

definition info_reset :: "lzma_index_hash_info \<Rightarrow> lzma_index_hash_info" where
  "info_reset info =
     info\<lparr>ii_blocks_size := 0, ii_uncompressed_size := 0, ii_count := 0, ii_index_list_size := 0,
          ii_check := lzma_check_init LZMA_CHECK_BEST (ii_check info)\<rparr>"

text \<open>\<open>mem\<close> is what the allocation returns.\<close>

definition lzma_index_hash_init :: "lzma_index_hash option \<Rightarrow> lzma_index_hash option \<Rightarrow> lzma_index_hash option" where
  "lzma_index_hash_init index_hash mem =
     map_option (\<lambda>ih. ih\<lparr>ih_sequence := IH_BLOCK, ih_blocks := info_reset (ih_blocks ih), ih_records := info_reset (ih_records ih),
                         ih_unpadded_size := 0, ih_uncompressed_size := 0, ih_pos := 0, ih_crc32 := 0\<rparr>)
       (case index_hash of None \<Rightarrow> mem | Some ih \<Rightarrow> Some ih)"

definition lzma_index_hash_size :: "lzma_index_hash \<Rightarrow> lzma_vli" where
  "lzma_index_hash_size ih = index_size (ii_count (ih_blocks ih)) (ii_index_list_size (ih_blocks ih))"

text \<open>\<open>sizes\<close> goes to the check as it is in memory. SHA-256 does not look at its address.\<close>

definition hash_append :: "lzma_index_hash_info \<Rightarrow> lzma_vli \<Rightarrow> lzma_vli \<Rightarrow> lzma_index_hash_info" where
  "hash_append info unpadded uncompressed =
     info\<lparr>ii_blocks_size := ii_blocks_size info + vli_ceil4 unpadded,
          ii_uncompressed_size := ii_uncompressed_size info + uncompressed,
          ii_index_list_size := ii_index_list_size info
            + of_nat (lzma_vli_size unpadded + lzma_vli_size uncompressed),
          ii_count := ii_count info + 1,
          ii_check := lzma_check_update LZMA_CHECK_BEST 0 (write64ne unpadded @ write64ne uncompressed) (ii_check info)\<rparr>"

definition lzma_index_hash_append :: "lzma_index_hash \<Rightarrow> lzma_vli \<Rightarrow> lzma_vli \<Rightarrow> lzma_ret \<times> lzma_index_hash" where
  "lzma_index_hash_append ih unpadded uncompressed =
     (if ih_sequence ih \<noteq> IH_BLOCK \<or> unpadded < UNPADDED_SIZE_MIN \<or> unpadded > UNPADDED_SIZE_MAX
         \<or> uncompressed > LZMA_VLI_MAX
      then (LZMA_PROG_ERROR, ih)
      else
        let blocks = hash_append (ih_blocks ih) unpadded uncompressed; ih = ih\<lparr>ih_blocks := blocks\<rparr>
        in (if ii_blocks_size blocks > LZMA_VLI_MAX \<or> ii_uncompressed_size blocks > LZMA_VLI_MAX
               \<or> index_size (ii_count blocks) (ii_index_list_size blocks) > LZMA_BACKWARD_SIZE_MAX
               \<or> index_stream_size (ii_blocks_size blocks) (ii_count blocks) (ii_index_list_size blocks) > LZMA_VLI_MAX
            then LZMA_DATA_ERROR else LZMA_OK, ih))"

text \<open>
  A round of the loop of \<open>lzma_index_hash_decode\<close> goes on, jumps to \<open>out\<close>, or returns. \<open>addr\<close> is the address of
  \<open>in\<close>.
\<close>

datatype index_step = Again lzma_index_hash nat | Goto_out lzma_ret lzma_index_hash nat | Done lzma_ret lzma_index_hash nat

text \<open>The loop at \<open>SEQ_CRC32\<close>: the return code, \<open>pos\<close> and \<open>*in_pos\<close>.\<close>

function index_crc_loop :: "u32 \<Rightarrow> nat \<Rightarrow> u8 list \<Rightarrow> nat \<Rightarrow> nat \<Rightarrow> lzma_ret \<times> nat \<times> nat" where
  "index_crc_loop crc pos inp in_pos in_size =
     (if in_pos = in_size then (LZMA_OK, pos, in_pos)
      else if drop_bit (pos * 8) crc AND 0xFF \<noteq> ucast (inp ! in_pos) then (LZMA_DATA_ERROR, pos, in_pos + 1)
      else if pos + 1 < 4 then index_crc_loop crc (pos + 1) inp (in_pos + 1) in_size
      else (LZMA_STREAM_END, pos + 1, in_pos + 1))"
  by pat_completeness auto
termination by (relation "measure (\<lambda>(_, pos, _). 4 - pos)") auto

declare index_crc_loop.simps [simp del]

definition index_crc :: "lzma_index_hash \<Rightarrow> u8 list \<Rightarrow> nat \<Rightarrow> nat \<Rightarrow> index_step" where
  "index_crc ih inp in_pos in_size =
     (let (ret, pos, in_pos) = index_crc_loop (ih_crc32 ih) (ih_pos ih) inp in_pos in_size in Done ret (ih\<lparr>ih_pos := pos\<rparr>) in_pos)"

definition sizes_below :: "lzma_index_hash_info \<Rightarrow> lzma_index_hash_info \<Rightarrow> bool" where
  "sizes_below blocks records \<longleftrightarrow> ii_blocks_size blocks < ii_blocks_size records
     \<or> ii_uncompressed_size blocks < ii_uncompressed_size records \<or> ii_index_list_size blocks < ii_index_list_size records"

definition sizes_differ :: "lzma_index_hash_info \<Rightarrow> lzma_index_hash_info \<Rightarrow> bool" where
  "sizes_differ blocks records \<longleftrightarrow> ii_blocks_size blocks \<noteq> ii_blocks_size records
     \<or> ii_uncompressed_size blocks \<noteq> ii_uncompressed_size records \<or> ii_index_list_size blocks \<noteq> ii_index_list_size records"

definition index_padding :: "nat \<Rightarrow> nat \<Rightarrow> lzma_index_hash \<Rightarrow> u8 list \<Rightarrow> nat \<Rightarrow> nat \<Rightarrow> index_step" where
  "index_padding addr in_start ih inp in_pos in_size =
     (if ih_pos ih > 0 then
        let ih = ih\<lparr>ih_pos := ih_pos ih - 1\<rparr>
        in if inp ! in_pos \<noteq> 0x00 then Done LZMA_DATA_ERROR ih (in_pos + 1) else Again ih (in_pos + 1)
      else if sizes_differ (ih_blocks ih) (ih_records ih) then Done LZMA_DATA_ERROR ih in_pos
      else
        let finish = (\<lambda>info. info\<lparr>ii_check := lzma_check_finish LZMA_CHECK_BEST (ii_check info)\<rparr>);
            n = unat (lzma_check_size LZMA_CHECK_BEST);
            ih = ih\<lparr>ih_blocks := finish (ih_blocks ih), ih_records := finish (ih_records ih)\<rparr>
        in if take n (check_buffer (ii_check (ih_blocks ih))) \<noteq> take n (check_buffer (ii_check (ih_records ih)))
        then Done LZMA_DATA_ERROR ih in_pos
        else index_crc (ih\<lparr>ih_crc32 := lzma_crc32 (addr + in_start) (segment in_start in_pos inp) (ih_crc32 ih),
                           ih_sequence := IH_CRC32\<rparr>) inp in_pos in_size)"

text \<open>\<open>SEQ_UNPADDED\<close> and \<open>SEQ_UNCOMPRESSED\<close>.\<close>

definition index_record :: "lzma_index_hash \<Rightarrow> u8 list \<Rightarrow> nat \<Rightarrow> nat \<Rightarrow> index_step" where
  "index_record ih inp in_pos in_size =
     (let unpadded = (ih_sequence ih = IH_UNPADDED);
          (ret, v, pos, in_pos) =
            lzma_vli_decode (if unpadded then ih_unpadded_size ih else ih_uncompressed_size ih) (Some (ih_pos ih)) inp in_pos in_size;
          ih = (if unpadded then ih\<lparr>ih_unpadded_size := v, ih_pos := pos\<rparr> else ih\<lparr>ih_uncompressed_size := v, ih_pos := pos\<rparr>)
      in if ret \<noteq> LZMA_STREAM_END then Goto_out ret ih in_pos
      else
        let ih = ih\<lparr>ih_pos := 0\<rparr>
        in if unpadded then
             if v < UNPADDED_SIZE_MIN \<or> v > UNPADDED_SIZE_MAX then Done LZMA_DATA_ERROR ih in_pos
             else Again (ih\<lparr>ih_sequence := IH_UNCOMPRESSED\<rparr>) in_pos
           else
             let ih = ih\<lparr>ih_records := hash_append (ih_records ih) (ih_unpadded_size ih) (ih_uncompressed_size ih)\<rparr>
             in if sizes_below (ih_blocks ih) (ih_records ih) then Done LZMA_DATA_ERROR ih in_pos
                else Again (ih\<lparr>ih_remaining := ih_remaining ih - 1,
                               ih_sequence := (if ih_remaining ih - 1 = 0 then IH_PADDING_INIT else IH_UNPADDED)\<rparr>) in_pos)"

definition index_hash_step :: "nat \<Rightarrow> nat \<Rightarrow> lzma_index_hash \<Rightarrow> u8 list \<Rightarrow> nat \<Rightarrow> nat \<Rightarrow> index_step" where
  "index_hash_step addr in_start ih inp in_pos in_size =
     (case ih_sequence ih of
        IH_BLOCK \<Rightarrow>
          if inp ! in_pos \<noteq> 0x00 then Done LZMA_DATA_ERROR ih (in_pos + 1)
          else Again (ih\<lparr>ih_sequence := IH_COUNT\<rparr>) (in_pos + 1)
      | IH_COUNT \<Rightarrow>
          let (ret, v, pos, in_pos) = lzma_vli_decode (ih_remaining ih) (Some (ih_pos ih)) inp in_pos in_size;
              ih = ih\<lparr>ih_remaining := v, ih_pos := pos\<rparr>
          in if ret \<noteq> LZMA_STREAM_END then Goto_out ret ih in_pos
          else if v \<noteq> ii_count (ih_blocks ih) then Done LZMA_DATA_ERROR ih in_pos
          else Again (ih\<lparr>ih_pos := 0, ih_sequence := (if v = 0 then IH_PADDING_INIT else IH_UNPADDED)\<rparr>) in_pos
      | IH_UNPADDED \<Rightarrow> index_record ih inp in_pos in_size
      | IH_UNCOMPRESSED \<Rightarrow> index_record ih inp in_pos in_size
      | IH_PADDING_INIT \<Rightarrow>
          index_padding addr in_start
            (ih\<lparr>ih_pos := unat ((4 - index_size_unpadded (ii_count (ih_records ih)) (ii_index_list_size (ih_records ih))) AND 3),
                ih_sequence := IH_PADDING\<rparr>) inp in_pos in_size
      | IH_PADDING \<Rightarrow> index_padding addr in_start ih inp in_pos in_size
      | IH_CRC32 \<Rightarrow> index_crc ih inp in_pos in_size)"

definition index_hash_out ::
    "nat \<Rightarrow> nat \<Rightarrow> u8 list \<Rightarrow> lzma_ret \<Rightarrow> lzma_index_hash \<Rightarrow> nat \<Rightarrow> lzma_ret \<times> lzma_index_hash \<times> nat" where
  "index_hash_out addr in_start inp ret ih in_pos =
     (ret, ih\<lparr>ih_crc32 := lzma_crc32 (addr + in_start) (segment in_start in_pos inp) (ih_crc32 ih)\<rparr>, in_pos)"

text \<open>A round that goes on has read a byte, so the loop ends.\<close>

lemma vli_decode_progress:
  "lzma_vli_decode v (Some p) inp in_pos in_size = (LZMA_STREAM_END, v', p', in_pos') \<Longrightarrow> in_pos < in_pos'"
proof -
  have loop: "in_pos < snd (snd (snd (vli_decode_loop single v p inp in_pos in_size)))" for single v p
    by (induction single v p inp in_pos in_size rule: vli_decode_loop.induct)
      (subst vli_decode_loop.simps, auto simp: Let_def intro: Suc_lessD)
  assume "lzma_vli_decode v (Some p) inp in_pos in_size = (LZMA_STREAM_END, v', p', in_pos')"
  then show ?thesis using loop [of False "if p = 0 then 0 else v" p]
    by (auto simp: lzma_vli_decode_def Let_def split: if_splits)
qed

lemma index_step_progress:
  assumes "index_hash_step addr in_start ih inp in_pos in_size = Again ih' in_pos'"
  shows "in_pos < in_pos'"
  using assms
  by (auto simp: index_hash_step_def index_record_def index_padding_def index_crc_def Let_def dest: vli_decode_progress
      split: index_hash_seq.splits if_splits prod.splits)

function index_hash_loop ::
    "nat \<Rightarrow> nat \<Rightarrow> lzma_index_hash \<Rightarrow> u8 list \<Rightarrow> nat \<Rightarrow> nat \<Rightarrow> lzma_ret \<times> lzma_index_hash \<times> nat" where
  "index_hash_loop addr in_start ih inp in_pos in_size =
     (if in_pos < in_size then
        case index_hash_step addr in_start ih inp in_pos in_size of
          Again ih in_pos \<Rightarrow> index_hash_loop addr in_start ih inp in_pos in_size
        | Goto_out ret ih in_pos \<Rightarrow> index_hash_out addr in_start inp ret ih in_pos
        | Done ret ih in_pos \<Rightarrow> (ret, ih, in_pos)
      else index_hash_out addr in_start inp LZMA_OK ih in_pos)"
  by pat_completeness auto
termination
  by (relation "measure (\<lambda>(_, _, _, _, in_pos, in_size). in_size - in_pos)") (auto dest: index_step_progress)

declare index_hash_loop.simps [simp del]

definition lzma_index_hash_decode ::
    "nat \<Rightarrow> lzma_index_hash \<Rightarrow> u8 list \<Rightarrow> nat \<Rightarrow> nat \<Rightarrow> lzma_ret \<times> lzma_index_hash \<times> nat" where
  "lzma_index_hash_decode addr ih inp in_pos in_size =
     (if in_pos \<ge> in_size then (LZMA_BUF_ERROR, ih, in_pos) else index_hash_loop addr in_pos ih inp in_pos in_size)"

section \<open>What the hash stands for\<close>

type_synonym index_record = "lzma_vli \<times> lzma_vli"

fun valid_record :: "index_record \<Rightarrow> bool" where
  "valid_record (unpadded, uncompressed) \<longleftrightarrow> UNPADDED_SIZE_MIN \<le> unpadded \<and> unpadded \<le> UNPADDED_SIZE_MAX \<and> uncompressed \<le> LZMA_VLI_MAX"

text \<open>The totals of a list of Records, as numbers, and the bytes that are hashed.\<close>

definition blocks_total :: "index_record list \<Rightarrow> nat" where
  "blocks_total rs = sum_list (map (\<lambda>(u, c). (unat u + 3) div 4 * 4) rs)"
definition data_total :: "index_record list \<Rightarrow> nat" where
  "data_total rs = sum_list (map (\<lambda>(u, c). unat c) rs)"
definition record_bytes :: "index_record list \<Rightarrow> u8 list" where
  "record_bytes rs = concat (map (\<lambda>(u, c). vli_bytes u @ vli_bytes c) rs)"
definition size_bytes :: "index_record list \<Rightarrow> u8 list" where
  "size_bytes rs = concat (map (\<lambda>(u, c). write64ne u @ write64ne c) rs)"

lemmas totals_defs = blocks_total_def data_total_def record_bytes_def size_bytes_def

text \<open>The Index of the file format: indicator, number of Records, Records, padding to a multiple of four, CRC32.\<close>

definition index_body :: "index_record list \<Rightarrow> u8 list" where
  "index_body rs =
     (let bs = [0x00] @ vli_bytes (of_nat (length rs)) @ record_bytes rs in bs @ replicate ((4 - length bs mod 4) mod 4) 0x00)"

definition index_bytes :: "index_record list \<Rightarrow> u8 list" where
  "index_bytes rs = index_body rs @ check_spec LZMA_CHECK_CRC32 (index_body rs)"

definition info_of :: "lzma_check_state \<Rightarrow> index_record list \<Rightarrow> lzma_index_hash_info \<Rightarrow> bool" where
  "info_of check rs info \<longleftrightarrow> ii_blocks_size info = of_nat (blocks_total rs) \<and> ii_uncompressed_size info = of_nat (data_total rs)
     \<and> ii_count info = of_nat (length rs) \<and> ii_index_list_size info = of_nat (length (record_bytes rs))
     \<and> ii_check info = lzma_check_update LZMA_CHECK_BEST 0 (size_bytes rs) (lzma_check_init LZMA_CHECK_BEST check)"

lemma ceil4_nat: "u \<le> LZMA_VLI_MAX \<Longrightarrow> vli_ceil4 u = of_nat ((unat u + 3) div 4 * 4)"
proof -
  have down: "x AND NOT 3 = of_nat (unat x div 4 * 4)" for x :: lzma_vli
  proof -
    have three: "bit (3 :: lzma_vli) i \<longleftrightarrow> i < 2" for i
      using bit_mask_iff [of 2 i, where 'a = lzma_vli] by (auto simp: mask_eq_exp_minus_1 possible_bit_def)
    have "x AND NOT 3 = push_bit 2 (drop_bit 2 x)"
    proof (rule bit_word_eqI)
      fix i :: nat assume "i < LENGTH(64)"
      then show "bit (x AND NOT 3) i = bit (push_bit 2 (drop_bit 2 x)) i"
        by (simp only: bit_and_iff bit_not_iff three bit_push_bit_iff bit_drop_bit_eq comp_def) (auto simp: possible_bit_def not_less simp del: add_2_eq_Suc add_2_eq_Suc')
    qed
    also have "\<dots> = of_nat (unat (x div 4) * 4)" by (simp add: push_bit_eq_mult drop_bit_eq_div)
    also have "unat (x div 4) = unat x div 4" by (simp add: unat_div)
    finally show ?thesis .
  qed
  assume "u \<le> LZMA_VLI_MAX"
  then have "unat (u + 3) = unat u + 3" by (simp add: unat_word_ariths word_le_nat_alt)
  then show ?thesis by (simp only: vli_ceil4_def down)
qed

lemma info_reset_of: "check_ok check \<Longrightarrow> ii_check info = check \<Longrightarrow> info_of check [] (info_reset info)"
  by (simp add: info_of_def info_reset_def totals_defs check.upd_Nil length_check_init)

lemma info_append:
  assumes "check_ok check" "info_of check rs info" "valid_record (u, c)"
  shows "info_of check (rs @ [(u, c)]) (hash_append info u c)"
proof -
  have "u \<le> LZMA_VLI_MAX" "c \<le> LZMA_VLI_MAX" using assms(3) by (auto simp: word_le_nat_alt)
  then show ?thesis using assms(1,2)
    by (simp add: info_of_def hash_append_def totals_defs ceil4_nat vli_size_bytes check.upd_append length_check_init)
qed

text \<open>A hash to which the Records \<open>rs\<close> have been appended.\<close>

inductive appended :: "lzma_index_hash option \<Rightarrow> lzma_index_hash option \<Rightarrow> index_record list \<Rightarrow> lzma_index_hash \<Rightarrow> bool"
  for index_hash mem where
  Init: "lzma_index_hash_init index_hash mem = Some ih \<Longrightarrow> appended index_hash mem [] ih"
| Append: "appended index_hash mem rs ih \<Longrightarrow> lzma_index_hash_append ih u c = (LZMA_OK, ih') \<Longrightarrow>
    appended index_hash mem (rs @ [(u, c)]) ih'"

section \<open>Acceptance\<close>

definition accepts :: "nat \<Rightarrow> nat \<Rightarrow> u8 list \<Rightarrow> nat \<Rightarrow> lzma_index_hash \<Rightarrow> nat \<Rightarrow> nat \<Rightarrow> bool" where
  "accepts addr start inp n ih p q \<longleftrightarrow> (\<exists>ih'. index_hash_loop addr start ih inp p n = (LZMA_STREAM_END, ih', q))"

lemma accepts_end: "\<not> p < n \<Longrightarrow> \<not> accepts addr start inp n ih p q"
  by (simp add: accepts_def index_hash_loop.simps [of addr start ih inp p n] index_hash_out_def)

lemma accepts_step:
  assumes "p < n"
  shows "accepts addr start inp n ih p q \<longleftrightarrow>
    (case index_hash_step addr start ih inp p n of
       Again ih' p' \<Rightarrow> accepts addr start inp n ih' p' q
     | Goto_out ret ih' p' \<Rightarrow> ret = LZMA_STREAM_END \<and> q = p'
     | Done ret ih' p' \<Rightarrow> ret = LZMA_STREAM_END \<and> q = p')"
  using assms
  by (auto simp: accepts_def index_hash_loop.simps [of addr start ih inp p n] index_hash_out_def split: index_step.split)

lemma vli_stream:
  assumes "n \<le> length inp"
  shows "lzma_vli_decode old (Some 0) inp p n = (LZMA_STREAM_END, v, k, q) \<longleftrightarrow>
    v \<le> LZMA_VLI_MAX \<and> p < q \<and> q \<le> n \<and> segment p q inp = vli_bytes v \<and> k = q - p"
proof
  assume d: "lzma_vli_decode old (Some 0) inp p n = (LZMA_STREAM_END, v, k, q)"
  then have p: "p < n" and loop: "vli_decode_loop False 0 0 inp p n = (LZMA_STREAM_END, v, k, q)"
    by (auto simp: lzma_vli_decode_def split: if_splits)
  from decode_loop_canonical [OF loop _ p assms] have
    b: "take (q - p) (drop p inp) = vli_bytes v" "unat v < 2 ^ (7 * (q - p))" "p < q" "q \<le> n" "k = q - p" "k \<le> LZMA_VLI_BYTES_MAX" by auto
  have "(2 :: nat) ^ (7 * (q - p)) \<le> 2 ^ 63" using b(5,6) by (intro power_increasing) auto
  with b(2) have "unat v < 2 ^ 63" by linarith
  then show "v \<le> LZMA_VLI_MAX \<and> p < q \<and> q \<le> n \<and> segment p q inp = vli_bytes v \<and> k = q - p"
    using b by (simp add: word_le_nat_alt segment_def)
next
  assume v: "v \<le> LZMA_VLI_MAX \<and> p < q \<and> q \<le> n \<and> segment p q inp = vli_bytes v \<and> k = q - p"
  then have len: "length (vli_bytes v) = q - p" using assms by (metis length_segment order_trans)
  have inp: "inp = take p inp @ vli_bytes v @ drop q inp"
    using v by (metis append_take_drop_id drop_drop le_add_diff_inverse2 less_imp_le segment_def)
  have "length (take p inp) = p" using v assms by simp
  then show "lzma_vli_decode old (Some 0) inp p n = (LZMA_STREAM_END, v, k, q)"
    using decode_loop_bytes [of "take p inp" v n 0 False 0 "drop q inp"] inp v len vli_max_bytes [of v]
    by (simp add: lzma_vli_decode_def)
qed

lemma accepts_block:
  assumes "ih_sequence ih = IH_BLOCK"
  shows "accepts addr start inp n ih p q \<longleftrightarrow> p < n \<and> inp ! p = 0 \<and> accepts addr start inp n (ih\<lparr>ih_sequence := IH_COUNT\<rparr>) (p + 1) q"
proof (cases "p < n")
  case True
  then show ?thesis using assms by (simp add: accepts_step index_hash_step_def)
qed (simp add: accepts_end)

lemma vli_read:
  "n \<le> length inp \<Longrightarrow> p < r \<and> r \<le> n \<and> segment p r inp = vli_bytes c \<and> c \<le> LZMA_VLI_MAX \<longleftrightarrow>
     lzma_vli_decode old (Some 0) inp p n = (LZMA_STREAM_END, c, r - p, r)"
  using vli_stream [of n inp old p c "r - p" r] by blast

lemma accepts_count:
  assumes "ih_sequence ih = IH_COUNT" "ih_pos ih = 0" "n \<le> length inp"
  shows "accepts addr start inp n ih p q \<longleftrightarrow>
    (\<exists>r. (p < r \<and> r \<le> n \<and> segment p r inp = vli_bytes (ii_count (ih_blocks ih)) \<and> ii_count (ih_blocks ih) \<le> LZMA_VLI_MAX)
       \<and> accepts addr start inp n (ih\<lparr>ih_remaining := ii_count (ih_blocks ih), ih_pos := 0,
            ih_sequence := (if ii_count (ih_blocks ih) = 0 then IH_PADDING_INIT else IH_UNPADDED)\<rparr>) r q)"
proof (cases "p < n")
  case True
  obtain ret v k r where d: "lzma_vli_decode (ih_remaining ih) (Some 0) inp p n = (ret, v, k, r)" by (metis prod_cases4)
  have k: "ret = LZMA_STREAM_END \<Longrightarrow> k = r - p" using d vli_stream [OF assms(3), of "ih_remaining ih" p v k r] by simp
  show ?thesis
    unfolding accepts_step [OF True] vli_read [OF assms(3), where old = "ih_remaining ih"] index_hash_step_def
    using assms(1,2) k by (auto simp: d Let_def cong: if_cong)
qed (auto simp: accepts_end)

text \<open>One Record.\<close>

lemma accepts_unpadded:
  assumes "ih_sequence ih = IH_UNPADDED" "ih_pos ih = 0" "n \<le> length inp"
  shows "accepts addr start inp n ih p q \<longleftrightarrow>
    (\<exists>u r. (p < r \<and> r \<le> n \<and> segment p r inp = vli_bytes u \<and> u \<le> LZMA_VLI_MAX) \<and> UNPADDED_SIZE_MIN \<le> u \<and> u \<le> UNPADDED_SIZE_MAX
       \<and> accepts addr start inp n (ih\<lparr>ih_unpadded_size := u, ih_pos := 0, ih_sequence := IH_UNCOMPRESSED\<rparr>) r q)"
proof (cases "p < n")
  case True
  obtain ret v k r where d: "lzma_vli_decode (ih_unpadded_size ih) (Some 0) inp p n = (ret, v, k, r)" by (metis prod_cases4)
  have k: "ret = LZMA_STREAM_END \<Longrightarrow> k = r - p" using d vli_stream [OF assms(3), of "ih_unpadded_size ih" p v k r] by simp
  show ?thesis
    unfolding accepts_step [OF True] vli_read [OF assms(3), where old = "ih_unpadded_size ih"] index_hash_step_def
    using assms(1,2) k by (auto simp: d Let_def index_record_def not_less cong: if_cong)
qed (auto simp: accepts_end)

lemma accepts_uncompressed:
  assumes "ih_sequence ih = IH_UNCOMPRESSED" "ih_pos ih = 0" "n \<le> length inp"
  shows "accepts addr start inp n ih p q \<longleftrightarrow>
    (\<exists>c r. (p < r \<and> r \<le> n \<and> segment p r inp = vli_bytes c \<and> c \<le> LZMA_VLI_MAX)
       \<and> \<not> sizes_below (ih_blocks ih) (hash_append (ih_records ih) (ih_unpadded_size ih) c)
       \<and> accepts addr start inp n (ih\<lparr>ih_uncompressed_size := c, ih_pos := 0, ih_records := hash_append (ih_records ih) (ih_unpadded_size ih) c,
            ih_remaining := ih_remaining ih - 1, ih_sequence := (if ih_remaining ih - 1 = 0 then IH_PADDING_INIT else IH_UNPADDED)\<rparr>) r q)"
proof (cases "p < n")
  case True
  obtain ret v k r where d: "lzma_vli_decode (ih_uncompressed_size ih) (Some 0) inp p n = (ret, v, k, r)" by (metis prod_cases4)
  have k: "ret = LZMA_STREAM_END \<Longrightarrow> k = r - p" using d vli_stream [OF assms(3), of "ih_uncompressed_size ih" p v k r] by simp
  show ?thesis
    unfolding accepts_step [OF True] vli_read [OF assms(3), where old = "ih_uncompressed_size ih"] index_hash_step_def
    using assms(1,2) k by (auto simp: d Let_def index_record_def cong: if_cong)
qed (auto simp: accepts_end)

text \<open>The CRC32 at the end.\<close>

lemma crc_byte: "drop_bit k (crc :: u32) AND 0xFF = ucast (b :: u8) \<longleftrightarrow> b = ucast (drop_bit k crc)"
proof -
  have mask: "x AND 0xFF = take_bit 8 x" for x :: u32
    by (simp add: take_bit_eq_mask mask_eq_exp_minus_1)
  have wide: "ucast (ucast x :: u8) = take_bit 8 x" for x :: u32
    by (rule bit_word_eqI) (auto simp: bit_simps)
  have "ucast (ucast b :: u32) = b" by (rule bit_word_eqI) (simp add: bit_simps)
  moreover have "ucast (take_bit 8 x) = (ucast x :: u8)" for x :: u32 by (rule bit_word_eqI) (simp add: bit_simps)
  ultimately show ?thesis unfolding mask using wide by metis
qed

lemma crc_loop_accepts:
  "(\<exists>k. index_crc_loop crc 0 inp p n = (LZMA_STREAM_END, k, q)) \<longleftrightarrow>
     q = p + 4 \<and> p \<noteq> n \<and> p + 1 \<noteq> n \<and> p + 2 \<noteq> n \<and> p + 3 \<noteq> n \<and> [inp ! p, inp ! (p + 1), inp ! (p + 2), inp ! (p + 3)] = write32ne crc"
  by (subst index_crc_loop.simps, subst index_crc_loop.simps, subst index_crc_loop.simps, subst index_crc_loop.simps)
    (auto simp: crc_byte crc_byte [of 0, simplified] write32ne_def numeral_eq_Suc)

text \<open>The end of the Index, from the padding on.\<close>

lemma accepts_padding:
  "ih_sequence ih = IH_PADDING \<Longrightarrow> ih_pos ih = k \<Longrightarrow>
   accepts addr start inp n ih p q \<longleftrightarrow> (\<forall>i<k. inp ! (p + i) = 0) \<and> accepts addr start inp n (ih\<lparr>ih_pos := 0\<rparr>) (p + k) q"
proof (induction k arbitrary: ih p)
  case 0
  then have "ih\<lparr>ih_pos := 0\<rparr> = ih" by simp
  then show ?case by simp
next
  case (Suc k)
  show ?case
  proof (cases "p < n")
    case True
    have "accepts addr start inp n ih p q \<longleftrightarrow> inp ! p = 0 \<and> accepts addr start inp n (ih\<lparr>ih_pos := k\<rparr>) (p + 1) q"
      using Suc.prems True by (simp add: accepts_step index_hash_step_def index_padding_def Let_def)
    then show ?thesis using Suc.IH [of "ih\<lparr>ih_pos := k\<rparr>" "p + 1"] Suc.prems by (auto simp: All_less_Suc2)
  next
    case False
    then show ?thesis by (simp add: accepts_end)
  qed
qed

lemma accepts_finish:
  assumes "ih_sequence ih = IH_PADDING" "ih_pos ih = 0" "check_ok cb" "check_ok cr" "info_of cb bs (ih_blocks ih)" "info_of cr xs (ih_records ih)"
  shows "accepts addr start inp n ih p q \<longleftrightarrow> p < n \<and> \<not> sizes_differ (ih_blocks ih) (ih_records ih)
     \<and> fips_sha256 (size_bytes bs) = fips_sha256 (size_bytes xs)
     \<and> (\<exists>k. index_crc_loop (lzma_crc32 (addr + start) (segment start p inp) (ih_crc32 ih)) 0 inp p n = (LZMA_STREAM_END, k, q))"
proof (cases "p < n")
  case True
  let ?f = "\<lambda>info. take 32 (check_buffer (lzma_check_finish LZMA_CHECK_BEST (ii_check info)))"
  have sha: "?f info = fips_sha256 (size_bytes rs)" if "info_of check rs info" "check_ok check" for info check rs
    using check_of_message [of LZMA_CHECK_BEST check "size_bytes rs"] that
    by (simp add: info_of_def supported_types check_spec_def lzma_check_size_def check_sizes_def)
  have n: "unat (lzma_check_size LZMA_CHECK_BEST) = 32" by (simp add: lzma_check_size_def check_sizes_def)
  show ?thesis
    using True assms(1,2) sha [OF assms(5,3)] sha [OF assms(6,4)]
    by (auto simp: accepts_step index_hash_step_def index_padding_def n Let_def index_crc_def split: prod.split)
qed (simp add: accepts_end)

definition padding_of :: "index_record list \<Rightarrow> nat" where
  "padding_of rs = (4 - (1 + length (vli_bytes (of_nat (length rs))) + length (record_bytes rs)) mod 4) mod 4"

lemma neg_mod4: "unat ((- of_nat t :: lzma_vli) AND 3) = (4 - t mod 4) mod 4"
proof -
  have "(- of_nat t :: lzma_vli) AND 3 = take_bit 2 (- of_nat t)" by (simp add: take_bit_eq_mask mask_eq_exp_minus_1)
  then have "uint ((- of_nat t :: lzma_vli) AND 3) = take_bit 2 (uint (- of_nat t :: lzma_vli))"
    by (simp only: unsigned_take_bit_eq)
  also have "\<dots> = take_bit 2 (take_bit 64 (- int t))"
  proof -
    have "(- of_nat t :: lzma_vli) = word_of_int (- int t)" by simp
    then show ?thesis by (simp only: uint_word_of_int_eq) simp
  qed
  also have "\<dots> = (- int t) mod 4" by (simp add: take_bit_eq_mod mod_mod_cancel)
  also have "\<dots> = int ((4 - t mod 4) mod 4)"
  proof -
    have "int t mod 4 = int (t mod 4)" by (simp add: zmod_int)
    then show ?thesis by (cases "t mod 4 = 0") (simp_all add: zmod_zminus1_eq_if of_nat_diff)
  qed
  finally have "int (unat ((- of_nat t :: lzma_vli) AND 3)) = int ((4 - t mod 4) mod 4)" by simp
  then show ?thesis by linarith
qed

lemma padding_word:
  assumes "info_of check xs info" "ii_count info \<le> LZMA_VLI_MAX"
  shows "unat ((4 - index_size_unpadded (ii_count info) (ii_index_list_size info)) AND 3) = padding_of xs"
proof -
  let ?t = "1 + length (vli_bytes (of_nat (length xs))) + length (record_bytes xs)"
  have "4 - index_size_unpadded (ii_count info) (ii_index_list_size info) = - of_nat ?t"
    using assms by (simp add: index_size_unpadded_def info_of_def vli_size_bytes)
  then show ?thesis using neg_mod4 [of ?t] by (simp only: padding_of_def)
qed

text \<open>The rest of the Index after the Records \<open>xs\<close>, when the Blocks are \<open>bs\<close>.\<close>

definition index_tail :: "u8 list \<Rightarrow> nat \<Rightarrow> nat \<Rightarrow> index_record list \<Rightarrow> index_record list \<Rightarrow> nat \<Rightarrow> nat \<Rightarrow> bool" where
  "index_tail inp n start bs xs p q \<longleftrightarrow>
     (let m = p + padding_of xs in q = m + 4 \<and> q \<le> n \<and> segment p m inp = replicate (padding_of xs) 0
        \<and> segment m q inp = check_spec LZMA_CHECK_CRC32 (segment start m inp))
     \<and> fips_sha256 (size_bytes xs) = fips_sha256 (size_bytes bs)"

lemma crc_segment:
  "p + 4 \<le> length inp \<Longrightarrow> segment p (p + 4) inp = bs \<longleftrightarrow> [inp ! p, inp ! (p + 1), inp ! (p + 2), inp ! (p + 3)] = bs"
  by (simp add: segment_def numeral_eq_Suc take_Suc_conv_app_nth)

lemma zeros_segment: "p + k \<le> length inp \<Longrightarrow> (\<forall>i<k. inp ! (p + i) = x) \<longleftrightarrow> segment p (p + k) inp = replicate k x"
  by (auto simp: segment_def list_eq_iff_nth_eq)

lemma accepts_tail:
  assumes "ih_sequence ih = IH_PADDING_INIT" "check_ok cb" "check_ok cr" "info_of cb bs (ih_blocks ih)" "info_of cr xs (ih_records ih)"
    and "ii_count (ih_records ih) \<le> LZMA_VLI_MAX" "ih_crc32 ih = 0" "n \<le> length inp"
  shows "accepts addr start inp n ih p q \<longleftrightarrow> \<not> sizes_differ (ih_blocks ih) (ih_records ih) \<and> index_tail inp n start bs xs p q"
proof -
  let ?k = "padding_of xs"
  let ?ih = "ih\<lparr>ih_pos := ?k, ih_sequence := IH_PADDING\<rparr>"
  let ?crc = "lzma_crc32 (addr + start) (segment start (p + ?k) inp) 0"
  have "accepts addr start inp n ih p q \<longleftrightarrow> accepts addr start inp n ?ih p q"
  proof (cases "p < n")
    case True
    then show ?thesis using assms(1) by (simp add: accepts_step index_hash_step_def padding_word [OF assms(5,6)])
  qed (simp add: accepts_end)
  also have "\<dots> \<longleftrightarrow> (\<forall>i<?k. inp ! (p + i) = 0) \<and> accepts addr start inp n (?ih\<lparr>ih_pos := 0\<rparr>) (p + ?k) q"
    by (rule accepts_padding) simp_all
  also have "accepts addr start inp n (?ih\<lparr>ih_pos := 0\<rparr>) (p + ?k) q \<longleftrightarrow> p + ?k < n \<and> \<not> sizes_differ (ih_blocks ih) (ih_records ih)
      \<and> fips_sha256 (size_bytes bs) = fips_sha256 (size_bytes xs)
      \<and> (\<exists>k. index_crc_loop ?crc 0 inp (p + ?k) n = (LZMA_STREAM_END, k, q))"
    using accepts_finish [of "?ih\<lparr>ih_pos := 0\<rparr>" cb cr bs xs addr start inp n "p + ?k" q] assms by simp
  also have "(\<exists>k. index_crc_loop ?crc 0 inp (p + ?k) n = (LZMA_STREAM_END, k, q)) \<longleftrightarrow> q = p + ?k + 4 \<and> p + ?k \<noteq> n \<and> p + ?k + 1 \<noteq> n
      \<and> p + ?k + 2 \<noteq> n \<and> p + ?k + 3 \<noteq> n \<and> [inp ! (p + ?k), inp ! (p + ?k + 1), inp ! (p + ?k + 2), inp ! (p + ?k + 3)] = write32ne ?crc"
    by (rule crc_loop_accepts)
  also have "write32ne ?crc = check_spec LZMA_CHECK_CRC32 (segment start (p + ?k) inp)"
    by (simp add: check_spec_def lzma_crc32_eq_small lzma_crc32_small_def crc32_bytes_ref)
  finally have main: "accepts addr start inp n ih p q \<longleftrightarrow> (\<forall>i<?k. inp ! (p + i) = 0) \<and> p + ?k < n
      \<and> \<not> sizes_differ (ih_blocks ih) (ih_records ih) \<and> fips_sha256 (size_bytes bs) = fips_sha256 (size_bytes xs)
      \<and> q = p + ?k + 4 \<and> p + ?k \<noteq> n \<and> p + ?k + 1 \<noteq> n \<and> p + ?k + 2 \<noteq> n \<and> p + ?k + 3 \<noteq> n
      \<and> [inp ! (p + ?k), inp ! (p + ?k + 1), inp ! (p + ?k + 2), inp ! (p + ?k + 3)] = check_spec LZMA_CHECK_CRC32 (segment start (p + ?k) inp)" .
  show ?thesis
  proof (cases "p + ?k + 4 \<le> n")
    case True
    then show ?thesis
      unfolding main index_tail_def Let_def using crc_segment [of "p + ?k" inp] zeros_segment [of p ?k inp 0] assms(8) by auto
  next
    case False
    then have "\<not> (p + ?k < n \<and> p + ?k + 1 \<noteq> n \<and> p + ?k + 2 \<noteq> n \<and> p + ?k + 3 \<noteq> n)" by linarith
    then show ?thesis unfolding main index_tail_def Let_def using False by auto
  qed
qed

text \<open>The Records. The totals of those that have been read never exceed the totals of the Blocks.\<close>

definition fits :: "index_record list \<Rightarrow> index_record list \<Rightarrow> bool" where
  "fits bs xs \<longleftrightarrow> blocks_total xs \<le> blocks_total bs \<and> data_total xs \<le> data_total bs \<and> length (record_bytes xs) \<le> length (record_bytes bs)"

definition in_limits :: "index_record list \<Rightarrow> bool" where
  "in_limits bs \<longleftrightarrow> blocks_total bs < 2 ^ 63 \<and> data_total bs < 2 ^ 63 \<and> length (record_bytes bs) < 2 ^ 63"

lemma totals_append:
  "blocks_total (xs @ ys) = blocks_total xs + blocks_total ys" "data_total (xs @ ys) = data_total xs + data_total ys"
  "record_bytes (xs @ ys) = record_bytes xs @ record_bytes ys" "size_bytes (xs @ ys) = size_bytes xs @ size_bytes ys"
  by (simp_all add: totals_defs)

lemma fits_prefix: "fits bs (xs @ ys) \<Longrightarrow> fits bs xs"
  by (simp add: fits_def totals_append)

lemma record_sizes:
  assumes "valid_record (u, c)"
  shows "blocks_total [(u, c)] \<le> 2 ^ 63" "data_total [(u, c)] < 2 ^ 63" "length (record_bytes [(u, c)]) \<le> 18"
proof -
  have uc: "u \<le> LZMA_VLI_MAX" "c \<le> LZMA_VLI_MAX" using assms by (auto simp: word_le_nat_alt)
  then show "length (record_bytes [(u, c)]) \<le> 18" using vli_max_bytes [OF uc(1)] vli_max_bytes [OF uc(2)] by (simp add: record_bytes_def)
  have "unat u \<le> 0x7FFFFFFFFFFFFFFC" "unat c < 2 ^ 63" using assms by (simp_all add: word_le_nat_alt)
  then show "blocks_total [(u, c)] \<le> 2 ^ 63" "data_total [(u, c)] < 2 ^ 63" by (simp_all add: totals_defs)
qed

lemma of_nat_less_vli: "a < 2 ^ 64 \<Longrightarrow> b < 2 ^ 64 \<Longrightarrow> (of_nat a :: lzma_vli) < of_nat b \<longleftrightarrow> a < b"
  by (simp add: word_less_nat_alt unat_of_nat)

lemma not_below_fits:
  assumes "info_of cb bs blocks" "info_of cr (ps @ [(u, c)]) records" "in_limits bs" "fits bs ps" "valid_record (u, c)"
  shows "\<not> sizes_below blocks records \<longleftrightarrow> fits bs (ps @ [(u, c)])"
proof -
  note r = record_sizes [OF assms(5)]
  have b: "blocks_total bs < 2 ^ 64" "data_total bs < 2 ^ 64" "length (record_bytes bs) < 2 ^ 64"
    using assms(3) by (simp_all add: in_limits_def)
  have x: "blocks_total (ps @ [(u, c)]) < 2 ^ 64" "data_total (ps @ [(u, c)]) < 2 ^ 64" "length (record_bytes (ps @ [(u, c)])) < 2 ^ 64"
    using assms(3,4) r by (auto simp: in_limits_def fits_def totals_append)
  show ?thesis
    using assms(1,2) of_nat_less_vli [OF b(1) x(1)] of_nat_less_vli [OF b(2) x(2)] of_nat_less_vli [OF b(3) x(3)]
    by (auto simp: sizes_below_def info_of_def fits_def not_less)
qed

lemma segment_split:
  assumes "p \<le> q" "q \<le> length inp"
  shows "segment p q inp = xs @ ys \<longleftrightarrow> (\<exists>r. p \<le> r \<and> r \<le> q \<and> segment p r inp = xs \<and> segment r q inp = ys)"
proof
  assume seg: "segment p q inp = xs @ ys"
  then have len: "q - p = length xs + length ys" using assms by (metis length_append length_segment)
  let ?r = "p + length xs"
  have "segment p ?r inp = take (length xs) (segment p q inp)" using len assms(1) by (simp add: take_segment)
  moreover have "segment ?r q inp = drop (length xs) (segment p q inp)" by (simp add: drop_segment)
  ultimately have "segment p ?r inp = xs" "segment ?r q inp = ys" using seg by simp_all
  moreover have "p \<le> ?r" "?r \<le> q" using len assms(1) by simp_all
  ultimately show "\<exists>r. p \<le> r \<and> r \<le> q \<and> segment p r inp = xs \<and> segment r q inp = ys" by blast
next
  assume "\<exists>r. p \<le> r \<and> r \<le> q \<and> segment p r inp = xs \<and> segment r q inp = ys"
  then obtain r where "p \<le> r" "r \<le> q" "segment p r inp = xs" "segment r q inp = ys" by blast
  then show "segment p q inp = xs @ ys" using segment_append [of p r q inp] by simp
qed

lemma segment_vli_less: "segment p r inp = vli_bytes v \<Longrightarrow> p < r"
  using vli_bytes_pos [of v] by (cases "p < r") (auto simp: segment_empty)

lemma accepts_record:
  assumes "ih_sequence ih = IH_UNPADDED" "ih_pos ih = 0" "n \<le> length inp"
  shows "accepts addr start inp n ih p q \<longleftrightarrow>
    (\<exists>u c r. valid_record (u, c) \<and> p \<le> r \<and> r \<le> n \<and> segment p r inp = record_bytes [(u, c)]
       \<and> \<not> sizes_below (ih_blocks ih) (hash_append (ih_records ih) u c)
       \<and> accepts addr start inp n (ih\<lparr>ih_unpadded_size := u, ih_uncompressed_size := c, ih_pos := 0,
            ih_records := hash_append (ih_records ih) u c, ih_remaining := ih_remaining ih - 1,
            ih_sequence := (if ih_remaining ih - 1 = 0 then IH_PADDING_INIT else IH_UNPADDED)\<rparr>) r q)"
proof -
  let ?ih1 = "\<lambda>u. ih\<lparr>ih_unpadded_size := u, ih_pos := 0, ih_sequence := IH_UNCOMPRESSED\<rparr>"
  let ?ih2 = "\<lambda>u c. ih\<lparr>ih_unpadded_size := u, ih_uncompressed_size := c, ih_pos := 0,
            ih_records := hash_append (ih_records ih) u c, ih_remaining := ih_remaining ih - 1,
            ih_sequence := (if ih_remaining ih - 1 = 0 then IH_PADDING_INIT else IH_UNPADDED)\<rparr>"
  let ?ok = "\<lambda>u c. \<not> sizes_below (ih_blocks ih) (hash_append (ih_records ih) u c)"
  have "accepts addr start inp n (?ih1 u) r1 q \<longleftrightarrow>
      (\<exists>c r. (r1 < r \<and> r \<le> n \<and> segment r1 r inp = vli_bytes c \<and> c \<le> LZMA_VLI_MAX) \<and> ?ok u c \<and> accepts addr start inp n (?ih2 u c) r q)" for u r1
    using accepts_uncompressed [of "?ih1 u" n inp addr start r1 q] assms(3) by (simp cong: if_cong)
  then have main: "accepts addr start inp n ih p q \<longleftrightarrow>
      (\<exists>u r1 c r. p < r1 \<and> r1 \<le> n \<and> segment p r1 inp = vli_bytes u \<and> u \<le> LZMA_VLI_MAX \<and> UNPADDED_SIZE_MIN \<le> u \<and> u \<le> UNPADDED_SIZE_MAX
         \<and> r1 < r \<and> r \<le> n \<and> segment r1 r inp = vli_bytes c \<and> c \<le> LZMA_VLI_MAX \<and> ?ok u c \<and> accepts addr start inp n (?ih2 u c) r q)"
    unfolding accepts_unpadded [OF assms] by blast
  have seg: "p \<le> r \<and> r \<le> n \<and> segment p r inp = record_bytes [(u, c)] \<longleftrightarrow>
      (\<exists>r1. p < r1 \<and> r1 \<le> n \<and> segment p r1 inp = vli_bytes u \<and> r1 < r \<and> r \<le> n \<and> segment r1 r inp = vli_bytes c)" for r u c
    using segment_split [of p r inp "vli_bytes u" "vli_bytes c"] assms(3) segment_vli_less
    by (auto simp: record_bytes_def) (meson less_imp_le less_le_trans order_trans)+
  have max: "u \<le> LZMA_VLI_MAX" if "u \<le> UNPADDED_SIZE_MAX" for u using that by (simp add: word_le_nat_alt)
  show ?thesis unfolding main valid_record.simps using seg max by blast
qed

lemma not_differ:
  assumes "info_of cb bs blocks" "info_of cr xs records" "in_limits bs" "fits bs xs"
  shows "\<not> sizes_differ blocks records \<longleftrightarrow>
    blocks_total xs = blocks_total bs \<and> data_total xs = data_total bs \<and> length (record_bytes xs) = length (record_bytes bs)"
proof -
  have eq: "(of_nat a :: lzma_vli) = of_nat b \<longleftrightarrow> b = a" if "b \<le> a" "a < 2 ^ 63" for a b
    using that by (auto simp: word_unat_eq_iff unat_of_nat)
  show ?thesis using assms(1,2) assms(3,4) eq
    by (simp add: sizes_differ_def info_of_def in_limits_def fits_def) blast
qed

lemma ex_length_Suc: "(\<exists>rs r. length rs = Suc m \<and> P rs r) \<longleftrightarrow> (\<exists>u c rs r. length rs = m \<and> P ((u, c) # rs) r)"
  by (auto simp: length_Suc_conv)

lemma accepts_records:
  assumes "n \<le> length inp" "check_ok cb" "check_ok cr" "in_limits bs"
  shows "ih_sequence ih = IH_UNPADDED \<Longrightarrow> ih_pos ih = 0 \<Longrightarrow> ih_crc32 ih = 0 \<Longrightarrow> info_of cb bs (ih_blocks ih) \<Longrightarrow> info_of cr ps (ih_records ih) \<Longrightarrow>
    fits bs ps \<Longrightarrow> ih_remaining ih = of_nat (Suc m) \<Longrightarrow> Suc m + length ps < 2 ^ 63 \<Longrightarrow>
    accepts addr start inp n ih p q \<longleftrightarrow>
    (\<exists>rs r. length rs = Suc m \<and> list_all valid_record rs \<and> p \<le> r \<and> r \<le> n \<and> segment p r inp = record_bytes rs \<and> fits bs (ps @ rs)
       \<and> blocks_total (ps @ rs) = blocks_total bs \<and> data_total (ps @ rs) = data_total bs
       \<and> length (record_bytes (ps @ rs)) = length (record_bytes bs) \<and> index_tail inp n start bs (ps @ rs) r q)"
proof (induction m arbitrary: ih ps p)
  case (0 ih ps p)
  let ?ih = "\<lambda>u c. ih\<lparr>ih_unpadded_size := u, ih_uncompressed_size := c, ih_pos := 0,
      ih_records := hash_append (ih_records ih) u c, ih_remaining := 0, ih_sequence := IH_PADDING_INIT\<rparr>"
  have step: "\<not> sizes_below (ih_blocks ih) (hash_append (ih_records ih) u c) \<and> accepts addr start inp n (?ih u c) r q \<longleftrightarrow>
      fits bs (ps @ [(u, c)]) \<and> blocks_total (ps @ [(u, c)]) = blocks_total bs \<and> data_total (ps @ [(u, c)]) = data_total bs
      \<and> length (record_bytes (ps @ [(u, c)])) = length (record_bytes bs) \<and> index_tail inp n start bs (ps @ [(u, c)]) r q"
    if "valid_record (u, c)" for u c r
  proof -
    note info = info_append [OF assms(3) "0.prems"(5) that]
    have count: "ii_count (hash_append (ih_records ih) u c) \<le> LZMA_VLI_MAX"
      using info "0.prems"(8) by (simp add: info_of_def word_le_nat_alt unat_of_nat del: of_nat_Suc)
    show ?thesis
      using not_below_fits [OF "0.prems"(4) info assms(4) "0.prems"(6) that]
        accepts_tail [of "?ih u c" cb cr bs "ps @ [(u, c)]" n inp addr start r q]
        not_differ [OF "0.prems"(4) info assms(4)] info assms(1-3) "0.prems"(3,4) count
      by auto
  qed
  have "accepts addr start inp n ih p q \<longleftrightarrow> (\<exists>u c r. valid_record (u, c) \<and> p \<le> r \<and> r \<le> n \<and> segment p r inp = record_bytes [(u, c)]
       \<and> \<not> sizes_below (ih_blocks ih) (hash_append (ih_records ih) u c) \<and> accepts addr start inp n (?ih u c) r q)"
    using accepts_record [OF "0.prems"(1,2) assms(1), of addr start p q] "0.prems"(7) by simp
  also have "\<dots> \<longleftrightarrow> (\<exists>u c r. valid_record (u, c) \<and> p \<le> r \<and> r \<le> n \<and> segment p r inp = record_bytes [(u, c)]
       \<and> fits bs (ps @ [(u, c)]) \<and> blocks_total (ps @ [(u, c)]) = blocks_total bs \<and> data_total (ps @ [(u, c)]) = data_total bs
       \<and> length (record_bytes (ps @ [(u, c)])) = length (record_bytes bs) \<and> index_tail inp n start bs (ps @ [(u, c)]) r q)"
    using step by blast
  finally show ?case unfolding ex_length_Suc length_0_conv by (simp only: ex_simps simp_thms list.pred_inject)
next
  case (Suc m ih ps p)
  let ?ih = "\<lambda>u c. ih\<lparr>ih_unpadded_size := u, ih_uncompressed_size := c, ih_pos := 0,
      ih_records := hash_append (ih_records ih) u c, ih_remaining := of_nat (Suc m), ih_sequence := IH_UNPADDED\<rparr>"
  let ?fin = "\<lambda>rs r. fits bs rs \<and> blocks_total rs = blocks_total bs \<and> data_total rs = data_total bs
      \<and> length (record_bytes rs) = length (record_bytes bs) \<and> index_tail inp n start bs rs r q"
  have "(of_nat (Suc m) :: lzma_vli) \<noteq> 0"
    using Suc.prems(8) by (simp add: word_unat_eq_iff unat_of_nat del: of_nat_Suc)
  then have rem: "ih_remaining ih - 1 = of_nat (Suc m)" "ih_remaining ih - 1 \<noteq> 0" using Suc.prems(7) by simp_all
  have step: "\<not> sizes_below (ih_blocks ih) (hash_append (ih_records ih) u c) \<and> accepts addr start inp n (?ih u c) r q \<longleftrightarrow>
      (\<exists>rs r'. length rs = Suc m \<and> list_all valid_record rs \<and> r \<le> r' \<and> r' \<le> n \<and> segment r r' inp = record_bytes rs
        \<and> ?fin ((ps @ [(u, c)]) @ rs) r')"
    if "valid_record (u, c)" for u c r
  proof (cases "fits bs (ps @ [(u, c)])")
    case True
    note info = info_append [OF assms(3) Suc.prems(5) that]
    have "\<not> sizes_below (ih_blocks ih) (hash_append (ih_records ih) u c)"
      using not_below_fits [OF Suc.prems(4) info assms(4) Suc.prems(6) that] True by simp
    then show ?thesis
      using Suc.IH [of "?ih u c" "ps @ [(u, c)]" r] Suc.prems(3,4,8) info True by (simp del: of_nat_Suc append_assoc)
  next
    case False
    then have "\<not> fits bs ((ps @ [(u, c)]) @ rs)" for rs using fits_prefix by blast
    moreover have "sizes_below (ih_blocks ih) (hash_append (ih_records ih) u c)"
      using not_below_fits [OF Suc.prems(4) info_append [OF assms(3) Suc.prems(5) that] assms(4) Suc.prems(6) that] False by simp
    ultimately show ?thesis by blast
  qed
  have seg: "(p \<le> r' \<and> r' \<le> n \<and> segment p r' inp = record_bytes ((u, c) # rs)) \<longleftrightarrow>
      (\<exists>r. p \<le> r \<and> r \<le> n \<and> segment p r inp = record_bytes [(u, c)] \<and> r \<le> r' \<and> r' \<le> n \<and> segment r r' inp = record_bytes rs)" for r' u c rs
    using segment_split [of p r' inp "record_bytes [(u, c)]" "record_bytes rs"] assms(1)
    by (auto simp: record_bytes_def) (meson order_trans)+
  have "accepts addr start inp n ih p q \<longleftrightarrow> (\<exists>u c r. valid_record (u, c) \<and> p \<le> r \<and> r \<le> n \<and> segment p r inp = record_bytes [(u, c)]
       \<and> \<not> sizes_below (ih_blocks ih) (hash_append (ih_records ih) u c) \<and> accepts addr start inp n (?ih u c) r q)"
    using accepts_record [OF Suc.prems(1,2) assms(1), of addr start p q] rem by (simp only: if_False)
  also have "\<dots> \<longleftrightarrow> (\<exists>u c rs r'. length rs = Suc m \<and> (valid_record (u, c) \<and> list_all valid_record rs)
       \<and> (p \<le> r' \<and> r' \<le> n \<and> segment p r' inp = record_bytes ((u, c) # rs)) \<and> ?fin ((ps @ [(u, c)]) @ rs) r')"
    unfolding seg using step by blast
  finally show ?case by (simp only: ex_length_Suc [of "Suc m"] list.pred_inject append_assoc append_Cons append_Nil conj_assoc)
qed

section \<open>The Index against the Blocks\<close>

definition same_summary :: "index_record list \<Rightarrow> index_record list \<Rightarrow> bool" where
  "same_summary bs rs \<longleftrightarrow> length rs = length bs \<and> blocks_total rs = blocks_total bs \<and> data_total rs = data_total bs
     \<and> length (record_bytes rs) = length (record_bytes bs) \<and> fips_sha256 (size_bytes rs) = fips_sha256 (size_bytes bs)"

lemma segment_one: "p \<le> r \<Longrightarrow> r \<le> length inp \<Longrightarrow> segment p r inp = [b] \<longleftrightarrow> r = p + 1 \<and> inp ! p = b"
proof -
  assume r: "p \<le> r" "r \<le> length inp"
  then have "length (segment p r inp) = r - p" by simp
  then have "segment p r inp = [b] \<Longrightarrow> r = p + 1" using r(1) by auto
  moreover have "segment p (p + 1) inp = [inp ! p]" if "p < length inp" using that by (simp add: segment_def take_Suc_conv_app_nth)
  ultimately show ?thesis using r by (metis Suc_eq_plus1 list.inject not_less_eq_eq order_le_less_trans not_le)
qed

lemma index_body_padding: "index_body rs = [0] @ vli_bytes (of_nat (length rs)) @ record_bytes rs @ replicate (padding_of rs) 0"
  by (simp add: index_body_def padding_of_def)

lemma length_crc: "length (check_spec LZMA_CHECK_CRC32 m) = 4"
  by (simp add: check_spec_def write32ne_def)

lemma index_bytes_segment:
  assumes "p \<le> q" "q \<le> n" "n \<le> length inp"
  shows "segment p q inp = index_bytes rs \<longleftrightarrow>
    p < n \<and> inp ! p = 0 \<and> (\<exists>r1. p + 1 \<le> r1 \<and> r1 \<le> n \<and> segment (p + 1) r1 inp = vli_bytes (of_nat (length rs))
      \<and> (\<exists>r2. r1 \<le> r2 \<and> r2 \<le> n \<and> segment r1 r2 inp = record_bytes rs
        \<and> (let m = r2 + padding_of rs in q = m + 4 \<and> q \<le> n \<and> segment r2 m inp = replicate (padding_of rs) 0
            \<and> segment m q inp = check_spec LZMA_CHECK_CRC32 (segment p m inp))))"
    (is "_ \<longleftrightarrow> ?R")
proof
  assume seg: "segment p q inp = index_bytes rs"
  have q: "q \<le> length inp" using assms by simp
  obtain m where m: "p \<le> m" "m \<le> q" "segment p m inp = index_body rs" "segment m q inp = check_spec LZMA_CHECK_CRC32 (index_body rs)"
    using seg segment_split [OF assms(1) q, of "index_body rs"] by (auto simp: index_bytes_def)
  have m4: "q = m + 4" using m(2,4) q length_segment [of q inp m] by (simp add: length_crc)
  have ml: "m \<le> length inp" using m(2) q by simp
  obtain r0 where r0: "p \<le> r0" "r0 \<le> m" "segment p r0 inp = [0]" "segment r0 m inp = vli_bytes (of_nat (length rs)) @ record_bytes rs @ replicate (padding_of rs) 0"
    using m(3) segment_split [OF m(1) ml, of "[0]"] by (auto simp: index_body_padding)
  have r0p: "r0 = p + 1" "inp ! p = 0" using segment_one [OF r0(1), of inp 0] r0(2,3) ml by auto
  obtain r1 where r1: "r0 \<le> r1" "r1 \<le> m" "segment r0 r1 inp = vli_bytes (of_nat (length rs))" "segment r1 m inp = record_bytes rs @ replicate (padding_of rs) 0"
    using r0(4) segment_split [OF r0(2) ml] by auto
  obtain r2 where r2: "r1 \<le> r2" "r2 \<le> m" "segment r1 r2 inp = record_bytes rs" "segment r2 m inp = replicate (padding_of rs) 0"
    using r1(4) segment_split [OF r1(2) ml] by auto
  have "m = r2 + padding_of rs" using r2(2,4) ml length_segment [of m inp r2] by simp
  then have "let m = r2 + padding_of rs in q = m + 4 \<and> q \<le> n \<and> segment r2 m inp = replicate (padding_of rs) 0
      \<and> segment m q inp = check_spec LZMA_CHECK_CRC32 (segment p m inp)"
    using m4 assms(2) r2(4) m(3,4) by simp
  moreover have "p < n" "p + 1 \<le> r1" "r1 \<le> n" "r2 \<le> n" using r0p(1) r0(2) r1(1,2) r2(2) m(2) assms(2) by simp_all
  ultimately show ?R using r0p r1(3) r2(1,3) by blast
next
  assume ?R
  then obtain r1 r2 where r: "p < n" "inp ! p = 0" "p + 1 \<le> r1" "segment (p + 1) r1 inp = vli_bytes (of_nat (length rs))"
    "r1 \<le> r2" "segment r1 r2 inp = record_bytes rs" "q = r2 + padding_of rs + 4"
    "segment r2 (r2 + padding_of rs) inp = replicate (padding_of rs) 0"
    "segment (r2 + padding_of rs) q inp = check_spec LZMA_CHECK_CRC32 (segment p (r2 + padding_of rs) inp)"
    by (auto simp: Let_def)
  let ?m = "r2 + padding_of rs"
  have one: "segment p (p + 1) inp = [0]" using segment_one [of p "p + 1" inp 0] r(1,2) assms(3) by simp
  have "segment p ?m inp = segment p (p + 1) inp @ segment (p + 1) r1 inp @ segment r1 r2 inp @ segment r2 ?m inp"
    using r(3,5) by (simp add: segment_append)
  then have body: "segment p ?m inp = index_body rs" using one r by (simp add: index_body_padding)
  have "segment p q inp = segment p ?m inp @ segment ?m q inp" using r(3,5,7) by (simp add: segment_append)
  then show "segment p q inp = index_bytes rs" using body r(9) by (simp add: index_bytes_def)
qed

lemma length_index_bytes:
  "length (index_bytes rs) = (1 + length (vli_bytes (of_nat (length rs))) + length (record_bytes rs) + 4 + 3) div 4 * 4"
proof -
  have pad: "t + (4 - t mod 4) mod 4 + 4 = (t + 4 + 3) div 4 * 4" for t :: nat
  proof -
    obtain a r where t: "t = 4 * a + r" "r < 4" using mult_div_mod_eq [of 4 t] mod_less_divisor [of 4 t] by (metis zero_less_numeral)
    then have "r = 0 \<or> r = 1 \<or> r = 2 \<or> r = 3" by linarith
    moreover have "t mod 4 = r" "(t + 4 + 3) div 4 = a + (r + 7) div 4" using t by simp_all
    ultimately show ?thesis using t(1) by (elim disjE) simp_all
  qed
  show ?thesis
    using pad [of "1 + length (vli_bytes (of_nat (length rs))) + length (record_bytes rs)"]
    by (simp add: index_bytes_def index_body_padding length_crc padding_of_def)
qed

lemma accepts_fresh:
  assumes ih: "ih_sequence ih = IH_BLOCK" "ih_pos ih = 0" "ih_crc32 ih = 0" "info_of cb bs (ih_blocks ih)" "info_of cr [] (ih_records ih)"
    and ok: "check_ok cb" "check_ok cr" "in_limits bs" "length bs < 2 ^ 63" and n: "n \<le> length inp" "p \<le> q"
  shows "accepts addr p inp n ih p q \<longleftrightarrow> q \<le> n \<and> (\<exists>rs. list_all valid_record rs \<and> same_summary bs rs \<and> segment p q inp = index_bytes rs)"
proof -
  let ?c = "ii_count (ih_blocks ih)"
  let ?fin = "\<lambda>rs r. blocks_total rs = blocks_total bs \<and> data_total rs = data_total bs
      \<and> length (record_bytes rs) = length (record_bytes bs) \<and> index_tail inp n p bs rs r q"
  have c: "?c = of_nat (length bs)" "?c \<le> LZMA_VLI_MAX" "?c = 0 \<longleftrightarrow> bs = []"
    using ih(4) ok(4) by (auto simp: info_of_def word_le_nat_alt word_unat_eq_iff unat_of_nat)
  let ?ih = "ih\<lparr>ih_remaining := ?c, ih_pos := 0, ih_sequence := (if ?c = 0 then IH_PADDING_INIT else IH_UNPADDED)\<rparr>"
  have "accepts addr p inp n ih p q \<longleftrightarrow> p < n \<and> inp ! p = 0 \<and> accepts addr p inp n (ih\<lparr>ih_sequence := IH_COUNT\<rparr>) (p + 1) q"
    by (rule accepts_block [OF ih(1)])
  also have "accepts addr p inp n (ih\<lparr>ih_sequence := IH_COUNT\<rparr>) (p + 1) q \<longleftrightarrow>
      (\<exists>r1. p + 1 < r1 \<and> r1 \<le> n \<and> segment (p + 1) r1 inp = vli_bytes ?c \<and> accepts addr p inp n ?ih r1 q)"
    using accepts_count [of "ih\<lparr>ih_sequence := IH_COUNT\<rparr>" n inp addr p "p + 1" q] ih(2) n(1) c(2) by (simp cong: if_cong)
  finally have main: "accepts addr p inp n ih p q \<longleftrightarrow> p < n \<and> inp ! p = 0 \<and>
      (\<exists>r1. p + 1 < r1 \<and> r1 \<le> n \<and> segment (p + 1) r1 inp = vli_bytes ?c \<and> accepts addr p inp n ?ih r1 q)" .
  have records: "accepts addr p inp n ?ih r1 q \<longleftrightarrow> (\<exists>rs r2. length rs = length bs \<and> list_all valid_record rs \<and> r1 \<le> r2 \<and> r2 \<le> n
      \<and> segment r1 r2 inp = record_bytes rs \<and> ?fin rs r2)" if r1: "r1 \<le> n" for r1
  proof (cases "bs = []")
    case True
    have "accepts addr p inp n ?ih r1 q \<longleftrightarrow> \<not> sizes_differ (ih_blocks ih) (ih_records ih) \<and> index_tail inp n p [] [] r1 q"
      using accepts_tail [of ?ih cb cr "[]" "[]" n inp addr p r1 q] True c ih ok n(1) by (simp add: info_of_def)
    moreover have "\<not> sizes_differ (ih_blocks ih) (ih_records ih)"
      using ih(4,5) True by (simp add: info_of_def sizes_differ_def)
    moreover have "segment r1 r2 inp = [] \<longleftrightarrow> r2 = r1" if "r1 \<le> r2" "r2 \<le> n" for r2
      using that n(1) length_segment [of r2 inp r1] by (metis diff_is_0_eq length_0_conv order.trans order_antisym segment_same)
    ultimately show ?thesis using True r1 by (auto simp: record_bytes_def)
  next
    case False
    then obtain m where m: "length bs = Suc m" by (cases bs) auto
    have fits: "fits bs xs" if "?fin xs r" for xs r using that by (simp add: fits_def)
    have "accepts addr p inp n ?ih r1 q \<longleftrightarrow>
      (\<exists>rs r. length rs = Suc m \<and> list_all valid_record rs \<and> r1 \<le> r \<and> r \<le> n \<and> segment r1 r inp = record_bytes rs \<and> fits bs ([] @ rs)
       \<and> blocks_total ([] @ rs) = blocks_total bs \<and> data_total ([] @ rs) = data_total bs
       \<and> length (record_bytes ([] @ rs)) = length (record_bytes bs) \<and> index_tail inp n p bs ([] @ rs) r q)"
      by (rule accepts_records [OF n(1) ok(1,2,3)]) (use False c ih m ok(4) in \<open>simp_all add: fits_def totals_defs\<close>)
    then show ?thesis unfolding append_Nil m using fits by blast
  qed
  have eq: "(list_all valid_record rs \<and> same_summary bs rs \<and> segment p q inp = index_bytes rs) \<longleftrightarrow>
      p < n \<and> inp ! p = 0 \<and> (\<exists>r1. p + 1 < r1 \<and> r1 \<le> n \<and> segment (p + 1) r1 inp = vli_bytes ?c
        \<and> (\<exists>r2. length rs = length bs \<and> list_all valid_record rs \<and> r1 \<le> r2 \<and> r2 \<le> n \<and> segment r1 r2 inp = record_bytes rs \<and> ?fin rs r2))"
    if "q \<le> n" for rs
  proof -
    define T where "T r2 \<longleftrightarrow> (let m = r2 + padding_of rs in q = m + 4 \<and> q \<le> n \<and> segment r2 m inp = replicate (padding_of rs) 0
        \<and> segment m q inp = check_spec LZMA_CHECK_CRC32 (segment p m inp))" for r2
    define S where "S r1 \<longleftrightarrow> r1 \<le> n \<and> segment (p + 1) r1 inp = vli_bytes ?c" for r1
    have S: "S r1 \<Longrightarrow> p + 1 < r1" for r1 unfolding S_def using segment_vli_less by blast
    have tail: "index_tail inp n p bs rs r2 q \<longleftrightarrow> T r2 \<and> fips_sha256 (size_bytes rs) = fips_sha256 (size_bytes bs)" for r2
      by (simp add: index_tail_def T_def)
    have seg: "segment p q inp = index_bytes rs \<longleftrightarrow> p < n \<and> inp ! p = 0 \<and> (\<exists>r1. p + 1 \<le> r1 \<and> S r1
        \<and> (\<exists>r2. r1 \<le> r2 \<and> r2 \<le> n \<and> segment r1 r2 inp = record_bytes rs \<and> T r2))" if "length rs = length bs"
      unfolding index_bytes_segment [OF n(2) \<open>q \<le> n\<close> n(1)] T_def S_def c(1) that by blast
    show ?thesis
    proof (cases "length rs = length bs")
      case True
      define R where "R r1 r2 \<longleftrightarrow> r1 \<le> r2 \<and> r2 \<le> n \<and> segment r1 r2 inp = record_bytes rs" for r1 r2
      have rhs: "(\<exists>r1. p + 1 < r1 \<and> r1 \<le> n \<and> segment (p + 1) r1 inp = vli_bytes ?c \<and> (\<exists>r2. length rs = length bs \<and> list_all valid_record rs
            \<and> r1 \<le> r2 \<and> r2 \<le> n \<and> segment r1 r2 inp = record_bytes rs \<and> ?fin rs r2))
          \<longleftrightarrow> list_all valid_record rs \<and> same_summary bs rs \<and> (\<exists>r1. S r1 \<and> (\<exists>r2. R r1 r2 \<and> T r2))"
        unfolding tail same_summary_def R_def using True S by (auto simp: S_def)
      have lhs: "segment p q inp = index_bytes rs \<longleftrightarrow> p < n \<and> inp ! p = 0 \<and> (\<exists>r1. S r1 \<and> (\<exists>r2. R r1 r2 \<and> T r2))"
      proof -
        have "(p + 1 \<le> r1 \<and> S r1 \<and> X) \<longleftrightarrow> (S r1 \<and> X)" for r1 X using S [of r1] by auto
        then show ?thesis unfolding seg [OF True] R_def by (simp only: conj_assoc)
      qed
      show ?thesis unfolding lhs rhs by blast
    next
      case False
      then show ?thesis by (simp add: same_summary_def)
    qed
  qed
  define C where "C r1 rs r2 \<longleftrightarrow> length rs = length bs \<and> list_all valid_record rs \<and> r1 \<le> r2 \<and> r2 \<le> n \<and> segment r1 r2 inp = record_bytes rs \<and> ?fin rs r2"
    for r1 r2 and rs :: "index_record list"
  have main': "accepts addr p inp n ih p q \<longleftrightarrow> p < n \<and> inp ! p = 0 \<and>
      (\<exists>r1. p + 1 < r1 \<and> r1 \<le> n \<and> segment (p + 1) r1 inp = vli_bytes ?c \<and> (\<exists>rs r2. C r1 rs r2))"
    unfolding main C_def by (simp only: records cong: conj_cong)
  have "C r1 rs r2 \<Longrightarrow> q \<le> n" for r1 rs r2 by (simp add: C_def index_tail_def Let_def)
  then show ?thesis unfolding main' using eq [folded C_def] by (cases "q \<le> n") (simp, blast, blast)
qed

text \<open>What the checks of \<open>lzma_index_hash_append\<close> give: the totals as numbers stay below the limits.\<close>

definition hash_limits :: "index_record list \<Rightarrow> bool" where
  "hash_limits rs \<longleftrightarrow> blocks_total rs < 2 ^ 63 \<and> data_total rs < 2 ^ 63 \<and> length (index_bytes rs) \<le> 2 ^ 34"

lemma index_list_limits:
  assumes "hash_limits rs"
  shows "in_limits rs" "length (record_bytes rs) < 2 ^ 34"
proof -
  have "length (record_bytes rs) + 4 \<le> length (index_bytes rs)" by (simp add: index_bytes_def index_body_padding length_crc)
  then show "in_limits rs" "length (record_bytes rs) < 2 ^ 34" using assms by (auto simp: hash_limits_def in_limits_def)
qed

lemma record_count: "length rs \<le> length (record_bytes rs)"
proof (induction rs)
  case (Cons r rs)
  obtain u c where "r = (u, c)" by (cases r)
  then show ?case using Cons vli_bytes_pos [of u] by (simp add: record_bytes_def)
qed simp

lemma index_size_bytes:
  assumes "info_of check rs info" "length (record_bytes rs) \<le> 2 ^ 34 + 18"
  shows "unat (index_size (ii_count info) (ii_index_list_size info)) = length (index_bytes rs)"
proof -
  let ?c = "of_nat (length rs) :: lzma_vli" and ?t = "1 + length (vli_bytes (of_nat (length rs))) + length (record_bytes rs) + 4"
  have rs: "length rs \<le> 2 ^ 34 + 18" using record_count [of rs] assms(2) by simp
  then have c: "?c \<le> LZMA_VLI_MAX" by (simp add: word_le_nat_alt unat_of_nat)
  have v: "length (vli_bytes ?c) \<le> 9" by (rule vli_max_bytes [OF c])
  have w: "index_size_unpadded (ii_count info) (ii_index_list_size info) = of_nat ?t"
    using assms(1) by (simp add: index_size_unpadded_def info_of_def vli_size_bytes [OF c])
  have t: "unat (of_nat ?t :: lzma_vli) = ?t" using v assms(2) by (simp add: unat_of_nat del: of_nat_add)
  have "of_nat ?t \<le> LZMA_VLI_MAX" unfolding word_le_nat_alt t using v assms(2) by simp
  then have "index_size (ii_count info) (ii_index_list_size info) = of_nat ((?t + 3) div 4 * 4)"
    unfolding index_size_def w using ceil4_nat [of "of_nat ?t"] t by metis
  moreover have "unat (of_nat ((?t + 3) div 4 * 4) :: lzma_vli) = (?t + 3) div 4 * 4"
  proof -
    have "(?t + 3) div 4 * 4 \<le> ?t + 3" by simp
    moreover have "?t + 3 < 2 ^ 64" using v assms(2) by simp
    ultimately have "(?t + 3) div 4 * 4 < 2 ^ 64" by (rule le_less_trans)
    then show ?thesis by (simp add: unat_of_nat del: of_nat_add of_nat_mult)
  qed
  ultimately show ?thesis by (simp only: length_index_bytes)
qed

lemma append_limits:
  assumes "info_of check (rs @ [(u, c)]) info" "hash_limits rs" "valid_record (u, c)"
    and "ii_blocks_size info \<le> LZMA_VLI_MAX" "ii_uncompressed_size info \<le> LZMA_VLI_MAX"
      "index_size (ii_count info) (ii_index_list_size info) \<le> LZMA_BACKWARD_SIZE_MAX"
  shows "hash_limits (rs @ [(u, c)])"
proof -
  note r = record_sizes [OF assms(3)] and l = index_list_limits [OF assms(2)]
  have small: "a < 2 ^ 63" if "(of_nat a :: lzma_vli) \<le> LZMA_VLI_MAX" "a < 2 ^ 64" for a
    using that by (simp add: word_le_nat_alt unat_of_nat)
  have "blocks_total (rs @ [(u, c)]) < 2 ^ 64" "data_total (rs @ [(u, c)]) < 2 ^ 64"
    using assms(2) r by (auto simp: hash_limits_def totals_append)
  then have "blocks_total (rs @ [(u, c)]) < 2 ^ 63" "data_total (rs @ [(u, c)]) < 2 ^ 63"
    using small assms(1,4,5) by (auto simp: info_of_def)
  moreover have "length (record_bytes (rs @ [(u, c)])) \<le> 2 ^ 34 + 18" using l(2) r(3) by (simp add: totals_append)
  then have "length (index_bytes (rs @ [(u, c)])) \<le> 2 ^ 34"
    using index_size_bytes [OF assms(1)] assms(6) by (simp add: word_le_nat_alt)
  ultimately show ?thesis by (simp add: hash_limits_def)
qed

lemma appended_hash:
  assumes "appended index_hash mem rs ih" "(case index_hash of None \<Rightarrow> mem | Some ih \<Rightarrow> Some ih) = Some base"
    "check_ok (ii_check (ih_blocks base))" "check_ok (ii_check (ih_records base))"
  shows "ih_sequence ih = IH_BLOCK \<and> ih_pos ih = 0 \<and> ih_crc32 ih = 0
     \<and> info_of (ii_check (ih_blocks base)) rs (ih_blocks ih) \<and> info_of (ii_check (ih_records base)) [] (ih_records ih) \<and> hash_limits rs"
  using assms(1)
proof induction
  case (Init ih)
  then have "ih = base\<lparr>ih_sequence := IH_BLOCK, ih_blocks := info_reset (ih_blocks base), ih_records := info_reset (ih_records base),
      ih_unpadded_size := 0, ih_uncompressed_size := 0, ih_pos := 0, ih_crc32 := 0\<rparr>"
    using assms(2) by (simp add: lzma_index_hash_init_def)
  moreover have "hash_limits []" by (simp add: hash_limits_def totals_defs length_index_bytes vli_bytes_small)
  ultimately show ?case using info_reset_of assms(3,4) by simp
next
  case (Append rs ih u c ih')
  let ?b = "hash_append (ih_blocks ih) u c"
  have v: "valid_record (u, c)" and ih': "ih' = ih\<lparr>ih_blocks := ?b\<rparr>"
    and l: "ii_blocks_size ?b \<le> LZMA_VLI_MAX" "ii_uncompressed_size ?b \<le> LZMA_VLI_MAX"
      "index_size (ii_count ?b) (ii_index_list_size ?b) \<le> LZMA_BACKWARD_SIZE_MAX"
    using Append(2) by (auto simp: lzma_index_hash_append_def Let_def not_less not_le split: if_splits)
  have info: "info_of (ii_check (ih_blocks base)) (rs @ [(u, c)]) ?b" by (rule info_append) (use Append.IH assms(3) v in auto)
  then show ?case using Append.IH append_limits [OF info _ v l] ih' by simp
qed

text \<open>
  C39: the Index is accepted exactly when it matches the Blocks. For a hash to which the sizes of the Blocks
  \<open>bs\<close> have been appended, \<open>lzma_index_hash_decode\<close> on a buffer ends with \<open>LZMA_STREAM_END\<close> after the bytes from
  \<open>p\<close> to \<open>q\<close> if and only if these bytes are the Index, with its padding and CRC32, of some list of valid Records
  that has as many Records as there are Blocks, the same totals, and the same SHA-256 of all the sizes. The
  size \<open>lzma_index_hash_size\<close> that the Stream Footer is compared to is the length of that Index.
\<close>

theorem index_hash_exact:
  assumes "appended index_hash mem bs ih" "(case index_hash of None \<Rightarrow> mem | Some ih \<Rightarrow> Some ih) = Some base"
    "check_ok (ii_check (ih_blocks base))" "check_ok (ii_check (ih_records base))" "p < n" "n \<le> length inp" "p \<le> q"
  shows "((\<exists>ih'. lzma_index_hash_decode addr ih inp p n = (LZMA_STREAM_END, ih', q)) \<longleftrightarrow>
      q \<le> n \<and> (\<exists>rs. list_all valid_record rs \<and> same_summary bs rs \<and> segment p q inp = index_bytes rs))
    \<and> length (index_bytes bs) = unat (lzma_index_hash_size ih)"
proof -
  note h = appended_hash [OF assms(1-4)]
  have "(\<exists>ih'. lzma_index_hash_decode addr ih inp p n = (LZMA_STREAM_END, ih', q)) \<longleftrightarrow> accepts addr p inp n ih p q"
    using assms(5) by (simp add: lzma_index_hash_decode_def accepts_def)
  moreover have lim: "in_limits bs" "length (record_bytes bs) < 2 ^ 34" using index_list_limits h by auto
  have "length bs < 2 ^ 63" using record_count [of bs] lim(2) by simp
  have "accepts addr p inp n ih p q \<longleftrightarrow>
      q \<le> n \<and> (\<exists>rs. list_all valid_record rs \<and> same_summary bs rs \<and> segment p q inp = index_bytes rs)"
    by (rule accepts_fresh [OF _ _ _ _ _ assms(3,4) lim(1) _ assms(6,7)]) (use h \<open>length bs < 2 ^ 63\<close> in simp_all)
  moreover have "unat (lzma_index_hash_size ih) = length (index_bytes bs)"
    unfolding lzma_index_hash_size_def using index_size_bytes [of "ii_check (ih_blocks base)" bs "ih_blocks ih"] h lim(2) by simp
  ultimately show ?thesis by simp
qed

definition example_check :: lzma_check_state where
  "example_check = \<lparr>check_buffer = replicate 64 0, crc32_state = 0, crc64_state = 0, sha256_state = [], sha256_size = 0\<rparr>"
definition example_info :: lzma_index_hash_info where
  "example_info = \<lparr>ii_blocks_size = 9, ii_uncompressed_size = 9, ii_count = 9, ii_index_list_size = 9, ii_check = example_check\<rparr>"
definition example_hash :: lzma_index_hash where
  "example_hash = \<lparr>ih_sequence = IH_CRC32, ih_blocks = example_info, ih_records = example_info, ih_remaining = 9, ih_unpadded_size = 9,
     ih_uncompressed_size = 9, ih_pos = 9, ih_crc32 = 9\<rparr>"

lemma example_appended: "\<exists>ih. appended (Some example_hash) None [(20, 100)] ih"
proof -
  define ih0 where "ih0 = the (lzma_index_hash_init (Some example_hash) None)"
  have init: "appended (Some example_hash) None [] ih0"
    by (rule appended.Init) (simp add: ih0_def lzma_index_hash_init_def)
  define ih1 where "ih1 = snd (lzma_index_hash_append ih0 20 100)"
  have "lzma_index_hash_append ih0 20 100 = (LZMA_OK, ih1)"
    by (simp add: ih0_def ih1_def lzma_index_hash_init_def lzma_index_hash_append_def Let_def example_hash_def example_info_def
        info_reset_def hash_append_def index_size_def index_stream_size_def index_size_unpadded_def vli_ceil4_def vli_size_bytes vli_bytes_small)
  then show ?thesis using appended.Append [OF init] by auto
qed

text \<open>One Block and its Index, with a byte after it.\<close>

theorem index_hash_exact_witness:
  "\<exists>ih. appended (Some example_hash) None [(20, 100)] ih
     \<and> (\<exists>ih'. lzma_index_hash_decode 0 ih (index_bytes [(20, 100)] @ [7]) 0 9 = (LZMA_STREAM_END, ih', 8))"
proof -
  obtain ih where ih: "appended (Some example_hash) None [(20, 100)] ih" using example_appended by blast
  have len: "length (index_bytes [(20, 100)]) = 8" by (simp add: length_index_bytes record_bytes_def vli_bytes_small)
  then have seg: "segment 0 8 (index_bytes [(20, 100)] @ [7]) = index_bytes [(20, 100)]" by (simp add: segment_def)
  have "list_all valid_record [(20, 100)] \<and> same_summary [(20, 100)] [(20, 100)]" by (simp add: same_summary_def)
  then have "\<exists>ih'. lzma_index_hash_decode 0 ih (index_bytes [(20, 100)] @ [7]) 0 9 = (LZMA_STREAM_END, ih', 8)"
    using index_hash_exact [OF ih, of example_hash 0 9 "index_bytes [(20, 100)] @ [7]" 8 0] seg len
    by (simp add: example_hash_def example_info_def example_check_def) (rule exI [of _ "[(20, 100)]"], simp)
  then show ?thesis using ih by blast
qed

end
