(* ===== verification/Lz_Dict.thy ===== *)
theory Lz_Dict
  imports Coder
begin

text \<open>
  The dictionary of the LZ decoders (\<open>lz/lz_decoder.h\<close>): a circular buffer of the bytes decoded last.
  It refines the history of all bytes decoded since the last reset: a byte is appended, a string of the
  history is repeated, and \<open>dict_get\<close> looks back at most as far as the buffer reaches.
\<close>

section \<open>Data and operations\<close>

record lzma_dict =
  dict_buf :: "u8 list"
  dict_pos :: nat
  dict_full :: nat
  dict_limit :: nat
  dict_length :: nat
  need_reset :: bool

text \<open>The index is computed in \<open>size_t\<close>, and a read outside of the buffer is a crash.\<close>

definition dict_get :: "lzma_dict \<Rightarrow> u32 \<Rightarrow> u8 res" where
  "dict_get dict distance =
     (let i = nat ((int (dict_pos dict) - int (unat distance) - 1
                    + (if unat distance < dict_pos dict then 0 else int (dict_length dict))) mod 2 ^ 64)
      in if i < length (dict_buf dict) then Ret (dict_buf dict ! i) else Crash)"

definition dict_is_empty :: "lzma_dict \<Rightarrow> bool" where
  "dict_is_empty dict \<longleftrightarrow> dict_full dict = 0"

definition dict_is_distance_valid :: "lzma_dict \<Rightarrow> nat \<Rightarrow> bool" where
  "dict_is_distance_valid dict distance \<longleftrightarrow> dict_full dict > distance"

text \<open>The byte-by-byte loop of \<open>dict_repeat\<close>, for source and target that overlap.\<close>

fun repeat_bytes :: "nat \<Rightarrow> u32 \<Rightarrow> lzma_dict \<Rightarrow> lzma_dict res" where
  "repeat_bytes 0 distance dict = Ret dict"
| "repeat_bytes (Suc left) distance dict =
     bindR (dict_get dict distance) (\<lambda>b.
       repeat_bytes left distance
         (dict\<lparr>dict_buf := (dict_buf dict)[dict_pos dict := b], dict_pos := dict_pos dict + 1\<rparr>))"

text \<open>\<open>memcpy\<close> or \<open>memmove\<close> of \<open>n\<close> bytes at \<open>src\<close> to the write position, which moves behind them.\<close>

definition dict_copy :: "nat \<Rightarrow> nat \<Rightarrow> lzma_dict \<Rightarrow> lzma_dict" where
  "dict_copy src n dict =
     dict\<lparr>dict_buf := write_at (dict_pos dict) (segment src (src + n) (dict_buf dict)) (dict_buf dict),
          dict_pos := dict_pos dict + n\<rparr>"

text \<open>\<open>copy_pos\<close> and \<open>copy_size\<close> are 32-bit numbers. The result is the return value, the dictionary and \<open>*len\<close>.\<close>

definition dict_repeat :: "lzma_dict \<Rightarrow> u32 \<Rightarrow> u32 \<Rightarrow> (bool \<times> lzma_dict \<times> u32) res" where
  "dict_repeat dict distance len =
     (let dict_avail = dict_limit dict - dict_pos dict;
          left = min dict_avail (unat len);
          len = len - of_nat left
      in bindR
          (if unat distance < left then repeat_bytes left distance dict
           else if unat distance < dict_pos dict
           then Ret (dict_copy (dict_pos dict - unat distance - 1) left dict)
           else
             let copy_pos = (of_nat (dict_pos dict) - distance - 1 + of_nat (dict_length dict) :: u32);
                 copy_size = (of_nat (dict_length dict) - copy_pos :: u32)
             in if unat copy_size < left
                then Ret (dict_copy 0 (left - unat copy_size) (dict_copy (unat copy_pos) (unat copy_size) dict))
                else Ret (dict_copy (unat copy_pos) left dict))
          (\<lambda>dict. Ret (len \<noteq> 0,
             (if dict_full dict < dict_pos dict then dict\<lparr>dict_full := dict_pos dict\<rparr> else dict), len)))"

definition dict_put :: "lzma_dict \<Rightarrow> u8 \<Rightarrow> bool \<times> lzma_dict" where
  "dict_put dict byte =
     (if dict_pos dict = dict_limit dict then (True, dict)
      else
        let dict = dict\<lparr>dict_buf := (dict_buf dict)[dict_pos dict := byte], dict_pos := dict_pos dict + 1\<rparr>
        in (False, if dict_pos dict > dict_full dict then dict\<lparr>dict_full := dict_pos dict\<rparr> else dict))"

text \<open>The dictionary, \<open>*in_pos\<close> and \<open>*left\<close>.\<close>

definition dict_write :: "lzma_dict \<Rightarrow> u8 list \<Rightarrow> nat \<Rightarrow> nat \<Rightarrow> nat \<Rightarrow> lzma_dict \<times> nat \<times> nat" where
  "dict_write dict inp in_pos in_size left =
     (let in_size = (if in_size - in_pos > left then in_pos + left else in_size);
          (in_pos', buf, pos) =
            lzma_bufcpy (take in_size inp) in_pos (take (dict_limit dict) (dict_buf dict)) (dict_pos dict);
          dict = dict\<lparr>dict_buf := buf @ drop (dict_limit dict) (dict_buf dict), dict_pos := pos\<rparr>
      in (if dict_pos dict > dict_full dict then dict\<lparr>dict_full := dict_pos dict\<rparr> else dict,
          in_pos', left - (in_pos' - in_pos)))"

definition dict_reset :: "lzma_dict \<Rightarrow> lzma_dict" where
  "dict_reset dict = dict\<lparr>need_reset := True\<rparr>"

section \<open>The history\<close>

text \<open>
  \<open>hist_buf h buf pos size\<close>: the buffer holds the last \<open>size\<close> bytes of the history \<open>h\<close>, byte \<open>j\<close> of \<open>h\<close> at
  index \<open>j mod size\<close>, and the next byte goes to \<open>pos\<close>, or to the start of the buffer when \<open>pos\<close> is its end.
  Right after a reset the byte before the start is zero.
\<close>

definition hist_buf :: "u8 list \<Rightarrow> u8 list \<Rightarrow> nat \<Rightarrow> nat \<Rightarrow> bool" where
  "hist_buf h buf pos len \<longleftrightarrow> length buf = len \<and> 0 < len \<and> len \<le> 2 ^ 32 \<and> pos \<le> len
     \<and> pos mod len = length h mod len \<and> (length h < len \<longrightarrow> pos = length h)
     \<and> (\<forall>j < length h. length h \<le> j + len \<longrightarrow> buf ! (j mod len) = h ! j)
     \<and> (h = [] \<longrightarrow> buf ! (len - 1) = 0)"

definition dict_rel :: "u8 list \<Rightarrow> lzma_dict \<Rightarrow> bool" where
  "dict_rel h dict \<longleftrightarrow> hist_buf h (dict_buf dict) (dict_pos dict) (dict_length dict)
     \<and> dict_full dict = min (length h) (dict_length dict)"

text \<open>The abstract operations: the byte \<open>distance\<close> before the last one, and repeating from there.\<close>

definition hist_get :: "u8 list \<Rightarrow> nat \<Rightarrow> u8" where
  "hist_get h distance = (if h = [] then 0 else h ! (length h - Suc distance))"

fun hist_repeat :: "nat \<Rightarrow> nat \<Rightarrow> u8 list \<Rightarrow> u8 list" where
  "hist_repeat 0 distance h = h"
| "hist_repeat (Suc n) distance h = hist_repeat n distance (h @ [hist_get h distance])"

text \<open>Where the byte at a distance is.\<close>

lemma hist_index:
  fixes pos L i n :: nat
  assumes "pos mod n = L mod n" "pos \<le> n" "0 < i" "i \<le> n" "i \<le> L"
  shows "(L - i) mod n = (if i \<le> pos then pos - i else pos + n - i)"
proof -
  have "\<exists>q. L = q * n + pos"
  proof (cases "pos = n")
    case True
    then have "L mod n = 0" using assms(1) by simp
    then obtain k where "L = n * k" by (metis mod_0_imp_dvd dvdE)
    moreover have "k \<noteq> 0" using assms \<open>L = n * k\<close> by (intro notI) simp
    ultimately show ?thesis using True by (intro exI [of _ "k - 1"]) (cases k, simp_all add: algebra_simps)
  next
    case False
    then have "L mod n = pos" using assms by simp
    then show ?thesis by (metis div_mult_mod_eq)
  qed
  then obtain q where q: "L = q * n + pos" by blast
  show ?thesis
  proof (cases "i \<le> pos")
    case True
    then have "L - i = (pos - i) + q * n" using q by simp
    then have "(L - i) mod n = (pos - i) mod n" by (simp only: mod_mult_self1)
    moreover have "pos - i < n" using assms by simp
    ultimately show ?thesis using True by simp
  next
    case False
    then have "q \<noteq> 0" using q assms by (intro notI) simp
    then have "L - i = (pos + n - i) + (q - 1) * n" using q False assms by (cases q) simp_all
    then have "(L - i) mod n = (pos + n - i) mod n" by (simp only: mod_mult_self1)
    moreover have "pos + n - i < n" using False assms by simp
    ultimately show ?thesis using False by simp
  qed
qed

lemma hist_mod_neq:
  fixes j L n :: nat
  assumes "j < L" "L < j + n"
  shows "j mod n \<noteq> L mod n"
proof
  assume "j mod n = L mod n"
  then have "n dvd L - j" by (metis mod_eq_dvd_iff_nat assms(1) less_imp_le)
  then have "n \<le> L - j" using assms(1) by (intro dvd_imp_le) auto
  then show False using assms by simp
qed

lemma hist_buf_put:
  assumes "hist_buf h buf pos n" "pos < n"
  shows "hist_buf (h @ [b]) (buf[pos := b]) (pos + 1) n"
proof -
  have p: "pos = length h mod n" using assms by (auto simp: hist_buf_def)
  have m: "(pos + 1) mod n = (length h + 1) mod n" using assms by (metis hist_buf_def mod_add_cong)
  have "buf[pos := b] ! (j mod n) = (h @ [b]) ! j" if j: "j < length (h @ [b])" "length (h @ [b]) \<le> j + n" for j
  proof (cases "j = length h")
    case True
    then show ?thesis using assms p by (simp add: hist_buf_def)
  next
    case False
    then have "j < length h" "length h < j + n" using j by auto
    then have "j mod n \<noteq> pos" "buf ! (j mod n) = h ! j"
      using hist_mod_neq [of j "length h" n] p assms(1) by (auto simp: hist_buf_def)
    then show ?thesis using \<open>j < length h\<close> by (simp add: nth_append)
  qed
  then show ?thesis using assms m unfolding hist_buf_def by auto
qed

lemma hist_buf_write:
  "hist_buf h buf pos n \<Longrightarrow> pos + length bs \<le> n \<Longrightarrow> hist_buf (h @ bs) (write_at pos bs buf) (pos + length bs) n"
proof (induction bs arbitrary: h buf pos)
  case (Cons b bs)
  have "hist_buf (h @ [b]) (buf[pos := b]) (pos + 1) n" using Cons.prems by (intro hist_buf_put) auto
  then have "hist_buf ((h @ [b]) @ bs) (write_at (pos + 1) bs (buf[pos := b])) (pos + 1 + length bs) n"
    using Cons.prems by (intro Cons.IH) auto
  moreover have "length buf = n" using Cons.prems(1) by (simp add: hist_buf_def)
  ultimately show ?case using write_at_Cons [of pos b bs buf] Cons.prems by (simp add: add.commute add.left_commute)
qed simp

lemma dict_get_hist:
  assumes "hist_buf h (dict_buf d) (dict_pos d) (dict_length d)"
    "unat distance < length h \<or> h = [] \<and> distance = 0" "unat distance < dict_length d"
  shows "dict_get d distance = Ret (hist_get h (unat distance))"
proof -
  let ?k = "unat distance" and ?n = "dict_length d" and ?p = "dict_pos d"
  define i where "i = (if ?k < ?p then ?p - Suc ?k else ?p + ?n - Suc ?k)"
  have b: "?p \<le> ?n" "?n \<le> 2 ^ 32" "length (dict_buf d) = ?n" using assms(1) by (auto simp: hist_buf_def)
  have "int ?p - int ?k - 1 + (if ?k < ?p then 0 else int ?n) = int i"
    using assms(3) by (auto simp: i_def)
  moreover have "i < 2 ^ 64" using b assms(3) by (auto simp: i_def)
  ultimately have i: "nat ((int ?p - int ?k - 1 + (if ?k < ?p then 0 else int ?n)) mod 2 ^ 64) = i" by simp
  have "dict_buf d ! i = hist_get h ?k"
  proof (cases "h = []")
    case True
    then show ?thesis using assms by (auto simp: hist_get_def i_def hist_buf_def)
  next
    case False
    then have k: "?k < length h" using assms(2) by auto
    have m: "?p mod ?n = length h mod ?n" using assms(1) by (auto simp: hist_buf_def)
    have "(length h - Suc ?k) mod ?n = i"
      using hist_index [OF m b(1), of "Suc ?k"] k assms(3) by (simp add: i_def)
    moreover have "length h - Suc ?k < length h" "length h \<le> length h - Suc ?k + ?n" using k assms(3) by auto
    ultimately show ?thesis using assms(1) False by (auto simp: hist_buf_def hist_get_def)
  qed
  moreover have "i < ?n" using b(1) assms(3) by (auto simp: i_def)
  ultimately show ?thesis using i b by (simp add: dict_get_def)
qed


section \<open>Repeating\<close>

lemma length_hist_repeat [simp]: "length (hist_repeat n distance h) = length h + n"
  by (induction n distance h rule: hist_repeat.induct) auto

lemma hist_repeat_add: "hist_repeat (m + n) distance h = hist_repeat n distance (hist_repeat m distance h)"
  by (induction m distance h rule: hist_repeat.induct) auto

lemma segment_Cons: "i < length xs \<Longrightarrow> xs ! i # segment (Suc i) (Suc i + n) xs = segment i (i + Suc n) xs"
  by (simp add: segment_def Cons_nth_drop_Suc [symmetric])

lemma segment_append1: "j \<le> length xs \<Longrightarrow> segment i j (xs @ ys) = segment i j xs"
  by (simp add: segment_def)

lemma hist_repeat_segment:
  "distance < length h \<Longrightarrow> n \<le> Suc distance \<Longrightarrow>
   hist_repeat n distance h = h @ segment (length h - Suc distance) (length h - Suc distance + n) h"
proof (induction n distance h rule: hist_repeat.induct)
  case (2 n distance h)
  let ?s = "length h - Suc distance" and ?b = "hist_get h distance"
  have b: "?b = h ! ?s" using "2.prems"(1) by (auto simp: hist_get_def)
  have "length (h @ [?b]) - Suc distance = Suc ?s" using "2.prems"(1) by simp
  then have "hist_repeat (Suc n) distance h = (h @ [?b]) @ segment (Suc ?s) (Suc ?s + n) (h @ [?b])"
    using "2.IH" "2.prems" by simp
  also have "\<dots> = h @ h ! ?s # segment (Suc ?s) (Suc ?s + n) h"
    using b "2.prems" by (simp add: segment_append1)
  also have "\<dots> = h @ segment ?s (?s + Suc n) h" using "2.prems" by (subst segment_Cons) auto
  finally show ?case .
qed simp

lemma hist_segment:
  assumes "hist_buf h buf pos n" "j + k \<le> length h" "length h \<le> j + n" "j mod n + k \<le> n"
  shows "segment (j mod n) (j mod n + k) buf = segment j (j + k) h"
proof (rule nth_equalityI)
  have n: "length buf = n" "0 < n" using assms(1) by (auto simp: hist_buf_def)
  then show "length (segment (j mod n) (j mod n + k) buf) = length (segment j (j + k) h)" using assms by simp
  fix i assume "i < length (segment (j mod n) (j mod n + k) buf)"
  then have i: "i < k" using n assms by simp
  then have "(j + i) mod n = j mod n + i" using assms(4) by (metis add_less_cancel_left less_le_trans mod_add_left_eq mod_less)
  moreover have "buf ! ((j + i) mod n) = h ! (j + i)" using assms i by (auto simp: hist_buf_def)
  ultimately show "segment (j mod n) (j mod n + k) buf ! i = segment j (j + k) h ! i"
    using i n assms by (simp add: segment_def add.commute)
qed

lemma dict_copy_hist:
  assumes "hist_buf h (dict_buf d) (dict_pos d) n" "distance < length h" "distance < n" "k \<le> Suc distance"
    "dict_pos d + k \<le> n" "src = (length h - Suc distance) mod n" "src + k \<le> n"
  shows "hist_buf (hist_repeat k distance h) (dict_buf (dict_copy src k d)) (dict_pos d + k) n"
proof -
  have "segment src (src + k) (dict_buf d) = segment (length h - Suc distance) (length h - Suc distance + k) h"
    unfolding assms(6) by (rule hist_segment [OF assms(1)]) (use assms in auto)
  moreover have "length (segment (length h - Suc distance) (length h - Suc distance + k) h) = k"
    using assms(2,4) by simp
  ultimately show ?thesis
    using hist_buf_write [OF assms(1), of "segment src (src + k) (dict_buf d)"] assms(2,4,5)
    by (simp add: dict_copy_def hist_repeat_segment)
qed

lemma repeat_bytes_hist:
  assumes "hist_buf h (dict_buf d) (dict_pos d) (dict_length d)" "unat distance < length h" "unat distance < dict_length d"
    "dict_pos d + n \<le> dict_length d"
  shows "\<exists>buf. repeat_bytes n distance d = Ret (d\<lparr>dict_buf := buf, dict_pos := dict_pos d + n\<rparr>)
     \<and> hist_buf (hist_repeat n (unat distance) h) buf (dict_pos d + n) (dict_length d)"
  using assms
proof (induction n arbitrary: h d)
  case 0
  then show ?case by (intro exI [of _ "dict_buf d"]) simp
next
  case (Suc n)
  let ?b = "hist_get h (unat distance)"
  let ?d = "d\<lparr>dict_buf := (dict_buf d)[dict_pos d := ?b], dict_pos := dict_pos d + 1\<rparr>"
  have "hist_buf (h @ [?b]) (dict_buf ?d) (dict_pos ?d) (dict_length ?d)"
    using hist_buf_put [OF Suc.prems(1), of ?b] Suc.prems(4) by simp
  then obtain buf where "repeat_bytes n distance ?d = Ret (?d\<lparr>dict_buf := buf, dict_pos := dict_pos ?d + n\<rparr>)"
    "hist_buf (hist_repeat n (unat distance) (h @ [?b])) buf (dict_pos ?d + n) (dict_length ?d)"
    using Suc.IH [of "h @ [?b]" ?d] Suc.prems by auto
  then show ?case using dict_get_hist [OF Suc.prems(1)] Suc.prems by (intro exI [of _ buf]) simp
qed


lemma dict_copy_fields [simp]:
  "dict_pos (dict_copy s k d) = dict_pos d + k" "dict_length (dict_copy s k d) = dict_length d"
  "dict_limit (dict_copy s k d) = dict_limit d" "dict_full (dict_copy s k d) = dict_full d"
  "need_reset (dict_copy s k d) = need_reset d"
  by (simp_all add: dict_copy_def)

lemma dict_copy_0 [simp]: "dict_copy s 0 d = d"
  by (simp add: dict_copy_def)

text \<open>The two copies of \<open>dict_repeat\<close> when the source wraps around the end of the buffer.\<close>

lemma wrapped_copy:
  assumes h: "hist_buf h (dict_buf d) (dict_pos d) (dict_length d)" and "unat distance < length h"
    "unat distance < dict_length d" "left \<le> unat distance" "\<not> unat distance < dict_pos d"
    "dict_pos d + left \<le> dict_length d"
    and "copy_pos = (of_nat (dict_pos d) - distance - 1 + of_nat (dict_length d) :: u32)"
      "copy_size = (of_nat (dict_length d) - copy_pos :: u32)"
  shows "hist_buf (hist_repeat left (unat distance) h)
       (dict_buf (if unat copy_size < left
          then dict_copy 0 (left - unat copy_size) (dict_copy (unat copy_pos) (unat copy_size) d)
          else dict_copy (unat copy_pos) left d)) (dict_pos d + left) (dict_length d)"
proof -
  let ?n = "dict_length d" and ?p = "dict_pos d" and ?k = "unat distance"
  define c where "c = ?p + ?n - Suc ?k"
  have n: "?p \<le> ?n" "?n \<le> 2 ^ 32" "?p mod ?n = length h mod ?n" using h by (auto simp: hist_buf_def)
  have c: "c < ?n" "c + Suc ?k = ?p + ?n" using assms(3,5) by (auto simp: c_def)
  have "copy_pos = of_nat (c + Suc ?k) - of_nat (Suc ?k)" unfolding c(2) by (simp add: assms(7))
  then have "copy_pos = of_nat c" by simp
  then have cp: "unat copy_pos = c" using c n by (simp add: unat_of_nat)
  have src: "c = (length h - Suc ?k) mod ?n"
    using hist_index [OF n(3,1), of "Suc ?k"] assms(2,3,5) by (simp add: c_def)
  have "copy_size = of_nat (?n - c)" using \<open>copy_pos = of_nat c\<close> c by (simp add: assms(8) of_nat_diff)
  then have cs: "unat copy_size = (?n - c) mod 2 ^ 32" by (simp add: unat_of_nat)
  show ?thesis
  proof (cases "c + left \<le> ?n")
    case True
    have one: "hist_buf (hist_repeat left ?k h) (dict_buf (dict_copy c left d)) (?p + left) ?n"
      by (rule dict_copy_hist [OF h assms(2,3) _ assms(6) src True]) (use assms(4) in simp)
    show ?thesis
    proof (cases "?n - c < 2 ^ 32")
      case True
      then have "\<not> unat copy_size < left" using cs \<open>c + left \<le> ?n\<close> by simp
      then show ?thesis using one cp by simp
    next
      case False
      then have "?n - c = 2 ^ 32" using n(2) by simp
      then have "c = 0" "unat copy_size = 0" using n(2) cs by simp_all
      then show ?thesis using one cp by (cases "left = 0") simp_all
    qed
  next
    case False
    define m where "m = ?n - c"
    have "m < 2 ^ 32" using False assms(4) unsigned_less [of distance, where 'a = nat] by (simp add: m_def)
    then have m: "unat copy_size = m" "m < left" "c + m = ?n" "0 < m" using cs False c by (simp_all add: m_def)
    let ?d = "dict_copy c m d"
    have h': "hist_buf (hist_repeat m ?k h) (dict_buf ?d) (dict_pos ?d) ?n"
      using dict_copy_hist [OF h assms(2,3) _ _ src, of m] m assms(4,6) by simp
    have "0 = (length (hist_repeat m ?k h) - Suc ?k) mod ?n"
    proof -
      have "length (hist_repeat m ?k h) - Suc ?k = (length h - Suc ?k) + m" using assms(2) by simp
      then have "(length (hist_repeat m ?k h) - Suc ?k) mod ?n = (c + m) mod ?n"
        using src by (metis mod_add_left_eq)
      then show ?thesis using m(3) by simp
    qed
    then have "hist_buf (hist_repeat (left - m) ?k (hist_repeat m ?k h)) (dict_buf (dict_copy 0 (left - m) ?d))
        (dict_pos ?d + (left - m)) ?n"
      using assms(2-6) m n(1) by (intro dict_copy_hist [OF h']) auto
    then show ?thesis using m cp hist_repeat_add [of m "left - m" ?k h] by simp
  qed
qed

text \<open>What \<open>dict_repeat\<close> does to the history: it repeats as many bytes as the limit allows.\<close>

lemma dict_repeat_hist:
  assumes r: "dict_rel h d" and "dict_pos d \<le> dict_limit d" "dict_limit d \<le> dict_length d"
    "dict_is_distance_valid d (unat distance)"
    and left: "left = min (dict_limit d - dict_pos d) (unat len)"
  shows "\<exists>d'. dict_repeat d distance len = Ret (left < unat len, d', len - of_nat left)
     \<and> dict_rel (hist_repeat left (unat distance) h) d' \<and> dict_pos d' = dict_pos d + left
     \<and> dict_limit d' = dict_limit d \<and> dict_length d' = dict_length d \<and> need_reset d' = need_reset d"
proof -
  let ?k = "unat distance" and ?n = "dict_length d" and ?p = "dict_pos d"
  have h: "hist_buf h (dict_buf d) ?p ?n" and full: "dict_full d = min (length h) ?n" using r by (auto simp: dict_rel_def)
  have k: "?k < length h" "?k < ?n" using assms(4) full by (auto simp: dict_is_distance_valid_def)
  have fit: "?p + left \<le> ?n" using assms(2,3) left by simp
  have keep: "dict_rel (hist_repeat left ?k h)
        (if dict_full d' < dict_pos d' then d'\<lparr>dict_full := dict_pos d'\<rparr> else d')"
    if "hist_buf (hist_repeat left ?k h) (dict_buf d') (?p + left) ?n" "dict_pos d' = ?p + left" "dict_length d' = ?n"
      "dict_full d' = dict_full d" for d'
  proof -
    have "length h < ?n \<Longrightarrow> ?p = length h" using h by (simp add: hist_buf_def)
    then show ?thesis
      using that full fit by (cases "length h < ?n") (auto simp: dict_rel_def)
  qed
  have len: "len - of_nat left \<noteq> 0 \<longleftrightarrow> left < unat len"
  proof -
    have "len = of_nat (unat len)" by simp
    then have "len - of_nat left = of_nat (unat len - left)" using left by (metis min.cobounded2 of_nat_diff)
    moreover have "unat len - left < 2 ^ 32" using unsigned_less [of len, where 'a = nat] by simp
    ultimately have "unat (len - of_nat left) = unat len - left" by (simp add: unat_of_nat)
    then show ?thesis by (metis diff_is_0_eq not_le unat_eq_zero)
  qed
  define d1 where "d1 = (if ?k < ?p then dict_copy (?p - ?k - 1) left d
     else let copy_pos = (of_nat ?p - distance - 1 + of_nat ?n :: u32); copy_size = (of_nat ?n - copy_pos :: u32)
       in if unat copy_size < left then dict_copy 0 (left - unat copy_size) (dict_copy (unat copy_pos) (unat copy_size) d)
          else dict_copy (unat copy_pos) left d)"
  show ?thesis
  proof (cases "?k < left")
    case True
    obtain buf where b: "repeat_bytes left distance d = Ret (d\<lparr>dict_buf := buf, dict_pos := ?p + left\<rparr>)"
      "hist_buf (hist_repeat left ?k h) buf (?p + left) ?n" using repeat_bytes_hist [OF h k fit] by blast
    then show ?thesis using True left len keep [of "d\<lparr>dict_buf := buf, dict_pos := ?p + left\<rparr>"]
      by (auto simp: dict_repeat_def Let_def)
  next
    case False
    have "hist_buf (hist_repeat left ?k h) (dict_buf d1) (?p + left) ?n"
    proof (cases "?k < ?p")
      case True
      have m: "?p mod ?n = length h mod ?n" "?p \<le> ?n" using h by (auto simp: hist_buf_def)
      have "?p - ?k - 1 = (length h - Suc ?k) mod ?n" using hist_index [OF m, of "Suc ?k"] k True by simp
      then show ?thesis
        using dict_copy_hist [OF h k(1,2) _ fit, of "?p - ?k - 1"] False True m(2) by (simp add: d1_def)
    next
      case False
      then show ?thesis
        using wrapped_copy [OF h k _ _ fit refl refl] \<open>\<not> ?k < left\<close> by (simp add: d1_def Let_def)
    qed
    moreover have "dict_pos d1 = ?p + left" "dict_length d1 = ?n" "dict_full d1 = dict_full d"
      "dict_limit d1 = dict_limit d" "need_reset d1 = need_reset d"
      by (auto simp: d1_def Let_def)
    moreover have "dict_repeat d distance len = Ret (len - of_nat left \<noteq> 0,
        (if dict_full d1 < dict_pos d1 then d1\<lparr>dict_full := dict_pos d1\<rparr> else d1), len - of_nat left)"
    proof -
      have "(if ?k < ?p then Ret (dict_copy (?p - ?k - 1) left d)
          else if unat (of_nat ?n - (of_nat ?p - distance - 1 + of_nat ?n :: u32)) < left
            then Ret (dict_copy 0 (left - unat (of_nat ?n - (of_nat ?p - distance - 1 + of_nat ?n :: u32)))
              (dict_copy (unat (of_nat ?p - distance - 1 + of_nat ?n :: u32))
                (unat (of_nat ?n - (of_nat ?p - distance - 1 + of_nat ?n :: u32))) d))
            else Ret (dict_copy (unat (of_nat ?p - distance - 1 + of_nat ?n :: u32)) left d)) = Ret d1"
        unfolding d1_def Let_def by presburger
      then show ?thesis
        unfolding dict_repeat_def Let_def left [symmetric] if_not_P [OF False] by (simp only: bindR.simps)
    qed
    ultimately show ?thesis using keep [of d1] len by auto
  qed
qed

lemma dict_put_hist:
  assumes r: "dict_rel h d" and "dict_pos d \<le> dict_limit d" "dict_limit d \<le> dict_length d"
  shows "dict_pos d = dict_limit d \<Longrightarrow> dict_put d b = (True, d)"
    "dict_pos d < dict_limit d \<Longrightarrow> \<exists>d'. dict_put d b = (False, d') \<and> dict_rel (h @ [b]) d' \<and> dict_pos d' = dict_pos d + 1
       \<and> dict_limit d' = dict_limit d \<and> dict_length d' = dict_length d \<and> need_reset d' = need_reset d"
proof -
  show "dict_pos d = dict_limit d \<Longrightarrow> dict_put d b = (True, d)" by (simp add: dict_put_def)
  assume l: "dict_pos d < dict_limit d"
  have "hist_buf (h @ [b]) ((dict_buf d)[dict_pos d := b]) (dict_pos d + 1) (dict_length d)"
    using r l assms(3) by (intro hist_buf_put) (auto simp: dict_rel_def)
  moreover have "length h < dict_length d \<Longrightarrow> dict_pos d = length h" using r by (simp add: dict_rel_def hist_buf_def)
  ultimately show "\<exists>d'. dict_put d b = (False, d') \<and> dict_rel (h @ [b]) d' \<and> dict_pos d' = dict_pos d + 1
       \<and> dict_limit d' = dict_limit d \<and> dict_length d' = dict_length d \<and> need_reset d' = need_reset d"
    using r l assms(3) by (auto simp: dict_put_def Let_def dict_rel_def min_def)
qed


lemma write_at_front: "p + length bs \<le> length xs \<Longrightarrow> write_at p bs (xs @ ys) = write_at p bs xs @ ys"
  by (simp add: write_at_def)

lemma dict_write_hist:
  assumes r: "dict_rel h d" and "dict_pos d \<le> dict_limit d" "dict_limit d \<le> dict_length d"
    "in_pos \<le> in_size" "in_size \<le> length inp"
    and n: "n = min (min (in_size - in_pos) left) (dict_limit d - dict_pos d)"
  shows "\<exists>d'. dict_write d inp in_pos in_size left = (d', in_pos + n, left - n)
     \<and> dict_rel (h @ segment in_pos (in_pos + n) inp) d' \<and> dict_pos d' = dict_pos d + n
     \<and> dict_limit d' = dict_limit d \<and> dict_length d' = dict_length d \<and> need_reset d' = need_reset d"
proof -
  let ?p = "dict_pos d" and ?l = "dict_limit d" and ?b = "dict_buf d"
  define size where "size = (if in_size - in_pos > left then in_pos + left else in_size)"
  have h: "hist_buf h ?b ?p (dict_length d)" and full: "dict_full d = min (length h) (dict_length d)"
    using r by (auto simp: dict_rel_def)
  then have len: "length ?b = dict_length d" by (simp add: hist_buf_def)
  have size: "in_pos \<le> size" "size \<le> length inp" "n = min (size - in_pos) (?l - ?p)"
    using assms(4,5) n by (auto simp: size_def)
  define bs where "bs = segment in_pos (in_pos + n) inp"
  have bs: "length bs = n" using size by (simp add: bs_def)
  have c: "lzma_bufcpy (take size inp) in_pos (take ?l ?b) ?p = (in_pos + n, write_at ?p bs (take ?l ?b), ?p + n)"
  proof -
    have "take n (drop in_pos (take size inp)) = bs"
      using size by (simp add: bs_def segment_def drop_take)
    moreover have "n = min (length (take size inp) - in_pos) (length (take ?l ?b) - ?p)"
      using size len assms(3) by simp
    ultimately show ?thesis unfolding lzma_bufcpy_def Let_def by metis
  qed
  have w: "write_at ?p bs (take ?l ?b) @ drop ?l ?b = write_at ?p bs ?b"
  proof -
    have "?p + length bs \<le> length (take ?l ?b)" using bs size assms(2,3) len by simp
    then have "write_at ?p bs (take ?l ?b @ drop ?l ?b) = write_at ?p bs (take ?l ?b) @ drop ?l ?b"
      by (simp only: write_at_front)
    then show ?thesis by simp
  qed
  have fit: "?p + n \<le> dict_length d" using size assms(2,3) by simp
  define d1 where "d1 = d\<lparr>dict_buf := write_at ?p bs ?b, dict_pos := ?p + n\<rparr>"
  have "dict_write d inp in_pos in_size left =
      ((if dict_pos d1 > dict_full d1 then d1\<lparr>dict_full := dict_pos d1\<rparr> else d1), in_pos + n, left - n)"
    by (simp add: dict_write_def Let_def size_def [symmetric] c w d1_def)
  moreover have "hist_buf (h @ bs) (write_at ?p bs ?b) (?p + n) (dict_length d)"
    using hist_buf_write [OF h, of bs] bs fit by simp
  moreover have "length h < dict_length d \<Longrightarrow> ?p = length h" using h by (simp add: hist_buf_def)
  ultimately show ?thesis using full bs fit
    by (cases "length h < dict_length d") (auto simp: dict_rel_def d1_def bs_def [symmetric])
qed


section \<open>Properties\<close>

text \<open>
  C35: the circular dictionary refines the history of the bytes decoded since the last reset. Seen
  through \<open>dict_rel\<close>, \<open>dict_is_empty\<close> and \<open>dict_is_distance_valid\<close> ask how long the history is,
  \<open>dict_get\<close> reads it from the end, \<open>dict_put\<close> appends a byte, \<open>dict_repeat\<close> repeats a string of it byte
  by byte on each of its three paths (overlapping, straight, wrapped around the end of the buffer), and
  \<open>dict_write\<close> appends input; each stops at the write limit and says what is left.
\<close>

theorem dict_refines_history:
  assumes "dict_rel h d" "dict_pos d \<le> dict_limit d" "dict_limit d \<le> dict_length d"
  shows "(dict_is_empty d \<longleftrightarrow> h = [])
    \<and> (\<forall>k. dict_is_distance_valid d k \<longleftrightarrow> k < min (length h) (dict_length d))
    \<and> dict_get d 0 = Ret (hist_get h 0)
    \<and> (\<forall>b. dict_put d b = (True, d) \<and> dict_pos d = dict_limit d
         \<or> (\<exists>d'. dict_put d b = (False, d') \<and> dict_rel (h @ [b]) d' \<and> dict_pos d' = dict_pos d + 1))
    \<and> (\<forall>distance len. dict_is_distance_valid d (unat distance) \<longrightarrow>
         dict_get d distance = Ret (hist_get h (unat distance))
         \<and> (\<exists>n d'. n = min (dict_limit d - dict_pos d) (unat len)
             \<and> dict_repeat d distance len = Ret (n < unat len, d', len - of_nat n)
             \<and> dict_rel (hist_repeat n (unat distance) h) d' \<and> dict_pos d' = dict_pos d + n))
    \<and> (\<forall>inp in_pos in_size left. in_pos \<le> in_size \<and> in_size \<le> length inp \<longrightarrow>
         (\<exists>n d'. n = min (min (in_size - in_pos) left) (dict_limit d - dict_pos d)
             \<and> dict_write d inp in_pos in_size left = (d', in_pos + n, left - n)
             \<and> dict_rel (h @ segment in_pos (in_pos + n) inp) d' \<and> dict_pos d' = dict_pos d + n))"
proof -
  have h: "hist_buf h (dict_buf d) (dict_pos d) (dict_length d)" and full: "dict_full d = min (length h) (dict_length d)"
    using assms(1) by (auto simp: dict_rel_def)
  then have n: "0 < dict_length d" by (simp add: hist_buf_def)
  have get: "dict_get d distance = Ret (hist_get h (unat distance))" if "dict_is_distance_valid d (unat distance)" for distance
    using that full by (intro dict_get_hist [OF h]) (auto simp: dict_is_distance_valid_def)
  have "dict_get d 0 = Ret (hist_get h 0)"
    using dict_get_hist [OF h, of 0] n by (cases "h = []") auto
  moreover have "dict_put d b = (True, d) \<and> dict_pos d = dict_limit d
      \<or> (\<exists>d'. dict_put d b = (False, d') \<and> dict_rel (h @ [b]) d' \<and> dict_pos d' = dict_pos d + 1)" for b
    using dict_put_hist [OF assms, of b] assms(2) by (cases "dict_pos d = dict_limit d") auto
  moreover have "dict_is_empty d \<longleftrightarrow> h = []" "dict_is_distance_valid d k \<longleftrightarrow> k < min (length h) (dict_length d)" for k
    using full n by (auto simp: dict_is_empty_def dict_is_distance_valid_def min_def split: if_splits)
  moreover have "\<exists>m d'. m = min (dict_limit d - dict_pos d) (unat len)
      \<and> dict_repeat d distance len = Ret (m < unat len, d', len - of_nat m)
      \<and> dict_rel (hist_repeat m (unat distance) h) d' \<and> dict_pos d' = dict_pos d + m"
    if "dict_is_distance_valid d (unat distance)" for distance len
    using dict_repeat_hist [OF assms that refl] by blast
  moreover have "\<exists>m d'. m = min (min (in_size - in_pos) left) (dict_limit d - dict_pos d)
      \<and> dict_write d inp in_pos in_size left = (d', in_pos + m, left - m)
      \<and> dict_rel (h @ segment in_pos (in_pos + m) inp) d' \<and> dict_pos d' = dict_pos d + m"
    if "in_pos \<le> in_size \<and> in_size \<le> length inp" for inp in_pos in_size left
  proof -
    let ?m = "min (min (in_size - in_pos) left) (dict_limit d - dict_pos d)"
    have "in_pos \<le> in_size" "in_size \<le> length inp" using that by blast+
    from dict_write_hist [OF assms this refl, of left] obtain d' where
      "dict_write d inp in_pos in_size left = (d', in_pos + ?m, left - ?m)"
      "dict_rel (h @ segment in_pos (in_pos + ?m) inp) d'" "dict_pos d' = dict_pos d + ?m" by (elim exE conjE)
    note c = conjI [OF refl conjI [OF this(1) conjI [OF this(2,3)]]]
    show ?thesis by (rule exI, rule exI, rule c)
  qed
  ultimately show ?thesis using get by (intro conjI allI impI) simp_all
qed

definition example_dict :: lzma_dict where
  "example_dict = \<lparr>dict_buf = [5, 6, 3, 4], dict_pos = 2, dict_full = 4, dict_limit = 4, dict_length = 4, need_reset = False\<rparr>"

lemma example_dict_rel: "dict_rel [1, 2, 3, 4, 5, 6] example_dict"
  by (simp add: dict_rel_def hist_buf_def example_dict_def All_less_Suc)

theorem dict_refines_history_witness:
  "dict_get example_dict 2 = Ret 4 \<and> (\<exists>d'. dict_repeat example_dict 3 2 = Ret (False, d', 0) \<and> dict_rel [1, 2, 3, 4, 5, 6, 3, 4] d')"
proof -
  have w: "dict_pos example_dict \<le> dict_limit example_dict" "dict_limit example_dict \<le> dict_length example_dict"
    "dict_is_distance_valid example_dict (unat (2 :: u32))" "dict_is_distance_valid example_dict (unat (3 :: u32))"
    by (simp_all add: example_dict_def dict_is_distance_valid_def)
  note r = dict_refines_history [OF example_dict_rel w(1,2)]
  have "dict_get example_dict 2 = Ret (hist_get [1, 2, 3, 4, 5, 6] (unat (2 :: u32)))" using r w(3) by blast
  moreover obtain n d' where "n = min (dict_limit example_dict - dict_pos example_dict) (unat (2 :: u32))"
    "dict_repeat example_dict 3 2 = Ret (n < unat (2 :: u32), d', 2 - of_nat n)"
    "dict_rel (hist_repeat n (unat (3 :: u32)) [1, 2, 3, 4, 5, 6]) d'" using r w(4) by blast
  moreover from this have "n = 2" by (simp add: example_dict_def)
  moreover have "hist_repeat 2 3 [1, 2, 3, 4, 5, 6] = [1, 2, 3, 4, 5, 6, 3, 4]" by (simp add: numeral_2_eq_2 hist_get_def)
  ultimately show ?thesis by (simp add: hist_get_def)
qed

end
