(* ===== verification/Range_Decoder.thy ===== *)
theory Range_Decoder
  imports Lzma_Base
begin

text \<open>
  The range decoder of LZMA (\<open>rangecoder/range_common.h\<close>, \<open>range_decoder.h\<close>). The macros are functions
  of the local copy \<open>rc\<close> and of the input position; jumping to \<open>out\<close> for want of input is the result
  \<open>None\<close> of \<open>rc_normalize\<close>.
\<close>

type_synonym probability = "16 word"

abbreviation (input) RC_SHIFT_BITS :: nat where "RC_SHIFT_BITS \<equiv> 8"
abbreviation (input) RC_TOP_VALUE :: u32 where "RC_TOP_VALUE \<equiv> 0x1000000"
abbreviation (input) RC_BIT_MODEL_TOTAL_BITS :: nat where "RC_BIT_MODEL_TOTAL_BITS \<equiv> 11"
abbreviation (input) RC_BIT_MODEL_TOTAL :: u32 where "RC_BIT_MODEL_TOTAL \<equiv> 2048"
abbreviation (input) RC_MOVE_BITS :: nat where "RC_MOVE_BITS \<equiv> 5"

text \<open>The value that \<open>bit_reset\<close> stores.\<close>

definition bit_reset :: probability where
  "bit_reset = ucast (drop_bit 1 RC_BIT_MODEL_TOTAL)"

record lzma_range_decoder =
  rc_range :: u32
  rc_code :: u32
  init_bytes_left :: u32

definition rc_reset :: "lzma_range_decoder \<Rightarrow> lzma_range_decoder" where
  "rc_reset rc = rc\<lparr>rc_range := 0xFFFFFFFF, rc_code := 0, init_bytes_left := 5\<rparr>"

definition rc_is_finished :: "lzma_range_decoder \<Rightarrow> bool" where
  "rc_is_finished rc \<longleftrightarrow> rc_code rc = 0"

text \<open>\<open>LZMA_STREAM_END\<close> when all five bytes have been read.\<close>

function rc_read_init :: "lzma_range_decoder \<Rightarrow> u8 list \<Rightarrow> nat \<Rightarrow> nat \<Rightarrow> lzma_ret \<times> lzma_range_decoder \<times> nat" where
  "rc_read_init rc inp in_pos in_size =
     (if init_bytes_left rc > 0 then
        if in_pos = in_size then (LZMA_OK, rc, in_pos)
        else if init_bytes_left rc = 5 \<and> inp ! in_pos \<noteq> 0x00 then (LZMA_DATA_ERROR, rc, in_pos)
        else rc_read_init
               (rc\<lparr>rc_code := push_bit 8 (rc_code rc) OR ucast (inp ! in_pos), init_bytes_left := init_bytes_left rc - 1\<rparr>)
               inp (in_pos + 1) in_size
      else (LZMA_STREAM_END, rc, in_pos))"
  by pat_completeness auto
termination
proof (relation "measure (\<lambda>(rc, _). unat (init_bytes_left rc))")
  fix rc :: lzma_range_decoder and inp :: "u8 list" and in_pos in_size :: nat
  assume "init_bytes_left rc > 0"
  then have "unat (init_bytes_left rc - 1) < unat (init_bytes_left rc)"
    by (metis measure_unat word_gt_0)
  then show "((rc\<lparr>rc_code := push_bit 8 (rc_code rc) OR ucast (inp ! in_pos), init_bytes_left := init_bytes_left rc - 1\<rparr>,
      inp, in_pos + 1, in_size), rc, inp, in_pos, in_size) \<in> measure (\<lambda>(rc, _). unat (init_bytes_left rc))" by simp
qed simp

declare rc_read_init.simps [simp del]

definition rc_normalize :: "lzma_range_decoder \<Rightarrow> u8 list \<Rightarrow> nat \<Rightarrow> nat \<Rightarrow> (lzma_range_decoder \<times> nat) option" where
  "rc_normalize rc inp in_pos in_size =
     (if rc_range rc < RC_TOP_VALUE then
        if in_pos = in_size then None
        else Some (rc\<lparr>rc_range := push_bit RC_SHIFT_BITS (rc_range rc),
                      rc_code := push_bit RC_SHIFT_BITS (rc_code rc) OR ucast (inp ! in_pos)\<rparr>, in_pos + 1)
      else Some (rc, in_pos))"

text \<open>\<open>rc_if_0\<close>, \<open>rc_update_0\<close> and \<open>rc_update_1\<close> after the normalization: the bit, the decoder and the probability.\<close>

definition rc_bound :: "lzma_range_decoder \<Rightarrow> probability \<Rightarrow> u32" where
  "rc_bound rc prob = drop_bit RC_BIT_MODEL_TOTAL_BITS (rc_range rc) * ucast prob"

definition prob_update_0 :: "probability \<Rightarrow> probability" where
  "prob_update_0 prob = prob + ucast (drop_bit RC_MOVE_BITS (RC_BIT_MODEL_TOTAL - ucast prob))"

definition prob_update_1 :: "probability \<Rightarrow> probability" where
  "prob_update_1 prob = prob - drop_bit RC_MOVE_BITS prob"

definition rc_update_0 :: "lzma_range_decoder \<Rightarrow> u32 \<Rightarrow> lzma_range_decoder" where
  "rc_update_0 rc bound = rc\<lparr>rc_range := bound\<rparr>"

definition rc_update_1 :: "lzma_range_decoder \<Rightarrow> u32 \<Rightarrow> lzma_range_decoder" where
  "rc_update_1 rc bound = rc\<lparr>rc_range := rc_range rc - bound, rc_code := rc_code rc - bound\<rparr>"

definition rc_decode_bit :: "lzma_range_decoder \<Rightarrow> probability \<Rightarrow> bool \<times> lzma_range_decoder \<times> probability" where
  "rc_decode_bit rc prob =
     (let bound = rc_bound rc prob
      in if rc_code rc < bound then (False, rc_update_0 rc bound, prob_update_0 prob)
         else (True, rc_update_1 rc bound, prob_update_1 prob))"

text \<open>\<open>rc_direct\<close> after the normalization: the decoder and the new value of \<open>dest\<close>.\<close>

definition rc_direct :: "lzma_range_decoder \<Rightarrow> u32 \<Rightarrow> lzma_range_decoder \<times> u32" where
  "rc_direct rc dest =
     (let rc = rc\<lparr>rc_range := drop_bit 1 (rc_range rc)\<rparr>;
          rc = rc\<lparr>rc_code := rc_code rc - rc_range rc\<rparr>;
          bound = 0 - drop_bit 31 (rc_code rc);
          rc = rc\<lparr>rc_code := rc_code rc + (rc_range rc AND bound)\<rparr>
      in (rc, push_bit 1 dest + (bound + 1)))"

end
