(* ===== verification/Lzma_Decoder.thy ===== *)
theory Lzma_Decoder
  imports Lz_Dict Range_Decoder Lzma_Props Vli
begin

text \<open>
  The LZMA decoder (\<open>lzma/lzma_decoder.c\<close>, \<open>lzma/lzma_common.h\<close>), in the variant without \<open>HAVE_SMALL\<close>.
  \<open>lzma_decode\<close> is a coroutine: it stops wherever the range decoder runs out of input or the dictionary is
  full, and goes on there at the next call. Here each \<open>case\<close> label of its \<open>switch\<close> is a program point and
  \<open>decoder_step\<close> runs from one of them to the next.
\<close>

section \<open>Types\<close>

text \<open>The symbol history, \<open>lzma_lzma_state\<close>.\<close>

abbreviation (input) STATE_LIT_LIT :: nat where "STATE_LIT_LIT \<equiv> 0"
abbreviation (input) STATE_MATCH_LIT_LIT :: nat where "STATE_MATCH_LIT_LIT \<equiv> 1"
abbreviation (input) STATE_REP_LIT_LIT :: nat where "STATE_REP_LIT_LIT \<equiv> 2"
abbreviation (input) STATE_SHORTREP_LIT_LIT :: nat where "STATE_SHORTREP_LIT_LIT \<equiv> 3"
abbreviation (input) STATE_MATCH_LIT :: nat where "STATE_MATCH_LIT \<equiv> 4"
abbreviation (input) STATE_REP_LIT :: nat where "STATE_REP_LIT \<equiv> 5"
abbreviation (input) STATE_SHORTREP_LIT :: nat where "STATE_SHORTREP_LIT \<equiv> 6"
abbreviation (input) STATE_LIT_MATCH :: nat where "STATE_LIT_MATCH \<equiv> 7"
abbreviation (input) STATE_LIT_LONGREP :: nat where "STATE_LIT_LONGREP \<equiv> 8"
abbreviation (input) STATE_LIT_SHORTREP :: nat where "STATE_LIT_SHORTREP \<equiv> 9"
abbreviation (input) STATE_NONLIT_MATCH :: nat where "STATE_NONLIT_MATCH \<equiv> 10"
abbreviation (input) STATE_NONLIT_REP :: nat where "STATE_NONLIT_REP \<equiv> 11"
abbreviation (input) LIT_STATES :: nat where "LIT_STATES \<equiv> 7"

definition next_state :: "nat list" where
  "next_state = [STATE_LIT_LIT, STATE_LIT_LIT, STATE_LIT_LIT, STATE_LIT_LIT, STATE_MATCH_LIT_LIT, STATE_REP_LIT_LIT,
     STATE_SHORTREP_LIT_LIT, STATE_MATCH_LIT, STATE_REP_LIT, STATE_SHORTREP_LIT, STATE_MATCH_LIT, STATE_REP_LIT]"

definition is_literal_state :: "nat \<Rightarrow> bool" where "is_literal_state state \<longleftrightarrow> state < LIT_STATES"
definition update_match :: "nat \<Rightarrow> nat" where
  "update_match state = (if state < LIT_STATES then STATE_LIT_MATCH else STATE_NONLIT_MATCH)"
definition update_long_rep :: "nat \<Rightarrow> nat" where
  "update_long_rep state = (if state < LIT_STATES then STATE_LIT_LONGREP else STATE_NONLIT_REP)"
definition update_short_rep :: "nat \<Rightarrow> nat" where
  "update_short_rep state = (if state < LIT_STATES then STATE_LIT_SHORTREP else STATE_NONLIT_REP)"

text \<open>
  The addresses of the probabilities: the arrays of \<open>lzma_lzma1_decoder\<close> and of the two length decoders in
  it (\<open>match_len_decoder\<close> is \<open>False\<close>, \<open>rep_len_decoder\<close> is \<open>True\<close>) with their indices.
\<close>

datatype prob_ref =
    Literal nat nat | Is_match nat nat | Is_rep nat | Is_rep0 nat | Is_rep1 nat | Is_rep2 nat | Is_rep0_long nat nat
  | Dist_slot nat nat | Pos_special int | Pos_align nat
  | Len_choice bool | Len_choice2 bool | Len_low bool nat nat | Len_mid bool nat nat | Len_high bool nat

text \<open>What \<open>probs\<close> points to: one of the trees. \<open>probs[symbol]\<close> is \<open>tree_ref\<close>.\<close>

datatype prob_tree = Null_tree | Literal_tree nat | Dist_slot_tree nat | Special_tree int

fun tree_ref :: "prob_tree \<Rightarrow> u32 \<Rightarrow> prob_ref option" where
  "tree_ref Null_tree i = None"
| "tree_ref (Literal_tree j) i = Some (Literal j (unat i))"
| "tree_ref (Dist_slot_tree j) i = Some (Dist_slot j (unat i))"
| "tree_ref (Special_tree j) i = Some (Pos_special (j + int (unat i)))"

datatype len_seq = CHOICE | LOW nat | CHOICE2 | MID nat | HIGH nat

datatype lzma_seq =
    SEQ_NORMALIZE | SEQ_IS_MATCH | SEQ_LITERAL nat | SEQ_LITERAL_MATCHED nat | SEQ_LITERAL_WRITE
  | SEQ_IS_REP | SEQ_MATCH_LEN len_seq | SEQ_DIST_SLOT nat | SEQ_DIST_MODEL | SEQ_DIRECT | SEQ_ALIGN nat | SEQ_EOPM
  | SEQ_IS_REP0 | SEQ_SHORTREP | SEQ_IS_REP0_LONG | SEQ_IS_REP1 | SEQ_IS_REP2 | SEQ_REP_LEN len_seq | SEQ_COPY

text \<open>
  \<open>lzma_lzma1_decoder\<close>. The probabilities are a map from their addresses; those that are not in it have not
  been initialised, and reading one of them is a crash like reading outside of an array.
\<close>

record lzma_lzma1_decoder =
  probabilities :: "prob_ref \<Rightarrow> probability option"
  ld_rc :: lzma_range_decoder
  ld_state :: nat
  rep0 :: u32
  rep1 :: u32
  rep2 :: u32
  rep3 :: u32
  pos_mask :: u32
  literal_context_bits :: u32
  literal_pos_mask :: u32
  uncompressed_left :: lzma_vli
  ld_sequence :: lzma_seq
  ld_probs :: prob_tree
  ld_symbol :: u32
  ld_limit :: u32
  ld_offset :: u32
  ld_len :: u32

section \<open>Reset\<close>

text \<open>
  The addresses that \<open>lzma_decoder_reset\<close> initialises, loop by loop; \<open>tree_size\<close> of a bittree is two to
  the number of its levels.
\<close>

fun reset_ref :: "u32 \<Rightarrow> u32 \<Rightarrow> u32 \<Rightarrow> prob_ref \<Rightarrow> bool" where
  "reset_ref lc lp pb (Literal i j) \<longleftrightarrow> i < 2 ^ unat (lc + lp) \<and> j < 0x300"
| "reset_ref lc lp pb (Is_match i j) \<longleftrightarrow> i < 12 \<and> j \<le> 2 ^ unat pb - 1"
| "reset_ref lc lp pb (Is_rep0_long i j) \<longleftrightarrow> i < 12 \<and> j \<le> 2 ^ unat pb - 1"
| "reset_ref lc lp pb (Is_rep i) \<longleftrightarrow> i < 12"
| "reset_ref lc lp pb (Is_rep0 i) \<longleftrightarrow> i < 12"
| "reset_ref lc lp pb (Is_rep1 i) \<longleftrightarrow> i < 12"
| "reset_ref lc lp pb (Is_rep2 i) \<longleftrightarrow> i < 12"
| "reset_ref lc lp pb (Dist_slot i j) \<longleftrightarrow> i < 4 \<and> j < 2 ^ 6"
| "reset_ref lc lp pb (Pos_special i) \<longleftrightarrow> 0 \<le> i \<and> i < 128 - 14"
| "reset_ref lc lp pb (Pos_align i) \<longleftrightarrow> i < 2 ^ 4"
| "reset_ref lc lp pb (Len_choice rep) \<longleftrightarrow> True"
| "reset_ref lc lp pb (Len_choice2 rep) \<longleftrightarrow> True"
| "reset_ref lc lp pb (Len_low rep i j) \<longleftrightarrow> i < 2 ^ unat pb \<and> j < 2 ^ 3"
| "reset_ref lc lp pb (Len_mid rep i j) \<longleftrightarrow> i < 2 ^ unat pb \<and> j < 2 ^ 3"
| "reset_ref lc lp pb (Len_high rep j) \<longleftrightarrow> j < 2 ^ 8"

definition lzma_decoder_reset :: "lzma_lzma1_decoder \<Rightarrow> lzma_options_lzma \<Rightarrow> lzma_lzma1_decoder" where
  "lzma_decoder_reset coder options =
     coder\<lparr>pos_mask := push_bit (unat (opt_pb options)) 1 - 1,
           probabilities := (\<lambda>r. if reset_ref (opt_lc options) (opt_lp options) (opt_pb options) r then Some bit_reset
                                 else probabilities coder r),
           literal_context_bits := opt_lc options,
           literal_pos_mask := push_bit (unat (opt_lp options)) 1 - 1,
           ld_state := STATE_LIT_LIT, rep0 := 0, rep1 := 0, rep2 := 0, rep3 := 0,
           ld_rc := rc_reset (ld_rc coder),
           ld_sequence := SEQ_IS_MATCH, ld_probs := Null_tree, ld_symbol := 0, ld_limit := 0, ld_offset := 0, ld_len := 0\<rparr>"

definition lzma_decoder_uncompressed :: "lzma_lzma1_decoder \<Rightarrow> lzma_vli \<Rightarrow> lzma_lzma1_decoder" where
  "lzma_decoder_uncompressed coder uncompressed_size = coder\<lparr>uncompressed_left := uncompressed_size\<rparr>"

section \<open>The main loop\<close>

text \<open>
  The local variables: those of the coder, the copy of the dictionary, the position in the input, and
  the program point.
\<close>

record decoder_locals = lzma_lzma1_decoder +
  ld_dict :: lzma_dict
  ld_in_pos :: nat
  ld_pc :: lzma_seq

text \<open>A step goes on at a program point or jumps to \<open>out\<close> with a value for \<open>ret\<close>.\<close>

datatype step_result = Go decoder_locals | Out lzma_ret decoder_locals

definition go :: "lzma_seq \<Rightarrow> decoder_locals \<Rightarrow> step_result res" where
  "go seq d = Ret (Go (d\<lparr>ld_pc := seq\<rparr>))"

text \<open>\<open>coder->sequence = seq; goto out;\<close> with \<open>ret\<close> still \<open>LZMA_OK\<close>.\<close>

definition stop_at :: "lzma_seq \<Rightarrow> decoder_locals \<Rightarrow> step_result res" where
  "stop_at seq d = Ret (Out LZMA_OK (d\<lparr>ld_sequence := seq\<rparr>))"

definition normalize_or_stop ::
    "u8 list \<Rightarrow> nat \<Rightarrow> lzma_seq \<Rightarrow> decoder_locals \<Rightarrow> (decoder_locals \<Rightarrow> step_result res) \<Rightarrow> step_result res" where
  "normalize_or_stop inp in_size seq d k =
     (case rc_normalize (ld_rc d) inp (ld_in_pos d) in_size of
        None \<Rightarrow> stop_at seq d
      | Some (rc, in_pos) \<Rightarrow> k (d\<lparr>ld_rc := rc, ld_in_pos := in_pos\<rparr>))"

text \<open>\<open>rc_if_0\<close> with both updates; the bit goes to the continuation.\<close>

definition decode_bit ::
    "u8 list \<Rightarrow> nat \<Rightarrow> lzma_seq \<Rightarrow> prob_ref option \<Rightarrow> decoder_locals \<Rightarrow> (bool \<Rightarrow> decoder_locals \<Rightarrow> step_result res)
     \<Rightarrow> step_result res" where
  "decode_bit inp in_size seq ref d k =
     normalize_or_stop inp in_size seq d (\<lambda>d.
       case ref of
         None \<Rightarrow> Crash
       | Some r \<Rightarrow> (case probabilities d r of
           None \<Rightarrow> Crash
         | Some prob \<Rightarrow>
             let (b, rc, prob) = rc_decode_bit (ld_rc d) prob
             in k b (d\<lparr>ld_rc := rc, probabilities := (probabilities d)(r \<mapsto> prob)\<rparr>)))"

text \<open>\<open>rc_bit\<close>: the bit also goes to \<open>symbol\<close>.\<close>

definition rc_bit ::
    "u8 list \<Rightarrow> nat \<Rightarrow> lzma_seq \<Rightarrow> prob_ref option \<Rightarrow> decoder_locals \<Rightarrow> (bool \<Rightarrow> decoder_locals \<Rightarrow> step_result res)
     \<Rightarrow> step_result res" where
  "rc_bit inp in_size seq ref d k =
     decode_bit inp in_size seq ref d (\<lambda>b d.
       k b (d\<lparr>ld_symbol := (if b then push_bit 1 (ld_symbol d) + 1 else push_bit 1 (ld_symbol d))\<rparr>))"

text \<open>\<open>pos_state\<close>: during a symbol the write position does not change.\<close>

definition pos_state :: "decoder_locals \<Rightarrow> nat" where
  "pos_state d = unat (of_nat (dict_pos (ld_dict d)) AND pos_mask d)"

definition literal_subcoder :: "u32 \<Rightarrow> u32 \<Rightarrow> nat \<Rightarrow> u8 \<Rightarrow> prob_tree" where
  "literal_subcoder lc lp_mask pos prev_byte =
     Literal_tree (unat (push_bit (unat lc) (of_nat pos AND lp_mask)) + drop_bit (8 - unat lc) (unat prev_byte))"

definition get_dist_state :: "u32 \<Rightarrow> nat" where
  "get_dist_state len = (if len < 4 + 2 then unat (len - 2) else 4 - 1)"

text \<open>\<open>len_decode\<close>; \<open>seq\<close> makes its program points, \<open>k\<close> is the code after it.\<close>

definition len_decode ::
    "u8 list \<Rightarrow> nat \<Rightarrow> bool \<Rightarrow> (len_seq \<Rightarrow> lzma_seq) \<Rightarrow> len_seq \<Rightarrow> decoder_locals \<Rightarrow> (decoder_locals \<Rightarrow> step_result res)
     \<Rightarrow> step_result res" where
  "len_decode inp in_size rep seq p d k =
     (case p of
        CHOICE \<Rightarrow> decode_bit inp in_size (seq CHOICE) (Some (Len_choice rep)) d (\<lambda>b d.
          if \<not> b then go (seq (LOW 0)) d else go (seq CHOICE2) d)
      | LOW i \<Rightarrow> rc_bit inp in_size (seq (LOW i)) (Some (Len_low rep (pos_state d) (unat (ld_symbol d)))) d (\<lambda>_ d.
          if i < 2 then go (seq (LOW (i + 1))) d else k (d\<lparr>ld_len := ld_symbol d - 8 + 2\<rparr>))
      | CHOICE2 \<Rightarrow> decode_bit inp in_size (seq CHOICE2) (Some (Len_choice2 rep)) d (\<lambda>b d.
          if \<not> b then go (seq (MID 0)) d else go (seq (HIGH 0)) d)
      | MID i \<Rightarrow> rc_bit inp in_size (seq (MID i)) (Some (Len_mid rep (pos_state d) (unat (ld_symbol d)))) d (\<lambda>_ d.
          if i < 2 then go (seq (MID (i + 1))) d else k (d\<lparr>ld_len := ld_symbol d - 8 + 2 + 8\<rparr>))
      | HIGH i \<Rightarrow> rc_bit inp in_size (seq (HIGH i)) (Some (Len_high rep (unat (ld_symbol d)))) d (\<lambda>_ d.
          if i < 7 then go (seq (HIGH (i + 1))) d else k (d\<lparr>ld_len := ld_symbol d - 256 + 2 + 8 + 8\<rparr>)))"

text \<open>The check of the distance at the end of a match, before the bytes are copied.\<close>

definition validate_distance :: "decoder_locals \<Rightarrow> step_result res" where
  "validate_distance d =
     (if \<not> dict_is_distance_valid (ld_dict d) (unat (rep0 d)) then Ret (Out LZMA_DATA_ERROR d) else go SEQ_COPY d)"

text \<open>\<open>dict_put\<close> on the local copy of the dictionary; it may stop at \<open>seq\<close>.\<close>

definition put_byte :: "lzma_seq \<Rightarrow> u8 \<Rightarrow> decoder_locals \<Rightarrow> step_result res" where
  "put_byte seq byte d =
     (let (full, dict) = dict_put (ld_dict d) byte
      in if full then stop_at seq d else go SEQ_IS_MATCH (d\<lparr>ld_dict := dict\<rparr>))"


text \<open>One step: the code from the program point \<open>ld_pc\<close> to the next one.\<close>

definition decoder_step :: "u8 list \<Rightarrow> nat \<Rightarrow> decoder_locals \<Rightarrow> step_result res" where
  "decoder_step inp in_size d =
     (let no_eopm = uncompressed_left d \<noteq> LZMA_VLI_UNKNOWN;
          rc_if = decode_bit inp in_size;
          bit = rc_bit inp in_size;
          is_match_code = (\<lambda>_ :: unit.
            if no_eopm \<and> dict_pos (ld_dict d) = dict_limit (ld_dict d)
            then normalize_or_stop inp in_size SEQ_NORMALIZE d (stop_at SEQ_IS_MATCH)
            else rc_if SEQ_IS_MATCH (Some (Is_match (ld_state d) (pos_state d))) d (\<lambda>b d.
              if b then go SEQ_IS_REP d
              else bindR (dict_get (ld_dict d) 0) (\<lambda>prev_byte.
                let d = d\<lparr>ld_probs := literal_subcoder (literal_context_bits d) (literal_pos_mask d)
                            (dict_pos (ld_dict d)) prev_byte, ld_symbol := 1\<rparr>
                in if is_literal_state (ld_state d) then go (SEQ_LITERAL 0) d
                   else bindR (dict_get (ld_dict d) (rep0 d)) (\<lambda>match_byte.
                     go (SEQ_LITERAL_MATCHED 0) (d\<lparr>ld_len := push_bit 1 (ucast match_byte), ld_offset := 0x100\<rparr>)))));
          literal_done = (\<lambda>d. go SEQ_LITERAL_WRITE (d\<lparr>ld_state := next_state ! ld_state d\<rparr>));
          align_done = (\<lambda>d.
            if rep0 d = 0xFFFFFFFF then
              if uncompressed_left d \<noteq> LZMA_VLI_UNKNOWN then Ret (Out LZMA_DATA_ERROR d) else go SEQ_EOPM d
            else validate_distance d);
          rep_done = (\<lambda>d. go (SEQ_REP_LEN CHOICE) (d\<lparr>ld_state := update_long_rep (ld_state d), ld_symbol := 1\<rparr>))
      in case ld_pc d of
        SEQ_NORMALIZE \<Rightarrow> is_match_code ()
      | SEQ_IS_MATCH \<Rightarrow> is_match_code ()
      | SEQ_LITERAL i \<Rightarrow> bit (SEQ_LITERAL i) (tree_ref (ld_probs d) (ld_symbol d)) d (\<lambda>_ d.
          if i < 7 then go (SEQ_LITERAL (i + 1)) d else literal_done d)
      | SEQ_LITERAL_MATCHED i \<Rightarrow>
          let match_bit = ld_len d AND ld_offset d;
              subcoder_index = ld_offset d + match_bit + ld_symbol d
          in bit (SEQ_LITERAL_MATCHED i) (tree_ref (ld_probs d) subcoder_index) d (\<lambda>b d.
               let d = d\<lparr>ld_offset := (if b then ld_offset d AND match_bit else ld_offset d AND NOT match_bit)\<rparr>
               in if i < 7 then go (SEQ_LITERAL_MATCHED (i + 1)) (d\<lparr>ld_len := push_bit 1 (ld_len d)\<rparr>)
                  else literal_done d)
      | SEQ_LITERAL_WRITE \<Rightarrow> put_byte SEQ_LITERAL_WRITE (ucast (ld_symbol d)) d
      | SEQ_IS_REP \<Rightarrow> rc_if SEQ_IS_REP (Some (Is_rep (ld_state d))) d (\<lambda>b d.
          if \<not> b then
            go (SEQ_MATCH_LEN CHOICE)
              (d\<lparr>ld_state := update_match (ld_state d), rep3 := rep2 d, rep2 := rep1 d, rep1 := rep0 d, ld_symbol := 1\<rparr>)
          else if \<not> dict_is_distance_valid (ld_dict d) 0 then Ret (Out LZMA_DATA_ERROR d)
          else go SEQ_IS_REP0 d)
      | SEQ_MATCH_LEN p \<Rightarrow> len_decode inp in_size False SEQ_MATCH_LEN p d (\<lambda>d.
          go (SEQ_DIST_SLOT 0) (d\<lparr>ld_probs := Dist_slot_tree (get_dist_state (ld_len d)), ld_symbol := 1\<rparr>))
      | SEQ_DIST_SLOT i \<Rightarrow> bit (SEQ_DIST_SLOT i) (tree_ref (ld_probs d) (ld_symbol d)) d (\<lambda>_ d.
          if i < 5 then go (SEQ_DIST_SLOT (i + 1)) d
          else
            let symbol = ld_symbol d - 64; d = d\<lparr>ld_symbol := symbol\<rparr>
            in if symbol < 4 then validate_distance (d\<lparr>rep0 := symbol\<rparr>)
            else
              let limit = drop_bit 1 symbol - 1; rep = 2 + (symbol AND 1)
              in if symbol < 14 then
                let rep = push_bit (unat limit) rep
                in go SEQ_DIST_MODEL
                     (d\<lparr>ld_limit := limit, rep0 := rep, ld_probs := Special_tree (int (unat rep) - int (unat symbol) - 1),
                        ld_symbol := 1, ld_offset := 0\<rparr>)
              else go SEQ_DIRECT (d\<lparr>ld_limit := limit - 4, rep0 := rep\<rparr>))
      | SEQ_DIST_MODEL \<Rightarrow>
          if ld_limit d \<in> {2, 3, 4, 5} then
            bit SEQ_DIST_MODEL (tree_ref (ld_probs d) (ld_symbol d)) d (\<lambda>b d.
              go SEQ_DIST_MODEL
                (d\<lparr>rep0 := (if b then rep0 d + (if ld_limit d = 5 then 1 else push_bit (unat (ld_offset d)) 1) else rep0 d),
                   ld_offset := ld_offset d + 1, ld_limit := ld_limit d - 1\<rparr>))
          else if ld_limit d = 1 then
            rc_if SEQ_DIST_MODEL (tree_ref (ld_probs d) (ld_symbol d)) d (\<lambda>b d.
              validate_distance (d\<lparr>rep0 := (if b then rep0 d + push_bit (unat (ld_offset d)) 1 else rep0 d)\<rparr>))
          else validate_distance d
      | SEQ_DIRECT \<Rightarrow> normalize_or_stop inp in_size SEQ_DIRECT d (\<lambda>d.
          let (rc, rep) = rc_direct (ld_rc d) (rep0 d); limit = ld_limit d - 1;
              d = d\<lparr>ld_rc := rc, rep0 := rep, ld_limit := limit\<rparr>
          in if limit > 0 then go SEQ_DIRECT d
             else go (SEQ_ALIGN 0) (d\<lparr>rep0 := push_bit 4 (rep0 d), ld_symbol := 1\<rparr>))
      | SEQ_ALIGN i \<Rightarrow>
          if i < 3 then
            bit (SEQ_ALIGN i) (Some (Pos_align (unat (ld_symbol d)))) d (\<lambda>b d.
              go (SEQ_ALIGN (i + 1)) (d\<lparr>rep0 := (if b then rep0 d + push_bit i 1 else rep0 d)\<rparr>))
          else
            rc_if (SEQ_ALIGN i) (Some (Pos_align (unat (ld_symbol d)))) d (\<lambda>b d.
              align_done (d\<lparr>rep0 := (if b then rep0 d + 8 else rep0 d)\<rparr>))
      | SEQ_EOPM \<Rightarrow> normalize_or_stop inp in_size SEQ_EOPM d (\<lambda>d. Ret (Out LZMA_STREAM_END d))
      | SEQ_IS_REP0 \<Rightarrow> rc_if SEQ_IS_REP0 (Some (Is_rep0 (ld_state d))) d (\<lambda>b d.
          if \<not> b then go SEQ_IS_REP0_LONG d else go SEQ_IS_REP1 d)
      | SEQ_IS_REP0_LONG \<Rightarrow> rc_if SEQ_IS_REP0_LONG (Some (Is_rep0_long (ld_state d) (pos_state d))) d (\<lambda>b d.
          if \<not> b then go SEQ_SHORTREP (d\<lparr>ld_state := update_short_rep (ld_state d)\<rparr>) else rep_done d)
      | SEQ_SHORTREP \<Rightarrow> bindR (dict_get (ld_dict d) (rep0 d)) (\<lambda>byte. put_byte SEQ_SHORTREP byte d)
      | SEQ_IS_REP1 \<Rightarrow> rc_if SEQ_IS_REP1 (Some (Is_rep1 (ld_state d))) d (\<lambda>b d.
          if \<not> b then rep_done (d\<lparr>rep1 := rep0 d, rep0 := rep1 d\<rparr>) else go SEQ_IS_REP2 d)
      | SEQ_IS_REP2 \<Rightarrow> rc_if SEQ_IS_REP2 (Some (Is_rep2 (ld_state d))) d (\<lambda>b d.
          if \<not> b then rep_done (d\<lparr>rep2 := rep1 d, rep1 := rep0 d, rep0 := rep2 d\<rparr>)
          else rep_done (d\<lparr>rep3 := rep2 d, rep2 := rep1 d, rep1 := rep0 d, rep0 := rep3 d\<rparr>))
      | SEQ_REP_LEN p \<Rightarrow> len_decode inp in_size True SEQ_REP_LEN p d (go SEQ_COPY)
      | SEQ_COPY \<Rightarrow> bindR (dict_repeat (ld_dict d) (rep0 d) (ld_len d)) (\<lambda>(full, dict, len).
          let d = d\<lparr>ld_dict := dict, ld_len := len\<rparr>
          in if full then stop_at SEQ_COPY d else go SEQ_IS_MATCH d))"

text \<open>The loop has no bound of its own: \<open>None\<close> would be a loop that never reaches \<open>out\<close>.\<close>

partial_function (option) decoder_run :: "u8 list \<Rightarrow> nat \<Rightarrow> decoder_locals \<Rightarrow> (lzma_ret \<times> decoder_locals) res option" where
  "decoder_run inp in_size d =
     (case decoder_step inp in_size d of
        Ret (Go d) \<Rightarrow> decoder_run inp in_size d
      | Ret (Out ret d) \<Rightarrow> Some (Ret (ret, d))
      | Abort \<Rightarrow> Some Abort
      | Hang \<Rightarrow> Some Hang
      | Crash \<Rightarrow> Some Crash)"

section \<open>Entry and exit\<close>

text \<open>The code at \<open>out\<close>: the state goes back to the coder; \<open>dict.limit\<close> is not copied.\<close>

definition decoder_out ::
    "lzma_dict \<Rightarrow> nat \<Rightarrow> lzma_ret \<Rightarrow> decoder_locals \<Rightarrow> lzma_ret \<times> lzma_lzma1_decoder \<times> lzma_dict \<times> nat" where
  "decoder_out dictptr dict_start ret d =
     (let coder = lzma_lzma1_decoder.truncate d;
          dict = dictptr\<lparr>dict_buf := dict_buf (ld_dict d), dict_pos := dict_pos (ld_dict d), dict_full := dict_full (ld_dict d)\<rparr>;
          known = uncompressed_left coder \<noteq> LZMA_VLI_UNKNOWN;
          left = uncompressed_left coder - of_nat (dict_pos (ld_dict d) - dict_start);
          coder = (if known then coder\<lparr>uncompressed_left := left\<rparr> else coder);
          ret = (if known \<and> left = 0 \<and> ret = LZMA_OK \<and> ld_sequence coder \<noteq> SEQ_NORMALIZE
                 then if ld_sequence coder = SEQ_IS_MATCH then LZMA_STREAM_END else LZMA_DATA_ERROR
                 else ret)
      in if ret = LZMA_STREAM_END
         then (if \<not> rc_is_finished (ld_rc coder) then LZMA_DATA_ERROR else ret,
               coder\<lparr>ld_rc := rc_reset (ld_rc coder)\<rparr>, dict, ld_in_pos d)
         else (ret, coder, dict, ld_in_pos d))"

definition limit_dict :: "lzma_vli \<Rightarrow> lzma_dict \<Rightarrow> lzma_dict" where
  "limit_dict uncompressed_size dict =
     (if uncompressed_size \<noteq> LZMA_VLI_UNKNOWN \<and> unat uncompressed_size < dict_limit dict - dict_pos dict
      then dict\<lparr>dict_limit := dict_pos dict + unat uncompressed_size\<rparr> else dict)"

definition lzma_decode ::
    "lzma_lzma1_decoder \<Rightarrow> lzma_dict \<Rightarrow> u8 list \<Rightarrow> nat \<Rightarrow> nat
     \<Rightarrow> (lzma_ret \<times> lzma_lzma1_decoder \<times> lzma_dict \<times> nat) res" where
  "lzma_decode coder dict inp in_pos in_size =
     (let (ret, rc, in_pos) = rc_read_init (ld_rc coder) inp in_pos in_size;
          coder = coder\<lparr>ld_rc := rc\<rparr>
      in if ret \<noteq> LZMA_STREAM_END then Ret (ret, coder, dict, in_pos)
      else
        let d = lzma_lzma1_decoder.extend coder
                  (decoder_locals.fields (limit_dict (uncompressed_left coder) dict) in_pos (ld_sequence coder))
        in case decoder_run inp in_size d of
             None \<Rightarrow> Hang
           | Some r \<Rightarrow> bindR r (\<lambda>(ret, d). Ret (decoder_out dict (dict_pos dict) ret d)))"

end
