(* ===== verification/Lzma_Safe.thy ===== *)
theory Lzma_Safe
  imports Lzma_Decoder
begin

text \<open>
  Safety of the LZMA decoder on arbitrary input: what holds at each program point, that every step keeps
  it, reads no probability outside of the initialised part of the arrays and nothing outside of the
  dictionary, and comes closer to the end of the loop.
\<close>

section \<open>What holds at the program points\<close>

text \<open>The options of the last reset are valid, and the probabilities it initialises are there.\<close>

definition probs_ok :: "'a lzma_lzma1_decoder_scheme \<Rightarrow> bool" where
  "probs_ok d \<longleftrightarrow> (\<exists>lp pb. unat (literal_context_bits d) + unat lp \<le> 4 \<and> unat pb \<le> 4
     \<and> literal_pos_mask d = push_bit (unat lp) 1 - 1 \<and> pos_mask d = push_bit (unat pb) 1 - 1
     \<and> (\<forall>r. reset_ref (literal_context_bits d) lp pb r \<longrightarrow> probabilities d r \<noteq> None))"

text \<open>An old distance is in the dictionary, or zero because there was no match yet.\<close>

definition rep_ok :: "nat \<Rightarrow> u32 \<Rightarrow> bool" where
  "rep_ok full r \<longleftrightarrow> r = 0 \<or> unat r < full"

text \<open>After \<open>i\<close> bits of a bittree the symbol has a leading one and these bits.\<close>

definition tree_pos :: "nat \<Rightarrow> u32 \<Rightarrow> bool" where
  "tree_pos i symbol \<longleftrightarrow> 2 ^ i \<le> unat symbol \<and> unat symbol < 2 ^ (i + 1)"

fun len_inv :: "len_seq \<Rightarrow> u32 \<Rightarrow> bool" where
  "len_inv CHOICE symbol \<longleftrightarrow> symbol = 1"
| "len_inv (LOW i) symbol \<longleftrightarrow> i < 3 \<and> tree_pos i symbol"
| "len_inv CHOICE2 symbol \<longleftrightarrow> symbol = 1"
| "len_inv (MID i) symbol \<longleftrightarrow> i < 3 \<and> tree_pos i symbol"
| "len_inv (HIGH i) symbol \<longleftrightarrow> i < 8 \<and> tree_pos i symbol"

fun literal_tree_ok :: "u32 \<Rightarrow> u32 \<Rightarrow> prob_tree \<Rightarrow> bool" where
  "literal_tree_ok lc lp_mask (Literal_tree j) \<longleftrightarrow> j < 2 ^ unat lc * (unat lp_mask + 1)"
| "literal_tree_ok lc lp_mask t \<longleftrightarrow> False"

fun special_ok :: "prob_tree \<Rightarrow> nat \<Rightarrow> bool" where
  "special_ok (Special_tree base) n \<longleftrightarrow> -1 \<le> base \<and> base + 2 ^ n \<le> 114"
| "special_ok t n \<longleftrightarrow> False"

fun dist_tree_ok :: "prob_tree \<Rightarrow> bool" where
  "dist_tree_ok (Dist_slot_tree j) \<longleftrightarrow> j < 4"
| "dist_tree_ok t \<longleftrightarrow> False"

text \<open>With \<open>full\<close> bytes in the dictionary: before a symbol, and in the middle of one.\<close>

fun pc_inv :: "nat \<Rightarrow> lzma_seq \<Rightarrow> 'a lzma_lzma1_decoder_scheme \<Rightarrow> bool" where
  "pc_inv full SEQ_NORMALIZE d \<longleftrightarrow> rep_ok full (rep0 d) \<and> (7 \<le> ld_state d \<longrightarrow> 0 < full)"
| "pc_inv full SEQ_IS_MATCH d \<longleftrightarrow> rep_ok full (rep0 d) \<and> (7 \<le> ld_state d \<longrightarrow> 0 < full)"
| "pc_inv full (SEQ_LITERAL i) d \<longleftrightarrow> rep_ok full (rep0 d) \<and> i < 8 \<and> tree_pos i (ld_symbol d)
     \<and> literal_tree_ok (literal_context_bits d) (literal_pos_mask d) (ld_probs d)"
| "pc_inv full (SEQ_LITERAL_MATCHED i) d \<longleftrightarrow> rep_ok full (rep0 d) \<and> i < 8 \<and> tree_pos i (ld_symbol d)
     \<and> literal_tree_ok (literal_context_bits d) (literal_pos_mask d) (ld_probs d) \<and> ld_offset d \<in> {0, 0x100}"
| "pc_inv full SEQ_LITERAL_WRITE d \<longleftrightarrow> rep_ok full (rep0 d) \<and> ld_state d < 7"
| "pc_inv full SEQ_IS_REP d \<longleftrightarrow> rep_ok full (rep0 d) \<and> (7 \<le> ld_state d \<longrightarrow> 0 < full)"
| "pc_inv full (SEQ_MATCH_LEN p) d \<longleftrightarrow> len_inv p (ld_symbol d)"
| "pc_inv full (SEQ_DIST_SLOT i) d \<longleftrightarrow> i < 6 \<and> tree_pos i (ld_symbol d) \<and> dist_tree_ok (ld_probs d) \<and> ld_len d \<noteq> 0"
| "pc_inv full SEQ_DIST_MODEL d \<longleftrightarrow> 1 \<le> ld_limit d \<and> unat (ld_offset d) + unat (ld_limit d) \<le> 5
     \<and> tree_pos (unat (ld_offset d)) (ld_symbol d) \<and> special_ok (ld_probs d) (unat (ld_offset d) + unat (ld_limit d))
     \<and> ld_len d \<noteq> 0"
| "pc_inv full SEQ_DIRECT d \<longleftrightarrow> 1 \<le> ld_limit d \<and> ld_limit d \<le> 26 \<and> ld_len d \<noteq> 0"
| "pc_inv full (SEQ_ALIGN i) d \<longleftrightarrow> i < 4 \<and> tree_pos i (ld_symbol d) \<and> ld_len d \<noteq> 0"
| "pc_inv full SEQ_EOPM d \<longleftrightarrow> uncompressed_left d = LZMA_VLI_UNKNOWN"
| "pc_inv full SEQ_IS_REP0 d \<longleftrightarrow> rep_ok full (rep0 d) \<and> 0 < full"
| "pc_inv full SEQ_IS_REP0_LONG d \<longleftrightarrow> rep_ok full (rep0 d) \<and> 0 < full"
| "pc_inv full SEQ_SHORTREP d \<longleftrightarrow> rep_ok full (rep0 d) \<and> 0 < full"
| "pc_inv full SEQ_IS_REP1 d \<longleftrightarrow> rep_ok full (rep0 d) \<and> 0 < full"
| "pc_inv full SEQ_IS_REP2 d \<longleftrightarrow> rep_ok full (rep0 d) \<and> 0 < full"
| "pc_inv full (SEQ_REP_LEN p) d \<longleftrightarrow> rep_ok full (rep0 d) \<and> 0 < full \<and> len_inv p (ld_symbol d)"
| "pc_inv full SEQ_COPY d \<longleftrightarrow> rep_ok full (rep0 d) \<and> 0 < full \<and> ld_len d \<noteq> 0"

definition coder_inv :: "nat \<Rightarrow> 'a lzma_lzma1_decoder_scheme \<Rightarrow> bool" where
  "coder_inv full d \<longleftrightarrow> probs_ok d \<and> ld_state d < 12 \<and> rep_ok full (rep1 d) \<and> rep_ok full (rep2 d) \<and> rep_ok full (rep3 d)"

text \<open>The dictionary with its history, inside its limits.\<close>

definition dict_inv :: "u8 list \<Rightarrow> lzma_dict \<Rightarrow> bool" where
  "dict_inv h d \<longleftrightarrow> dict_rel h d \<and> dict_pos d \<le> dict_limit d \<and> dict_limit d \<le> dict_length d"

section \<open>Where the loop is\<close>

fun len_rank :: "len_seq \<Rightarrow> nat" where
  "len_rank CHOICE = 30"
| "len_rank (LOW i) = 20 - i"
| "len_rank CHOICE2 = 25"
| "len_rank (MID i) = 20 - i"
| "len_rank (HIGH i) = 20 - i"

fun pc_rank :: "lzma_seq \<Rightarrow> u32 \<Rightarrow> nat" where
  "pc_rank SEQ_NORMALIZE limit = 400"
| "pc_rank SEQ_IS_MATCH limit = 400"
| "pc_rank (SEQ_LITERAL i) limit = 30 - i"
| "pc_rank (SEQ_LITERAL_MATCHED i) limit = 30 - i"
| "pc_rank SEQ_LITERAL_WRITE limit = 1"
| "pc_rank SEQ_IS_REP limit = 390"
| "pc_rank (SEQ_MATCH_LEN p) limit = 300 + len_rank p"
| "pc_rank (SEQ_DIST_SLOT i) limit = 200 - i"
| "pc_rank SEQ_DIST_MODEL limit = 150 + unat limit"
| "pc_rank SEQ_DIRECT limit = 100 + unat limit"
| "pc_rank (SEQ_ALIGN i) limit = 50 - i"
| "pc_rank SEQ_EOPM limit = 1"
| "pc_rank SEQ_IS_REP0 limit = 380"
| "pc_rank SEQ_SHORTREP limit = 1"
| "pc_rank SEQ_IS_REP0_LONG limit = 370"
| "pc_rank SEQ_IS_REP1 limit = 360"
| "pc_rank SEQ_IS_REP2 limit = 350"
| "pc_rank (SEQ_REP_LEN p) limit = 300 + len_rank p"
| "pc_rank SEQ_COPY limit = 1"

text \<open>Bytes that may still be written come first, then the rest of the symbol.\<close>

definition loop_measure :: "decoder_locals \<Rightarrow> nat" where
  "loop_measure d = (dict_limit (ld_dict d) - dict_pos (ld_dict d)) * 1000 + pc_rank (ld_pc d) (ld_limit d)"

section \<open>Words\<close>

lemma push_bit_1: "push_bit n (1 :: 'a :: len word) = 2 ^ n"
  by (simp add: push_bit_eq_mult)

lemma tree_pos_next:
  assumes "tree_pos i s" "i < 30"
  shows "tree_pos (Suc i) (push_bit (Suc 0) s)" "tree_pos (Suc i) (push_bit (Suc 0) s + 1)"
proof -
  have "(2 :: nat) ^ (i + 1) \<le> 2 ^ 30" using assms(2) by (intro power_increasing) auto
  then have "unat s < 2 ^ 30" using assms(1) by (simp add: tree_pos_def)
  moreover have "push_bit (Suc 0) s = 2 * s" by (simp add: push_bit_eq_mult)
  ultimately have "unat (push_bit (Suc 0) s) = 2 * unat s" "unat (push_bit (Suc 0) s + 1) = 2 * unat s + 1"
    by (simp_all add: unat_word_ariths)
  then show "tree_pos (Suc i) (push_bit (Suc 0) s)" "tree_pos (Suc i) (push_bit (Suc 0) s + 1)"
    using assms(1) by (auto simp: tree_pos_def)
qed

lemma tree_pos_start [simp]: "tree_pos 0 1"
  by (simp add: tree_pos_def)

lemma tree_pos_less: "tree_pos i s \<Longrightarrow> i < n \<Longrightarrow> unat s < 2 ^ n"
  using power_increasing [of "i + 1" n "2 :: nat"] by (auto simp: tree_pos_def)


section \<open>Safe steps\<close>

text \<open>What no step changes.\<close>

definition keeps :: "decoder_locals \<Rightarrow> decoder_locals \<Rightarrow> bool" where
  "keeps d d' \<longleftrightarrow> uncompressed_left d' = uncompressed_left d \<and> literal_context_bits d' = literal_context_bits d
     \<and> literal_pos_mask d' = literal_pos_mask d \<and> pos_mask d' = pos_mask d
     \<and> dict_limit (ld_dict d') = dict_limit (ld_dict d) \<and> dict_length (ld_dict d') = dict_length (ld_dict d)
     \<and> need_reset (ld_dict d') = need_reset (ld_dict d)"

lemmas keeps_refl [simp] = keeps_def [of d d for d, simplified]

abbreviation full_of :: "decoder_locals \<Rightarrow> nat" where "full_of d \<equiv> dict_full (ld_dict d)"

text \<open>The state of the loop at a program point, with the history \<open>h\<close> and the input of size \<open>n\<close>.\<close>

definition loop_inv :: "u8 list \<Rightarrow> nat \<Rightarrow> lzma_seq \<Rightarrow> decoder_locals \<Rightarrow> bool" where
  "loop_inv h n seq d \<longleftrightarrow> dict_inv h (ld_dict d) \<and> coder_inv (full_of d) d \<and> pc_inv (full_of d) seq d \<and> ld_in_pos d \<le> n"

text \<open>A result that is no crash, continues at a program point where its invariant holds, or stops.\<close>

definition safe_result :: "u8 list \<Rightarrow> nat \<Rightarrow> decoder_locals \<Rightarrow> step_result \<Rightarrow> bool" where
  "safe_result h n d r =
     (case r of
        Go d' \<Rightarrow> (\<exists>h'. loop_inv (h @ h') n (ld_pc d') d' \<and> dict_pos (ld_dict d') = dict_pos (ld_dict d) + length h') \<and> keeps d d' \<and> ld_in_pos d \<le> ld_in_pos d'
          \<and> loop_measure d' < loop_measure d
      | Out ret d' \<Rightarrow> (\<exists>h'. dict_inv (h @ h') (ld_dict d') \<and> dict_pos (ld_dict d') = dict_pos (ld_dict d) + length h' \<and> (ret = LZMA_OK \<longrightarrow> loop_inv (h @ h') n (ld_sequence d') d'))
          \<and> keeps d d' \<and> ld_in_pos d \<le> ld_in_pos d' \<and> ld_in_pos d' \<le> n
          \<and> ret \<in> {LZMA_OK, LZMA_DATA_ERROR, LZMA_STREAM_END}
          \<and> (ret = LZMA_STREAM_END \<longrightarrow> uncompressed_left d' = LZMA_VLI_UNKNOWN)
          \<and> (ret = LZMA_OK \<longrightarrow>
               ld_in_pos d' = n \<or> dict_pos (ld_dict d') = dict_limit (ld_dict d') \<and> ld_sequence d' \<noteq> SEQ_NORMALIZE))"

definition safe :: "u8 list \<Rightarrow> nat \<Rightarrow> decoder_locals \<Rightarrow> step_result res \<Rightarrow> bool" where
  "safe h n d r \<longleftrightarrow> (\<exists>x. r = Ret x \<and> safe_result h n d x)"

text \<open>The invariants do not look at the program point, the old sequence or the range decoder.\<close>

lemma inv_frame [simp]:
  "pc_inv full seq (d\<lparr>ld_pc := p\<rparr>) = pc_inv full seq d" "pc_inv full seq (d\<lparr>ld_sequence := q\<rparr>) = pc_inv full seq d"
  "pc_inv full seq (d\<lparr>ld_rc := rc\<rparr>) = pc_inv full seq d" "pc_inv full seq (d\<lparr>ld_in_pos := i\<rparr>) = pc_inv full seq d"
  "pc_inv full seq (d\<lparr>probabilities := m\<rparr>) = pc_inv full seq d"
  for d :: decoder_locals
  by (cases seq, simp_all)+

lemma coder_inv_frame [simp]:
  "coder_inv full (d\<lparr>ld_pc := p\<rparr>) = coder_inv full d" "coder_inv full (d\<lparr>ld_sequence := q\<rparr>) = coder_inv full d"
  "coder_inv full (d\<lparr>ld_rc := rc\<rparr>) = coder_inv full d" "coder_inv full (d\<lparr>ld_in_pos := i\<rparr>) = coder_inv full d"
  "coder_inv full (d\<lparr>ld_symbol := s\<rparr>) = coder_inv full d" "coder_inv full (d\<lparr>ld_probs := t\<rparr>) = coder_inv full d"
  "coder_inv full (d\<lparr>ld_len := len\<rparr>) = coder_inv full d" "coder_inv full (d\<lparr>ld_limit := l\<rparr>) = coder_inv full d"
  "coder_inv full (d\<lparr>ld_offset := off\<rparr>) = coder_inv full d" "coder_inv full (d\<lparr>rep0 := r\<rparr>) = coder_inv full d"
  "coder_inv full (d\<lparr>ld_dict := dict\<rparr>) = coder_inv full d"
  for d :: decoder_locals
  by (simp_all add: coder_inv_def probs_ok_def)

lemma coder_inv_probabilities:
  "coder_inv full d \<Longrightarrow> dom (probabilities d) \<subseteq> dom m \<Longrightarrow> coder_inv full (d\<lparr>probabilities := m\<rparr>)" for d :: decoder_locals
proof -
  assume d: "coder_inv full d" and m: "dom (probabilities d) \<subseteq> dom m"
  have "m r \<noteq> None" if "probabilities d r \<noteq> None" for r using that m by blast
  then show "coder_inv full (d\<lparr>probabilities := m\<rparr>)" using d unfolding coder_inv_def probs_ok_def by simp blast
qed

lemma coder_inv_state: "coder_inv full d \<Longrightarrow> s < 12 \<Longrightarrow> coder_inv full (d\<lparr>ld_state := s\<rparr>)" for d :: decoder_locals
  by (simp add: coder_inv_def probs_ok_def)

lemma coder_inv_reps:
  "coder_inv full (d\<lparr>rep1 := a\<rparr>) \<longleftrightarrow> coder_inv full (d\<lparr>rep1 := 0\<rparr>) \<and> rep_ok full a"
  "coder_inv full (d\<lparr>rep2 := a\<rparr>) \<longleftrightarrow> coder_inv full (d\<lparr>rep2 := 0\<rparr>) \<and> rep_ok full a"
  "coder_inv full (d\<lparr>rep3 := a\<rparr>) \<longleftrightarrow> coder_inv full (d\<lparr>rep3 := 0\<rparr>) \<and> rep_ok full a" for d :: decoder_locals
  by (auto simp: coder_inv_def probs_ok_def rep_ok_def)

lemma safe_go:
  assumes "loop_inv (h @ h') n seq d'" "keeps d d'" "ld_in_pos d \<le> ld_in_pos d'"
    "loop_measure (d'\<lparr>ld_pc := seq\<rparr>) < loop_measure d" "dict_pos (ld_dict d') = dict_pos (ld_dict d) + length h'"
  shows "safe h n d (go seq d')"
  using assms by (auto simp: safe_def safe_result_def go_def loop_inv_def keeps_def intro!: exI [of _ h'])

lemma safe_stop:
  assumes "loop_inv (h @ h') n seq d'" "keeps d d'" "ld_in_pos d \<le> ld_in_pos d'"
    "dict_pos (ld_dict d') = dict_pos (ld_dict d) + length h'" "ld_in_pos d' = n \<or> dict_pos (ld_dict d') = dict_limit (ld_dict d') \<and> seq \<noteq> SEQ_NORMALIZE"
  shows "safe h n d (stop_at seq d')"
  using assms by (auto simp: safe_def safe_result_def stop_at_def loop_inv_def keeps_def intro!: exI [of _ h'])

lemma safe_error:
  assumes "dict_inv h (ld_dict d')" "keeps d d'" "ld_in_pos d \<le> ld_in_pos d'" "ld_in_pos d' \<le> n"
    "dict_pos (ld_dict d') = dict_pos (ld_dict d)"
  shows "safe h n d (Ret (Out LZMA_DATA_ERROR d'))"
  using assms by (auto simp: safe_def safe_result_def intro!: exI [of _ "[]"])

text \<open>A step that begins with the range decoder: it may stop, and otherwise some of these members change.\<close>

definition after_bit :: "nat \<Rightarrow> decoder_locals \<Rightarrow> decoder_locals \<Rightarrow> bool" where
  "after_bit n d d' \<longleftrightarrow> (\<exists>rc i m. d' = d\<lparr>ld_rc := rc, ld_in_pos := i, probabilities := m\<rparr> \<and> ld_in_pos d \<le> i \<and> i \<le> n
     \<and> dom (probabilities d) \<subseteq> dom m)"

lemma normalize_safe:
  assumes "loop_inv h n seq d" and "\<And>d'. after_bit n d d' \<Longrightarrow> probabilities d' = probabilities d \<Longrightarrow> safe h n d (k d')"
  shows "safe h n d (normalize_or_stop inp n seq d k)"
proof (cases "rc_normalize (ld_rc d) inp (ld_in_pos d) n")
  case None
  then have "ld_in_pos d = n" by (simp add: rc_normalize_def split: if_splits)
  then show ?thesis using None safe_stop [of h "[]" n seq d d] assms(1) by (simp add: normalize_or_stop_def)
next
  case (Some p)
  obtain rc i where p: "p = (rc, i)" by fastforce
  have "ld_in_pos d \<le> i" "i \<le> n"
    using Some assms(1) by (auto simp: rc_normalize_def p loop_inv_def split: if_splits)
  then have "after_bit n d (d\<lparr>ld_rc := rc, ld_in_pos := i\<rparr>)"
    unfolding after_bit_def by (intro exI [of _ rc] exI [of _ i] exI [of _ "probabilities d"]) simp
  then show ?thesis using assms(2) [of "d\<lparr>ld_rc := rc, ld_in_pos := i\<rparr>"] Some p by (simp add: normalize_or_stop_def)
qed

lemma decode_bit_safe:
  assumes "loop_inv h n seq d" "probabilities d r \<noteq> None" "ref = Some r"
    and k: "\<And>b d'. after_bit n d d' \<Longrightarrow> safe h n d (k b d')"
  shows "safe h n d (decode_bit inp n seq ref d k)"
  unfolding decode_bit_def
proof (rule normalize_safe [OF assms(1)])
  fix d' assume d': "after_bit n d d'" "probabilities d' = probabilities d"
  then obtain p where p: "probabilities d' r = Some p" using assms(2) by auto
  obtain b rc q where q: "rc_decode_bit (ld_rc d') p = (b, rc, q)" by (metis prod_cases3)
  have "after_bit n d (d'\<lparr>ld_rc := rc, probabilities := (probabilities d')(r \<mapsto> q)\<rparr>)"
  proof -
    obtain rc' i m where m: "d' = d\<lparr>ld_rc := rc', ld_in_pos := i, probabilities := m\<rparr>" "ld_in_pos d \<le> i" "i \<le> n"
      "dom (probabilities d) \<subseteq> dom m" using d'(1) by (auto simp: after_bit_def)
    then show ?thesis unfolding after_bit_def
      by (intro exI [of _ rc] exI [of _ i] exI [of _ "m(r \<mapsto> q)"]) auto
  qed
  then show "safe h n d (case ref of None \<Rightarrow> Crash | Some r \<Rightarrow> (case probabilities d' r of None \<Rightarrow> Crash
      | Some prob \<Rightarrow> let (b, rc, prob) = rc_decode_bit (ld_rc d') prob
          in k b (d'\<lparr>ld_rc := rc, probabilities := (probabilities d')(r \<mapsto> prob)\<rparr>)))"
    using assms(3) p q k by simp
qed

lemma rc_bit_safe:
  assumes "loop_inv h n seq d" "probabilities d r \<noteq> None" "ref = Some r" "tree_pos i (ld_symbol d)" "i < 30"
    and k: "\<And>b d' s. after_bit n d d' \<Longrightarrow> tree_pos (Suc i) s \<Longrightarrow> safe h n d (k b (d'\<lparr>ld_symbol := s\<rparr>))"
  shows "safe h n d (rc_bit inp n seq ref d k)"
  unfolding rc_bit_def
proof (rule decode_bit_safe [OF assms(1-3)])
  fix b d' assume d': "after_bit n d d'"
  then have "ld_symbol d' = ld_symbol d" by (auto simp: after_bit_def)
  then show "safe h n d (k b (d'\<lparr>ld_symbol := if b then push_bit 1 (ld_symbol d') + 1 else push_bit 1 (ld_symbol d')\<rparr>))"
    using k [OF d'] tree_pos_next [OF assms(4,5)] by auto
qed


section \<open>The probabilities that are read\<close>

lemma mask_bound: "unat (of_nat p AND (push_bit k 1 - 1) :: u32) < 2 ^ k" if "k \<le> 4"
proof -
  have "(push_bit k 1 - 1 :: u32) = mask k" by (simp add: mask_eq_exp_minus_1 push_bit_1)
  then have "of_nat p AND (push_bit k 1 - 1 :: u32) = take_bit k (of_nat p)" by (simp add: take_bit_eq_mask)
  moreover have "unat (take_bit k (of_nat p :: u32)) < 2 ^ k"
    by (simp add: unsigned_take_bit_eq take_bit_nat_less_exp)
  ultimately show ?thesis by simp
qed

lemma mask_value: "unat (push_bit k 1 - 1 :: u32) + 1 = 2 ^ k" if "k \<le> 4"
proof -
  have "k = 0 \<or> k = 1 \<or> k = 2 \<or> k = 3 \<or> k = 4" using that by linarith
  then show ?thesis by (auto simp: push_bit_1)
qed

lemma probs_ok_refs:
  assumes "probs_ok d"
  shows "s < 12 \<Longrightarrow> probabilities d (Is_match s (pos_state d)) \<noteq> None"
    "s < 12 \<Longrightarrow> probabilities d (Is_rep0_long s (pos_state d)) \<noteq> None"
    "s < 12 \<Longrightarrow> probabilities d (Is_rep s) \<noteq> None" "s < 12 \<Longrightarrow> probabilities d (Is_rep0 s) \<noteq> None"
    "s < 12 \<Longrightarrow> probabilities d (Is_rep1 s) \<noteq> None" "s < 12 \<Longrightarrow> probabilities d (Is_rep2 s) \<noteq> None"
    "j < 4 \<Longrightarrow> i < 64 \<Longrightarrow> probabilities d (Dist_slot j i) \<noteq> None"
    "0 \<le> z \<Longrightarrow> z < 114 \<Longrightarrow> probabilities d (Pos_special z) \<noteq> None" "i < 16 \<Longrightarrow> probabilities d (Pos_align i) \<noteq> None"
    "probabilities d (Len_choice rep) \<noteq> None" "probabilities d (Len_choice2 rep) \<noteq> None"
    "i < 8 \<Longrightarrow> probabilities d (Len_low rep (pos_state d) i) \<noteq> None"
    "i < 8 \<Longrightarrow> probabilities d (Len_mid rep (pos_state d) i) \<noteq> None"
    "i < 256 \<Longrightarrow> probabilities d (Len_high rep i) \<noteq> None"
    "literal_tree_ok (literal_context_bits d) (literal_pos_mask d) (Literal_tree j) \<Longrightarrow> i < 0x300
       \<Longrightarrow> probabilities d (Literal j i) \<noteq> None"
proof -
  obtain lp pb where b: "unat (literal_context_bits d) + unat lp \<le> 4" "unat pb \<le> 4"
    "literal_pos_mask d = push_bit (unat lp) 1 - 1" "pos_mask d = push_bit (unat pb) 1 - 1"
    and r: "\<And>r. reset_ref (literal_context_bits d) lp pb r \<Longrightarrow> probabilities d r \<noteq> None"
    using assms unfolding probs_ok_def by blast
  have p: "pos_state d < 2 ^ unat pb" using mask_bound [OF b(2)] b(4) by (simp add: pos_state_def)
  have "unat (literal_context_bits d + lp) = unat (literal_context_bits d) + unat lp"
    using b(1) by (subst unat_plus_if_size) (simp add: word_size)
  then have l: "2 ^ unat (literal_context_bits d) * (unat (literal_pos_mask d) + 1) = (2 :: nat) ^ unat (literal_context_bits d + lp)"
    using mask_value [of "unat lp"] b(1,3) by (simp add: power_add)
  show "s < 12 \<Longrightarrow> probabilities d (Is_match s (pos_state d)) \<noteq> None"
    "s < 12 \<Longrightarrow> probabilities d (Is_rep0_long s (pos_state d)) \<noteq> None"
    "s < 12 \<Longrightarrow> probabilities d (Is_rep s) \<noteq> None" "s < 12 \<Longrightarrow> probabilities d (Is_rep0 s) \<noteq> None"
    "s < 12 \<Longrightarrow> probabilities d (Is_rep1 s) \<noteq> None" "s < 12 \<Longrightarrow> probabilities d (Is_rep2 s) \<noteq> None"
    "j < 4 \<Longrightarrow> i < 64 \<Longrightarrow> probabilities d (Dist_slot j i) \<noteq> None"
    "0 \<le> z \<Longrightarrow> z < 114 \<Longrightarrow> probabilities d (Pos_special z) \<noteq> None" "i < 16 \<Longrightarrow> probabilities d (Pos_align i) \<noteq> None"
    "probabilities d (Len_choice rep) \<noteq> None" "probabilities d (Len_choice2 rep) \<noteq> None"
    "i < 8 \<Longrightarrow> probabilities d (Len_low rep (pos_state d) i) \<noteq> None"
    "i < 8 \<Longrightarrow> probabilities d (Len_mid rep (pos_state d) i) \<noteq> None"
    "i < 256 \<Longrightarrow> probabilities d (Len_high rep i) \<noteq> None"
    "literal_tree_ok (literal_context_bits d) (literal_pos_mask d) (Literal_tree j) \<Longrightarrow> i < 0x300
       \<Longrightarrow> probabilities d (Literal j i) \<noteq> None"
    by (rule r; use p l in simp)+
qed

text \<open>The literal tree that \<open>literal_subcoder\<close> chooses.\<close>

lemma literal_subcoder_ok:
  assumes "probs_ok d"
  shows "literal_tree_ok (literal_context_bits d) (literal_pos_mask d)
     (literal_subcoder (literal_context_bits d) (literal_pos_mask d) pos byte)"
proof -
  obtain lp :: u32 where b: "unat (literal_context_bits d) + unat lp \<le> 4" "literal_pos_mask d = push_bit (unat lp) 1 - 1"
    using assms unfolding probs_ok_def by blast
  let ?lc = "unat (literal_context_bits d)" and ?m = "of_nat pos AND literal_pos_mask d :: u32"
  have m: "unat ?m < 2 ^ unat lp" using mask_bound [of "unat lp" pos] b by simp
  have "unat ?m * 2 ^ ?lc < 2 ^ 32"
  proof -
    have "unat ?m * 2 ^ ?lc < 2 ^ unat lp * 2 ^ ?lc" using m by simp
    also have "\<dots> = 2 ^ (unat lp + ?lc)" by (simp add: power_add)
    also have "\<dots> \<le> 2 ^ 32" using b(1) by (intro power_increasing) auto
    finally show ?thesis .
  qed
  then have "unat (push_bit ?lc ?m) = unat ?m * 2 ^ ?lc"
    by (simp only: unsigned_push_bit_eq) (simp add: push_bit_eq_mult take_bit_eq_mod)
  moreover have "drop_bit (8 - ?lc) (unat byte) < 2 ^ ?lc"
  proof -
    have "?lc + (8 - ?lc) = 8" using b(1) by simp
    then have "(2 :: nat) ^ ?lc * 2 ^ (8 - ?lc) = 2 ^ 8" by (metis power_add)
    then have "unat byte < 2 ^ ?lc * 2 ^ (8 - ?lc)" using unsigned_less [of byte, where 'a = nat] by simp
    then show ?thesis by (simp add: drop_bit_eq_div less_mult_imp_div_less)
  qed
  ultimately have "unat (push_bit ?lc ?m) + drop_bit (8 - ?lc) (unat byte) < (unat ?m + 1) * 2 ^ ?lc" by simp
  also have "\<dots> \<le> 2 ^ unat lp * 2 ^ ?lc" using m by (intro mult_right_mono) auto
  finally show ?thesis using mask_value [of "unat lp"] b by (simp add: literal_subcoder_def mult.commute)
qed


lemma hist_repeat_prefix: "\<exists>h'. hist_repeat n distance h = h @ h'"
proof (induction n distance h rule: hist_repeat.induct)
  case (2 n distance h)
  then obtain h' where "hist_repeat n distance (h @ [hist_get h distance]) = (h @ [hist_get h distance]) @ h'" by blast
  then show ?case by simp
qed simp


section \<open>The steps\<close>

lemma after_bit_same:
  assumes "after_bit n d d'"
  shows "ld_in_pos d \<le> ld_in_pos d'" "ld_in_pos d' \<le> n" "ld_dict d' = ld_dict d" "ld_state d' = ld_state d"
    "rep0 d' = rep0 d" "rep1 d' = rep1 d" "rep2 d' = rep2 d" "rep3 d' = rep3 d" "ld_probs d' = ld_probs d"
    "ld_symbol d' = ld_symbol d" "ld_limit d' = ld_limit d" "ld_offset d' = ld_offset d" "ld_len d' = ld_len d"
    "uncompressed_left d' = uncompressed_left d" "literal_context_bits d' = literal_context_bits d"
    "literal_pos_mask d' = literal_pos_mask d" "pos_mask d' = pos_mask d" "ld_pc d' = ld_pc d"
  using assms by (auto simp: after_bit_def)

lemma after_bit_coder: "after_bit n d d' \<Longrightarrow> coder_inv full d \<Longrightarrow> coder_inv full d'"
  by (auto simp: after_bit_def coder_inv_probabilities)

lemma same_dict_go:
  assumes "loop_inv h n s d" "ld_in_pos d \<le> ld_in_pos d'" "ld_in_pos d' \<le> n" "ld_dict d' = ld_dict d" "keeps d d'"
    "coder_inv (full_of d) d'" "pc_inv (full_of d) seq d'"
    "pc_rank seq (ld_limit d') < pc_rank (ld_pc d) (ld_limit d)"
  shows "safe h n d (go seq d')"
  by (rule safe_go [of h "[]" n seq]) (use assms in \<open>auto simp: loop_inv_def loop_measure_def\<close>)

lemma loop_invD:
  assumes "loop_inv h n s d"
  shows "dict_inv h (ld_dict d)" "coder_inv (full_of d) d" "pc_inv (full_of d) s d" "ld_in_pos d \<le> n" "probs_ok d"
    "ld_state d < 12"
  using assms by (simp_all add: loop_inv_def coder_inv_def)

text \<open>The distance check: when it passes, the match can be copied.\<close>

lemma dict_full_pos: "dict_is_distance_valid d k \<Longrightarrow> 0 < dict_full d"
  by (simp add: dict_is_distance_valid_def)

lemma validate_safe:
  assumes "loop_inv h n s d" "ld_in_pos d \<le> ld_in_pos d'" "ld_in_pos d' \<le> n" "ld_dict d' = ld_dict d" "keeps d d'"
    "coder_inv (full_of d) d'" "ld_len d' \<noteq> 0" "1 < pc_rank (ld_pc d) (ld_limit d)"
  shows "safe h n d (validate_distance d')"
proof (cases "dict_is_distance_valid (ld_dict d') (unat (rep0 d'))")
  case True
  then have "pc_inv (full_of d) SEQ_COPY d'" using assms by (auto simp: dict_is_distance_valid_def rep_ok_def)
  then show ?thesis using True same_dict_go [OF assms(1-6)] assms(8) by (simp add: validate_distance_def)
next
  case False
  then show ?thesis
    using safe_error [of h d' d n] assms loop_invD(1) [OF assms(1)] by (simp add: validate_distance_def)
qed

text \<open>Writing a byte.\<close>

lemma rep_ok_mono: "rep_ok full r \<Longrightarrow> full \<le> full' \<Longrightarrow> rep_ok full' r"
  by (auto simp: rep_ok_def)

lemma coder_inv_mono: "coder_inv full d \<Longrightarrow> full \<le> full' \<Longrightarrow> coder_inv full' d"
  by (auto simp: coder_inv_def intro: rep_ok_mono)

lemma dict_rel_full: "dict_rel h d \<Longrightarrow> dict_full d = min (length h) (dict_length d)"
  by (simp add: dict_rel_def)

lemma dict_rel_length: "dict_rel h d \<Longrightarrow> 0 < dict_length d"
  by (simp add: dict_rel_def hist_buf_def)

lemma put_byte_safe:
  assumes inv: "loop_inv h n seq d" and "rep_ok (full_of d) (rep0 d)" and seq: "seq \<noteq> SEQ_NORMALIZE"
  shows "safe h n d (put_byte seq byte d)"
proof (cases "dict_pos (ld_dict d) = dict_limit (ld_dict d)")
  case True
  then show ?thesis using safe_stop [of h "[]" n seq d d] inv seq by (simp add: put_byte_def dict_put_def)
next
  case False
  note dict = loop_invD(1) [OF inv, unfolded dict_inv_def]
  then have "dict_pos (ld_dict d) < dict_limit (ld_dict d)" using False by simp
  with dict_put_hist(2) [of h "ld_dict d" byte] dict obtain d' where
    d': "dict_put (ld_dict d) byte = (False, d')" "dict_rel (h @ [byte]) d'" "dict_pos d' = dict_pos (ld_dict d) + 1"
      "dict_limit d' = dict_limit (ld_dict d)" "dict_length d' = dict_length (ld_dict d)"
      "need_reset d' = need_reset (ld_dict d)" by blast
  have full: "full_of d \<le> dict_full d'" "0 < dict_full d'"
    using dict_rel_full [OF d'(2)] dict_rel_full [of h "ld_dict d"] dict_rel_length [OF d'(2)] dict d'(5) by auto
  let ?d = "d\<lparr>ld_dict := d'\<rparr>"
  have "loop_inv (h @ [byte]) n SEQ_IS_MATCH ?d"
    using d' full dict \<open>dict_pos (ld_dict d) < dict_limit (ld_dict d)\<close> loop_invD [OF inv] assms(2)
    by (auto simp: loop_inv_def dict_inv_def intro: rep_ok_mono coder_inv_mono)
  moreover have "loop_measure (?d\<lparr>ld_pc := SEQ_IS_MATCH\<rparr>) < loop_measure d"
    using d' \<open>dict_pos (ld_dict d) < dict_limit (ld_dict d)\<close> by (simp add: loop_measure_def)
  ultimately show ?thesis using d' safe_go [of h "[byte]" n SEQ_IS_MATCH ?d d] by (simp add: put_byte_def keeps_def)
qed

lemma copy_safe:
  assumes inv: "loop_inv h n SEQ_COPY d" and pc: "ld_pc d = SEQ_COPY"
  shows "safe h n d (decoder_step inp n d)"
proof -
  note dict = loop_invD(1) [OF inv, unfolded dict_inv_def]
  have r: "rep_ok (full_of d) (rep0 d)" "0 < full_of d" "ld_len d \<noteq> 0" using loop_invD(3) [OF inv] by auto
  then have valid: "dict_is_distance_valid (ld_dict d) (unat (rep0 d))"
    by (auto simp: dict_is_distance_valid_def rep_ok_def)
  define left where "left = min (dict_limit (ld_dict d) - dict_pos (ld_dict d)) (unat (ld_len d))"
  obtain d' where d': "dict_repeat (ld_dict d) (rep0 d) (ld_len d) = Ret (left < unat (ld_len d), d', ld_len d - of_nat left)"
      "dict_rel (hist_repeat left (unat (rep0 d)) h) d'" "dict_pos d' = dict_pos (ld_dict d) + left"
      "dict_limit d' = dict_limit (ld_dict d)" "dict_length d' = dict_length (ld_dict d)"
      "need_reset d' = need_reset (ld_dict d)"
    using dict_repeat_hist [OF _ _ _ valid left_def] dict by blast
  obtain h' where h': "hist_repeat left (unat (rep0 d)) h = h @ h'" using hist_repeat_prefix by blast
  have "length (hist_repeat left (unat (rep0 d)) h) = length h + left" by (rule length_hist_repeat)
  then have lh: "length h' = left" by (simp only: h' length_append)
  have full: "full_of d \<le> dict_full d'"
    using dict_rel_full [OF d'(2)] dict_rel_full [of h "ld_dict d"] dict d'(5) by auto
  let ?d = "d\<lparr>ld_dict := d', ld_len := ld_len d - of_nat left\<rparr>"
  have base: "dict_inv (h @ h') d'" "coder_inv (dict_full d') ?d" "rep_ok (dict_full d') (rep0 d)" "0 < dict_full d'"
    using d' h' dict left_def full r loop_invD(2) [OF inv]
    by (auto simp: dict_inv_def intro: rep_ok_mono coder_inv_mono)
  show ?thesis
  proof (cases "left < unat (ld_len d)")
    case True
    have "ld_len d - of_nat left \<noteq> 0"
    proof
      assume "ld_len d - of_nat left = 0"
      then have "unat (ld_len d) = unat (of_nat left :: u32)" by simp
      also have "\<dots> \<le> left" by (simp add: unat_of_nat)
      finally show False using True by simp
    qed
    then have "loop_inv (h @ h') n SEQ_COPY ?d" using base loop_invD(4) [OF inv] by (simp add: loop_inv_def)
    moreover have "dict_pos (ld_dict d) + left = dict_limit (ld_dict d)" using True dict by (simp add: left_def)
    ultimately show ?thesis
      using safe_stop [of h h' n SEQ_COPY ?d d] d' True pc lh by (simp add: decoder_step_def keeps_def)
  next
    case False
    have "unat (ld_len d) \<noteq> 0" using r(3) by (simp add: unat_eq_zero)
    then have "0 < left" "left \<le> dict_limit (ld_dict d) - dict_pos (ld_dict d)" using False by (auto simp: left_def)
    then have "loop_measure (?d\<lparr>ld_pc := SEQ_IS_MATCH\<rparr>) < loop_measure d"
      using d' by (simp add: loop_measure_def) 
    moreover have "loop_inv (h @ h') n SEQ_IS_MATCH ?d" using base loop_invD(4) [OF inv] by (simp add: loop_inv_def)
    ultimately show ?thesis
      using safe_go [of h h' n SEQ_IS_MATCH ?d d] d' False pc lh by (simp add: decoder_step_def keeps_def)
  qed
qed


lemma keeps_after_bit: "after_bit n d d' \<Longrightarrow> keeps d d'"
  by (simp add: keeps_def after_bit_same)

lemma next_state_literal: "s < 12 \<Longrightarrow> next_state ! s < 7"
  by (auto simp: next_state_def less_Suc_eq numeral_eq_Suc)

lemma coder_inv_simps:
  "coder_inv full d \<longleftrightarrow> probs_ok d \<and> ld_state d < 12 \<and> rep_ok full (rep1 d) \<and> rep_ok full (rep2 d) \<and> rep_ok full (rep3 d)"
  by (rule coder_inv_def)

lemma probs_ok_frame [simp]:
  "probs_ok (d\<lparr>ld_state := st\<rparr>) = probs_ok d" "probs_ok (d\<lparr>ld_symbol := s\<rparr>) = probs_ok d"
  "probs_ok (d\<lparr>ld_probs := t\<rparr>) = probs_ok d" "probs_ok (d\<lparr>ld_len := len\<rparr>) = probs_ok d"
  "probs_ok (d\<lparr>ld_limit := l\<rparr>) = probs_ok d" "probs_ok (d\<lparr>ld_offset := off\<rparr>) = probs_ok d"
  "probs_ok (d\<lparr>rep0 := r\<rparr>) = probs_ok d" "probs_ok (d\<lparr>rep1 := r\<rparr>) = probs_ok d"
  "probs_ok (d\<lparr>rep2 := r\<rparr>) = probs_ok d" "probs_ok (d\<lparr>rep3 := r\<rparr>) = probs_ok d"
  for d :: decoder_locals
  by (simp_all add: probs_ok_def)

text \<open>A step that decodes a bit and changes other members of the decoder than the dictionary.\<close>

lemma bit_go:
  assumes "loop_inv h n s d" "after_bit n d d'"
    and "ld_dict d'' = ld_dict d'" "ld_in_pos d'' = ld_in_pos d'" "keeps d' d''"
    and "coder_inv (full_of d) d' \<Longrightarrow> coder_inv (full_of d) d''"
    and "pc_inv (full_of d) seq d''" "pc_rank seq (ld_limit d'') < pc_rank (ld_pc d) (ld_limit d)"
  shows "safe h n d (go seq d'')"
proof (rule same_dict_go [OF assms(1)])
  note same = after_bit_same [OF assms(2)]
  show "ld_in_pos d \<le> ld_in_pos d''" "ld_in_pos d'' \<le> n" "ld_dict d'' = ld_dict d" using same assms(3,4) by auto
  show "keeps d d''" using assms(5) keeps_after_bit [OF assms(2)] by (simp add: keeps_def)
  show "coder_inv (full_of d) d''" using assms(6) after_bit_coder [OF assms(2) loop_invD(2) [OF assms(1)]] by simp
  show "pc_inv (full_of d) seq d''" by (rule assms(7))
  show "pc_rank seq (ld_limit d'') < pc_rank (ld_pc d) (ld_limit d)" by (rule assms(8))
qed

lemma is_match_safe:
  assumes inv: "loop_inv h n s d" and pc: "ld_pc d = s" "s \<in> {SEQ_NORMALIZE, SEQ_IS_MATCH}"
  shows "safe h n d (decoder_step inp n d)"
proof -
  note i = loop_invD [OF inv]
  have r: "rep_ok (full_of d) (rep0 d)" "7 \<le> ld_state d \<Longrightarrow> 0 < full_of d" using i(3) pc(2) by auto
  have eq: "loop_inv h n SEQ_NORMALIZE d" "loop_inv h n SEQ_IS_MATCH d" using inv pc(2) by (auto simp: loop_inv_def)
  note dict = i(1) [unfolded dict_inv_def]
  have hist: "hist_buf h (dict_buf (ld_dict d)) (dict_pos (ld_dict d)) (dict_length (ld_dict d))"
    using dict by (simp add: dict_rel_def)
  have get0: "dict_get (ld_dict d) 0 = Ret (hist_get h 0)"
    using dict_get_hist [OF hist, of 0] dict_rel_length dict by (cases "h = []") auto
  have get: "dict_get (ld_dict d) (rep0 d) = Ret (hist_get h (unat (rep0 d)))" if "7 \<le> ld_state d"
    using r that dict_rel_full dict by (intro dict_get_hist [OF hist]) (auto simp: rep_ok_def)
  show ?thesis
  proof (cases "uncompressed_left d \<noteq> LZMA_VLI_UNKNOWN \<and> dict_pos (ld_dict d) = dict_limit (ld_dict d)")
    case True
    have "safe h n d (normalize_or_stop inp n SEQ_NORMALIZE d (stop_at SEQ_IS_MATCH))"
    proof (rule normalize_safe [OF eq(1)])
      fix d' assume d': "after_bit n d d'" "probabilities d' = probabilities d"
      then show "safe h n d (stop_at SEQ_IS_MATCH d')"
        using i r True after_bit_same [OF d'(1)] after_bit_coder [OF d'(1) i(2)] keeps_after_bit [OF d'(1)]
        by (intro safe_stop [of h "[]"]) (auto simp: loop_inv_def)
    qed
    then show ?thesis using True pc by (auto simp: decoder_step_def Let_def)
  next
    case False
    have "safe h n d (decode_bit inp n SEQ_IS_MATCH (Some (Is_match (ld_state d) (pos_state d))) d (\<lambda>b d.
              if b then go SEQ_IS_REP d
              else bindR (dict_get (ld_dict d) 0) (\<lambda>prev_byte.
                let d = d\<lparr>ld_probs := literal_subcoder (literal_context_bits d) (literal_pos_mask d)
                            (dict_pos (ld_dict d)) prev_byte, ld_symbol := 1\<rparr>
                in if is_literal_state (ld_state d) then go (SEQ_LITERAL 0) d
                   else bindR (dict_get (ld_dict d) (rep0 d)) (\<lambda>match_byte.
                     go (SEQ_LITERAL_MATCHED 0) (d\<lparr>ld_len := push_bit 1 (ucast match_byte), ld_offset := 0x100\<rparr>)))))"
    proof (rule decode_bit_safe [OF eq(2) probs_ok_refs(1) [OF i(5,6)] refl])
      fix b d' assume d': "after_bit n d d'"
      note same = after_bit_same [OF d']
      have p: "probs_ok d'" using after_bit_coder [OF d' i(2)] by (simp add: coder_inv_def)
      let ?t = "literal_subcoder (literal_context_bits d') (literal_pos_mask d') (dict_pos (ld_dict d')) (hist_get h 0)"
      have t: "literal_tree_ok (literal_context_bits d') (literal_pos_mask d') ?t" by (rule literal_subcoder_ok [OF p])
      have "safe h n d (go SEQ_IS_REP d')"
        by (rule bit_go [OF inv d']) (use same r pc in auto)
      moreover have "safe h n d (go (SEQ_LITERAL 0) (d'\<lparr>ld_probs := ?t, ld_symbol := 1\<rparr>))"
        by (rule bit_go [OF inv d']) (use same r pc t in \<open>auto simp: keeps_def\<close>)
      moreover have "safe h n d (go (SEQ_LITERAL_MATCHED 0)
          (d'\<lparr>ld_probs := ?t, ld_symbol := 1, ld_len := push_bit 1 (ucast x), ld_offset := 0x100\<rparr>))" for x :: u8
        by (rule bit_go [OF inv d']) (use same r pc t in \<open>auto simp: keeps_def\<close>)
      ultimately show "safe h n d (if b then go SEQ_IS_REP d'
              else bindR (dict_get (ld_dict d') 0) (\<lambda>prev_byte.
                let d = d'\<lparr>ld_probs := literal_subcoder (literal_context_bits d') (literal_pos_mask d')
                            (dict_pos (ld_dict d')) prev_byte, ld_symbol := 1\<rparr>
                in if is_literal_state (ld_state d) then go (SEQ_LITERAL 0) d
                   else bindR (dict_get (ld_dict d) (rep0 d)) (\<lambda>match_byte.
                     go (SEQ_LITERAL_MATCHED 0) (d\<lparr>ld_len := push_bit 1 (ucast match_byte), ld_offset := 0x100\<rparr>))))"
        using get0 get same by (auto simp: Let_def is_literal_state_def)
    qed
    then show ?thesis using False pc by (auto simp: decoder_step_def Let_def)
  qed
qed


lemma offset_next: "m \<in> {0, x} \<Longrightarrow> (if b then x AND m else x AND NOT m) \<in> {0, x}" for x :: "'a :: len word"
  by auto

lemma and_exp: "x AND 2 ^ k = (if bit x k then 2 ^ k else 0)" for x :: "'a :: len word"
  by (rule bit_word_eqI) (auto simp: bit_and_iff bit_exp_iff)

lemma literal_tree_ref:
  fixes d :: decoder_locals
  assumes "probs_ok d" "literal_tree_ok (literal_context_bits d) (literal_pos_mask d) t" "unat x < 0x300"
  shows "\<exists>r. tree_ref t x = Some r \<and> probabilities d r \<noteq> None"
proof -
  obtain j where "t = Literal_tree j" using assms(2) by (cases t) auto
  then show ?thesis using probs_ok_refs(15) [OF assms(1), of j "unat x"] assms(2,3) by simp
qed

lemma literal_safe:
  assumes inv: "loop_inv h n (SEQ_LITERAL i) d" and pc: "ld_pc d = SEQ_LITERAL i"
  shows "safe h n d (decoder_step inp n d)"
proof -
  note inv' = loop_invD [OF inv]
  have i: "i < 8" "tree_pos i (ld_symbol d)" "rep_ok (full_of d) (rep0 d)"
    and t: "literal_tree_ok (literal_context_bits d) (literal_pos_mask d) (ld_probs d)" using inv'(3) by auto
  have "unat (ld_symbol d) < 2 ^ 8" using tree_pos_less [OF i(2,1)] .
  then obtain r where r: "tree_ref (ld_probs d) (ld_symbol d) = Some r" "probabilities d r \<noteq> None"
    using literal_tree_ref [OF inv'(5) t, of "ld_symbol d"] by auto
  have "i < 30" using i(1) by simp
  show ?thesis
    unfolding decoder_step_def Let_def pc lzma_seq.case
  proof (rule rc_bit_safe [OF inv r(2,1) i(2) \<open>i < 30\<close>])
    fix b d' s assume d': "after_bit n d d'" and s: "tree_pos (Suc i) s"
    note same = after_bit_same [OF d']
    have "safe h n d (go (SEQ_LITERAL (i + 1)) (d'\<lparr>ld_symbol := s\<rparr>))" if "i < 7"
      by (rule bit_go [OF inv d']) (use same i t s pc that in \<open>auto simp: keeps_def\<close>)
    moreover have "safe h n d (go SEQ_LITERAL_WRITE (d'\<lparr>ld_symbol := s, ld_state := next_state ! ld_state d\<rparr>))"
      by (rule bit_go [OF inv d'])
        (use same i pc next_state_literal [OF inv'(6)] in \<open>auto simp: keeps_def coder_inv_def\<close>)
    ultimately show "safe h n d (if i < 7 then go (SEQ_LITERAL (i + 1)) (d'\<lparr>ld_symbol := s\<rparr>)
        else go SEQ_LITERAL_WRITE (d'\<lparr>ld_symbol := s, ld_state := next_state ! ld_state (d'\<lparr>ld_symbol := s\<rparr>)\<rparr>))"
      using same by simp
  qed
qed

lemma literal_matched_safe:
  assumes inv: "loop_inv h n (SEQ_LITERAL_MATCHED i) d" and pc: "ld_pc d = SEQ_LITERAL_MATCHED i"
  shows "safe h n d (decoder_step inp n d)"
proof -
  note inv' = loop_invD [OF inv]
  have i: "i < 8" "tree_pos i (ld_symbol d)" "rep_ok (full_of d) (rep0 d)" "ld_offset d \<in> {0, 0x100}"
    and t: "literal_tree_ok (literal_context_bits d) (literal_pos_mask d) (ld_probs d)" using inv'(3) by auto
  let ?m = "ld_len d AND ld_offset d"
  have m: "?m \<in> {0, ld_offset d}"
  proof -
    have "x AND 0x100 \<in> {0, 0x100}" for x :: u32
    proof -
      have "x AND 2 ^ 8 = (if bit x 8 then 2 ^ 8 else 0)" by (rule and_exp)
      then show ?thesis by (simp split: if_splits)
    qed
    from this [of "ld_len d"] show ?thesis using i(4) by auto
  qed
  have "unat (ld_symbol d) < 2 ^ 8" using tree_pos_less [OF i(2,1)] .
  then have "unat (ld_offset d + ?m + ld_symbol d) < 0x300"
    using m i(4) by (auto simp: unat_word_ariths)
  then obtain r where r: "tree_ref (ld_probs d) (ld_offset d + ?m + ld_symbol d) = Some r" "probabilities d r \<noteq> None"
    using literal_tree_ref [OF inv'(5) t, of "ld_offset d + ?m + ld_symbol d"] by auto
  have "i < 30" using i(1) by simp
  show ?thesis
    unfolding decoder_step_def Let_def pc lzma_seq.case
  proof (rule rc_bit_safe [OF inv r(2,1) i(2) \<open>i < 30\<close>])
    fix b d' s assume d': "after_bit n d d'" and s: "tree_pos (Suc i) s"
    note same = after_bit_same [OF d']
    define off where "off = (if b then ld_offset d AND ?m else ld_offset d AND NOT ?m)"
    have "off \<in> {0, ld_offset d}" unfolding off_def by (rule offset_next [OF m])
    then have off: "off \<in> {0, 0x100}" using i(4) by auto
    have e: "(if b then ld_offset (d'\<lparr>ld_symbol := s\<rparr>) AND ?m else ld_offset (d'\<lparr>ld_symbol := s\<rparr>) AND NOT ?m) = off"
      unfolding off_def using same by simp
    have "safe h n d (go (SEQ_LITERAL_MATCHED (i + 1)) (d'\<lparr>ld_symbol := s, ld_offset := off, ld_len := l\<rparr>))" if "i < 7" for l
      by (rule bit_go [OF inv d']) (use same i t s pc off that in \<open>auto simp: keeps_def\<close>)
    moreover have "safe h n d (go SEQ_LITERAL_WRITE (d'\<lparr>ld_symbol := s, ld_offset := off, ld_state := next_state ! ld_state d\<rparr>))"
      by (rule bit_go [OF inv d'])
        (use same i pc next_state_literal [OF inv'(6)] in \<open>auto simp: keeps_def coder_inv_def\<close>)
    ultimately show "safe h n d (if i < 7
        then go (SEQ_LITERAL_MATCHED (i + 1)) (d'\<lparr>ld_symbol := s,
            ld_offset := if b then ld_offset (d'\<lparr>ld_symbol := s\<rparr>) AND ?m else ld_offset (d'\<lparr>ld_symbol := s\<rparr>) AND NOT ?m,
            ld_len := push_bit 1 (ld_len (d'\<lparr>ld_symbol := s,
              ld_offset := if b then ld_offset (d'\<lparr>ld_symbol := s\<rparr>) AND ?m else ld_offset (d'\<lparr>ld_symbol := s\<rparr>) AND NOT ?m\<rparr>))\<rparr>)
        else go SEQ_LITERAL_WRITE (d'\<lparr>ld_symbol := s,
            ld_offset := if b then ld_offset (d'\<lparr>ld_symbol := s\<rparr>) AND ?m else ld_offset (d'\<lparr>ld_symbol := s\<rparr>) AND NOT ?m,
            ld_state := next_state ! ld_state (d'\<lparr>ld_symbol := s,
              ld_offset := if b then ld_offset (d'\<lparr>ld_symbol := s\<rparr>) AND ?m else ld_offset (d'\<lparr>ld_symbol := s\<rparr>) AND NOT ?m\<rparr>)\<rparr>))"
      unfolding e using same by simp
  qed
qed

lemma writes_safe:
  assumes inv: "loop_inv h n s d" and pc: "ld_pc d = s" "s \<in> {SEQ_LITERAL_WRITE, SEQ_SHORTREP}"
  shows "safe h n d (decoder_step inp n d)"
proof -
  note i = loop_invD [OF inv]
  have r: "rep_ok (full_of d) (rep0 d)" "s = SEQ_SHORTREP \<Longrightarrow> 0 < full_of d" using i(3) pc(2) by auto
  note dict = i(1) [unfolded dict_inv_def]
  have hist: "hist_buf h (dict_buf (ld_dict d)) (dict_pos (ld_dict d)) (dict_length (ld_dict d))"
    using dict by (simp add: dict_rel_def)
  have "dict_get (ld_dict d) (rep0 d) = Ret (hist_get h (unat (rep0 d)))" if "s = SEQ_SHORTREP"
    using r that dict_rel_full dict by (intro dict_get_hist [OF hist]) (auto simp: rep_ok_def)
  then show ?thesis using put_byte_safe [OF inv r(1)] pc by (auto simp: decoder_step_def Let_def)
qed

lemma is_rep_safe:
  assumes inv: "loop_inv h n SEQ_IS_REP d" and pc: "ld_pc d = SEQ_IS_REP"
  shows "safe h n d (decoder_step inp n d)"
  unfolding decoder_step_def Let_def pc lzma_seq.case
proof (rule decode_bit_safe [OF inv probs_ok_refs(3) [OF loop_invD(5) [OF inv] loop_invD(6) [OF inv]] refl])
  note inv' = loop_invD [OF inv]
  have r: "rep_ok (full_of d) (rep0 d)" using inv'(3) by auto
  fix b d' assume d': "after_bit n d d'"
  note same = after_bit_same [OF d']
  have "safe h n d (go (SEQ_MATCH_LEN CHOICE)
      (d'\<lparr>ld_state := update_match (ld_state d'), rep3 := rep2 d', rep2 := rep1 d', rep1 := rep0 d', ld_symbol := 1\<rparr>))"
    by (rule bit_go [OF inv d']) (use same r pc in \<open>auto simp: keeps_def coder_inv_def update_match_def\<close>)
  moreover have "safe h n d (Ret (Out LZMA_DATA_ERROR d'))"
    by (rule safe_error) (use same inv' keeps_after_bit [OF d'] in auto)
  moreover have "safe h n d (go SEQ_IS_REP0 d')" if "dict_is_distance_valid (ld_dict d') 0"
    by (rule bit_go [OF inv d']) (use same r pc that in \<open>auto simp: dict_is_distance_valid_def\<close>)
  ultimately show "safe h n d (if \<not> b then go (SEQ_MATCH_LEN CHOICE)
        (d'\<lparr>ld_state := update_match (ld_state d'), rep3 := rep2 d', rep2 := rep1 d', rep1 := rep0 d', ld_symbol := 1\<rparr>)
      else if \<not> dict_is_distance_valid (ld_dict d') 0 then Ret (Out LZMA_DATA_ERROR d') else go SEQ_IS_REP0 d')" by auto
qed


text \<open>
  The length decoder, for both uses of it: \<open>seq\<close> makes the program points, \<open>k\<close> is what follows.
\<close>

lemma unat_one_tree: "tree_pos 0 s \<longleftrightarrow> s = 1"
proof
  assume "tree_pos 0 s"
  then have "unat s = unat (1 :: u32)" by (simp add: tree_pos_def)
  then show "s = 1" by (rule unsigned_word_eqI)
qed simp

lemma tree_sub_ge:
  assumes "tree_pos i s" "c = 2 ^ i" "i \<le> 8" "2 \<le> a" "a \<le> 18"
  shows "2 \<le> unat (s - of_nat c + of_nat a :: u32)"
proof -
  have c: "c \<le> unat s" "unat s < 2 * c" "c \<le> 2 ^ 8" using assms(1-3) power_increasing [of i 8 "2 :: nat"]
    by (auto simp: tree_pos_def)
  have "s - of_nat c + of_nat a = of_nat (unat s - c + a)" using c(1) by (simp add: of_nat_diff)
  moreover have "unat (of_nat (unat s - c + a) :: u32) = unat s - c + a"
    using c assms(5) by (simp only: unat_of_nat) simp
  ultimately have "unat (s - of_nat c + of_nat a) = unat s - c + a" by simp
  then show ?thesis using assms(4) by simp
qed

lemma len_decode_safe:
  assumes inv: "loop_inv h n (seq p) d" and len: "len_inv p (ld_symbol d)"
    and seq: "\<And>p' (d' :: decoder_locals). len_inv p' (ld_symbol d') \<Longrightarrow> rep_ok (full_of d) (rep0 d') = rep_ok (full_of d) (rep0 d)
       \<Longrightarrow> pc_inv (full_of d) (seq p') d'"
    and rank: "\<And>p' l. pc_rank (seq p') l = 300 + len_rank p'" and pc: "ld_pc d = seq p"
    and k: "\<And>d' l s. after_bit n d d' \<Longrightarrow> 2 \<le> unat l \<Longrightarrow> safe h n d (k (d'\<lparr>ld_symbol := s, ld_len := l\<rparr>))"
  shows "safe h n d (len_decode inp n rep seq p d k)"
proof -
  note inv' = loop_invD [OF inv]
  note p = probs_ok_refs(10,11,12,13,14) [OF inv'(5)]
  have go: "safe h n d (go (seq p') d'')" if d': "after_bit n d d'" and d'': "d'' = d' \<or> (\<exists>s. d'' = d'\<lparr>ld_symbol := s\<rparr>)"
    and "len_inv p' (ld_symbol d'')" "len_rank p' < len_rank p" for p' d' d''
  proof (rule bit_go [OF inv d'])
    note same = after_bit_same [OF d']
    show "ld_dict d'' = ld_dict d'" "ld_in_pos d'' = ld_in_pos d'" "keeps d' d''" using d'' by (auto simp: keeps_def)
    show "coder_inv (full_of d) d''" if "coder_inv (full_of d) d'" using d'' that by auto
    show "pc_inv (full_of d) (seq p') d''" using d'' same by (intro seq [OF that(3)]) auto
    show "pc_rank (seq p') (ld_limit d'') < pc_rank (ld_pc d) (ld_limit d)" using that(4) by (simp add: pc rank)
  qed
  show ?thesis
  proof (cases p)
    case CHOICE
    have "safe h n d (decode_bit inp n (seq CHOICE) (Some (Len_choice rep)) d (\<lambda>b d.
          if \<not> b then go (seq (LOW 0)) d else go (seq CHOICE2) d))"
      by (rule decode_bit_safe [OF inv [unfolded CHOICE] p(1) refl])
        (use go len CHOICE in \<open>auto simp: after_bit_same unat_one_tree\<close>)
    then show ?thesis using CHOICE by (simp add: len_decode_def)
  next
    case CHOICE2
    have "safe h n d (decode_bit inp n (seq CHOICE2) (Some (Len_choice2 rep)) d (\<lambda>b d.
          if \<not> b then go (seq (MID 0)) d else go (seq (HIGH 0)) d))"
      by (rule decode_bit_safe [OF inv [unfolded CHOICE2] p(2) refl])
        (use go len CHOICE2 in \<open>auto simp: after_bit_same unat_one_tree\<close>)
    then show ?thesis using CHOICE2 by (simp add: len_decode_def)
  next
    case (LOW i)
    then have i: "i < 3" "tree_pos i (ld_symbol d)" "i < 30" using len by auto
    have "unat (ld_symbol d) < 8" using tree_pos_less [OF i(2,1)] by simp
    then have "safe h n d (rc_bit inp n (seq (LOW i)) (Some (Len_low rep (pos_state d) (unat (ld_symbol d)))) d (\<lambda>_ d.
          if i < 2 then go (seq (LOW (i + 1))) d else k (d\<lparr>ld_len := ld_symbol d - 8 + 2\<rparr>)))"
    proof (rule rc_bit_safe [OF inv [unfolded LOW] p(3) refl i(2,3)])
      fix b d' s assume d': "after_bit n d d'" and s: "tree_pos (Suc i) s"
      have "2 \<le> unat (s - 8 + 2)" if "\<not> i < 2"
        using tree_sub_ge [OF s, of 8 2] i(1) that by (cases "i = 2") auto
      then have "safe h n d (k (d'\<lparr>ld_symbol := s, ld_len := s - 8 + 2\<rparr>))" if "\<not> i < 2" using k [OF d'] that by blast
      moreover have "safe h n d (go (seq (LOW (i + 1))) (d'\<lparr>ld_symbol := s\<rparr>))" if "i < 2"
        by (rule go [OF d']) (use s that LOW in auto)
      ultimately show "safe h n d (if i < 2 then go (seq (LOW (i + 1))) (d'\<lparr>ld_symbol := s\<rparr>)
          else k (d'\<lparr>ld_symbol := s, ld_len := ld_symbol (d'\<lparr>ld_symbol := s\<rparr>) - 8 + 2\<rparr>))" by simp
    qed
    then show ?thesis using LOW by (simp add: len_decode_def)
  next
    case (MID i)
    then have i: "i < 3" "tree_pos i (ld_symbol d)" "i < 30" using len by auto
    have "unat (ld_symbol d) < 8" using tree_pos_less [OF i(2,1)] by simp
    then have "safe h n d (rc_bit inp n (seq (MID i)) (Some (Len_mid rep (pos_state d) (unat (ld_symbol d)))) d (\<lambda>_ d.
          if i < 2 then go (seq (MID (i + 1))) d else k (d\<lparr>ld_len := ld_symbol d - 8 + 2 + 8\<rparr>)))"
    proof (rule rc_bit_safe [OF inv [unfolded MID] p(4) refl i(2,3)])
      fix b d' s assume d': "after_bit n d d'" and s: "tree_pos (Suc i) s"
      have "2 \<le> unat (s - 8 + 2 + 8)" if "\<not> i < 2"
        using tree_sub_ge [OF s, of 8 10] i(1) that by (cases "i = 2") auto
      then have "safe h n d (k (d'\<lparr>ld_symbol := s, ld_len := s - 8 + 2 + 8\<rparr>))" if "\<not> i < 2" using k [OF d'] that by blast
      moreover have "safe h n d (go (seq (MID (i + 1))) (d'\<lparr>ld_symbol := s\<rparr>))" if "i < 2"
        by (rule go [OF d']) (use s that MID in auto)
      ultimately show "safe h n d (if i < 2 then go (seq (MID (i + 1))) (d'\<lparr>ld_symbol := s\<rparr>)
          else k (d'\<lparr>ld_symbol := s, ld_len := ld_symbol (d'\<lparr>ld_symbol := s\<rparr>) - 8 + 2 + 8\<rparr>))" by simp
    qed
    then show ?thesis using MID by (simp add: len_decode_def)
  next
    case (HIGH i)
    then have i: "i < 8" "tree_pos i (ld_symbol d)" "i < 30" using len by auto
    have "unat (ld_symbol d) < 256" using tree_pos_less [OF i(2,1)] by simp
    then have "safe h n d (rc_bit inp n (seq (HIGH i)) (Some (Len_high rep (unat (ld_symbol d)))) d (\<lambda>_ d.
          if i < 7 then go (seq (HIGH (i + 1))) d else k (d\<lparr>ld_len := ld_symbol d - 256 + 2 + 8 + 8\<rparr>)))"
    proof (rule rc_bit_safe [OF inv [unfolded HIGH] p(5) refl i(2,3)])
      fix b d' s assume d': "after_bit n d d'" and s: "tree_pos (Suc i) s"
      have "2 \<le> unat (s - 256 + 2 + 8 + 8)" if "\<not> i < 7"
        using tree_sub_ge [OF s, of 256 18] i(1) that by (cases "i = 7") auto
      then have "safe h n d (k (d'\<lparr>ld_symbol := s, ld_len := s - 256 + 2 + 8 + 8\<rparr>))" if "\<not> i < 7" using k [OF d'] that by blast
      moreover have "safe h n d (go (seq (HIGH (i + 1))) (d'\<lparr>ld_symbol := s\<rparr>))" if "i < 7"
        by (rule go [OF d']) (use s that HIGH in auto)
      ultimately show "safe h n d (if i < 7 then go (seq (HIGH (i + 1))) (d'\<lparr>ld_symbol := s\<rparr>)
          else k (d'\<lparr>ld_symbol := s, ld_len := ld_symbol (d'\<lparr>ld_symbol := s\<rparr>) - 256 + 2 + 8 + 8\<rparr>))" by simp
    qed
    then show ?thesis using HIGH by (simp add: len_decode_def)
  qed
qed


lemma get_dist_state_less:
  assumes "2 \<le> unat l"
  shows "get_dist_state l < 4"
proof -
  have "unat (l - 2) = unat l - 2" using assms by (subst unat_sub) (auto simp: word_le_nat_alt)
  moreover have "l < 4 + 2 \<longleftrightarrow> unat l < 6" by (simp add: word_less_nat_alt)
  ultimately show ?thesis by (auto simp: get_dist_state_def)
qed

lemma bit_validate:
  assumes "loop_inv h n s d" "after_bit n d d'"
    and "ld_dict d'' = ld_dict d'" "ld_in_pos d'' = ld_in_pos d'" "keeps d' d''"
    and "coder_inv (full_of d) d' \<Longrightarrow> coder_inv (full_of d) d''" "ld_len d'' \<noteq> 0" "1 < pc_rank (ld_pc d) (ld_limit d)"
  shows "safe h n d (validate_distance d'')"
proof (rule validate_safe [OF assms(1)])
  note same = after_bit_same [OF assms(2)]
  show "ld_in_pos d \<le> ld_in_pos d''" "ld_in_pos d'' \<le> n" "ld_dict d'' = ld_dict d" using same assms(3,4) by auto
  show "keeps d d''" using assms(5) keeps_after_bit [OF assms(2)] by (simp add: keeps_def)
  show "coder_inv (full_of d) d''" using assms(6) after_bit_coder [OF assms(2) loop_invD(2) [OF assms(1)]] by simp
qed (rule assms)+

lemma lens_safe:
  assumes inv: "loop_inv h n s d" and pc: "ld_pc d = s" and s: "s = SEQ_MATCH_LEN p \<or> s = SEQ_REP_LEN p"
  shows "safe h n d (decoder_step inp n d)"
  using s
proof
  assume s: "s = SEQ_MATCH_LEN p"
  note inv' = loop_invD [OF inv [unfolded s]]
  have "safe h n d (len_decode inp n False SEQ_MATCH_LEN p d (\<lambda>d.
          go (SEQ_DIST_SLOT 0) (d\<lparr>ld_probs := Dist_slot_tree (get_dist_state (ld_len d)), ld_symbol := 1\<rparr>)))"
  proof (rule len_decode_safe [where seq = SEQ_MATCH_LEN, OF inv [unfolded s] _ _ _ pc [unfolded s]])
    fix d' l x assume d': "after_bit n d d'" and l: "2 \<le> unat (l :: u32)"
    let ?d = "d'\<lparr>ld_symbol := x, ld_len := l\<rparr>"
    have "l \<noteq> 0" using l by auto
    then show "safe h n d (go (SEQ_DIST_SLOT 0) (?d\<lparr>ld_probs := Dist_slot_tree (get_dist_state (ld_len ?d)), ld_symbol := 1\<rparr>))"
      by - (rule bit_go [OF inv d'], use after_bit_same [OF d'] get_dist_state_less [OF l] pc s in \<open>auto simp: keeps_def\<close>)
  qed (use inv'(3) in auto)
  then show ?thesis using pc s by (simp add: decoder_step_def)
next
  assume s: "s = SEQ_REP_LEN p"
  note inv' = loop_invD [OF inv [unfolded s]]
  have r: "rep_ok (full_of d) (rep0 d)" "0 < full_of d" "len_inv p (ld_symbol d)" using inv'(3) by auto
  have "safe h n d (len_decode inp n True SEQ_REP_LEN p d (go SEQ_COPY))"
  proof (rule len_decode_safe [where seq = SEQ_REP_LEN, OF inv [unfolded s] r(3) _ _ pc [unfolded s]])
    fix d' l x assume d': "after_bit n d d'" and l: "2 \<le> unat (l :: u32)"
    have "l \<noteq> 0" using l by auto
    then show "safe h n d (go SEQ_COPY (d'\<lparr>ld_symbol := x, ld_len := l\<rparr>))"
      by - (rule bit_go [OF inv d'], use after_bit_same [OF d'] r pc s in \<open>auto simp: keeps_def\<close>)
  qed (use r in auto)
  then show ?thesis using pc s by (simp add: decoder_step_def)
qed


lemma slot_model:
  fixes s :: u32
  assumes "4 \<le> unat s" "unat s < 14"
  shows "1 \<le> drop_bit 1 s - 1" "unat (drop_bit 1 s - 1) \<le> 5"
    "special_ok (Special_tree (int (unat (push_bit (unat (drop_bit 1 s - 1)) (2 + (s AND 1)))) - int (unat s) - 1))
       (unat (drop_bit 1 s - 1))"
proof -
  obtain k where k: "s = of_nat k" "4 \<le> k" "k < 14" using assms that [of "unat s"] by simp
  have "k = 4 \<or> k = 5 \<or> k = 6 \<or> k = 7 \<or> k = 8 \<or> k = 9 \<or> k = 10 \<or> k = 11 \<or> k = 12 \<or> k = 13" using k(2,3) by presburger
  then have "s \<in> {4, 5, 6, 7, 8, 9, 10, 11, 12, 13}" using k(1) by auto
  then show "1 \<le> drop_bit 1 s - 1" "unat (drop_bit 1 s - 1) \<le> 5"
    "special_ok (Special_tree (int (unat (push_bit (unat (drop_bit 1 s - 1)) (2 + (s AND 1)))) - int (unat s) - 1))
       (unat (drop_bit 1 s - 1))"
    by auto
qed

lemma slot_direct:
  fixes s :: u32
  assumes "14 \<le> unat s" "unat s < 64"
  shows "1 \<le> drop_bit 1 s - 1 - 4" "drop_bit 1 s - 1 - 4 \<le> 26"
proof -
  have d: "unat (drop_bit 1 s) = unat s div 2" by (simp add: drop_bit_eq_div unat_div)
  have "unat (drop_bit 1 s - 1 - 4) = unat s div 2 - 1 - 4"
    using assms d by (simp add: unat_sub_if_size word_size)
  then show "1 \<le> drop_bit 1 s - 1 - 4" "drop_bit 1 s - 1 - 4 \<le> 26" using assms by (auto simp: word_le_nat_alt)
qed

lemma dist_slot_safe:
  assumes inv: "loop_inv h n (SEQ_DIST_SLOT i) d" and pc: "ld_pc d = SEQ_DIST_SLOT i"
  shows "safe h n d (decoder_step inp n d)"
proof -
  note inv' = loop_invD [OF inv]
  have i: "i < 6" "tree_pos i (ld_symbol d)" "i < 30" and len: "ld_len d \<noteq> 0" and t: "dist_tree_ok (ld_probs d)"
    using inv'(3) by auto
  have "unat (ld_symbol d) < 2 ^ 6" using tree_pos_less [OF i(2,1)] .
  moreover obtain j where j: "ld_probs d = Dist_slot_tree j" "j < 4" using t by (cases "ld_probs d") auto
  ultimately obtain r where r: "tree_ref (ld_probs d) (ld_symbol d) = Some r" "probabilities d r \<noteq> None"
    using probs_ok_refs(7) [OF inv'(5), of j "unat (ld_symbol d)"] by auto
  show ?thesis
    unfolding decoder_step_def Let_def pc lzma_seq.case
  proof (rule rc_bit_safe [OF inv r(2,1) i(2,3)], goal_cases)
    case (1 b d' s)
    note d' = 1(1) and s = 1(2)
    note same = after_bit_same [OF d']
    let ?s = "s - 64"
    have go: "safe h n d (go (SEQ_DIST_SLOT (i + 1)) (d'\<lparr>ld_symbol := s\<rparr>))" if "i < 5"
      by (rule bit_go [OF inv d']) (use same i t s len pc that in \<open>auto simp: keeps_def\<close>)
    have v: "safe h n d (validate_distance (d'\<lparr>ld_symbol := ?s, rep0 := ?s\<rparr>))"
      by (rule bit_validate [OF inv d']) (use same len pc i in \<open>auto simp: keeps_def\<close>)
    have us: "unat ?s < 64" if "\<not> i < 5"
    proof -
      have "64 \<le> unat s" "unat s < 128" using s that i(1) by (cases "i = 5"; simp add: tree_pos_def)+
      then show ?thesis by (simp add: unat_sub_if_size word_size)
    qed
    have m: "safe h n d (go SEQ_DIST_MODEL (d'\<lparr>ld_limit := drop_bit 1 ?s - 1,
          rep0 := push_bit (unat (drop_bit 1 ?s - 1)) (2 + (?s AND 1)),
          ld_probs := Special_tree (int (unat (push_bit (unat (drop_bit 1 ?s - 1)) (2 + (?s AND 1)))) - int (unat ?s) - 1),
          ld_symbol := 1, ld_offset := 0\<rparr>))" if "\<not> ?s < 4" "?s < 14"
      by (rule bit_go [OF inv d'])
        (use same len pc i slot_model [of ?s] that in \<open>auto simp: keeps_def word_less_nat_alt unat_one_tree\<close>)
    have dr: "safe h n d (go SEQ_DIRECT (d'\<lparr>ld_symbol := ?s, ld_limit := drop_bit 1 ?s - 1 - 4, rep0 := 2 + (?s AND 1)\<rparr>))"
      if "\<not> ?s < 14" "\<not> i < 5"
    proof (rule bit_go [OF inv d'])
      have l: "1 \<le> drop_bit 1 ?s - 1 - 4" "drop_bit 1 ?s - 1 - 4 \<le> 26"
        using slot_direct [of ?s] us that by (auto simp: word_less_nat_alt)
      then show "pc_inv (full_of d) SEQ_DIRECT (d'\<lparr>ld_symbol := ?s, ld_limit := drop_bit 1 ?s - 1 - 4, rep0 := 2 + (?s AND 1)\<rparr>)"
        using same len by simp
      have "unat (drop_bit 1 ?s - 1 - 4) \<le> 26" using l(2) by (simp only: word_le_nat_alt) simp
      then show "pc_rank SEQ_DIRECT (ld_limit (d'\<lparr>ld_symbol := ?s, ld_limit := drop_bit 1 ?s - 1 - 4, rep0 := 2 + (?s AND 1)\<rparr>))
          < pc_rank (ld_pc d) (ld_limit d)" using pc i(1) by simp
    qed (use same in \<open>auto simp: keeps_def\<close>)
    show ?case
      using go v m dr by simp
  qed
qed


lemma limit_pred: "1 \<le> l \<Longrightarrow> unat (l - 1) = unat l - 1" for l :: u32
  by (subst unat_sub) auto

lemma dist_model_safe:
  assumes inv: "loop_inv h n SEQ_DIST_MODEL d" and pc: "ld_pc d = SEQ_DIST_MODEL"
  shows "safe h n d (decoder_step inp n d)"
proof -
  note inv' = loop_invD [OF inv]
  define off0 where "off0 = unat (ld_offset d)"
  define l where "l = unat (ld_limit d)"
  have lim: "1 \<le> ld_limit d" "off0 + l \<le> 5" "tree_pos off0 (ld_symbol d)" "special_ok (ld_probs d) (off0 + l)" and len: "ld_len d \<noteq> 0"
    using inv'(3) by (auto simp: off0_def l_def)
  have l: "1 \<le> l" using lim(1) by (simp add: l_def word_le_nat_alt)
  obtain base where base: "ld_probs d = Special_tree base" "-1 \<le> base" "base + 2 ^ (off0 + l) \<le> 114"
    using lim(4) by (cases "ld_probs d") auto
  have "unat (ld_symbol d) < 2 ^ (off0 + l)" "1 \<le> unat (ld_symbol d)"
    using tree_pos_less [OF lim(3), of "off0 + l"] l lim(3) by (auto simp: tree_pos_def intro: order_trans [of 1 "2 ^ off0"])
  then have "0 \<le> base + int (unat (ld_symbol d))" "base + int (unat (ld_symbol d)) < 114"
    using base(2,3) by (simp_all add: of_nat_less_iff [symmetric, where 'a = int] of_nat_le_iff [symmetric, where 'a = int]
        del: of_nat_less_iff of_nat_le_iff)
  then obtain r where r: "tree_ref (ld_probs d) (ld_symbol d) = Some r" "probabilities d r \<noteq> None"
    using probs_ok_refs(8) [OF inv'(5)] base(1) by auto
  have o30: "off0 < 30" using lim(2) by simp
  have off: "unat (ld_offset d + 1) = Suc off0" "unat (ld_limit d - 1) = l - 1"
    using lim(1,2) limit_pred [OF lim(1)] by (auto simp: off0_def l_def unat_word_ariths)
  show ?thesis
  proof (cases "ld_limit d \<in> {2, 3, 4, 5}")
    case True
    then have l2: "2 \<le> l" by (auto simp: l_def)
    have lim': "1 \<le> ld_limit d - 1" using off(2) l2 by (simp add: word_le_nat_alt)
    have "safe h n d (rc_bit inp n SEQ_DIST_MODEL (tree_ref (ld_probs d) (ld_symbol d)) d (\<lambda>b d.
              go SEQ_DIST_MODEL
                (d\<lparr>rep0 := (if b then rep0 d + (if ld_limit d = 5 then 1 else push_bit (unat (ld_offset d)) 1) else rep0 d),
                   ld_offset := ld_offset d + 1, ld_limit := ld_limit d - 1\<rparr>)))"
    proof (rule rc_bit_safe [OF inv r(2,1) lim(3) o30], goal_cases)
      case (1 b d' s)
      note same = after_bit_same [OF 1(1)]
      have "special_ok (ld_probs d) (Suc off0 + (l - 1))" using lim(4) l2 by simp
      then show ?case
        by - (rule bit_go [OF inv 1(1)],
            use same pc len lim' lim(2) l2 off 1(2) in \<open>auto simp: keeps_def l_def [symmetric]\<close>)
    qed
    then show ?thesis using True pc by (simp add: decoder_step_def)
  next
    case False
    have "l = 1"
    proof -
      have "l \<le> 5" "ld_limit d = of_nat l" using lim(2) by (auto simp: l_def)
      moreover from \<open>l \<le> 5\<close> have "l = 1 \<or> l = 2 \<or> l = 3 \<or> l = 4 \<or> l = 5" using l by presburger
      ultimately show ?thesis using False by auto
    qed
    then have l1: "ld_limit d = 1" by (metis l_def of_nat_1 of_nat_unat ucast_id)
    have "safe h n d (decode_bit inp n SEQ_DIST_MODEL (tree_ref (ld_probs d) (ld_symbol d)) d (\<lambda>b d.
              validate_distance (d\<lparr>rep0 := (if b then rep0 d + push_bit (unat (ld_offset d)) 1 else rep0 d)\<rparr>)))"
    proof (rule decode_bit_safe [OF inv r(2,1)], goal_cases)
      case (1 b d')
      show ?case by (rule bit_validate [OF inv 1]) (use after_bit_same [OF 1] pc len in \<open>auto simp: keeps_def\<close>)
    qed
    then show ?thesis using l1 pc by (simp add: decoder_step_def)
  qed
qed

lemma direct_safe:
  assumes inv: "loop_inv h n SEQ_DIRECT d" and pc: "ld_pc d = SEQ_DIRECT"
  shows "safe h n d (decoder_step inp n d)"
  unfolding decoder_step_def Let_def pc lzma_seq.case
proof (rule normalize_safe [OF inv], goal_cases)
  case (1 d')
  note inv' = loop_invD [OF inv]
  have l: "1 \<le> ld_limit d" "ld_limit d \<le> 26" "ld_len d \<noteq> 0" using inv'(3) by auto
  note same = after_bit_same [OF 1(1)]
  obtain rc rep where rc: "rc_direct (ld_rc d') (rep0 d') = (rc, rep)" by fastforce
  have ul: "unat (ld_limit d - 1) = unat (ld_limit d) - 1" "1 \<le> unat (ld_limit d)" "unat (ld_limit d) \<le> 26"
    using l limit_pred by (auto simp: word_le_nat_alt)
  have "safe h n d (go SEQ_DIRECT (d'\<lparr>ld_rc := rc, rep0 := rep, ld_limit := ld_limit d - 1\<rparr>))" if "ld_limit d - 1 > 0"
  proof (rule bit_go [OF inv 1(1)])
    have "1 \<le> ld_limit d - 1" "ld_limit d - 1 \<le> 26" using that ul by (auto simp: word_le_nat_alt word_less_nat_alt)
    then show "pc_inv (full_of d) SEQ_DIRECT (d'\<lparr>ld_rc := rc, rep0 := rep, ld_limit := ld_limit d - 1\<rparr>)" using l(3) same by simp
    show "pc_rank SEQ_DIRECT (ld_limit (d'\<lparr>ld_rc := rc, rep0 := rep, ld_limit := ld_limit d - 1\<rparr>)) < pc_rank (ld_pc d) (ld_limit d)"
      using pc ul by simp
  qed (use same in \<open>auto simp: keeps_def\<close>)
  moreover have "safe h n d (go (SEQ_ALIGN 0)
      (d'\<lparr>ld_rc := rc, ld_limit := ld_limit d - 1, rep0 := push_bit 4 rep, ld_symbol := 1\<rparr>))"
    by (rule bit_go [OF inv 1(1)]) (use same pc ul l in \<open>auto simp: keeps_def\<close>)
  ultimately show ?case using rc same by simp
qed

lemma align_safe:
  assumes inv: "loop_inv h n (SEQ_ALIGN i) d" and pc: "ld_pc d = SEQ_ALIGN i"
  shows "safe h n d (decoder_step inp n d)"
proof -
  note inv' = loop_invD [OF inv]
  have i: "i < 4" "tree_pos i (ld_symbol d)" "ld_len d \<noteq> 0" "i < 30" using inv'(3) by auto
  have "unat (ld_symbol d) < 16" using tree_pos_less [OF i(2,1)] by simp
  note r = probs_ok_refs(9) [OF inv'(5) this]
  show ?thesis
  proof (cases "i < 3")
    case True
    have "safe h n d (rc_bit inp n (SEQ_ALIGN i) (Some (Pos_align (unat (ld_symbol d)))) d (\<lambda>b d.
              go (SEQ_ALIGN (i + 1)) (d\<lparr>rep0 := (if b then rep0 d + push_bit i 1 else rep0 d)\<rparr>)))"
    proof (rule rc_bit_safe [OF inv r refl i(2,4)], goal_cases)
      case (1 b d' s)
      show ?case
        by (rule bit_go [OF inv 1(1)]) (use after_bit_same [OF 1(1)] pc i True 1(2) in \<open>auto simp: keeps_def\<close>)
    qed
    then show ?thesis using True pc by (simp add: decoder_step_def)
  next
    case False
    have "safe h n d (decode_bit inp n (SEQ_ALIGN i) (Some (Pos_align (unat (ld_symbol d)))) d (\<lambda>b d.
        let d = d\<lparr>rep0 := (if b then rep0 d + 8 else rep0 d)\<rparr>
        in if rep0 d = 0xFFFFFFFF then
              if uncompressed_left d \<noteq> LZMA_VLI_UNKNOWN then Ret (Out LZMA_DATA_ERROR d) else go SEQ_EOPM d
           else validate_distance d))"
    proof (rule decode_bit_safe [OF inv r refl], goal_cases)
      case (1 b d')
      note same = after_bit_same [OF 1]
      define x where "x = (if b then rep0 d' + 8 else rep0 d')"
      have "safe h n d (validate_distance (d'\<lparr>rep0 := x\<rparr>))"
        by (rule bit_validate [OF inv 1]) (use same pc i in \<open>auto simp: keeps_def\<close>)
      moreover have "safe h n d (Ret (Out LZMA_DATA_ERROR (d'\<lparr>rep0 := x\<rparr>)))"
        by (rule safe_error) (use same inv'(1) in \<open>auto simp: keeps_def\<close>)
      moreover have "safe h n d (go SEQ_EOPM (d'\<lparr>rep0 := x\<rparr>))" if "uncompressed_left d' = LZMA_VLI_UNKNOWN"
        by (rule bit_go [OF inv 1]) (use same pc i that in \<open>auto simp: keeps_def\<close>)
      ultimately show ?case by (auto simp: Let_def x_def [symmetric])
    qed
    then show ?thesis using False pc by (simp add: decoder_step_def Let_def)
  qed
qed

lemma eopm_safe:
  assumes inv: "loop_inv h n SEQ_EOPM d" and pc: "ld_pc d = SEQ_EOPM"
  shows "safe h n d (decoder_step inp n d)"
  unfolding decoder_step_def Let_def pc lzma_seq.case
proof (rule normalize_safe [OF inv], goal_cases)
  case (1 d')
  then show ?case using after_bit_same [OF 1(1)] keeps_after_bit [OF 1(1)] loop_invD [OF inv]
    by (auto simp: safe_def safe_result_def intro!: exI [of _ "[]"])
qed

lemma reps_safe:
  assumes inv: "loop_inv h n s d" and pc: "ld_pc d = s" and s: "s \<in> {SEQ_IS_REP0, SEQ_IS_REP0_LONG, SEQ_IS_REP1, SEQ_IS_REP2}"
  shows "safe h n d (decoder_step inp n d)"
proof -
  note inv' = loop_invD [OF inv]
  have r: "rep_ok (full_of d) (rep0 d)" "0 < full_of d" using inv'(3) s by auto
  have reps: "rep_ok (full_of d) (rep1 d)" "rep_ok (full_of d) (rep2 d)" "rep_ok (full_of d) (rep3 d)"
    using inv'(2) by (auto simp: coder_inv_def)
  note p = probs_ok_refs(2,4,5,6) [OF inv'(5,6)]
  have rank: "380 \<ge> pc_rank s (ld_limit d)" "350 \<le> pc_rank s (ld_limit d)" using s by auto
  have long: "safe h n d (go (SEQ_REP_LEN CHOICE) (d'\<lparr>rep3 := c, rep2 := b, rep1 := a, rep0 := x,
      ld_state := update_long_rep (ld_state d'), ld_symbol := 1\<rparr>))"
    if d': "after_bit n d d'" and "rep_ok (full_of d) x" "rep_ok (full_of d) a" "rep_ok (full_of d) b" "rep_ok (full_of d) c"
    for d' x a b c
    by (rule bit_go [OF inv d'])
      (use after_bit_same [OF d'] that r rank pc in \<open>auto simp: keeps_def coder_inv_def update_long_rep_def\<close>)
  note long' = long [of d' "rep0 d'" "rep1 d'" "rep2 d'" "rep3 d'" for d', simplified]
    long [of d' "rep1 d'" "rep0 d'" "rep2 d'" "rep3 d'" for d', simplified]
    long [of d' "rep2 d'" "rep0 d'" "rep1 d'" "rep3 d'" for d', simplified]
    long [of d' "rep3 d'" "rep0 d'" "rep1 d'" "rep2 d'" for d', simplified]
  have go: "safe h n d (go q d')" if "after_bit n d d'" "q \<in> {SEQ_IS_REP0_LONG, SEQ_IS_REP1, SEQ_IS_REP2}"
      "pc_rank q (ld_limit d) < pc_rank s (ld_limit d)" for q d'
    by (rule bit_go [OF inv that(1)]) (use after_bit_same [OF that(1)] that r pc in auto)
  consider "s = SEQ_IS_REP0" | "s = SEQ_IS_REP0_LONG" | "s = SEQ_IS_REP1" | "s = SEQ_IS_REP2" using s by blast
  then show ?thesis
  proof cases
    case 1
    have "safe h n d (decode_bit inp n SEQ_IS_REP0 (Some (Is_rep0 (ld_state d))) d (\<lambda>b d.
          if \<not> b then go SEQ_IS_REP0_LONG d else go SEQ_IS_REP1 d))"
      by (rule decode_bit_safe [OF inv [unfolded 1] p(2) refl]) (use go 1 in simp)
    then show ?thesis using pc 1 by (simp add: decoder_step_def cong: if_cong)
  next
    case 2
    have "safe h n d (go SEQ_SHORTREP (d'\<lparr>ld_state := update_short_rep (ld_state d')\<rparr>))" if d': "after_bit n d d'" for d'
      by (rule bit_go [OF inv d'])
        (use after_bit_same [OF d'] r rank pc in \<open>auto simp: keeps_def coder_inv_def update_short_rep_def\<close>)
    then have "safe h n d (decode_bit inp n SEQ_IS_REP0_LONG (Some (Is_rep0_long (ld_state d) (pos_state d))) d (\<lambda>b d.
          if \<not> b then go SEQ_SHORTREP (d\<lparr>ld_state := update_short_rep (ld_state d)\<rparr>)
          else go (SEQ_REP_LEN CHOICE) (d\<lparr>ld_state := update_long_rep (ld_state d), ld_symbol := 1\<rparr>)))"
      by - (rule decode_bit_safe [OF inv [unfolded 2] p(1) refl], use long'(1) r reps after_bit_same in simp)
    then show ?thesis using pc 2 by (simp add: decoder_step_def cong: if_cong)
  next
    case 3
    have "safe h n d (decode_bit inp n SEQ_IS_REP1 (Some (Is_rep1 (ld_state d))) d (\<lambda>b d.
          if \<not> b then go (SEQ_REP_LEN CHOICE)
            (d\<lparr>rep1 := rep0 d, rep0 := rep1 d, ld_state := update_long_rep (ld_state d), ld_symbol := 1\<rparr>)
          else go SEQ_IS_REP2 d))"
      by (rule decode_bit_safe [OF inv [unfolded 3] p(3) refl]) (use long'(2) go 3 r reps after_bit_same in simp)
    then show ?thesis using pc 3 by (simp add: decoder_step_def cong: if_cong)
  next
    case 4
    have "safe h n d (decode_bit inp n SEQ_IS_REP2 (Some (Is_rep2 (ld_state d))) d (\<lambda>b d.
          if \<not> b then go (SEQ_REP_LEN CHOICE) (d\<lparr>rep2 := rep1 d, rep1 := rep0 d, rep0 := rep2 d,
            ld_state := update_long_rep (ld_state d), ld_symbol := 1\<rparr>)
          else go (SEQ_REP_LEN CHOICE) (d\<lparr>rep3 := rep2 d, rep2 := rep1 d, rep1 := rep0 d, rep0 := rep3 d,
            ld_state := update_long_rep (ld_state d), ld_symbol := 1\<rparr>)))"
      by (rule decode_bit_safe [OF inv [unfolded 4] p(4) refl]) (use long'(3,4) r reps after_bit_same in simp)
    then show ?thesis using pc 4 by (simp add: decoder_step_def cong: if_cong)
  qed
qed

lemma decoder_step_safe:
  assumes inv: "loop_inv h n (ld_pc d) d"
  shows "safe h n d (decoder_step inp n d)"
proof (cases "ld_pc d")
  case SEQ_COPY
  then show ?thesis using copy_safe inv by metis
qed (use inv is_match_safe literal_safe literal_matched_safe writes_safe is_rep_safe lens_safe dist_slot_safe
    dist_model_safe direct_safe align_safe eopm_safe reps_safe in auto)


section \<open>The whole call\<close>

lemma keeps_trans: "keeps a b \<Longrightarrow> keeps b c \<Longrightarrow> keeps a c"
  by (simp add: keeps_def)

lemma run_safe:
  assumes "loop_inv h n (ld_pc d) d"
  shows "\<exists>ret d'. decoder_run inp n d = Some (Ret (ret, d')) \<and> safe_result h n d (Out ret d')"
  using assms
proof (induction "loop_measure d" arbitrary: h d rule: less_induct)
  case less
  obtain x where x: "decoder_step inp n d = Ret x" "safe_result h n d x"
    using decoder_step_safe [OF less.prems, of inp] by (auto simp: safe_def)
  show ?case
  proof (cases x)
    case (Out ret d')
    then show ?thesis using x by (subst decoder_run.simps) simp
  next
    case (Go d1)
    then obtain h1 where h1: "loop_inv (h @ h1) n (ld_pc d1) d1" "dict_pos (ld_dict d1) = dict_pos (ld_dict d) + length h1"
      and k: "keeps d d1" "ld_in_pos d \<le> ld_in_pos d1" "loop_measure d1 < loop_measure d"
      using x(2) by (auto simp: safe_result_def)
    obtain ret d' where d': "decoder_run inp n d1 = Some (Ret (ret, d'))" "safe_result (h @ h1) n d1 (Out ret d')"
      using less.hyps [OF k(3) h1(1)] by blast
    then obtain h' where "dict_inv (h @ h1 @ h') (ld_dict d')" "dict_pos (ld_dict d') = dict_pos (ld_dict d1) + length h'"
      "ret = LZMA_OK \<longrightarrow> loop_inv (h @ h1 @ h') n (ld_sequence d') d'" by (auto simp: safe_result_def)
    then have "safe_result h n d (Out ret d')"
      using d'(2) k(1,2) h1(2) keeps_trans [OF k(1)] by (auto simp: safe_result_def intro!: exI [of _ "h1 @ h'"])
    then show ?thesis using x Go d'(1) by (subst decoder_run.simps) simp
  qed
qed

text \<open>The state of a coder between calls, with \<open>full\<close> bytes in the dictionary.\<close>

definition lzma_coder_ok :: "nat \<Rightarrow> lzma_lzma1_decoder \<Rightarrow> bool" where
  "lzma_coder_ok full coder \<longleftrightarrow> coder_inv full coder \<and> pc_inv full (ld_sequence coder) coder"

lemma read_init_io:
  "rc_read_init rc inp p n = (ret, rc', p') \<Longrightarrow> p \<le> n \<Longrightarrow>
   p \<le> p' \<and> p' \<le> n \<and> ret \<in> {LZMA_OK, LZMA_DATA_ERROR, LZMA_STREAM_END} \<and> (ret = LZMA_OK \<longrightarrow> p' = n)"
proof (induction rc inp p n rule: rc_read_init.induct)
  case (1 rc inp p n)
  show ?case
  proof (cases "init_bytes_left rc > 0 \<and> p \<noteq> n \<and> \<not> (init_bytes_left rc = 5 \<and> inp ! p \<noteq> 0)")
    case True
    then show ?thesis using "1.IH" "1.prems" by (simp add: rc_read_init.simps [of rc inp p n] split: if_splits)
  next
    case False
    then show ?thesis using "1.prems" by (auto simp: rc_read_init.simps [of rc inp p n] split: if_splits)
  qed
qed

lemma extend_inv:
  fixes c :: lzma_lzma1_decoder
  assumes e_def: "e = lzma_lzma1_decoder.extend c (decoder_locals.fields dict i pc)"
  shows "coder_inv full e = coder_inv full c" "pc_inv full seq e = pc_inv full seq c"
    "ld_dict e = dict" "ld_in_pos e = i" "ld_pc e = pc" "uncompressed_left e = uncompressed_left c"
    "ld_sequence e = ld_sequence c" "ld_rc e = ld_rc c"
proof -
  show "coder_inv full e = coder_inv full c"
    by (simp add: coder_inv_def probs_ok_def e_def lzma_lzma1_decoder.defs decoder_locals.defs)
  show "pc_inv full seq e = pc_inv full seq c"
    by (cases seq) (simp_all add: e_def lzma_lzma1_decoder.defs decoder_locals.defs)
qed (simp_all add: e_def lzma_lzma1_decoder.defs decoder_locals.defs)

lemma truncate_inv:
  fixes d :: decoder_locals
  shows "coder_inv full (lzma_lzma1_decoder.truncate d) = coder_inv full d"
    "pc_inv full seq (lzma_lzma1_decoder.truncate d) = pc_inv full seq d"
    "uncompressed_left (lzma_lzma1_decoder.truncate d) = uncompressed_left d"
    "ld_sequence (lzma_lzma1_decoder.truncate d) = ld_sequence d" "ld_rc (lzma_lzma1_decoder.truncate d) = ld_rc d"
proof -
  show "coder_inv full (lzma_lzma1_decoder.truncate d) = coder_inv full d"
    by (simp add: coder_inv_def probs_ok_def lzma_lzma1_decoder.defs)
  show "pc_inv full seq (lzma_lzma1_decoder.truncate d) = pc_inv full seq d"
    by (cases seq) (simp_all add: lzma_lzma1_decoder.defs)
qed (simp_all add: lzma_lzma1_decoder.defs)

lemma limit_dict_inv:
  assumes "dict_inv h dict"
  shows "dict_inv h (limit_dict u dict)" "dict_full (limit_dict u dict) = dict_full dict"
    "dict_pos (limit_dict u dict) = dict_pos dict" "dict_limit (limit_dict u dict) \<le> dict_limit dict"
    "dict_length (limit_dict u dict) = dict_length dict" "need_reset (limit_dict u dict) = need_reset dict"
    "u \<noteq> LZMA_VLI_UNKNOWN \<Longrightarrow> dict_limit (limit_dict u dict) \<le> dict_pos dict + unat u"
  using assms by (auto simp: limit_dict_def dict_inv_def dict_rel_def)

lemma coder_ok_update:
  fixes c :: lzma_lzma1_decoder
  shows "coder_inv full (c\<lparr>uncompressed_left := u\<rparr>) = coder_inv full c" "coder_inv full (c\<lparr>ld_rc := rc\<rparr>) = coder_inv full c"
    "pc_inv full seq (c\<lparr>ld_rc := rc\<rparr>) = pc_inv full seq c"
    "uncompressed_left c \<noteq> LZMA_VLI_UNKNOWN \<Longrightarrow> pc_inv full seq c \<Longrightarrow> pc_inv full seq (c\<lparr>uncompressed_left := u\<rparr>)"
  by (simp_all add: coder_inv_def probs_ok_def) (cases seq; simp)+

text \<open>The code at \<open>out\<close>, after a run that is safe.\<close>

lemma decoder_out_safe:
  assumes r: "safe_result h n d0 (Out ret d')" and dict: "dict_inv h dict" and d0: "ld_dict d0 = limit_dict u dict"
    "uncompressed_left d0 = u" "ld_in_pos d0 = i"
    and out: "decoder_out dict (dict_pos dict) ret d' = (ret', coder', dict', in_pos')"
  shows "\<exists>h'. dict_inv (h @ h') dict' \<and> dict_pos dict' = dict_pos dict + length h' \<and> dict_limit dict' = dict_limit dict
     \<and> (u \<noteq> LZMA_VLI_UNKNOWN \<longrightarrow> length h' \<le> unat u \<and> uncompressed_left coder' = u - of_nat (length h'))
     \<and> i \<le> in_pos' \<and> in_pos' \<le> n \<and> ret' \<in> {LZMA_OK, LZMA_DATA_ERROR, LZMA_STREAM_END}
     \<and> (ret' = LZMA_OK \<or> ret' = LZMA_STREAM_END \<and> u \<noteq> LZMA_VLI_UNKNOWN \<longrightarrow> lzma_coder_ok (dict_full dict') coder')
     \<and> (ret' = LZMA_OK \<longrightarrow> in_pos' = n \<or> dict_pos dict' = dict_limit dict)"
proof -
  note lim = limit_dict_inv [OF dict]
  obtain h' where h': "dict_inv (h @ h') (ld_dict d')" "dict_pos (ld_dict d') = dict_pos dict + length h'"
    and ok: "ret = LZMA_OK \<Longrightarrow> loop_inv (h @ h') n (ld_sequence d') d'"
    and k: "keeps d0 d'" "i \<le> ld_in_pos d'" "ld_in_pos d' \<le> n" "ret \<in> {LZMA_OK, LZMA_DATA_ERROR, LZMA_STREAM_END}"
      "ret = LZMA_STREAM_END \<Longrightarrow> uncompressed_left d' = LZMA_VLI_UNKNOWN"
      "ret = LZMA_OK \<Longrightarrow> ld_in_pos d' = n \<or> dict_pos (ld_dict d') = dict_limit (ld_dict d') \<and> ld_sequence d' \<noteq> SEQ_NORMALIZE"
    using r d0 lim(3) by (auto simp: safe_result_def)
  have u: "uncompressed_left d' = u" and len: "dict_length (ld_dict d') = dict_length dict"
    and dl: "dict_limit (ld_dict d') = dict_limit (limit_dict u dict)"
    using k(1) d0 lim by (auto simp: keeps_def)
  define c where "c = lzma_lzma1_decoder.truncate d'"
  have c: "uncompressed_left c = u" "ld_sequence c = ld_sequence d'" "ld_rc c = ld_rc d'" by (simp_all add: c_def truncate_inv u)
  have cok: "coder_inv (dict_full (ld_dict d')) c" "pc_inv (dict_full (ld_dict d')) (ld_sequence c) c" if "ret = LZMA_OK"
    using ok [OF that] by (auto simp: c_def truncate_inv loop_inv_def)
  define dict1 where "dict1 = dict\<lparr>dict_buf := dict_buf (ld_dict d'), dict_pos := dict_pos (ld_dict d'), dict_full := dict_full (ld_dict d')\<rparr>"
  have "dict_pos (ld_dict d') \<le> dict_limit dict" using h'(1) dl lim(4) [of u] by (simp add: dict_inv_def)
  then have d1: "dict_inv (h @ h') dict1" "dict_pos dict1 = dict_pos dict + length h'" "dict_limit dict1 = dict_limit dict"
    "dict_full dict1 = dict_full (ld_dict d')"
    using h' len dict by (auto simp: dict1_def dict_inv_def dict_rel_def)
  have room: "u \<noteq> LZMA_VLI_UNKNOWN \<Longrightarrow> length h' \<le> unat u"
    using h' dl lim(7) [of u] by (auto simp: dict_inv_def)
  define left where "left = u - of_nat (dict_pos (ld_dict d') - dict_pos dict)"
  have left: "left = u - of_nat (length h')" using h'(2) by (simp add: left_def)
  have stuck: "ld_in_pos d' = n \<or> dict_pos dict1 = dict_limit dict" if "ret = LZMA_OK" "u = LZMA_VLI_UNKNOWN \<or> left \<noteq> 0"
  proof -
    have "u \<noteq> LZMA_VLI_UNKNOWN \<Longrightarrow> dict_pos (ld_dict d') \<noteq> dict_pos dict + unat u"
      using that(2) h'(2) left by auto
    then show ?thesis using k(6) [OF that(1)] d1(2) h'(2) dl by (auto simp: limit_dict_def split: if_splits)
  qed
  define c1 where "c1 = (if u \<noteq> LZMA_VLI_UNKNOWN then c\<lparr>uncompressed_left := left\<rparr> else c)"
  have c1: "ld_sequence c1 = ld_sequence d'" "u \<noteq> LZMA_VLI_UNKNOWN \<Longrightarrow> uncompressed_left c1 = left"
    by (simp_all add: c1_def c)
  have c1ok: "coder_inv (dict_full dict1) (c1\<lparr>ld_rc := rc\<rparr>)" "pc_inv (dict_full dict1) (ld_sequence d') (c1\<lparr>ld_rc := rc\<rparr>)"
    "lzma_coder_ok (dict_full dict1) c1" if "ret = LZMA_OK" for rc
    using cok [OF that] c d1(4) by (auto simp: c1_def coder_ok_update lzma_coder_ok_def)
  define ret1 where "ret1 = (if u \<noteq> LZMA_VLI_UNKNOWN \<and> left = 0 \<and> ret = LZMA_OK \<and> ld_sequence d' \<noteq> SEQ_NORMALIZE
      then if ld_sequence d' = SEQ_IS_MATCH then LZMA_STREAM_END else LZMA_DATA_ERROR else ret)"
  have o: "decoder_out dict (dict_pos dict) ret d' =
      (if ret1 = LZMA_STREAM_END
       then (if \<not> rc_is_finished (ld_rc c1) then LZMA_DATA_ERROR else ret1, c1\<lparr>ld_rc := rc_reset (ld_rc c1)\<rparr>, dict1, ld_in_pos d')
       else (ret1, c1, dict1, ld_in_pos d'))"
    unfolding decoder_out_def Let_def c_def [symmetric] dict1_def [symmetric] c(1) left_def [symmetric] c1_def [symmetric]
      c1(1) ret1_def [symmetric] by (rule refl)
  have end_ok: "lzma_coder_ok (dict_full dict1) (c1\<lparr>ld_rc := rc_reset (ld_rc c1)\<rparr>)"
    if "ret1 = LZMA_STREAM_END" "u \<noteq> LZMA_VLI_UNKNOWN"
  proof -
    have "ret = LZMA_OK" using that k(5) u by (auto simp: ret1_def split: if_splits)
    then show ?thesis using c1ok c1(1) by (simp add: lzma_coder_ok_def)
  qed
  have normal: "ld_in_pos d' = n \<or> dict_pos dict1 = dict_limit dict" if "ret1 = LZMA_OK"
  proof (cases "u = LZMA_VLI_UNKNOWN \<or> left \<noteq> 0")
    case True
    then show ?thesis using stuck that by (auto simp: ret1_def split: if_splits)
  next
    case False
    then have "ret = LZMA_OK" "ld_sequence d' = SEQ_NORMALIZE" using that by (auto simp: ret1_def split: if_splits)
    then show ?thesis using k(6) by simp
  qed
  show ?thesis
    by (rule exI [of _ h']) (use out o d1 room left c1 k end_ok normal c1ok(3) in \<open>auto simp: ret1_def split: if_splits\<close>)
qed

lemma lzma_decode_returns:
  assumes "dict_inv h dict" "lzma_coder_ok (dict_full dict) coder" "in_pos \<le> in_size" "in_size \<le> length inp"
  shows "\<exists>ret coder' dict' in_pos' h'.
     lzma_decode coder dict inp in_pos in_size = Ret (ret, coder', dict', in_pos')
     \<and> dict_inv (h @ h') dict' \<and> dict_pos dict' = dict_pos dict + length h' \<and> dict_limit dict' = dict_limit dict
     \<and> (uncompressed_left coder \<noteq> LZMA_VLI_UNKNOWN \<longrightarrow>
          length h' \<le> unat (uncompressed_left coder) \<and> uncompressed_left coder' = uncompressed_left coder - of_nat (length h'))
     \<and> in_pos \<le> in_pos' \<and> in_pos' \<le> in_size \<and> ret \<in> {LZMA_OK, LZMA_DATA_ERROR, LZMA_STREAM_END}
     \<and> (ret = LZMA_OK \<or> ret = LZMA_STREAM_END \<and> uncompressed_left coder \<noteq> LZMA_VLI_UNKNOWN \<longrightarrow> lzma_coder_ok (dict_full dict') coder')
     \<and> (ret = LZMA_OK \<longrightarrow> in_pos' = in_size \<or> dict_pos dict' = dict_limit dict)"
proof -
  let ?n = in_size
  obtain ret0 rc i where init: "rc_read_init (ld_rc coder) inp in_pos ?n = (ret0, rc, i)" by (metis prod_cases3)
  note io = read_init_io [OF init assms(3)]
  let ?c = "coder\<lparr>ld_rc := rc\<rparr>"
  have c: "lzma_coder_ok (dict_full dict) ?c" "uncompressed_left ?c = uncompressed_left coder"
    using assms(2) by (simp_all add: lzma_coder_ok_def coder_ok_update)
  show ?thesis
  proof (cases "ret0 = LZMA_STREAM_END")
    case False
    then have "lzma_decode coder dict inp in_pos ?n = Ret (ret0, ?c, dict, i)" by (simp add: lzma_decode_def init)
    then show ?thesis using io c assms(1) False
      by (intro exI [of _ ret0] exI [of _ ?c] exI [of _ dict] exI [of _ i] exI [of _ "[]"]) auto
  next
    case True
    define d0 where "d0 = lzma_lzma1_decoder.extend ?c
      (decoder_locals.fields (limit_dict (uncompressed_left coder) dict) i (ld_sequence coder))"
    note ext = extend_inv [OF d0_def]
    note lim = limit_dict_inv [OF assms(1), of "uncompressed_left coder"]
    have "loop_inv h ?n (ld_pc d0) d0" using lim(1,2) io c(1) ext by (simp add: loop_inv_def lzma_coder_ok_def)
    then obtain ret d' where d': "decoder_run inp ?n d0 = Some (Ret (ret, d'))" "safe_result h ?n d0 (Out ret d')"
      using run_safe by blast
    obtain ret' coder' dict' in_pos' where out: "decoder_out dict (dict_pos dict) ret d' = (ret', coder', dict', in_pos')"
      by (metis prod_cases4)
    have "lzma_decode coder dict inp in_pos ?n = Ret (ret', coder', dict', in_pos')"
      using True d'(1) out by (simp add: lzma_decode_def init d0_def)
    moreover have "in_pos \<le> i" using io by simp
    ultimately show ?thesis
      using decoder_out_safe [OF d'(2) assms(1) ext(3) _ ext(4) out] ext(6) c(2) by fastforce
  qed
qed

text \<open>The length of the dictionary and its pending reset are not touched.\<close>

lemma decoder_out_dict:
  assumes "decoder_out dict start ret d = (ret', coder', dict', in_pos')"
  shows "dict_length dict' = dict_length dict \<and> need_reset dict' = need_reset dict"
proof -
  have "fst (snd (snd (decoder_out dict start ret d))) =
      dict\<lparr>dict_buf := dict_buf (ld_dict d), dict_pos := dict_pos (ld_dict d), dict_full := dict_full (ld_dict d)\<rparr>"
    by (simp add: decoder_out_def Let_def)
  then show ?thesis using assms by auto
qed

lemma lzma_decode_dict:
  assumes "lzma_decode coder dict inp in_pos in_size = Ret (ret, coder', dict', in_pos')"
  shows "dict_length dict' = dict_length dict \<and> need_reset dict' = need_reset dict"
proof -
  obtain ret0 rc i where init: "rc_read_init (ld_rc coder) inp in_pos in_size = (ret0, rc, i)" by (metis prod_cases3)
  show ?thesis
    using assms decoder_out_dict [of dict "dict_pos dict"] unfolding lzma_decode_def init Let_def prod.case
    by (auto simp: bindR_Ret_iff split: if_splits option.splits)
qed

text \<open>
  C36: safety of the LZMA decoder. Given a decoder between calls and a dictionary, \<open>lzma_decode\<close> on
  arbitrary input returns: it does not loop for ever, and reads neither outside of its probability arrays
  or an entry that was not initialised, nor outside of the dictionary. It only appends bytes to the
  history, at most as many as the limit of the dictionary and the known uncompressed size allow, stays
  inside its input, and unless it reports an error or the end it is in such a state again, with the whole
  input read or the room in the dictionary used up.
\<close>

theorem lzma_decode_safe:
  assumes "dict_inv h dict" "lzma_coder_ok (dict_full dict) coder" "in_pos \<le> in_size" "in_size \<le> length inp"
  shows "\<exists>ret coder' dict' in_pos' h'.
     lzma_decode coder dict inp in_pos in_size = Ret (ret, coder', dict', in_pos')
     \<and> dict_inv (h @ h') dict' \<and> dict_pos dict' = dict_pos dict + length h' \<and> dict_limit dict' = dict_limit dict
     \<and> (uncompressed_left coder \<noteq> LZMA_VLI_UNKNOWN \<longrightarrow>
          length h' \<le> unat (uncompressed_left coder) \<and> uncompressed_left coder' = uncompressed_left coder - of_nat (length h'))
     \<and> in_pos \<le> in_pos' \<and> in_pos' \<le> in_size \<and> ret \<in> {LZMA_OK, LZMA_DATA_ERROR, LZMA_STREAM_END}
     \<and> (ret = LZMA_OK \<or> ret = LZMA_STREAM_END \<and> uncompressed_left coder \<noteq> LZMA_VLI_UNKNOWN \<longrightarrow> lzma_coder_ok (dict_full dict') coder')
     \<and> (ret = LZMA_OK \<longrightarrow> in_pos' = in_size \<or> dict_pos dict' = dict_limit dict)"
  using assms by (rule lzma_decode_returns)

lemma reset_coder_ok:
  assumes "is_lclppb_valid options"
  shows "lzma_coder_ok full (lzma_decoder_reset coder options)"
proof -
  have v: "unat (opt_lc options) \<le> 4" "unat (opt_lp options) \<le> 4" "unat (opt_lc options + opt_lp options) \<le> 4" "unat (opt_pb options) \<le> 4"
    using assms by (simp_all add: is_lclppb_valid_def word_le_nat_alt)
  then have "unat (opt_lc options) + unat (opt_lp options) \<le> 4" by (simp add: unat_word_ariths)
  then have "probs_ok (lzma_decoder_reset coder options)"
    unfolding probs_ok_def using v(4)
    by (intro exI [of _ "opt_lp options"] exI [of _ "opt_pb options"]) (simp add: lzma_decoder_reset_def)
  then show ?thesis by (simp add: lzma_coder_ok_def coder_inv_def lzma_decoder_reset_def rep_ok_def)
qed


definition example_decoder :: lzma_lzma1_decoder where
  "example_decoder = \<lparr>probabilities = (\<lambda>_. None), ld_rc = \<lparr>rc_range = 0, rc_code = 0, init_bytes_left = 0\<rparr>, ld_state = 0,
     rep0 = 0, rep1 = 0, rep2 = 0, rep3 = 0, pos_mask = 0, literal_context_bits = 0, literal_pos_mask = 0,
     uncompressed_left = LZMA_VLI_UNKNOWN, ld_sequence = SEQ_IS_MATCH, ld_probs = Null_tree, ld_symbol = 0, ld_limit = 0,
     ld_offset = 0, ld_len = 0\<rparr>"

definition example_lzma_options :: lzma_options_lzma where
  "example_lzma_options = \<lparr>dict_size = 4096, preset_dict = None, preset_dict_size = 0, opt_lc = 3, opt_lp = 0, opt_pb = 2\<rparr>"

theorem lzma_decode_safe_witness:
  "\<exists>ret coder' dict' in_pos' h'.
     lzma_decode (lzma_decoder_reset example_decoder example_lzma_options) example_dict [0, 1, 2, 3, 4, 5, 6, 7] 0 8
       = Ret (ret, coder', dict', in_pos')
     \<and> dict_inv ([1, 2, 3, 4, 5, 6] @ h') dict' \<and> in_pos' \<le> 8"
proof -
  have "dict_inv [1, 2, 3, 4, 5, 6] example_dict" using example_dict_rel by (simp add: dict_inv_def example_dict_def)
  moreover have "lzma_coder_ok (dict_full example_dict) (lzma_decoder_reset example_decoder example_lzma_options)"
    by (rule reset_coder_ok) (simp add: is_lclppb_valid_def example_lzma_options_def)
  ultimately show ?thesis
    using lzma_decode_safe [of "[1, 2, 3, 4, 5, 6]" example_dict _ 0 8 "[0, 1, 2, 3, 4, 5, 6, 7]"] by fastforce
qed

end
