(* ===== verification/Lz_Decoder.thy ===== *)
theory Lz_Decoder
  imports Lzma_Safe
begin

text \<open>
  The LZ decoder (\<open>lz/lz_decoder.c\<close>): it lends the dictionary to an LZ-based decoder (LZMA or LZMA2), takes
  what was decoded over to the output, and wraps or resets the dictionary. The decoder that it drives is a
  record of functions in the source; the locale \<open>lz_decoder\<close> is what it has to promise.
\<close>

section \<open>Data\<close>

text \<open>\<open>lzma_lz_decoder.code\<close>: the coder, the dictionary, the input with the position in it and its size.\<close>

type_synonym 'c lz_code = "'c \<Rightarrow> lzma_dict \<Rightarrow> u8 list \<Rightarrow> nat \<Rightarrow> nat \<Rightarrow> (lzma_ret \<times> 'c \<times> lzma_dict \<times> nat) res"

record lzma_lz_options =
  lz_dict_size :: nat
  lz_preset_dict :: "u8 list option"
  lz_preset_dict_size :: nat

text \<open>\<open>lzma_coder\<close>, with the state \<open>lz_lz\<close> of the LZ-based decoder, if it is allocated, and the state \<open>lz_next\<close> of the next filter.\<close>

record ('c, 'n) lzma_coder =
  lz_dict :: lzma_dict
  lz_lz :: "'c option"
  lz_next :: 'n
  next_finished :: bool
  this_finished :: bool
  temp_pos :: nat
  temp_size :: nat
  temp_buffer :: "u8 list"

abbreviation (input) LZMA_BUFFER_SIZE :: nat where "LZMA_BUFFER_SIZE \<equiv> 4096"
abbreviation (input) SIZE_MAX :: nat where "SIZE_MAX \<equiv> 0xFFFFFFFFFFFFFFFF"

section \<open>Operations\<close>

definition lz_decoder_reset :: "lzma_dict \<Rightarrow> lzma_dict" where
  "lz_decoder_reset dict =
     dict\<lparr>dict_pos := 0, dict_full := 0, dict_buf := (dict_buf dict)[dict_length dict - 1 := 0], need_reset := False\<rparr>"

text \<open>One round of the loop of \<open>decode_buffer\<close> before the call: the dictionary wraps and gets its limit.\<close>

definition lend_dict :: "nat \<Rightarrow> lzma_dict \<Rightarrow> lzma_dict" where
  "lend_dict out_avail dict =
     (let dict = (if dict_pos dict = dict_length dict then dict\<lparr>dict_pos := 0\<rparr> else dict)
      in dict\<lparr>dict_limit := dict_pos dict + min out_avail (dict_length dict - dict_pos dict)\<rparr>)"

partial_function (option) lz_decode_buffer ::
    "'c lz_code \<Rightarrow> ('c, 'n) lzma_coder \<Rightarrow> u8 list \<Rightarrow> nat \<Rightarrow> nat \<Rightarrow> u8 list \<Rightarrow> nat
     \<Rightarrow> (lzma_ret \<times> ('c, 'n) lzma_coder \<times> nat \<times> u8 list \<times> nat) res option" where
  "lz_decode_buffer code coder inp in_pos in_size out out_pos =
     (let dict = lend_dict (length out - out_pos) (lz_dict coder); dict_start = dict_pos dict
      in case (case lz_lz coder of None \<Rightarrow> Crash | Some lz \<Rightarrow> code lz dict inp in_pos in_size) of
           Ret (ret, lz, dict, in_pos) \<Rightarrow>
             let copy_size = dict_pos dict - dict_start;
                 out = write_at out_pos (segment dict_start (dict_start + copy_size) (dict_buf dict)) out;
                 out_pos = out_pos + copy_size
             in if need_reset dict then
                  let coder = coder\<lparr>lz_lz := Some lz, lz_dict := lz_decoder_reset dict\<rparr>
                  in if ret \<noteq> LZMA_OK \<or> out_pos = length out then Some (Ret (ret, coder, in_pos, out, out_pos))
                     else lz_decode_buffer code coder inp in_pos in_size out out_pos
                else
                  let coder = coder\<lparr>lz_lz := Some lz, lz_dict := dict\<rparr>
                  in if ret \<noteq> LZMA_OK \<or> out_pos = length out \<or> dict_pos dict < dict_length dict
                     then Some (Ret (ret, coder, in_pos, out, out_pos))
                     else lz_decode_buffer code coder inp in_pos in_size out out_pos
         | Abort \<Rightarrow> Some Abort
         | Hang \<Rightarrow> Some Hang
         | Crash \<Rightarrow> Some Crash)"

text \<open>
  \<open>lz_decode\<close> without a next filter is \<open>decode_buffer\<close>; otherwise the next filter decodes into \<open>temp\<close>.
  \<open>fill_temp\<close> is the first part of the loop body: \<open>Inl\<close> is an early return.
\<close>

definition fill_temp ::
    "'n lzma_code_function \<Rightarrow> ('c, 'n) lzma_coder \<Rightarrow> u8 list \<Rightarrow> nat \<Rightarrow> lzma_action
     \<Rightarrow> (lzma_ret \<times> ('c, 'n) lzma_coder \<times> nat) + (('c, 'n) lzma_coder \<times> nat)" where
  "fill_temp next coder inp in_pos action =
     (if \<not> next_finished coder \<and> temp_pos coder = temp_size coder then
        let (ret, nx, in_pos, buffer, size) = next (lz_next coder) inp in_pos (temp_buffer coder) 0 action;
            coder = coder\<lparr>lz_next := nx, temp_buffer := buffer, temp_pos := 0, temp_size := size\<rparr>
        in if ret = LZMA_STREAM_END then Inr (coder\<lparr>next_finished := True\<rparr>, in_pos)
           else if ret \<noteq> LZMA_OK \<or> size = 0 then Inl (ret, coder, in_pos)
           else Inr (coder, in_pos)
      else Inr (coder, in_pos))"

partial_function (option) lz_decode ::
    "'c lz_code \<Rightarrow> 'n lzma_code_function option \<Rightarrow> ('c, 'n) lzma_coder \<Rightarrow> u8 list \<Rightarrow> nat \<Rightarrow> u8 list \<Rightarrow> nat \<Rightarrow> lzma_action
     \<Rightarrow> (lzma_ret \<times> ('c, 'n) lzma_coder \<times> nat \<times> u8 list \<times> nat) res option" where
  "lz_decode code next coder inp in_pos out out_pos action =
     (case next of
        None \<Rightarrow> lz_decode_buffer code coder inp in_pos (length inp) out out_pos
      | Some nx \<Rightarrow>
          if out_pos < length out then
            case fill_temp nx coder inp in_pos action of
              Inl (ret, coder, in_pos) \<Rightarrow> Some (Ret (ret, coder, in_pos, out, out_pos))
            | Inr (coder, in_pos) \<Rightarrow>
                if this_finished coder then
                  Some (Ret (if temp_size coder \<noteq> 0 then LZMA_DATA_ERROR
                             else if next_finished coder then LZMA_STREAM_END else LZMA_OK, coder, in_pos, out, out_pos))
                else
                  case lz_decode_buffer code coder (temp_buffer coder) (temp_pos coder) (temp_size coder) out out_pos of
                    None \<Rightarrow> None
                  | Some (Ret (ret, coder, pos, out, out_pos)) \<Rightarrow>
                      let coder = coder\<lparr>temp_pos := pos\<rparr>
                      in if ret = LZMA_STREAM_END
                         then lz_decode code next (coder\<lparr>this_finished := True\<rparr>) inp in_pos out out_pos action
                         else if ret \<noteq> LZMA_OK then Some (Ret (ret, coder, in_pos, out, out_pos))
                         else if next_finished coder \<and> out_pos < length out
                         then Some (Ret (LZMA_DATA_ERROR, coder, in_pos, out, out_pos))
                         else lz_decode code next coder inp in_pos out out_pos action
                  | Some Abort \<Rightarrow> Some Abort
                  | Some Hang \<Rightarrow> Some Hang
                  | Some Crash \<Rightarrow> Some Crash
          else Some (Ret (LZMA_OK, coder, in_pos, out, out_pos)))"

text \<open>
  \<open>lzma_lz_decoder_init\<close> on \<open>next->coder\<close>. \<open>mem\<close> is what allocating the structure returns, with arbitrary contents,
  \<open>alloc\<close> allocates the dictionary, \<open>lz_init\<close> initialises the LZ-based decoder, and \<open>next_init\<close> the next filter,
  which starts as \<open>next_null\<close>. A dictionary that is null is an empty list: the reset then stores through it.
\<close>

definition use_preset :: "lzma_lz_options \<Rightarrow> lzma_dict \<Rightarrow> lzma_dict" where
  "use_preset options dict =
     (case lz_preset_dict options of
        None \<Rightarrow> dict
      | Some preset \<Rightarrow>
          if lz_preset_dict_size options > 0 then
            let copy_size = min (lz_preset_dict_size options) (lz_dict_size options);
                offset = lz_preset_dict_size options - copy_size
            in dict\<lparr>dict_buf := write_at 0 (segment offset (offset + copy_size) preset) (dict_buf dict),
                    dict_pos := copy_size, dict_full := copy_size\<rparr>
          else dict)"

definition lz_structure :: "('c, 'n) lzma_coder option \<Rightarrow> ('c, 'n) lzma_coder option \<Rightarrow> 'n \<Rightarrow> ('c, 'n) lzma_coder option" where
  "lz_structure coder mem next_null =
     (case coder of
        Some c \<Rightarrow> Some c
      | None \<Rightarrow>
          map_option (\<lambda>c. c\<lparr>lz_dict := (lz_dict c)\<lparr>dict_buf := [], dict_length := 0\<rparr>, lz_lz := None, lz_next := next_null\<rparr>) mem)"

definition lzma_lz_decoder_init ::
    "('c, 'n) lzma_coder option \<Rightarrow> ('c, 'n) lzma_coder option \<Rightarrow> 'n \<Rightarrow> ('c option \<Rightarrow> lzma_ret \<times> 'c option \<times> lzma_lz_options)
     \<Rightarrow> (nat \<Rightarrow> u8 list option) \<Rightarrow> ('n \<Rightarrow> lzma_ret \<times> 'n) \<Rightarrow> (lzma_ret \<times> ('c, 'n) lzma_coder option) res" where
  "lzma_lz_decoder_init coder mem next_null lz_init alloc next_init =
     (case lz_structure coder mem next_null of
        None \<Rightarrow> Ret (LZMA_MEM_ERROR, None)
      | Some coder \<Rightarrow>
          let (ret, lz, options) = lz_init (lz_lz coder); coder = coder\<lparr>lz_lz := lz\<rparr>
          in if ret \<noteq> LZMA_OK then Ret (ret, Some coder)
          else
            let options = (if lz_dict_size options < 4096 then options\<lparr>lz_dict_size := 4096\<rparr> else options)
            in if lz_dict_size options > SIZE_MAX - 15 then Ret (LZMA_MEM_ERROR, Some coder)
            else
              let options = options\<lparr>lz_dict_size := (lz_dict_size options + 15) div 16 * 16\<rparr>;
                  buf = (if dict_length (lz_dict coder) \<noteq> lz_dict_size options then alloc (lz_dict_size options)
                         else Some (dict_buf (lz_dict coder)))
              in case buf of
                   None \<Rightarrow> Ret (LZMA_MEM_ERROR, Some (coder\<lparr>lz_dict := (lz_dict coder)\<lparr>dict_buf := []\<rparr>\<rparr>))
                 | Some buf \<Rightarrow>
                     if buf = [] then Crash
                     else
                       let dict = (lz_dict coder)\<lparr>dict_buf := buf, dict_length := lz_dict_size options\<rparr>;
                           dict = use_preset options (lz_decoder_reset dict);
                           (ret, nx) = next_init (lz_next coder)
                       in Ret (ret, Some (coder\<lparr>lz_dict := dict, lz_next := nx, next_finished := False,
                                                this_finished := False, temp_pos := 0, temp_size := 0\<rparr>)))"

definition lzma_lz_decoder_uncompressed :: "('c \<Rightarrow> lzma_vli \<Rightarrow> 'c) \<Rightarrow> ('c, 'n) lzma_coder \<Rightarrow> lzma_vli \<Rightarrow> ('c, 'n) lzma_coder res" where
  "lzma_lz_decoder_uncompressed set_uncompressed coder uncompressed_size =
     (case lz_lz coder of
        None \<Rightarrow> Crash
      | Some lz \<Rightarrow> Ret (coder\<lparr>lz_lz := Some (set_uncompressed lz uncompressed_size)\<rparr>))"


section \<open>What an LZ-based decoder promises\<close>

text \<open>
  \<open>ok full c\<close> is an invariant of its state \<open>c\<close> when the dictionary holds \<open>full\<close> bytes. A call returns, only
  appends to the history, keeps to the limit and to its input, and keeps the invariant, unless it reports
  an error or the end. When it asks for a reset of the dictionary, it has read some input, and otherwise it
  stops only when the input is read or the room in the dictionary is used up.
\<close>

locale lz_decoder =
  fixes code :: "'c lz_code" and ok :: "nat \<Rightarrow> 'c \<Rightarrow> bool"
  assumes code_safe: "dict_inv h dict \<Longrightarrow> \<not> need_reset dict \<Longrightarrow> ok (dict_full dict) c \<Longrightarrow> in_pos \<le> in_size \<Longrightarrow> in_size \<le> length inp \<Longrightarrow>
    \<exists>ret c' dict' in_pos' h'. code c dict inp in_pos in_size = Ret (ret, c', dict', in_pos')
      \<and> dict_inv (h @ h') dict' \<and> dict_pos dict' = dict_pos dict + length h' \<and> dict_limit dict' = dict_limit dict
      \<and> dict_length dict' = dict_length dict \<and> in_pos \<le> in_pos' \<and> in_pos' \<le> in_size
      \<and> (ret = LZMA_OK \<longrightarrow> ok (if need_reset dict' then 0 else dict_full dict') c')
      \<and> (need_reset dict' \<longrightarrow> in_pos < in_pos')
      \<and> (ret = LZMA_OK \<longrightarrow> need_reset dict' \<or> in_pos' = in_size \<or> dict_pos dict' = dict_limit dict')"

text \<open>The dictionary between calls of \<open>decode_buffer\<close>.\<close>

definition lz_ok :: "(nat \<Rightarrow> 'c \<Rightarrow> bool) \<Rightarrow> u8 list \<Rightarrow> ('c, 'n) lzma_coder \<Rightarrow> bool" where
  "lz_ok ok h coder \<longleftrightarrow> dict_rel h (lz_dict coder) \<and> \<not> need_reset (lz_dict coder)
     \<and> (\<exists>c. lz_lz coder = Some c \<and> ok (dict_full (lz_dict coder)) c)"

lemma dict_rel_wrap:
  assumes "dict_rel h d" "dict_pos d = dict_length d"
  shows "dict_rel h (d\<lparr>dict_pos := 0\<rparr>)"
  using assms by (auto simp: dict_rel_def hist_buf_def)

lemma lend_dict_inv:
  assumes "dict_rel h d"
  shows "dict_inv h (lend_dict avail d)" "dict_pos (lend_dict avail d) < dict_length d"
    "dict_limit (lend_dict avail d) = dict_length d \<or> dict_limit (lend_dict avail d) = dict_pos (lend_dict avail d) + avail"
    "dict_limit (lend_dict avail d) \<le> dict_pos (lend_dict avail d) + avail" "dict_full (lend_dict avail d) = dict_full d"
    "dict_length (lend_dict avail d) = dict_length d" "need_reset (lend_dict avail d) = need_reset d"
proof -
  have "dict_pos d \<le> dict_length d" "0 < dict_length d" using assms by (auto simp: dict_rel_def hist_buf_def)
  then show "dict_inv h (lend_dict avail d)" "dict_pos (lend_dict avail d) < dict_length d"
    "dict_limit (lend_dict avail d) = dict_length d \<or> dict_limit (lend_dict avail d) = dict_pos (lend_dict avail d) + avail"
    using assms dict_rel_wrap [OF assms] by (auto simp: lend_dict_def dict_inv_def Let_def dict_rel_def)
qed (simp_all add: lend_dict_def Let_def)

lemma lz_decoder_reset_rel: "dict_rel h d \<Longrightarrow> dict_rel [] (lz_decoder_reset d)"
  by (auto simp: dict_rel_def hist_buf_def lz_decoder_reset_def)

text \<open>The bytes appended to the history are at the write position in the buffer.\<close>

lemma appended_segment:
  assumes "dict_rel (h @ h') d" "dict_pos d = p + length h'"
  shows "segment p (p + length h') (dict_buf d) = h'"
proof -
  let ?n = "dict_length d"
  have hist: "hist_buf (h @ h') (dict_buf d) (dict_pos d) ?n" using assms(1) by (simp add: dict_rel_def)
  then have b: "dict_pos d \<le> ?n" "dict_pos d mod ?n = length (h @ h') mod ?n" "0 < ?n" by (auto simp: hist_buf_def)
  show ?thesis
  proof (cases "h' = []")
    case False
    then have "(length (h @ h') - length h') mod ?n = dict_pos d - length h'"
      using hist_index [OF b(2,1), of "length h'"] assms(2) b(1) by simp
    then have p: "length h mod ?n = p" using assms(2) by simp
    have "segment (length h mod ?n) (length h mod ?n + length h') (dict_buf d) = segment (length h) (length h + length h') (h @ h')"
      by (rule hist_segment [OF hist]) (use assms(2) b(1) p in auto)
    then show ?thesis using p by (simp add: segment_def)
  qed simp
qed

context lz_decoder
begin

lemma round:
  assumes "lz_ok ok h coder" "in_pos \<le> in_size" "in_size \<le> length inp" "out_pos \<le> length out"
  shows "\<exists>c ret c' dict' in_pos' h'. lz_lz coder = Some c \<and> code c (lend_dict (length out - out_pos) (lz_dict coder)) inp in_pos in_size
        = Ret (ret, c', dict', in_pos')
     \<and> dict_rel (h @ h') dict' \<and> dict_pos dict' = dict_pos (lend_dict (length out - out_pos) (lz_dict coder)) + length h'
     \<and> out_pos + length h' \<le> length out \<and> in_pos \<le> in_pos' \<and> in_pos' \<le> in_size
     \<and> segment (dict_pos dict' - length h') (dict_pos dict') (dict_buf dict') = h'
     \<and> (ret = LZMA_OK \<longrightarrow> ok (if need_reset dict' then 0 else dict_full dict') c') \<and> (need_reset dict' \<longrightarrow> in_pos < in_pos')
     \<and> (dict_pos dict' = dict_length dict' \<longrightarrow> h' \<noteq> [])
     \<and> (ret = LZMA_OK \<and> \<not> need_reset dict' \<and> dict_pos dict' < dict_length dict' \<longrightarrow> in_pos' = in_size \<or> out_pos + length h' = length out)"
proof -
  let ?d = "lend_dict (length out - out_pos) (lz_dict coder)"
  obtain c0 where r: "dict_rel h (lz_dict coder)" "\<not> need_reset (lz_dict coder)"
      "ok (dict_full (lz_dict coder)) c0" "lz_lz coder = Some c0"
    using assms(1) by (auto simp: lz_ok_def)
  note l = lend_dict_inv [OF r(1), of "length out - out_pos"]
  have lent: "\<not> need_reset ?d" "ok (dict_full ?d) c0" using l r by simp_all
  obtain ret c' dict' in_pos' h' where c: "code c0 ?d inp in_pos in_size = Ret (ret, c', dict', in_pos')"
    "dict_inv (h @ h') dict'" "dict_pos dict' = dict_pos ?d + length h'" "dict_limit dict' = dict_limit ?d"
    "dict_length dict' = dict_length ?d" "in_pos \<le> in_pos'" "in_pos' \<le> in_size"
    "ret = LZMA_OK \<longrightarrow> ok (if need_reset dict' then 0 else dict_full dict') c'" "need_reset dict' \<longrightarrow> in_pos < in_pos'"
    "ret = LZMA_OK \<longrightarrow> need_reset dict' \<or> in_pos' = in_size \<or> dict_pos dict' = dict_limit dict'"
    using code_safe [OF l(1) lent assms(2,3)] by blast
  have s: "segment (dict_pos ?d) (dict_pos ?d + length h') (dict_buf dict') = h'"
    using appended_segment [of h h' dict' "dict_pos ?d"] c(2,3) by (simp add: dict_inv_def)
  have "length h' \<le> length out - out_pos" using c(2,3,4) l(4) by (simp add: dict_inv_def)
  then have room: "out_pos + length h' \<le> length out" using assms(4) by simp
  have rel: "dict_rel (h @ h') dict'" using c(2) by (simp add: dict_inv_def)
  have wrap: "dict_pos dict' = dict_length dict' \<longrightarrow> h' \<noteq> []" using c(3,5) l(2,6) by auto
  have stuck: "in_pos' = in_size \<or> out_pos + length h' = length out"
    if "ret = LZMA_OK \<and> \<not> need_reset dict' \<and> dict_pos dict' < dict_length dict'"
    using that c(3,4,5,10) l(3,6) assms(4) by auto
  have s': "segment (dict_pos dict' - length h') (dict_pos dict') (dict_buf dict') = h'" using s c(3) by simp
  show ?thesis
    using r(4) c(1) rel c(3) room c(6,7) s' c(8,9) wrap stuck by blast
qed

text \<open>
  \<open>decode_buffer\<close> returns. What it writes are the bytes that the decoder appended to the history, and
  the dictionary holds the end of the history and of them.
\<close>

lemma decode_buffer_safe:
  fixes coder :: "('c, 'n) lzma_coder"
  assumes "lz_ok ok h coder" "in_pos \<le> in_size" "in_size \<le> length inp" "out_pos \<le> length out"
  shows "\<exists>ret coder' in_pos' bs k. lz_decode_buffer code coder inp in_pos in_size out out_pos
        = Some (Ret (ret, coder', in_pos', write_at out_pos bs out, out_pos + length bs))
     \<and> out_pos + length bs \<le> length out \<and> in_pos \<le> in_pos' \<and> in_pos' \<le> in_size
     \<and> dict_rel (drop k (h @ bs)) (lz_dict coder') \<and> (ret = LZMA_OK \<longrightarrow> lz_ok ok (drop k (h @ bs)) coder')
     \<and> (ret = LZMA_OK \<longrightarrow> in_pos' = in_size \<or> out_pos + length bs = length out)"
  using assms
proof (induction "(length out - out_pos) + (in_size - in_pos)" arbitrary: h coder in_pos out out_pos rule: less_induct)
  case less
  let ?d = "lend_dict (length out - out_pos) (lz_dict coder)"
  obtain c0 ret c' dict' in_pos' h' where c0: "lz_lz coder = Some c0"
    and c: "code c0 ?d inp in_pos in_size = Ret (ret, c', dict', in_pos')"
    "dict_rel (h @ h') dict'" "dict_pos dict' = dict_pos ?d + length h'" "out_pos + length h' \<le> length out"
    "in_pos \<le> in_pos'" "in_pos' \<le> in_size"
    and seg: "segment (dict_pos dict' - length h') (dict_pos dict') (dict_buf dict') = h'"
    and ok: "ret = LZMA_OK \<longrightarrow> ok (if need_reset dict' then 0 else dict_full dict') c'"
    and prog: "need_reset dict' \<longrightarrow> in_pos < in_pos'" "dict_pos dict' = dict_length dict' \<longrightarrow> h' \<noteq> []"
    and stuck: "ret = LZMA_OK \<and> \<not> need_reset dict' \<and> dict_pos dict' < dict_length dict' \<longrightarrow> in_pos' = in_size \<or> out_pos + length h' = length out"
    using round [OF less.prems] by blast
  define out1 where "out1 = write_at out_pos h' out"
  have l1: "length out1 = length out" using c(4) by (simp add: out1_def)
  have w: "write_at out_pos (segment (dict_pos ?d) (dict_pos ?d + (dict_pos dict' - dict_pos ?d)) (dict_buf dict')) out = out1"
    using seg c(3) by (simp add: out1_def)
  have cs: "out_pos + (dict_pos dict' - dict_pos ?d) = out_pos + length h'" using c(3) by simp
  define coder1 where "coder1 = coder\<lparr>lz_lz := Some c', lz_dict := (if need_reset dict' then lz_decoder_reset dict' else dict')\<rparr>"
  define stop where "stop \<longleftrightarrow> ret \<noteq> LZMA_OK \<or> out_pos + length h' = length out \<or> \<not> need_reset dict' \<and> dict_pos dict' < dict_length dict'"
  have step: "lz_decode_buffer code coder inp in_pos in_size out out_pos =
      (if stop then Some (Ret (ret, coder1, in_pos', out1, out_pos + length h'))
       else lz_decode_buffer code coder1 inp in_pos' in_size out1 (out_pos + length h'))"
    by (subst lz_decode_buffer.simps) (simp add: c0 c(1) Let_def w cs l1 stop_def coder1_def)
  let ?k = "if need_reset dict' then length (h @ h') else 0"
  have rel: "dict_rel (drop ?k (h @ h')) (lz_dict coder1)"
    using c(2) lz_decoder_reset_rel [OF c(2)] by (simp add: coder1_def)
  have lz: "lz_ok ok (drop ?k (h @ h')) coder1" if "ret = LZMA_OK"
    using rel ok that by (auto simp: lz_ok_def coder1_def lz_decoder_reset_def)
  show ?case
  proof (cases stop)
    case True
    then have "ret = LZMA_OK \<longrightarrow> in_pos' = in_size \<or> out_pos + length h' = length out" using stuck by (auto simp: stop_def)
    then show ?thesis using step c rel lz True
      by (intro exI [of _ ret] exI [of _ coder1] exI [of _ in_pos'] exI [of _ h'] exI [of _ ?k]) (simp add: out1_def)
  next
    case False
    then have ret: "ret = LZMA_OK" and more: "out_pos + length h' \<noteq> length out"
      "need_reset dict' \<or> \<not> dict_pos dict' < dict_length dict'" by (auto simp: stop_def)
    have "dict_pos dict' \<le> dict_length dict'" using c(2) by (simp add: dict_rel_def hist_buf_def)
    then have "in_pos < in_pos' \<or> h' \<noteq> []" using more(2) prog by auto
    then have m: "(length out1 - (out_pos + length h')) + (in_size - in_pos') < (length out - out_pos) + (in_size - in_pos)"
      using c l1 by (auto simp: length_greater_0_conv [symmetric] simp del: length_greater_0_conv)
    have room1: "out_pos + length h' \<le> length out1" using c(4) l1 by simp
    obtain ret2 coder2 in_pos2 bs k where r: "lz_decode_buffer code coder1 inp in_pos' in_size out1 (out_pos + length h')
          = Some (Ret (ret2, coder2, in_pos2, write_at (out_pos + length h') bs out1, out_pos + length h' + length bs))"
      "out_pos + length h' + length bs \<le> length out1" "in_pos' \<le> in_pos2" "in_pos2 \<le> in_size"
      "dict_rel (drop k (drop ?k (h @ h') @ bs)) (lz_dict coder2)"
      "ret2 = LZMA_OK \<longrightarrow> lz_ok ok (drop k (drop ?k (h @ h') @ bs)) coder2"
      "ret2 = LZMA_OK \<longrightarrow> in_pos2 = in_size \<or> out_pos + length h' + length bs = length out1"
      using less.hyps [OF m lz [OF ret] c(6) less.prems(3) room1] by blast
    have "write_at (out_pos + length h') bs out1 = write_at out_pos (h' @ bs) out"
      unfolding out1_def using r(2) l1 by (intro write_at_append) simp
    moreover have "drop k (drop ?k (h @ h') @ bs) = drop (k + ?k) (h @ (h' @ bs))" by simp
    ultimately show ?thesis using r step False c l1
      by (intro exI [of _ ret2] exI [of _ coder2] exI [of _ in_pos2] exI [of _ "h' @ bs"] exI [of _ "k + ?k"])
        (simp add: add.assoc)
  qed
qed

end

text \<open>
  An application calls the decoder one time after the other, each with an input buffer and a position in it,
  an output buffer and a position in it, and an action, until it returns something other than \<open>LZMA_OK\<close>. The
  result is the last code, the coder, and for every call made the new positions and the new output buffer.
\<close>

type_synonym decode_args = "u8 list \<times> nat \<times> u8 list \<times> nat \<times> lzma_action"
type_synonym decode_outcome = "nat \<times> u8 list \<times> nat"

fun decode_calls ::
    "'c lz_code \<Rightarrow> ('c, 'n) lzma_coder \<Rightarrow> decode_args list \<Rightarrow> (lzma_ret \<times> ('c, 'n) lzma_coder \<times> decode_outcome list) res option" where
  "decode_calls code coder [] = Some (Ret (LZMA_OK, coder, []))"
| "decode_calls code coder ((inp, in_pos, out, out_pos, action) # calls) =
     (case lz_decode code None coder inp in_pos out out_pos action of
        None \<Rightarrow> None
      | Some (Ret (ret, coder, in_pos, out, out_pos)) \<Rightarrow>
          if ret \<noteq> LZMA_OK then Some (Ret (ret, coder, [(in_pos, out, out_pos)]))
          else map_option (\<lambda>r. bindR r (\<lambda>(ret, coder, rs). Ret (ret, coder, (in_pos, out, out_pos) # rs))) (decode_calls code coder calls)
      | Some r \<Rightarrow> Some (bindR r (\<lambda>_. Crash)))"

text \<open>
  The positions given are inside their buffers; a call moved them forward inside the buffers and left the
  output buffer as it was before the old position and from the new one on; what it wrote between.
\<close>

definition args_ok :: "decode_args \<Rightarrow> bool" where
  "args_ok = (\<lambda>(inp, in_pos, out, out_pos, action). in_pos \<le> length inp \<and> out_pos \<le> length out)"

definition call_kept :: "decode_args \<Rightarrow> decode_outcome \<Rightarrow> bool" where
  "call_kept = (\<lambda>(inp, in_pos, out, out_pos, action) (in_pos', out', out_pos').
     coder_io inp in_pos out out_pos in_pos' out' out_pos' \<and> drop out_pos' out' = drop out_pos' out)"

definition call_output :: "decode_args \<Rightarrow> decode_outcome \<Rightarrow> u8 list" where
  "call_output = (\<lambda>(inp, in_pos, out, out_pos, action) (in_pos', out', out_pos'). segment out_pos out_pos' out')"

lemma write_at_kept:
  assumes "out_pos + length bs \<le> length out" "in_pos \<le> in_pos'" "in_pos' \<le> length inp"
  shows "call_kept (inp, in_pos, out, out_pos, action) (in_pos', write_at out_pos bs out, out_pos + length bs)"
    "call_output (inp, in_pos, out, out_pos, action) (in_pos', write_at out_pos bs out, out_pos + length bs) = bs"
  using assms segment_write_same [OF assms(1)]
  by (auto simp: call_kept_def call_output_def coder_io_def write_at_def)

context lz_decoder
begin

lemma lz_decode_last:
  assumes "lz_ok ok h coder" "in_pos \<le> length inp" "out_pos \<le> length out"
  shows "\<exists>ret coder' in_pos' bs k. lz_decode code None coder inp in_pos out out_pos action
        = Some (Ret (ret, coder', in_pos', write_at out_pos bs out, out_pos + length bs))
     \<and> out_pos + length bs \<le> length out \<and> in_pos \<le> in_pos' \<and> in_pos' \<le> length inp
     \<and> dict_rel (drop k (h @ bs)) (lz_dict coder') \<and> (ret = LZMA_OK \<longrightarrow> lz_ok ok (drop k (h @ bs)) coder')
     \<and> (ret = LZMA_OK \<longrightarrow> in_pos' = length inp \<or> out_pos + length bs = length out)"
  using decode_buffer_safe [OF assms(1,2) order.refl assms(3)] by (simp add: lz_decode.simps)

lemma decode_calls_safe:
  fixes coder :: "('c, 'n) lzma_coder"
  assumes "lz_ok ok h coder" "list_all args_ok calls"
  shows "\<exists>ret coder' rs k. decode_calls code coder calls = Some (Ret (ret, coder', rs))
     \<and> list_all2 call_kept (take (length rs) calls) rs \<and> (ret = LZMA_OK \<longrightarrow> length rs = length calls)
     \<and> dict_rel (drop k (h @ concat (map2 call_output calls rs))) (lz_dict coder')"
  using assms
proof (induction calls arbitrary: h coder)
  case Nil
  then have "dict_rel (drop 0 (h @ [])) (lz_dict coder)" by (simp add: lz_ok_def)
  then show ?case by (intro exI [of _ LZMA_OK] exI [of _ coder] exI [of _ "[]"] exI [of _ 0]) simp
next
  case (Cons call calls)
  obtain inp ip out op action where call: "call = (inp, ip, out, op, action)" by (metis prod_cases5)
  have args: "ip \<le> length inp" "op \<le> length out" "list_all args_ok calls"
    using Cons.prems(2) by (simp_all add: call args_ok_def)
  obtain ret c1 p1 b1 k1 where r: "lz_decode code None coder inp ip out op action
        = Some (Ret (ret, c1, p1, write_at op b1 out, op + length b1))"
    "op + length b1 \<le> length out" "ip \<le> p1" "p1 \<le> length inp"
    "dict_rel (drop k1 (h @ b1)) (lz_dict c1)" "ret = LZMA_OK \<longrightarrow> lz_ok ok (drop k1 (h @ b1)) c1"
    using lz_decode_last [OF Cons.prems(1) args(1,2), of action] by blast
  let ?r = "(p1, write_at op b1 out, op + length b1)"
  have kept: "call_kept call ?r" "call_output call ?r = b1"
    using write_at_kept [OF r(2-4)] by (simp_all only: call)
  show ?case
  proof (cases "ret = LZMA_OK")
    case False
    then have "decode_calls code coder (call # calls) = Some (Ret (ret, c1, [?r]))" using r(1) call by simp
    then show ?thesis using r(5) kept False
      by (intro exI [of _ ret] exI [of _ c1] exI [of _ "[?r]"] exI [of _ k1]) simp
  next
    case True
    have "lz_ok ok (drop k1 (h @ b1)) c1" using r(6) True by simp
    from Cons.IH [OF this args(3)] obtain ret2 c2 rs k2 where q: "decode_calls code c1 calls = Some (Ret (ret2, c2, rs))"
      "list_all2 call_kept (take (length rs) calls) rs" "ret2 = LZMA_OK \<longrightarrow> length rs = length calls"
      "dict_rel (drop k2 (drop k1 (h @ b1) @ concat (map2 call_output calls rs))) (lz_dict c2)" by blast
    let ?b2 = "concat (map2 call_output calls rs)"
    have "decode_calls code coder (call # calls) = Some (Ret (ret2, c2, ?r # rs))" using r(1) call True q(1) by simp
    moreover have "\<exists>k. drop k2 (drop k1 (h @ b1) @ ?b2) = drop k (h @ b1 @ ?b2)"
    proof (cases "k1 \<le> length (h @ b1)")
      case True
      then have "drop k1 (h @ b1) @ ?b2 = drop k1 (h @ b1 @ ?b2)" by simp
      then show ?thesis by (metis drop_drop)
    next
      case False
      then have "drop k1 (h @ b1) @ ?b2 = drop (length (h @ b1)) (h @ b1 @ ?b2)" by simp
      then show ?thesis by (metis drop_drop)
    qed
    then obtain k where "dict_rel (drop k (h @ b1 @ ?b2)) (lz_dict c2)" using q(4) by auto
    ultimately show ?thesis using q(2,3) kept
      by (intro exI [of _ ret2] exI [of _ c2] exI [of _ "?r # rs"] exI [of _ k]) simp
  qed
qed

end

section \<open>Initialisation\<close>

definition rounded_size :: "lzma_lz_options \<Rightarrow> nat" where
  "rounded_size options = (max 4096 (lz_dict_size options) + 15) div 16 * 16"

text \<open>The part of a preset dictionary that fits.\<close>

definition preset_tail :: "lzma_lz_options \<Rightarrow> u8 list" where
  "preset_tail options =
     (case lz_preset_dict options of
        None \<Rightarrow> []
      | Some preset \<Rightarrow> drop (lz_preset_dict_size options - rounded_size options) preset)"

lemma use_preset_rel:
  assumes "dict_rel [] d" "lz_dict_size opts = dict_length d"
    and "\<And>preset. lz_preset_dict opts = Some preset \<Longrightarrow> length preset = lz_preset_dict_size opts"
  shows "dict_rel (case lz_preset_dict opts of None \<Rightarrow> [] | Some preset \<Rightarrow> drop (lz_preset_dict_size opts - dict_length d) preset)
      (use_preset opts d)"
proof (cases "lz_preset_dict opts")
  case None
  then show ?thesis using assms(1) by (simp add: use_preset_def)
next
  case (Some preset)
  let ?k = "length preset - dict_length d"
  have len: "length preset = lz_preset_dict_size opts" using assms(3) Some by simp
  have n: "0 < dict_length d" "length (dict_buf d) = dict_length d" "dict_length d \<le> 2 ^ 32"
    using assms(1) by (auto simp: dict_rel_def hist_buf_def)
  have seg: "segment (length preset - min (length preset) (dict_length d)) (length preset) preset = drop ?k preset"
    by (simp add: segment_def min_def)
  show ?thesis
  proof (cases "preset = []")
    case True
    then show ?thesis using assms(1) Some len by (simp add: use_preset_def)
  next
    case False
    then have "0 < length preset" by simp
    then have "length (drop ?k preset) = min (length preset) (dict_length d)" "drop ?k preset \<noteq> []" using n(1)
      by (simp_all del: length_greater_0_conv)
    then show ?thesis using False Some len n assms(2) seg
      by (auto simp: use_preset_def Let_def dict_rel_def hist_buf_def write_at_def nth_append)
  qed
qed

lemma reset_new: "length buf = n \<Longrightarrow> 0 < n \<Longrightarrow> n \<le> 2 ^ 32 \<Longrightarrow> dict_rel [] (lz_decoder_reset (d\<lparr>dict_buf := buf, dict_length := n\<rparr>))"
  by (simp add: dict_rel_def hist_buf_def lz_decoder_reset_def)

text \<open>When nothing fails, the dictionary is ready and holds the end of the preset dictionary.\<close>

lemma lz_decoder_init_ready:
  assumes base: "lz_structure coder mem next_null = Some c" "length (dict_buf (lz_dict c)) = dict_length (lz_dict c)"
    and lz: "lz_init (lz_lz c) = (LZMA_OK, Some lz, opts)" "lz_dict_size opts < 2 ^ 32"
    and preset: "\<And>preset. lz_preset_dict opts = Some preset \<Longrightarrow> length preset = lz_preset_dict_size opts"
    and alloc: "\<And>n. \<exists>buf. alloc n = Some buf \<and> length buf = n"
    and nx: "next_init (lz_next c) = (LZMA_OK, nx)"
  shows "\<exists>c'. lzma_lz_decoder_init coder mem next_null lz_init alloc next_init = Ret (LZMA_OK, Some c') \<and> lz_lz c' = Some lz
     \<and> dict_rel (preset_tail opts) (lz_dict c') \<and> \<not> need_reset (lz_dict c')"
proof -
  let ?n = "rounded_size opts"
  have n: "0 < ?n" "?n \<le> 2 ^ 32" using lz(2) by (auto simp: rounded_size_def)
  define d where "d = lz_dict c"
  define opts2 where "opts2 = opts\<lparr>lz_dict_size := ?n\<rparr>"
  have o2: "lz_dict_size opts2 = ?n" "lz_preset_dict opts2 = lz_preset_dict opts" "lz_preset_dict_size opts2 = lz_preset_dict_size opts"
    by (simp_all add: opts2_def)
  obtain buf where buf: "(if dict_length d \<noteq> ?n then alloc ?n else Some (dict_buf d)) = Some buf" "length buf = ?n"
    using alloc [of ?n] base(2) by (cases "dict_length d = ?n") (auto simp: d_def)
  let ?d = "use_preset opts2 (lz_decoder_reset (d\<lparr>dict_buf := buf, dict_length := ?n\<rparr>))"
  have "dict_rel (preset_tail opts) ?d"
    using use_preset_rel [OF reset_new [OF buf(2) n], of opts2 d] preset
    by (simp add: preset_tail_def o2 lz_decoder_reset_def cong: option.case_cong)
  moreover have "\<not> need_reset ?d" by (simp add: use_preset_def lz_decoder_reset_def Let_def split: option.split)
  moreover have "lzma_lz_decoder_init coder mem next_null lz_init alloc next_init =
      Ret (LZMA_OK, Some (c\<lparr>lz_lz := Some lz, lz_dict := ?d, lz_next := nx, next_finished := False, this_finished := False,
                              temp_pos := 0, temp_size := 0\<rparr>))"
  proof (cases "lz_dict_size opts < 4096")
    case True
    then have "?n = 4096" by (simp add: rounded_size_def)
    then show ?thesis using True buf lz(2) by (auto simp: lzma_lz_decoder_init_def base(1) lz(1) nx Let_def d_def opts2_def)
  next
    case False
    then have "(lz_dict_size opts + 15) div 16 * 16 = ?n" by (simp add: rounded_size_def max_def)
    then show ?thesis using False buf lz(2) n(1) by (auto simp: lzma_lz_decoder_init_def base(1) lz(1) nx Let_def d_def opts2_def)
  qed
  ultimately show ?thesis by simp
qed

text \<open>
  C40: an initialisation after a failed one. When the allocation of a dictionary of another size fails,
  the old one is already freed but \<open>dict.size\<close> still has its size. A later initialisation that asks for
  the old size finds nothing to allocate and writes through the null pointer.
\<close>

theorem lz_decoder_init_after_failure:
  assumes "lz_init1 (lz_lz c) = (LZMA_OK, lz, opts1)" "lz_dict_size opts1 < 2 ^ 32"
    and "rounded_size opts1 \<noteq> dict_length (lz_dict c)" "alloc (rounded_size opts1) = None"
    and "lz_init2 lz = (LZMA_OK, lz', opts2)" "lz_dict_size opts2 < 2 ^ 32" "rounded_size opts2 = dict_length (lz_dict c)"
  shows "\<exists>c'. lzma_lz_decoder_init (Some c) mem next_null lz_init1 alloc next_init = Ret (LZMA_MEM_ERROR, Some c')
     \<and> lzma_lz_decoder_init (Some c') mem next_null lz_init2 alloc2 next_init = Crash"
proof -
  have size: "(lz_dict_size (if lz_dict_size opts < 4096 then opts\<lparr>lz_dict_size := 4096\<rparr> else opts) + 15) div 16 * 16 = rounded_size opts"
    for opts by (simp add: rounded_size_def max_def)
  let ?c = "c\<lparr>lz_lz := lz, lz_dict := (lz_dict c)\<lparr>dict_buf := []\<rparr>\<rparr>"
  have "lzma_lz_decoder_init (Some c) mem next_null lz_init1 alloc next_init = Ret (LZMA_MEM_ERROR, Some ?c)"
    using assms(1-4) size [of opts1] by (simp add: lzma_lz_decoder_init_def lz_structure_def Let_def)
  moreover have "lzma_lz_decoder_init (Some ?c) mem next_null lz_init2 alloc2 next_init = Crash"
    using assms(5-7) size [of opts2] by (simp add: lzma_lz_decoder_init_def lz_structure_def Let_def)
  ultimately show ?thesis by blast
qed

section \<open>LZMA as an LZ-based decoder\<close>

text \<open>\<open>lzma_lzma_decoder_create\<close> and \<open>lzma_decoder_init\<close>: \<open>mem\<close> is what the allocation returns.\<close>

definition lzma_lzma_decoder_create ::
    "lzma_lzma1_decoder option \<Rightarrow> lzma_lzma1_decoder option \<Rightarrow> lzma_options_lzma \<Rightarrow> lzma_lz_options
     \<Rightarrow> lzma_ret \<times> lzma_lzma1_decoder option \<times> lzma_lz_options" where
  "lzma_lzma_decoder_create lz mem opts lz_options =
     (case (case lz of None \<Rightarrow> mem | Some c \<Rightarrow> Some c) of
        None \<Rightarrow> (LZMA_MEM_ERROR, None, lz_options)
      | Some c \<Rightarrow>
          (LZMA_OK, Some c,
           lz_options\<lparr>lz_dict_size := unat (dict_size opts), lz_preset_dict := preset_dict opts,
                      lz_preset_dict_size := unat (preset_dict_size opts)\<rparr>))"

definition lzma_decoder_init ::
    "lzma_lzma1_decoder option \<Rightarrow> lzma_lzma1_decoder option \<Rightarrow> lzma_options_lzma \<Rightarrow> lzma_lz_options
     \<Rightarrow> lzma_ret \<times> lzma_lzma1_decoder option \<times> lzma_lz_options" where
  "lzma_decoder_init lz mem opts lz_options =
     (if \<not> is_lclppb_valid opts then (LZMA_PROG_ERROR, lz, lz_options)
      else
        let (ret, lz, lz_options) = lzma_lzma_decoder_create lz mem opts lz_options
        in if ret \<noteq> LZMA_OK then (ret, lz, lz_options)
           else (LZMA_OK, map_option (\<lambda>c. lzma_decoder_uncompressed (lzma_decoder_reset c opts) LZMA_VLI_UNKNOWN) lz, lz_options))"

interpretation lzma1: lz_decoder lzma_decode lzma_coder_ok
proof
  fix h :: "u8 list" and dict c and inp :: "u8 list" and in_pos in_size :: nat
  assume "dict_inv h dict" "\<not> need_reset dict" "lzma_coder_ok (dict_full dict) c" "in_pos \<le> in_size" "in_size \<le> length inp"
  note r = lzma_decode_returns [OF this(1,3,4,5)] and reset = this(2)
  obtain ret c' dict' in_pos' h' where d: "lzma_decode c dict inp in_pos in_size = Ret (ret, c', dict', in_pos')"
    "dict_inv (h @ h') dict'" "dict_pos dict' = dict_pos dict + length h'" "dict_limit dict' = dict_limit dict"
    "in_pos \<le> in_pos'" "in_pos' \<le> in_size" "ret = LZMA_OK \<longrightarrow> lzma_coder_ok (dict_full dict') c'"
    "ret = LZMA_OK \<longrightarrow> in_pos' = in_size \<or> dict_pos dict' = dict_limit dict"
    using r by blast
  have "dict_length dict' = dict_length dict" "\<not> need_reset dict'" using lzma_decode_dict [OF d(1)] reset by auto
  then show "\<exists>ret c' dict' in_pos' h'. lzma_decode c dict inp in_pos in_size = Ret (ret, c', dict', in_pos')
      \<and> dict_inv (h @ h') dict' \<and> dict_pos dict' = dict_pos dict + length h' \<and> dict_limit dict' = dict_limit dict
      \<and> dict_length dict' = dict_length dict \<and> in_pos \<le> in_pos' \<and> in_pos' \<le> in_size
      \<and> (ret = LZMA_OK \<longrightarrow> lzma_coder_ok (if need_reset dict' then 0 else dict_full dict') c')
      \<and> (need_reset dict' \<longrightarrow> in_pos < in_pos')
      \<and> (ret = LZMA_OK \<longrightarrow> need_reset dict' \<or> in_pos' = in_size \<or> dict_pos dict' = dict_limit dict')"
    using d by (intro exI [of _ ret] exI [of _ c'] exI [of _ dict'] exI [of _ in_pos'] exI [of _ h']) simp
qed

definition example_lz_coder :: "(lzma_lzma1_decoder, unit) lzma_coder" where
  "example_lz_coder = \<lparr>lz_dict = \<lparr>dict_buf = replicate 4096 0, dict_pos = 0, dict_full = 0, dict_limit = 0, dict_length = 4096,
     need_reset = False\<rparr>, lz_lz = Some example_decoder, lz_next = (), next_finished = False, this_finished = False,
     temp_pos = 0, temp_size = 0, temp_buffer = []\<rparr>"

definition example_lz_options :: lzma_lz_options where
  "example_lz_options = \<lparr>lz_dict_size = 0, lz_preset_dict = None, lz_preset_dict_size = 0\<rparr>"

theorem lz_decoder_init_after_failure_witness:
  "\<exists>c'. lzma_lz_decoder_init (Some example_lz_coder) None ()
           (\<lambda>lz. lzma_decoder_init lz None (example_lzma_options\<lparr>dict_size := 8192\<rparr>) example_lz_options) (\<lambda>_. None) (\<lambda>n. (LZMA_OK, n))
       = Ret (LZMA_MEM_ERROR, Some c')
     \<and> lzma_lz_decoder_init (Some c') None ()
           (\<lambda>lz. lzma_decoder_init lz None example_lzma_options example_lz_options) (\<lambda>n. Some (replicate n 0)) (\<lambda>n. (LZMA_OK, n)) = Crash"
proof -
  let ?c = "Some (lzma_decoder_uncompressed (lzma_decoder_reset example_decoder (example_lzma_options\<lparr>dict_size := 8192\<rparr>)) LZMA_VLI_UNKNOWN)"
  show ?thesis
    by (rule lz_decoder_init_after_failure [where lz = ?c])
      (auto simp: lzma_decoder_init_def lzma_lzma_decoder_create_def is_lclppb_valid_def example_lz_coder_def rounded_size_def
        example_lz_options_def example_lzma_options_def)
qed

end
