(* ===== verification/Lzma2_Decoder.thy ===== *)
theory Lzma2_Decoder
  imports Lz_Decoder
begin

text \<open>
  The LZMA2 decoder (\<open>lzma/lzma2_decoder.c\<close>): chunks of LZMA data or of plain bytes, each with a control byte
  that says whether the dictionary, the state or the properties are reset. It drives the LZMA decoder and is
  driven by the LZ decoder.
\<close>

section \<open>Data\<close>

datatype lzma2_seq =
    SEQ_CONTROL | SEQ_UNCOMPRESSED_1 | SEQ_UNCOMPRESSED_2 | SEQ_COMPRESSED_0 | SEQ_COMPRESSED_1 | SEQ_PROPERTIES | SEQ_LZMA
  | SEQ_COPY2

text \<open>\<open>lzma_lzma2_coder\<close>; \<open>SEQ_COPY\<close> is \<open>SEQ_COPY2\<close> here, and \<open>l2_lzma\<close> is the coder in its member \<open>lzma\<close>.\<close>

record lzma_lzma2_coder =
  l2_sequence :: lzma2_seq
  next_sequence :: lzma2_seq
  l2_lzma :: "lzma_lzma1_decoder option"
  l2_uncompressed_size :: nat
  l2_compressed_size :: nat
  need_properties :: bool
  need_dictionary_reset :: bool
  l2_options :: lzma_options_lzma

section \<open>Operations\<close>

text \<open>A round of the loop goes on or returns.\<close>

datatype lzma2_result = Next lzma_lzma2_coder lzma_dict nat | Return lzma_ret lzma_lzma2_coder lzma_dict nat

text \<open>A call through \<open>coder->lzma\<close> that changes only its state.\<close>

definition on_lzma :: "(lzma_lzma1_decoder \<Rightarrow> lzma_lzma1_decoder) \<Rightarrow> lzma_lzma2_coder \<Rightarrow> lzma_lzma2_coder res" where
  "on_lzma f coder = (case l2_lzma coder of None \<Rightarrow> Crash | Some c \<Rightarrow> Ret (coder\<lparr>l2_lzma := Some (f c)\<rparr>))"

text \<open>The control byte: which chunk follows. \<open>Inl\<close> is an early return.\<close>

definition lzma2_chunk :: "nat \<Rightarrow> lzma_lzma2_coder \<Rightarrow> (lzma_ret \<times> lzma_lzma2_coder + lzma_lzma2_coder) res" where
  "lzma2_chunk control coder =
     (if control \<ge> 0x80 then
        let coder = coder\<lparr>l2_uncompressed_size := control mod 0x20 * 2 ^ 16, l2_sequence := SEQ_UNCOMPRESSED_1\<rparr>
        in if control \<ge> 0xC0 then Ret (Inr (coder\<lparr>need_properties := False, next_sequence := SEQ_PROPERTIES\<rparr>))
           else if need_properties coder then Ret (Inl (LZMA_DATA_ERROR, coder))
           else
             let coder = coder\<lparr>next_sequence := SEQ_LZMA\<rparr>
             in if control \<ge> 0xA0
                then bindR (on_lzma (\<lambda>c. lzma_decoder_reset c (l2_options coder)) coder) (\<lambda>coder. Ret (Inr coder))
                else Ret (Inr coder)
      else if control > 2 then Ret (Inl (LZMA_DATA_ERROR, coder))
      else Ret (Inr (coder\<lparr>l2_sequence := SEQ_COMPRESSED_0, next_sequence := SEQ_COPY2\<rparr>)))"

definition lzma2_control :: "nat \<Rightarrow> lzma_lzma2_coder \<Rightarrow> lzma_dict \<Rightarrow> nat \<Rightarrow> lzma2_result res" where
  "lzma2_control control coder dict in_pos =
     (if control = 0 then Ret (Return LZMA_STREAM_END coder dict in_pos)
      else
        let reset = (control \<ge> 0xE0 \<or> control = 1);
            coder = (if reset then coder\<lparr>need_properties := True, need_dictionary_reset := True\<rparr> else coder)
        in if \<not> reset \<and> need_dictionary_reset coder then Ret (Return LZMA_DATA_ERROR coder dict in_pos)
        else
          bindR (lzma2_chunk control coder) (\<lambda>r.
            case r of
              Inl (ret, coder) \<Rightarrow> Ret (Return ret coder dict in_pos)
            | Inr coder \<Rightarrow>
                if need_dictionary_reset coder
                then Ret (Return LZMA_OK (coder\<lparr>need_dictionary_reset := False\<rparr>) (dict_reset dict) in_pos)
                else Ret (Next coder dict in_pos)))"

text \<open>\<open>SEQ_LZMA\<close>: the LZMA decoder may have read past the end of the chunk only if the input is corrupt.\<close>

definition lzma2_lzma :: "lzma_lzma2_coder \<Rightarrow> lzma_dict \<Rightarrow> u8 list \<Rightarrow> nat \<Rightarrow> nat \<Rightarrow> lzma2_result res" where
  "lzma2_lzma coder dict inp in_start in_size =
     (case l2_lzma coder of
        None \<Rightarrow> Crash
      | Some lzma \<Rightarrow>
          bindR (lzma_decode lzma dict inp in_start in_size) (\<lambda>(ret, lzma, dict, in_pos).
            let coder = coder\<lparr>l2_lzma := Some lzma\<rparr>; in_used = in_pos - in_start
            in if in_used > l2_compressed_size coder then Ret (Return LZMA_DATA_ERROR coder dict in_pos)
            else
              let coder = coder\<lparr>l2_compressed_size := l2_compressed_size coder - in_used\<rparr>
              in if ret \<noteq> LZMA_STREAM_END then Ret (Return ret coder dict in_pos)
                 else if l2_compressed_size coder \<noteq> 0 then Ret (Return LZMA_DATA_ERROR coder dict in_pos)
                 else Ret (Next (coder\<lparr>l2_sequence := SEQ_CONTROL\<rparr>) dict in_pos)))"

definition lzma2_copy :: "lzma_lzma2_coder \<Rightarrow> lzma_dict \<Rightarrow> u8 list \<Rightarrow> nat \<Rightarrow> nat \<Rightarrow> lzma2_result" where
  "lzma2_copy coder dict inp in_pos in_size =
     (let (dict, in_pos, left) = dict_write dict inp in_pos in_size (l2_compressed_size coder);
          coder = coder\<lparr>l2_compressed_size := left\<rparr>
      in if left \<noteq> 0 then Return LZMA_OK coder dict in_pos
         else Next (coder\<lparr>l2_sequence := SEQ_CONTROL\<rparr>) dict in_pos)"

text \<open>One round of the loop, entered with a byte to read or in \<open>SEQ_LZMA\<close>.\<close>

definition lzma2_step :: "lzma_lzma2_coder \<Rightarrow> lzma_dict \<Rightarrow> u8 list \<Rightarrow> nat \<Rightarrow> nat \<Rightarrow> lzma2_result res" where
  "lzma2_step coder dict inp in_pos in_size =
     (let byte = unat (inp ! in_pos); goto = (\<lambda>seq coder. Ret (Next (coder\<lparr>l2_sequence := seq\<rparr>) dict (in_pos + 1)))
      in case l2_sequence coder of
        SEQ_CONTROL \<Rightarrow> lzma2_control byte coder dict (in_pos + 1)
      | SEQ_UNCOMPRESSED_1 \<Rightarrow>
          goto SEQ_UNCOMPRESSED_2 (coder\<lparr>l2_uncompressed_size := l2_uncompressed_size coder + byte * 2 ^ 8\<rparr>)
      | SEQ_UNCOMPRESSED_2 \<Rightarrow>
          let size = l2_uncompressed_size coder + (byte + 1)
          in bindR (on_lzma (\<lambda>c. lzma_decoder_uncompressed c (of_nat size)) (coder\<lparr>l2_uncompressed_size := size\<rparr>)) (goto SEQ_COMPRESSED_0)
      | SEQ_COMPRESSED_0 \<Rightarrow> goto SEQ_COMPRESSED_1 (coder\<lparr>l2_compressed_size := byte * 2 ^ 8\<rparr>)
      | SEQ_COMPRESSED_1 \<Rightarrow>
          goto (next_sequence coder) (coder\<lparr>l2_compressed_size := l2_compressed_size coder + (byte + 1)\<rparr>)
      | SEQ_PROPERTIES \<Rightarrow>
          let (bad, opts) = lzma_lzma_lclppb_decode (l2_options coder) (inp ! in_pos); coder = coder\<lparr>l2_options := opts\<rparr>
          in if bad then Ret (Return LZMA_DATA_ERROR coder dict (in_pos + 1))
             else bindR (on_lzma (\<lambda>c. lzma_decoder_reset c opts) coder) (goto SEQ_LZMA)
      | SEQ_LZMA \<Rightarrow> lzma2_lzma coder dict inp in_pos in_size
      | SEQ_COPY2 \<Rightarrow> Ret (lzma2_copy coder dict inp in_pos in_size))"

partial_function (option) lzma2_run ::
    "lzma_lzma2_coder \<Rightarrow> lzma_dict \<Rightarrow> u8 list \<Rightarrow> nat \<Rightarrow> nat \<Rightarrow> (lzma_ret \<times> lzma_lzma2_coder \<times> lzma_dict \<times> nat) res option" where
  "lzma2_run coder dict inp in_pos in_size =
     (if in_pos < in_size \<or> l2_sequence coder = SEQ_LZMA then
        case lzma2_step coder dict inp in_pos in_size of
          Ret (Next coder dict in_pos) \<Rightarrow> lzma2_run coder dict inp in_pos in_size
        | Ret (Return ret coder dict in_pos) \<Rightarrow> Some (Ret (ret, coder, dict, in_pos))
        | Abort \<Rightarrow> Some Abort
        | Hang \<Rightarrow> Some Hang
        | Crash \<Rightarrow> Some Crash
      else Some (Ret (LZMA_OK, coder, dict, in_pos)))"

definition lzma2_decode :: "lzma_lzma2_coder lz_code" where
  "lzma2_decode coder dict inp in_pos in_size =
     (case lzma2_run coder dict inp in_pos in_size of None \<Rightarrow> Hang | Some r \<Rightarrow> r)"

text \<open>
  \<open>mem\<close> and \<open>lzma_mem\<close> are what the two allocations return. The first sets \<open>coder->lzma\<close> to
  \<open>LZMA_LZ_DECODER_INIT\<close>.
\<close>

definition lzma2_decoder_init ::
    "lzma_lzma2_coder option \<Rightarrow> lzma_lzma2_coder option \<Rightarrow> lzma_lzma1_decoder option \<Rightarrow> lzma_options_lzma \<Rightarrow> lzma_lz_options
     \<Rightarrow> lzma_ret \<times> lzma_lzma2_coder option \<times> lzma_lz_options" where
  "lzma2_decoder_init lz mem lzma_mem opts lz_options =
     (case (case lz of None \<Rightarrow> map_option (\<lambda>c. c\<lparr>l2_lzma := None\<rparr>) mem | Some c \<Rightarrow> Some c) of
        None \<Rightarrow> (LZMA_MEM_ERROR, None, lz_options)
      | Some coder \<Rightarrow>
          let coder = coder\<lparr>l2_sequence := SEQ_CONTROL, need_properties := True,
                            need_dictionary_reset := (preset_dict opts = None \<or> preset_dict_size opts = 0)\<rparr>;
              (ret, lzma, lz_options) = lzma_lzma_decoder_create (l2_lzma coder) lzma_mem opts lz_options
          in (ret, Some (coder\<lparr>l2_lzma := lzma\<rparr>), lz_options))"

section \<open>Invariant\<close>

lemma lzma_coder_ok_mono: "lzma_coder_ok full c \<Longrightarrow> full \<le> full' \<Longrightarrow> lzma_coder_ok full' c"
  by (cases "ld_sequence c") (auto simp: lzma_coder_ok_def coder_inv_def intro: rep_ok_mono)

text \<open>
  Properties from the input are in range.
\<close>

lemma lclppb_decode_valid:
  assumes "lzma_lzma_lclppb_decode opts byte = (False, opts')"
  shows "is_lclppb_valid opts'"
proof -
  define b where "b = unat byte"
  have le: "\<not> byte > 224" using assms by (auto simp: lzma_lzma_lclppb_decode_def split: if_splits)
  then have b: "b \<le> 224" by (simp add: b_def word_less_nat_alt)
  define pb :: u32 where "pb = ucast (byte div 45)"
  define rest where "rest = byte - ucast (pb * 9 * 5)"
  define lp :: u32 where "lp = ucast (rest div 9)"
  define lc :: u32 where "lc = ucast rest - lp * 9"
  have opts': "opts' = opts\<lparr>opt_pb := pb, opt_lp := lp, opt_lc := lc\<rparr>" "\<not> 4 < lc + lp"
    using assms le unfolding lzma_lzma_lclppb_decode_def pb_def rest_def lp_def lc_def by (auto simp: Let_def)
  have pb: "unat pb = b div 45" using b by (simp add: pb_def unat_div b_def unsigned_ucast_eq take_bit_nat_eq_self_iff)
  have "unat (ucast (pb * 9 * 5) :: u8) = b div 45 * 45"
  proof -
    have "unat (pb * 9 * 5) = b div 45 * 45" using pb b by (simp add: unat_word_ariths)
    then show ?thesis using b by (simp add: unsigned_ucast_eq take_bit_nat_eq_self_iff)
  qed
  then have rest: "unat rest = b mod 45"
    by (simp add: rest_def unat_sub word_le_nat_alt b_def minus_mult_div_eq_mod minus_div_mult_eq_mod)
  have lp: "unat lp = b mod 45 div 9"
    using rest by (simp add: lp_def unat_div unsigned_ucast_eq take_bit_nat_eq_self_iff)
  have r32: "unat (ucast rest :: u32) = b mod 45" using rest by (simp add: unsigned_ucast_eq take_bit_nat_eq_self_iff)
  have lp9: "unat (lp * 9) = b mod 45 div 9 * 9" using lp by (simp add: unat_word_ariths)
  then have lc: "unat lc = b mod 45 mod 9"
    using r32 by (simp add: lc_def unat_sub word_le_nat_alt minus_div_mult_eq_mod)
  have sum: "unat (lc + lp) = unat lc + unat lp" using lp lc by (simp add: unat_word_ariths)
  then have "unat lc + unat lp \<le> 4" using opts'(2) by (simp add: word_less_nat_alt)
  then show ?thesis using opts' pb b sum by (auto simp: is_lclppb_valid_def word_le_nat_alt)
qed

text \<open>
  The LZMA decoder is ready when its state fits the dictionary and it knows the size of its chunk. Between
  chunks it need not be: then properties are needed first.
\<close>

definition lzma_known :: "lzma_lzma2_coder \<Rightarrow> bool" where
  "lzma_known c \<longleftrightarrow> (\<exists>z. l2_lzma c = Some z \<and> uncompressed_left z \<noteq> LZMA_VLI_UNKNOWN)"

definition lzma_ready :: "nat \<Rightarrow> lzma_lzma2_coder \<Rightarrow> bool" where
  "lzma_ready full c \<longleftrightarrow> lzma_known c \<and> lzma_coder_ok full (the (l2_lzma c)) \<and> is_lclppb_valid (l2_options c)"

fun payload_ok :: "nat \<Rightarrow> lzma2_seq \<Rightarrow> lzma_lzma2_coder \<Rightarrow> bool" where
  "payload_ok full SEQ_PROPERTIES c \<longleftrightarrow> lzma_known c"
| "payload_ok full SEQ_LZMA c \<longleftrightarrow> lzma_ready full c"
| "payload_ok full SEQ_COPY2 c \<longleftrightarrow> need_properties c \<or> lzma_ready full c"
| "payload_ok full seq c \<longleftrightarrow> False"

definition lzma_next_ok :: "nat \<Rightarrow> lzma_lzma2_coder \<Rightarrow> bool" where
  "lzma_next_ok full c \<longleftrightarrow> next_sequence c = SEQ_PROPERTIES \<or> next_sequence c = SEQ_LZMA \<and> lzma_ready full c"

fun chunk_ok :: "nat \<Rightarrow> lzma2_seq \<Rightarrow> lzma_lzma2_coder \<Rightarrow> bool" where
  "chunk_ok full SEQ_CONTROL c \<longleftrightarrow> need_properties c \<or> lzma_ready full c"
| "chunk_ok full SEQ_UNCOMPRESSED_1 c \<longleftrightarrow> l2_uncompressed_size c \<le> 0x1F0000 \<and> lzma_next_ok full c"
| "chunk_ok full SEQ_UNCOMPRESSED_2 c \<longleftrightarrow> l2_uncompressed_size c \<le> 0x1FFF00 \<and> lzma_next_ok full c"
| "chunk_ok full SEQ_COMPRESSED_0 c \<longleftrightarrow> payload_ok full (next_sequence c) c"
| "chunk_ok full SEQ_COMPRESSED_1 c \<longleftrightarrow> payload_ok full (next_sequence c) c"
| "chunk_ok full seq c \<longleftrightarrow> payload_ok full seq c"

definition lzma2_ok :: "nat \<Rightarrow> lzma_lzma2_coder \<Rightarrow> bool" where
  "lzma2_ok full c \<longleftrightarrow> l2_lzma c \<noteq> None \<and> chunk_ok full (l2_sequence c) c"

text \<open>The dictionary \<open>d'\<close> after appending \<open>h'\<close> to the history of \<open>d\<close>.\<close>

definition appends :: "u8 list \<Rightarrow> lzma_dict \<Rightarrow> u8 list \<Rightarrow> lzma_dict \<Rightarrow> bool" where
  "appends h d h' d' \<longleftrightarrow> dict_inv (h @ h') d' \<and> dict_pos d' = dict_pos d + length h' \<and> dict_limit d' = dict_limit d
     \<and> dict_length d' = dict_length d"

lemma appends_none [simp]: "dict_inv h d \<Longrightarrow> appends h d [] d"
  by (simp add: appends_def)

lemma appends_trans: "appends h d h1 d1 \<Longrightarrow> appends (h @ h1) d1 h2 d2 \<Longrightarrow> appends h d (h1 @ h2) d2"
  by (simp add: appends_def)

lemma appends_full: "dict_inv h d \<Longrightarrow> appends h d h' d' \<Longrightarrow> dict_full d \<le> dict_full d'"
  by (simp add: appends_def dict_inv_def dict_rel_def)

text \<open>What a round of the loop does: it goes on in a good state, closer to the end, or returns as an LZ-based decoder may.\<close>

definition lzma2_rank :: "lzma_lzma2_coder \<Rightarrow> nat \<Rightarrow> nat \<Rightarrow> nat" where
  "lzma2_rank c in_pos in_size = 2 * (in_size - in_pos) + (if l2_sequence c \<in> {SEQ_LZMA, SEQ_COPY2} then 1 else 0)"

definition returns_ok ::
    "u8 list \<Rightarrow> lzma_dict \<Rightarrow> nat \<Rightarrow> nat \<Rightarrow> lzma_ret \<Rightarrow> lzma_lzma2_coder \<Rightarrow> lzma_dict \<Rightarrow> nat \<Rightarrow> bool" where
  "returns_ok h d in_pos in_size ret c' d' in_pos' \<longleftrightarrow> (\<exists>h'. appends h d h' d') \<and> in_pos \<le> in_pos' \<and> in_pos' \<le> in_size
     \<and> (ret = LZMA_OK \<longrightarrow> lzma2_ok (if need_reset d' then 0 else dict_full d') c')
     \<and> (need_reset d' \<longrightarrow> in_pos < in_pos')
     \<and> (ret = LZMA_OK \<longrightarrow> need_reset d' \<or> in_pos' = in_size \<or> dict_pos d' = dict_limit d')"

fun round_ok :: "u8 list \<Rightarrow> lzma_dict \<Rightarrow> nat \<Rightarrow> nat \<Rightarrow> nat \<Rightarrow> lzma2_result \<Rightarrow> bool" where
  "round_ok h d in_pos in_size rank (Next c' d' in_pos') \<longleftrightarrow> (\<exists>h'. appends h d h' d') \<and> in_pos \<le> in_pos' \<and> in_pos' \<le> in_size
     \<and> \<not> need_reset d' \<and> lzma2_ok (dict_full d') c' \<and> lzma2_rank c' in_pos' in_size < rank"
| "round_ok h d in_pos in_size rank (Return ret c' d' in_pos') \<longleftrightarrow> returns_ok h d in_pos in_size ret c' d' in_pos'"

declare round_ok.simps [simp del]

lemma lzma_ready_mono: "lzma_ready full c \<Longrightarrow> full \<le> full' \<Longrightarrow> lzma_ready full' c"
  by (auto simp: lzma_ready_def intro: lzma_coder_ok_mono)

lemma not_unknown: "u \<noteq> LZMA_VLI_UNKNOWN \<Longrightarrow> n \<le> unat u \<Longrightarrow> u - of_nat n \<noteq> LZMA_VLI_UNKNOWN"
proof
  assume u: "u \<noteq> LZMA_VLI_UNKNOWN" "n \<le> unat u" "u - of_nat n = LZMA_VLI_UNKNOWN"
  have n: "unat (of_nat n :: lzma_vli) = n"
    using u(2) unsigned_less [of u, where 'a = nat] by (simp only: unat_of_nat) simp
  then have "unat (u - of_nat n) = unat u - n" using u(2) by (simp add: unat_sub word_le_nat_alt)
  then have "unat u \<ge> 0xFFFFFFFFFFFFFFFF" using u(3) by simp
  moreover have "unat u < 2 ^ 64" using unsigned_less [of u, where 'a = nat] by simp
  ultimately have "unat u = unat LZMA_VLI_UNKNOWN" by simp
  then show False using u(1) by (simp only: word_unat_eq_iff)
qed

lemma ready_fields [simp]:
  "lzma_known (c\<lparr>l2_uncompressed_size := n\<rparr>) = lzma_known c" "lzma_known (c\<lparr>l2_compressed_size := n\<rparr>) = lzma_known c"
  "lzma_known (c\<lparr>l2_sequence := q\<rparr>) = lzma_known c" "lzma_known (c\<lparr>next_sequence := q\<rparr>) = lzma_known c"
  "lzma_ready full (c\<lparr>l2_uncompressed_size := n\<rparr>) = lzma_ready full c" "lzma_ready full (c\<lparr>l2_compressed_size := n\<rparr>) = lzma_ready full c"
  "lzma_ready full (c\<lparr>l2_sequence := q\<rparr>) = lzma_ready full c" "lzma_ready full (c\<lparr>next_sequence := q\<rparr>) = lzma_ready full c"
  by (simp_all add: lzma_ready_def lzma_known_def)

lemma payload_fields [simp]:
  "payload_ok full seq (c\<lparr>l2_sequence := q\<rparr>) = payload_ok full seq c"
  "payload_ok full seq (c\<lparr>l2_compressed_size := n\<rparr>) = payload_ok full seq c"
  by (cases seq; simp)+

lemma error_round: "dict_inv h dict \<Longrightarrow> \<not> need_reset dict \<Longrightarrow> in_pos < in_size \<Longrightarrow>
   round_ok h dict in_pos in_size rank (Return LZMA_DATA_ERROR c dict (Suc in_pos))"
  by (auto simp: round_ok.simps returns_ok_def intro: appends_none)

text \<open>The round asks for a reset of the dictionary.\<close>

lemma reset_round: "dict_inv h dict \<Longrightarrow> in_pos < in_size \<Longrightarrow> lzma2_ok 0 c \<Longrightarrow>
   round_ok h dict in_pos in_size rank (Return LZMA_OK c (dict_reset dict) (Suc in_pos))"
  by (auto simp: round_ok.simps returns_ok_def dict_reset_def appends_def dict_inv_def dict_rel_def)

text \<open>The rounds that read one byte of a header.\<close>

lemma header_round: "dict_inv h dict \<Longrightarrow> \<not> need_reset dict \<Longrightarrow> in_pos < in_size \<Longrightarrow> lzma2_ok (dict_full dict) c' \<Longrightarrow>
   l2_sequence c \<notin> {SEQ_LZMA, SEQ_COPY2} \<Longrightarrow> round_ok h dict in_pos in_size (lzma2_rank c in_pos in_size) (Next c' dict (Suc in_pos))"
  by (auto simp: round_ok.simps lzma2_rank_def intro: appends_none)

lemma reset_ready:
  "lzma_ready full c \<Longrightarrow> l2_lzma c = Some z \<Longrightarrow> lzma_ready full (c\<lparr>l2_lzma := Some (lzma_decoder_reset z (l2_options c))\<rparr>)"
  by (auto simp: lzma_ready_def lzma_known_def reset_coder_ok) (simp add: lzma_decoder_reset_def)

lemma control_round:
  assumes d: "dict_inv h dict" "\<not> need_reset dict" and c: "lzma2_ok (dict_full dict) c" "l2_sequence c = SEQ_CONTROL"
    and pos: "in_pos < in_size"
  shows "\<exists>r. lzma2_control n c dict (Suc in_pos) = Ret r \<and> round_ok h dict in_pos in_size (lzma2_rank c in_pos in_size) r"
proof -
  obtain z where z: "l2_lzma c = Some z" using c(1) by (auto simp: lzma2_ok_def)
  have ready: "need_properties c \<or> lzma_ready (dict_full dict) c" using c by (simp add: lzma2_ok_def)
  have seq: "l2_sequence c \<notin> {SEQ_LZMA, SEQ_COPY2}" using c(2) by simp
  note rounds = error_round [OF d pos] header_round [OF d pos _ seq] reset_round [OF d(1) pos]
  note defs = lzma2_control_def lzma2_chunk_def on_lzma_def
  consider (zero) "n = 0" | (high) "n \<ge> 0xE0" | (one) "n = 1" | (other) "n \<noteq> 0" "n < 0xE0" "n \<noteq> 1" by linarith
  then show ?thesis
  proof cases
    case zero
    then show ?thesis using d pos by (auto simp: round_ok.simps defs returns_ok_def intro: appends_none)
  next
    case high
    then show ?thesis by (simp add: defs Let_def, intro rounds) (simp add: lzma2_ok_def lzma_next_ok_def z)
  next
    case one
    then show ?thesis by (simp add: defs Let_def, intro rounds) (simp add: lzma2_ok_def z)
  next
    case other
    show ?thesis
    proof (cases "need_dictionary_reset c")
      case True
      then show ?thesis using other rounds by (simp add: defs)
    next
      case no_reset: False
      consider (props) "0xC0 \<le> n" | (old) "0x80 \<le> n" "n < 0xC0" "need_properties c" | (reset) "0xA0 \<le> n" "n < 0xC0" "\<not> need_properties c"
        | (keep) "0x80 \<le> n" "n < 0xA0" "\<not> need_properties c" | (bad) "2 < n" "n < 0x80" | (copy) "n = 2"
        using other by linarith
      then show ?thesis
      proof cases
        case props
        then show ?thesis using other no_reset by (simp add: defs Let_def, intro rounds) (simp add: lzma2_ok_def lzma_next_ok_def z)
      next
        case old
        then show ?thesis using other no_reset rounds by (simp add: defs)
      next
        case reset
        then have "lzma_ready (dict_full dict) (c\<lparr>l2_lzma := Some (lzma_decoder_reset z (l2_options c))\<rparr>)"
          using reset_ready ready z by blast
        then show ?thesis using reset other no_reset z
          by (simp add: defs Let_def, intro rounds) (simp add: lzma2_ok_def lzma_next_ok_def lzma_ready_def lzma_known_def)
      next
        case keep
        then show ?thesis using ready other no_reset by (simp add: defs Let_def, intro rounds) (simp add: lzma2_ok_def lzma_next_ok_def z)
      next
        case bad
        then show ?thesis using no_reset rounds by (simp add: defs)
      next
        case copy
        then show ?thesis using ready no_reset by (simp add: defs Let_def, intro rounds) (simp add: lzma2_ok_def z)
      qed
    qed
  qed
qed

lemma lzma_round:
  assumes d: "dict_inv h dict" "\<not> need_reset dict" and c: "lzma2_ok (dict_full dict) c" "l2_sequence c = SEQ_LZMA"
    and pos: "in_pos \<le> in_size" "in_size \<le> length inp"
  shows "\<exists>r. lzma2_lzma c dict inp in_pos in_size = Ret r \<and> round_ok h dict in_pos in_size (lzma2_rank c in_pos in_size) r"
proof -
  obtain z where z: "l2_lzma c = Some z" "uncompressed_left z \<noteq> LZMA_VLI_UNKNOWN" "lzma_coder_ok (dict_full dict) z"
    "is_lclppb_valid (l2_options c)"
    using c by (auto simp: lzma2_ok_def lzma_ready_def lzma_known_def)
  obtain ret z' dict' in_pos' h' where r: "lzma_decode z dict inp in_pos in_size = Ret (ret, z', dict', in_pos')"
    "dict_inv (h @ h') dict'" "dict_pos dict' = dict_pos dict + length h'" "dict_limit dict' = dict_limit dict"
    "length h' \<le> unat (uncompressed_left z)" "uncompressed_left z' = uncompressed_left z - of_nat (length h')"
    "in_pos \<le> in_pos'" "in_pos' \<le> in_size"
    "ret = LZMA_OK \<or> ret = LZMA_STREAM_END \<longrightarrow> lzma_coder_ok (dict_full dict') z'"
    "ret = LZMA_OK \<longrightarrow> in_pos' = in_size \<or> dict_pos dict' = dict_limit dict"
    using lzma_decode_returns [OF d(1) z(3) pos] z(2) by auto
  note same = lzma_decode_dict [OF r(1)]
  have ap: "appends h dict h' dict'" using r same by (simp add: appends_def)
  have ready: "lzma_ready (dict_full dict') (c\<lparr>l2_lzma := Some z', l2_compressed_size := n\<rparr>)" if "ret = LZMA_OK \<or> ret = LZMA_STREAM_END" for n
    using that r(9) z(4) not_unknown [OF z(2) r(5)] r(6) by (simp add: lzma_ready_def lzma_known_def)
  show ?thesis
    using ap ready r same d(2) c(2) 
    by (auto simp: round_ok.simps lzma2_lzma_def z(1) Let_def returns_ok_def lzma2_ok_def lzma2_rank_def lzma_ready_def lzma_known_def)
qed

lemma copy_round:
  assumes d: "dict_inv h dict" "\<not> need_reset dict" and c: "lzma2_ok (dict_full dict) c" "l2_sequence c = SEQ_COPY2"
    and pos: "in_pos < in_size" "in_size \<le> length inp"
  shows "round_ok h dict in_pos in_size (lzma2_rank c in_pos in_size) (lzma2_copy c dict inp in_pos in_size)"
proof -
  define n where "n = min (min (in_size - in_pos) (l2_compressed_size c)) (dict_limit dict - dict_pos dict)"
  have rel: "dict_rel h dict" "dict_pos dict \<le> dict_limit dict" "dict_limit dict \<le> dict_length dict" "in_pos \<le> in_size"
    using d(1) pos by (auto simp: dict_inv_def)
  obtain d' where w: "dict_write dict inp in_pos in_size (l2_compressed_size c) = (d', in_pos + n, l2_compressed_size c - n)"
    "dict_rel (h @ segment in_pos (in_pos + n) inp) d'" "dict_pos d' = dict_pos dict + n" "dict_limit d' = dict_limit dict"
    "dict_length d' = dict_length dict" "need_reset d' = need_reset dict"
    using dict_write_hist [OF rel pos(2) n_def] by blast
  have len: "length (segment in_pos (in_pos + n) inp) = n" using pos by (simp add: n_def)
  have room: "dict_pos dict + n \<le> dict_limit dict" using rel(2) by (simp add: n_def)
  have ap: "appends h dict (segment in_pos (in_pos + n) inp) d'"
    using w len rel room by (simp add: appends_def dict_inv_def)
  have full: "dict_full dict \<le> dict_full d'" by (rule appends_full [OF d(1) ap])
  have ok: "need_properties c \<or> lzma_ready (dict_full d') c" using c lzma_ready_mono [OF _ full] by (auto simp: lzma2_ok_def)
  then have ok': "need_properties c \<or> lzma_ready (dict_full d') (c\<lparr>l2_compressed_size := k\<rparr>)"
    "need_properties c \<or> lzma_ready (dict_full d') (c\<lparr>l2_compressed_size := k, l2_sequence := q\<rparr>)" for k q
    by (auto simp: lzma_ready_def lzma_known_def)
  have stuck: "in_pos + n = in_size \<or> dict_pos d' = dict_limit d'" if "l2_compressed_size c - n \<noteq> 0"
  proof -
    have "n = in_size - in_pos \<or> n = l2_compressed_size c \<or> n = dict_limit dict - dict_pos dict"
      by (simp add: n_def min_def)
    then show ?thesis using that w(3,4) rel(2,4) by (elim disjE) simp_all
  qed
  have n: "in_pos + n \<le> in_size" using pos by (simp add: n_def)
  have l: "l2_lzma c \<noteq> None" using c by (simp add: lzma2_ok_def)
  show ?thesis
  proof (cases "l2_compressed_size c - n = 0")
    case True
    then have "lzma2_copy c dict inp in_pos in_size = Next (c\<lparr>l2_compressed_size := 0, l2_sequence := SEQ_CONTROL\<rparr>) d' (in_pos + n)"
      by (simp add: lzma2_copy_def w(1))
    then show ?thesis using ap n d(2) w(6) ok' l c(2) by (auto simp: round_ok.simps lzma2_ok_def lzma2_rank_def)
  next
    case False
    then have "lzma2_copy c dict inp in_pos in_size = Return LZMA_OK (c\<lparr>l2_compressed_size := l2_compressed_size c - n\<rparr>) d' (in_pos + n)"
      by (simp add: lzma2_copy_def w(1))
    then show ?thesis using ap n d(2) w(6) ok' l c(2) stuck [OF False] by (auto simp: round_ok.simps returns_ok_def lzma2_ok_def)
  qed
qed

lemma small_known:
  assumes "k \<le> 0x200000"
  shows "(of_nat k :: lzma_vli) \<noteq> LZMA_VLI_UNKNOWN"
proof
  assume "(of_nat k :: lzma_vli) = LZMA_VLI_UNKNOWN"
  then have "unat (of_nat k :: lzma_vli) = 0xFFFFFFFFFFFFFFFF" by simp
  then show False using assms by (simp add: unat_of_nat)
qed

lemma lzma2_step_safe:
  assumes d: "dict_inv h dict" "\<not> need_reset dict" and c: "lzma2_ok (dict_full dict) c"
    and pos: "in_pos \<le> in_size" "in_size \<le> length inp" "in_pos < in_size \<or> l2_sequence c = SEQ_LZMA"
  shows "\<exists>r. lzma2_step c dict inp in_pos in_size = Ret r \<and> round_ok h dict in_pos in_size (lzma2_rank c in_pos in_size) r"
proof -
  obtain z where z: "l2_lzma c = Some z" using c by (auto simp: lzma2_ok_def)
  have byte: "unat (inp ! in_pos) < 256" using unsigned_less [of "inp ! in_pos", where 'a = nat] by simp
  show ?thesis
  proof (cases "l2_sequence c")
    case SEQ_CONTROL
    then show ?thesis using control_round [OF d c SEQ_CONTROL] pos by (simp add: lzma2_step_def)
  next
    case SEQ_UNCOMPRESSED_1
    then have "lzma2_ok (dict_full dict) (c\<lparr>l2_uncompressed_size := l2_uncompressed_size c + unat (inp ! in_pos) * 2 ^ 8,
        l2_sequence := SEQ_UNCOMPRESSED_2\<rparr>)"
      using c byte by (auto simp: lzma2_ok_def lzma_next_ok_def)
    then show ?thesis using SEQ_UNCOMPRESSED_1 pos header_round [OF d, of in_pos in_size _ c] by (simp add: lzma2_step_def Let_def)
  next
    case SEQ_UNCOMPRESSED_2
    let ?size = "l2_uncompressed_size c + (unat (inp ! in_pos) + 1)"
    let ?z = "lzma_decoder_uncompressed z (of_nat ?size)"
    have size: "?size \<le> 0x200000" using c SEQ_UNCOMPRESSED_2 byte by (auto simp: lzma2_ok_def)
    note known = small_known [OF size]
    have "lzma_known c'" "lzma_ready (dict_full dict) c \<Longrightarrow> l2_options c' = l2_options c \<Longrightarrow> lzma_ready (dict_full dict) c'"
      if "l2_lzma c' = Some ?z" for c'
      using known z that by (auto simp: lzma_known_def lzma_ready_def lzma_decoder_uncompressed_def lzma_coder_ok_def coder_ok_update)
    then have "lzma2_ok (dict_full dict) (c\<lparr>l2_uncompressed_size := ?size, l2_lzma := Some ?z, l2_sequence := SEQ_COMPRESSED_0\<rparr>)"
      using c SEQ_UNCOMPRESSED_2 by (auto simp: lzma2_ok_def lzma_next_ok_def)
    then show ?thesis using SEQ_UNCOMPRESSED_2 pos header_round [OF d, of in_pos in_size _ c] z
      by (simp add: lzma2_step_def Let_def on_lzma_def)
  next
    case SEQ_COMPRESSED_0
    then have "lzma2_ok (dict_full dict) (c\<lparr>l2_compressed_size := n, l2_sequence := SEQ_COMPRESSED_1\<rparr>)" for n
      using c by (auto simp: lzma2_ok_def)
    then show ?thesis using SEQ_COMPRESSED_0 pos header_round [OF d, of in_pos in_size _ c] by (simp add: lzma2_step_def Let_def)
  next
    case SEQ_COMPRESSED_1
    then have "chunk_ok (dict_full dict) (next_sequence c) c" using c by (cases "next_sequence c") (auto simp: lzma2_ok_def)
    then have "lzma2_ok (dict_full dict) (c\<lparr>l2_compressed_size := n, l2_sequence := next_sequence c\<rparr>)" for n
      using z c SEQ_COMPRESSED_1 by (cases "next_sequence c") (auto simp: lzma2_ok_def)
    then show ?thesis using SEQ_COMPRESSED_1 pos header_round [OF d, of in_pos in_size _ c]
      by (simp add: lzma2_step_def Let_def)
  next
    case SEQ_PROPERTIES
    obtain bad opts where p: "lzma_lzma_lclppb_decode (l2_options c) (inp ! in_pos) = (bad, opts)" by fastforce
    show ?thesis
    proof (cases bad)
      case True
      then show ?thesis using SEQ_PROPERTIES p pos error_round [OF d] by (simp add: lzma2_step_def Let_def)
    next
      case False
      then have v: "is_lclppb_valid opts" using lclppb_decode_valid [of "l2_options c" "inp ! in_pos" opts] p by simp
      let ?z = "lzma_decoder_reset z opts"
      have "uncompressed_left ?z = uncompressed_left z" by (simp add: lzma_decoder_reset_def)
      then have "lzma2_ok (dict_full dict) (c\<lparr>l2_options := opts, l2_lzma := Some ?z, l2_sequence := SEQ_LZMA\<rparr>)"
        using c SEQ_PROPERTIES z v by (simp add: lzma2_ok_def lzma_ready_def lzma_known_def reset_coder_ok)
      then show ?thesis using False SEQ_PROPERTIES p pos z header_round [OF d, of in_pos in_size _ c]
        by (simp add: lzma2_step_def Let_def on_lzma_def)
    qed
  next
    case SEQ_LZMA
    then show ?thesis using lzma_round [OF d c SEQ_LZMA pos(1,2)] by (simp add: lzma2_step_def)
  next
    case SEQ_COPY2
    then show ?thesis using copy_round [OF d c SEQ_COPY2 _ pos(2)] pos(3) by (simp add: lzma2_step_def)
  qed
qed

lemma lzma2_run_safe:
  assumes "dict_inv h dict" "\<not> need_reset dict" "lzma2_ok (dict_full dict) c" "in_pos \<le> in_size" "in_size \<le> length inp"
  shows "\<exists>ret c' dict' in_pos'. lzma2_run c dict inp in_pos in_size = Some (Ret (ret, c', dict', in_pos'))
     \<and> returns_ok h dict in_pos in_size ret c' dict' in_pos'"
  using assms
proof (induction "lzma2_rank c in_pos in_size" arbitrary: h c dict in_pos rule: less_induct)
  case less
  show ?case
  proof (cases "in_pos < in_size \<or> l2_sequence c = SEQ_LZMA")
    case False
    then show ?thesis using less.prems
      by (subst lzma2_run.simps) (auto simp: returns_ok_def intro: appends_none)
  next
    case True
    obtain r where r: "lzma2_step c dict inp in_pos in_size = Ret r" "round_ok h dict in_pos in_size (lzma2_rank c in_pos in_size) r"
      using lzma2_step_safe [OF less.prems True] by blast
    show ?thesis
    proof (cases r)
      case (Return ret c' d' p')
      then show ?thesis using r True by (subst lzma2_run.simps) (auto simp: round_ok.simps)
    next
      case (Next c' d' p')
      obtain h' where n: "appends h dict h' d'" "in_pos \<le> p'" "p' \<le> in_size" "\<not> need_reset d'" "lzma2_ok (dict_full d') c'"
        "lzma2_rank c' p' in_size < lzma2_rank c in_pos in_size" using r(2) Next by (auto simp: round_ok.simps)
      have ext: "dict_inv (h @ h') d'" using n(1) by (simp add: appends_def)
      obtain ret c2 d2 p2 where q: "lzma2_run c' d' inp p' in_size = Some (Ret (ret, c2, d2, p2))"
        "returns_ok (h @ h') d' p' in_size ret c2 d2 p2"
        using less.hyps [OF n(6) ext n(4,5,3) less.prems(5)] by blast
      have "lzma2_run c dict inp in_pos in_size = Some (Ret (ret, c2, d2, p2))"
        using q(1) r(1) Next True by (subst lzma2_run.simps) simp
      moreover have "returns_ok h dict in_pos in_size ret c2 d2 p2"
        using q(2) n(2) appends_trans [OF n(1)] unfolding returns_ok_def by (meson le_less_trans le_trans)
      ultimately show ?thesis by blast
    qed
  qed
qed

interpretation lzma2: lz_decoder lzma2_decode lzma2_ok
proof
  fix h :: "u8 list" and dict c and inp :: "u8 list" and in_pos in_size :: nat
  assume "dict_inv h dict" "\<not> need_reset dict" "lzma2_ok (dict_full dict) c" "in_pos \<le> in_size" "in_size \<le> length inp"
  note run = lzma2_run_safe [OF this]
  obtain ret c' dict' in_pos' where run: "lzma2_run c dict inp in_pos in_size = Some (Ret (ret, c', dict', in_pos'))"
    "returns_ok h dict in_pos in_size ret c' dict' in_pos'" using run by blast
  then have r: "lzma2_decode c dict inp in_pos in_size = Ret (ret, c', dict', in_pos')" by (simp add: lzma2_decode_def)
  obtain h' where "appends h dict h' dict'" using run(2) by (auto simp: returns_ok_def)
  then show "\<exists>ret c' dict' in_pos' h'. lzma2_decode c dict inp in_pos in_size = Ret (ret, c', dict', in_pos')
      \<and> dict_inv (h @ h') dict' \<and> dict_pos dict' = dict_pos dict + length h' \<and> dict_limit dict' = dict_limit dict
      \<and> dict_length dict' = dict_length dict \<and> in_pos \<le> in_pos' \<and> in_pos' \<le> in_size
      \<and> (ret = LZMA_OK \<longrightarrow> lzma2_ok (if need_reset dict' then 0 else dict_full dict') c')
      \<and> (need_reset dict' \<longrightarrow> in_pos < in_pos')
      \<and> (ret = LZMA_OK \<longrightarrow> need_reset dict' \<or> in_pos' = in_size \<or> dict_pos dict' = dict_limit dict')"
    using r run(2) unfolding returns_ok_def appends_def
    by (intro exI [of _ ret] exI [of _ c'] exI [of _ dict'] exI [of _ in_pos'] exI [of _ h']) simp
qed

section \<open>The decoder as a whole\<close>

text \<open>A new LZMA2 decoder, or one that is used again.\<close>

lemma lzma2_init_ok:
  assumes "lz \<noteq> None \<or> mem \<noteq> None" "lzma_mem \<noteq> None"
  shows "\<exists>c. lzma2_decoder_init lz mem lzma_mem opts lz0 = (LZMA_OK, Some c,
       lz0\<lparr>lz_dict_size := unat (dict_size opts), lz_preset_dict := preset_dict opts, lz_preset_dict_size := unat (preset_dict_size opts)\<rparr>)
     \<and> (\<forall>full. lzma2_ok full c)"
proof -
  obtain c where c: "(case lz of None \<Rightarrow> map_option (\<lambda>c. c\<lparr>l2_lzma := None\<rparr>) mem | Some c \<Rightarrow> Some c) = Some c"
    using assms(1) by (cases lz) auto
  obtain z where z: "(case l2_lzma c of None \<Rightarrow> lzma_mem | Some z \<Rightarrow> Some z) = Some z" using assms(2) by (cases "l2_lzma c") auto
  show ?thesis
    unfolding lzma2_decoder_init_def c lzma_lzma_decoder_create_def by (simp add: z Let_def lzma2_ok_def)
qed

text \<open>
  C37: the raw LZMA2 decoder as an application uses it. After an initialisation in which no allocation
  fails, any sequence of calls of \<open>lz_decode\<close>, with arbitrary bytes as input, output buffers with arbitrary
  contents and any positions inside them, returns: no call loops, aborts or leaves a buffer. Each call
  moves its positions forward inside its buffers and leaves every byte of the output buffer outside
  the part it reports as written as it was. The dictionary at the end holds the end of the preset
  dictionary and of all that was written.
\<close>

theorem lzma2_decoder_safe:
  fixes base :: "(lzma_lzma2_coder, 'n) lzma_coder"
  assumes "lz_structure coder cmem next_null = Some base" "length (dict_buf (lz_dict base)) = dict_length (lz_dict base)"
    and "mem \<noteq> None" "lzma_mem \<noteq> None" "\<And>n. \<exists>buf. alloc n = Some buf \<and> length buf = n"
    and "\<And>preset. preset_dict opts = Some preset \<Longrightarrow> length preset = unat (preset_dict_size opts)"
    and "next_init (lz_next base) = (LZMA_OK, nx)" "list_all args_ok calls"
  shows "\<exists>c k0. lzma_lz_decoder_init coder cmem next_null (\<lambda>lz. lzma2_decoder_init lz mem lzma_mem opts lz0) alloc next_init
       = Ret (LZMA_OK, Some c)
     \<and> (\<exists>ret c' rs k. decode_calls lzma2_decode c calls = Some (Ret (ret, c', rs))
          \<and> list_all2 (\<lambda>(inp, in_pos, out, out_pos, action) (in_pos', out', out_pos').
              coder_io inp in_pos out out_pos in_pos' out' out_pos' \<and> drop out_pos' out' = drop out_pos' out)
            (take (length rs) calls) rs
          \<and> (ret = LZMA_OK \<longrightarrow> length rs = length calls)
          \<and> dict_rel (drop k ((case preset_dict opts of None \<Rightarrow> [] | Some preset \<Rightarrow> drop k0 preset)
                @ concat (map2 (\<lambda>(inp, in_pos, out, out_pos, action) (in_pos', out', out_pos'). segment out_pos out_pos' out') calls rs)))
              (lz_dict c'))"
proof -
  let ?o = "lz0\<lparr>lz_dict_size := unat (dict_size opts), lz_preset_dict := preset_dict opts, lz_preset_dict_size := unat (preset_dict_size opts)\<rparr>"
  obtain l where l: "lzma2_decoder_init (lz_lz base) mem lzma_mem opts lz0 = (LZMA_OK, Some l, ?o)" "\<And>full. lzma2_ok full l"
    using lzma2_init_ok [of "lz_lz base" mem lzma_mem opts lz0] assms(3,4) by blast
  have size: "lz_dict_size ?o < 2 ^ 32" using unsigned_less [of "dict_size opts", where 'a = nat] by simp
  have preset: "length p = lz_preset_dict_size ?o" if "lz_preset_dict ?o = Some p" for p using that assms(6) by simp
  obtain c where c: "lzma_lz_decoder_init coder cmem next_null (\<lambda>lz. lzma2_decoder_init lz mem lzma_mem opts lz0) alloc next_init
        = Ret (LZMA_OK, Some c)" "lz_lz c = Some l" "dict_rel (preset_tail ?o) (lz_dict c)" "\<not> need_reset (lz_dict c)"
    using lz_decoder_init_ready [where lz_init = "\<lambda>lz. lzma2_decoder_init lz mem lzma_mem opts lz0" and alloc = alloc
        and next_init = next_init, OF assms(1,2) l(1) size preset assms(5,7)]
    by blast
  have "lz_ok lzma2_ok (preset_tail ?o) c" using c l(2) by (simp add: lz_ok_def)
  note run = lzma2.decode_calls_safe [OF this assms(8), unfolded call_kept_def call_output_def]
  show ?thesis using c(1) run
    by (intro exI [of _ c] exI [of _ "unat (preset_dict_size opts) - rounded_size ?o"]) (simp add: preset_tail_def cong: option.case_cong)
qed

definition example_lzma2 :: lzma_lzma2_coder where
  "example_lzma2 = \<lparr>l2_sequence = SEQ_LZMA, next_sequence = SEQ_CONTROL, l2_lzma = None, l2_uncompressed_size = 7, l2_compressed_size = 9,
     need_properties = False, need_dictionary_reset = False, l2_options = example_lzma_options\<rparr>"

definition example_lzma2_mem :: "(lzma_lzma2_coder, unit) lzma_coder" where
  "example_lzma2_mem = \<lparr>lz_dict = example_dict, lz_lz = None, lz_next = (), next_finished = True, this_finished = True,
     temp_pos = 5, temp_size = 6, temp_buffer = []\<rparr>"

text \<open>
  Memory with arbitrary contents, a preset dictionary, and two calls with a chunk of plain bytes and rubbish,
  the first into the middle of a buffer.
\<close>

theorem lzma2_decoder_safe_witness:
  "\<exists>c k0. lzma_lz_decoder_init None (Some example_lzma2_mem) ()
       (\<lambda>lz. lzma2_decoder_init lz (Some example_lzma2) (Some example_decoder)
          (example_lzma_options\<lparr>preset_dict := Some [1, 2, 3], preset_dict_size := 3\<rparr>) example_lz_options)
       (\<lambda>n. Some (replicate n 7)) (\<lambda>n. (LZMA_OK, n)) = Ret (LZMA_OK, Some c)
     \<and> (\<exists>ret c' rs k. decode_calls lzma2_decode c
            [([1, 0, 2, 10, 20, 30], 0, [9, 9, 9, 9], 1, LZMA_RUN), ([0xE0, 1, 2, 3, 4], 0, [8, 8], 0, LZMA_RUN)] = Some (Ret (ret, c', rs))
          \<and> list_all2 call_kept
              (take (length rs) [([1, 0, 2, 10, 20, 30], 0, [9, 9, 9, 9], 1, LZMA_RUN), ([0xE0, 1, 2, 3, 4], 0, [8, 8], 0, LZMA_RUN)]) rs
          \<and> dict_rel (drop k (drop k0 [1, 2, 3] @ concat (map2 call_output
              [([1, 0, 2, 10, 20, 30], 0, [9, 9, 9, 9], 1, LZMA_RUN), ([0xE0, 1, 2, 3, 4], 0, [8, 8], 0, LZMA_RUN)] rs))) (lz_dict c'))"
proof -
  define calls :: "decode_args list" where
    "calls = [([1, 0, 2, 10, 20, 30], 0, [9, 9, 9, 9], 1, LZMA_RUN), ([0xE0, 1, 2, 3, 4], 0, [8, 8], 0, LZMA_RUN)]"
  have ok: "list_all args_ok calls" by (simp add: calls_def args_ok_def)
  have "\<exists>c k0. lzma_lz_decoder_init None (Some example_lzma2_mem) ()
       (\<lambda>lz. lzma2_decoder_init lz (Some example_lzma2) (Some example_decoder)
          (example_lzma_options\<lparr>preset_dict := Some [1, 2, 3], preset_dict_size := 3\<rparr>) example_lz_options)
       (\<lambda>n. Some (replicate n 7)) (\<lambda>n. (LZMA_OK, n)) = Ret (LZMA_OK, Some c)
     \<and> (\<exists>ret c' rs k. decode_calls lzma2_decode c calls = Some (Ret (ret, c', rs))
          \<and> list_all2 call_kept (take (length rs) calls) rs
          \<and> dict_rel (drop k (drop k0 [1, 2, 3] @ concat (map2 call_output calls rs))) (lz_dict c'))"
    using lzma2_decoder_safe [of None "Some example_lzma2_mem" "()" _ "Some example_lzma2" "Some example_decoder" "\<lambda>n. Some (replicate n 7)"
        "example_lzma_options\<lparr>preset_dict := Some [1, 2, 3], preset_dict_size := 3\<rparr>" "\<lambda>n. (LZMA_OK, n)" _ calls example_lz_options] ok
    by (simp add: lz_structure_def example_lzma_options_def flip: call_kept_def call_output_def) blast
  then show ?thesis unfolding calls_def .
qed

end
