(* ===== verification/Block_Decoder.thy ===== *)
theory Block_Decoder
  imports Block_Header Lzma2_Decoder
begin

text \<open>
  The Block decoder (\<open>common/block_decoder.c\<close>): it runs the filter chain of a Block, counts what goes in and
  out, and verifies the sizes, the padding and the check.
\<close>

section \<open>Data\<close>

datatype block_seq = SEQ_CODE | SEQ_PADDING | SEQ_CHECK

text \<open>
  \<open>lzma_block_coder\<close>. The block that its member \<open>block\<close> points to belongs to the caller and is passed along with
  it, apart from \<open>raw_check\<close>, which only this decoder writes.
\<close>

record 'c lzma_block_coder =
  bc_sequence :: block_seq
  bc_next :: "'c next_coder"
  bc_compressed_size :: lzma_vli
  bc_uncompressed_size :: lzma_vli
  bc_compressed_limit :: lzma_vli
  bc_check_pos :: nat
  bc_check :: lzma_check_state
  bc_ignore_check :: bool
  bc_raw_check :: "u8 list"

section \<open>Operations\<close>

text \<open>The new size, or \<open>None\<close> where the function returns true.\<close>

definition update_size :: "lzma_vli \<Rightarrow> lzma_vli \<Rightarrow> lzma_vli \<Rightarrow> lzma_vli option" where
  "update_size size' add limit =
     (let limit = (if limit > LZMA_VLI_MAX then LZMA_VLI_MAX else limit)
      in if limit < size' \<or> limit - size' < add then None else Some (size' + add))"

definition is_size_valid :: "lzma_vli \<Rightarrow> lzma_vli \<Rightarrow> bool" where
  "is_size_valid size' reference \<longleftrightarrow> reference = LZMA_VLI_UNKNOWN \<or> reference = size'"

text \<open>The loop over the padding: an early return code if there is one, \<open>compressed_size\<close> and \<open>*in_pos\<close>.\<close>

function block_padding :: "lzma_vli \<Rightarrow> u8 list \<Rightarrow> nat \<Rightarrow> lzma_ret option \<times> lzma_vli \<times> nat" where
  "block_padding size' inp in_pos =
     (if size' AND 3 \<noteq> 0 then
        if in_pos \<ge> length inp then (Some LZMA_OK, size', in_pos)
        else if inp ! in_pos \<noteq> 0x00 then (Some LZMA_DATA_ERROR, size' + 1, in_pos + 1)
        else block_padding (size' + 1) inp (in_pos + 1)
      else (None, size', in_pos))"
  by pat_completeness auto
termination by (relation "measure (\<lambda>(_, inp, in_pos). length inp - in_pos)") auto

declare block_padding.simps [simp del]

definition block_check_field ::
    "'c lzma_block_coder \<Rightarrow> lzma_block \<Rightarrow> u8 list \<Rightarrow> nat \<Rightarrow> lzma_ret \<times> 'c lzma_block_coder \<times> nat" where
  "block_check_field coder block inp in_pos =
     (let check_size = unat (lzma_check_size (blk_check block));
          (in_pos, raw, pos) = lzma_bufcpy inp in_pos (take check_size (bc_raw_check coder)) (bc_check_pos coder);
          coder = coder\<lparr>bc_raw_check := raw @ drop check_size (bc_raw_check coder), bc_check_pos := pos\<rparr>
      in if pos < check_size then (LZMA_OK, coder, in_pos)
      else if \<not> bc_ignore_check coder \<and> lzma_check_is_supported (blk_check block)
        \<and> take check_size (bc_raw_check coder) \<noteq> take check_size (check_buffer (bc_check coder))
      then (LZMA_DATA_ERROR, coder, in_pos)
      else (LZMA_STREAM_END, coder, in_pos))"

definition block_end_fields ::
    "'c lzma_block_coder \<Rightarrow> lzma_block \<Rightarrow> u8 list \<Rightarrow> nat \<Rightarrow> lzma_ret \<times> 'c lzma_block_coder \<times> nat" where
  "block_end_fields coder block inp in_pos =
     (let (ret, size', in_pos) = block_padding (bc_compressed_size coder) inp in_pos;
          coder = coder\<lparr>bc_compressed_size := size'\<rparr>
      in case ret of
           Some ret \<Rightarrow> (ret, coder, in_pos)
         | None \<Rightarrow>
             if blk_check block = LZMA_CHECK_NONE then (LZMA_STREAM_END, coder, in_pos)
             else
               let coder = (if \<not> bc_ignore_check coder then coder\<lparr>bc_check := lzma_check_finish (blk_check block) (bc_check coder)\<rparr> else coder)
               in block_check_field (coder\<lparr>bc_sequence := SEQ_CHECK\<rparr>) block inp in_pos)"

text \<open>\<open>code\<close> is \<open>coder->next.code\<close> and \<open>addr\<close> the address of \<open>out\<close>.\<close>

definition block_decode :: "'c lzma_code_function \<Rightarrow> nat \<Rightarrow> ('c lzma_block_coder \<times> lzma_block) lzma_code_function" where
  "block_decode code addr = (\<lambda>(coder, block) inp in_pos out out_pos action.
     case bc_sequence coder of
       SEQ_CODE \<Rightarrow>
         let in_start = in_pos; out_start = out_pos;
             (ret, nx, in_pos, out, out_pos) = code (nx_coder (bc_next coder)) inp in_pos out out_pos action;
             coder = coder\<lparr>bc_next := (bc_next coder)\<lparr>nx_coder := nx\<rparr>\<rparr>;
             in_used = in_pos - in_start; out_used = out_pos - out_start
         in (case update_size (bc_compressed_size coder) (of_nat in_used) (bc_compressed_limit coder) of
               None \<Rightarrow> (LZMA_DATA_ERROR, (coder, block), in_pos, out, out_pos)
             | Some c_size \<Rightarrow>
                 let coder = coder\<lparr>bc_compressed_size := c_size\<rparr>
                 in case update_size (bc_uncompressed_size coder) (of_nat out_used) (uncompressed_size block) of
                      None \<Rightarrow> (LZMA_DATA_ERROR, (coder, block), in_pos, out, out_pos)
                    | Some u_size \<Rightarrow>
                        let coder = coder\<lparr>bc_uncompressed_size := u_size\<rparr>;
                            coder = (if \<not> bc_ignore_check coder
                                     then coder\<lparr>bc_check := lzma_check_update (blk_check block) (addr + out_start)
                                                             (segment out_start out_pos out) (bc_check coder)\<rparr>
                                     else coder)
                        in if ret \<noteq> LZMA_STREAM_END then (ret, (coder, block), in_pos, out, out_pos)
                        else if \<not> is_size_valid c_size (compressed_size block) \<or> \<not> is_size_valid u_size (uncompressed_size block)
                        then (LZMA_DATA_ERROR, (coder, block), in_pos, out, out_pos)
                        else
                          let block = block\<lparr>compressed_size := c_size, uncompressed_size := u_size\<rparr>;
                              (ret, coder, in_pos) = block_end_fields (coder\<lparr>bc_sequence := SEQ_PADDING\<rparr>) block inp in_pos
                          in (ret, (coder, block), in_pos, out, out_pos))
     | SEQ_PADDING \<Rightarrow>
         let (ret, coder, in_pos) = block_end_fields coder block inp in_pos in (ret, (coder, block), in_pos, out, out_pos)
     | SEQ_CHECK \<Rightarrow>
         let (ret, coder, in_pos) = block_check_field coder block inp in_pos in (ret, (coder, block), in_pos, out, out_pos))"

text \<open>
  \<open>lzma_block_decoder_init\<close> on \<open>next->coder\<close>; \<open>mem\<close> is what allocating the structure returns, \<open>nil\<close> and \<open>run\<close> are as for
  \<open>lzma_raw_decoder_init\<close>.
\<close>

definition lzma_block_decoder_init ::
    "'c \<Rightarrow> (init_function \<Rightarrow> lzma_filter_info list \<Rightarrow> 'c next_coder \<Rightarrow> lzma_ret \<times> 'c next_coder)
     \<Rightarrow> 'c lzma_block_coder option \<Rightarrow> 'c lzma_block_coder option \<Rightarrow> lzma_block \<Rightarrow> (lzma_ret \<times> 'c lzma_block_coder option) res" where
  "lzma_block_decoder_init nil run coder mem block =
     (if lzma_block_unpadded_size (Some block) = 0 \<or> \<not> lzma_vli_is_valid (uncompressed_size block) then Ret (LZMA_PROG_ERROR, coder)
      else case (case coder of
                   Some c \<Rightarrow> Some c
                 | None \<Rightarrow> map_option (\<lambda>c. c\<lparr>bc_next := \<lparr>nx_coder = nil, nx_id = LZMA_VLI_UNKNOWN, nx_init = None\<rparr>\<rparr>) mem) of
             None \<Rightarrow> Ret (LZMA_MEM_ERROR, None)
           | Some c \<Rightarrow>
               let c = c\<lparr>bc_sequence := SEQ_CODE, bc_compressed_size := 0, bc_uncompressed_size := 0,
                         bc_compressed_limit :=
                           (if compressed_size block = LZMA_VLI_UNKNOWN
                            then (LZMA_VLI_MAX AND NOT 3) - ucast (header_size block) - ucast (lzma_check_size (blk_check block))
                            else compressed_size block),
                         bc_check_pos := 0, bc_check := lzma_check_init (blk_check block) (bc_check c),
                         bc_ignore_check := (if blk_version block \<ge> 1 then ignore_check block else False)\<rparr>
               in bindR (lzma_raw_decoder_init nil run (bc_next c) (blk_filters block)) (\<lambda>(ret, nx).
                    Ret (ret, Some (c\<lparr>bc_next := nx\<rparr>))))"

lemma block_decode_addr: "block_decode code addr = block_decode code 0"
  unfolding block_decode_def by (subst lzma_check_update_addr) (subst (2) lzma_check_update_addr, rule refl)

section \<open>Calls\<close>

text \<open>
  \<open>coder_calls code c xs ys c' ret\<close>: some calls of a coder in state \<open>c\<close>, all but the last returning \<open>LZMA_OK\<close>, read
  \<open>xs\<close>, wrote \<open>ys\<close> and ended in \<open>c'\<close> with \<open>ret\<close>.
\<close>

inductive coder_calls :: "'c lzma_code_function \<Rightarrow> 'c \<Rightarrow> u8 list \<Rightarrow> u8 list \<Rightarrow> 'c \<Rightarrow> lzma_ret \<Rightarrow> bool"
  for code :: "'c lzma_code_function" and c :: 'c where
  Start: "coder_calls code c [] [] c LZMA_OK"
| Call: "coder_calls code c xs ys c1 LZMA_OK \<Longrightarrow> code c1 inp in_pos out out_pos action = (ret, c2, in_pos', out', out_pos') \<Longrightarrow>
    in_pos \<le> length inp \<Longrightarrow> out_pos \<le> length out \<Longrightarrow> length inp < 2 ^ 64 \<Longrightarrow> length out < 2 ^ 64 \<Longrightarrow>
    coder_calls code c (xs @ segment in_pos in_pos' inp) (ys @ segment out_pos out_pos' out') c2 ret"

text \<open>A filter chain keeps its positions in the buffers, as long as it returns \<open>LZMA_OK\<close>.\<close>

locale raw_decoder =
  fixes code :: "'c lzma_code_function" and ok :: "'c \<Rightarrow> bool"
  assumes code_io: "ok c \<Longrightarrow> in_pos \<le> length inp \<Longrightarrow> out_pos \<le> length out \<Longrightarrow>
    code c inp in_pos out out_pos action = (ret, c', in_pos', out', out_pos') \<Longrightarrow>
    coder_io inp in_pos out out_pos in_pos' out' out_pos' \<and> (ret = LZMA_OK \<longrightarrow> ok c')"

text \<open>Block Padding.\<close>

definition pad4 :: "nat \<Rightarrow> nat" where
  "pad4 m = (4 - m mod 4) mod 4"

lemma pad4_step: "m mod 4 \<noteq> 0 \<Longrightarrow> pad4 m = Suc (pad4 (Suc m))"
proof -
  assume m: "m mod 4 \<noteq> 0"
  then have "m mod 4 = 1 \<or> m mod 4 = 2 \<or> m mod 4 = 3" by linarith
  then show ?thesis by (auto simp: pad4_def mod_Suc)
qed

lemma pad4_0: "pad4 m = 0 \<longleftrightarrow> m mod 4 = 0"
proof -
  have "m mod 4 = 0 \<or> m mod 4 = 1 \<or> m mod 4 = 2 \<or> m mod 4 = 3" by linarith
  then show ?thesis by (auto simp: pad4_def)
qed

lemma and3_mod4: "(of_nat m :: lzma_vli) AND 3 = 0 \<longleftrightarrow> m mod 4 = 0"
proof -
  have "(of_nat m :: lzma_vli) AND 3 = take_bit 2 (of_nat m)" by (simp add: take_bit_eq_mask mask_eq_exp_minus_1)
  also have "\<dots> = of_nat (take_bit 2 m)" by (simp add: take_bit_of_nat)
  finally have "(of_nat m :: lzma_vli) AND 3 = of_nat (m mod 4)" by (simp add: take_bit_eq_mod)
  moreover have "(of_nat (m mod 4) :: lzma_vli) = 0 \<longleftrightarrow> m mod 4 = 0"
    by (simp add: word_unat_eq_iff unat_of_nat)
  ultimately show ?thesis by simp
qed

lemma block_padding_spec:
  assumes "block_padding (of_nat m) inp p = (ret, s, q)" "p \<le> length inp"
  shows "p \<le> q \<and> q \<le> length inp \<and> s = of_nat (m + (q - p)) \<and> ret \<in> {None, Some LZMA_OK, Some LZMA_DATA_ERROR}
     \<and> (ret \<noteq> Some LZMA_DATA_ERROR \<longrightarrow> segment p q inp = replicate (q - p) 0 \<and> (q - p) + pad4 (m + (q - p)) = pad4 m)
     \<and> (ret = None \<longrightarrow> pad4 (m + (q - p)) = 0)"
  using assms
proof (induction "length inp - p" arbitrary: m p)
  case 0
  then show ?case by (subst (asm) block_padding.simps) (auto simp: and3_mod4 pad4_0 split: if_splits)
next
  case (Suc n)
  show ?case
  proof (cases "m mod 4 \<noteq> 0 \<and> inp ! p = 0")
    case True
    have lt: "p < length inp" using Suc(2) by simp
    have step: "block_padding (of_nat (Suc m)) inp (Suc p) = (ret, s, q)"
      using Suc.prems(1) True lt by (subst (asm) block_padding.simps) (simp add: and3_mod4 add.commute)
    have rest: "n = length inp - Suc p" "Suc p \<le> length inp" using Suc.hyps(2) lt by simp_all
    note ih = Suc.hyps(1) [OF rest(1) step rest(2)]
    have "Suc p \<le> q" using ih by (rule conjunct1)
    then have e: "Suc m + (q - Suc p) = m + (q - p)" "q - p = Suc (q - Suc p)" by arith+
    have "segment p q inp = inp ! p # segment (Suc p) q inp"
      using lt by (simp add: segment_def Cons_nth_drop_Suc [symmetric] e(2))
    moreover have "q - Suc p + pad4 (m + (q - p)) = pad4 (Suc m) \<Longrightarrow> q - p + pad4 (m + (q - p)) = pad4 m"
      using pad4_step [of m] True e(2) by simp
    ultimately show ?thesis using ih True e(2) \<open>Suc p \<le> q\<close> unfolding e(1) by (simp del: of_nat_add)
  next
    case False
    then show ?thesis using Suc.prems Suc.hyps(2)
      by (subst (asm) block_padding.simps) (auto simp: and3_mod4 pad4_0 split: if_splits)
  qed
qed

lemma update_size_nat:
  assumes "update_size (of_nat a) (of_nat b) limit = Some s" "a < 2 ^ 63" "b < 2 ^ 64"
  shows "s = of_nat (a + b) \<and> a + b < 2 ^ 63"
proof -
  define l where "l = (if limit > LZMA_VLI_MAX then LZMA_VLI_MAX else limit)"
  have l: "unat l < 2 ^ 63" by (auto simp: l_def word_less_nat_alt not_less word_le_nat_alt)
  have "\<not> l < of_nat a" "\<not> l - of_nat a < of_nat b" "s = of_nat (a + b)"
    using assms(1) by (auto simp: update_size_def l_def Let_def split: if_splits)
  moreover have "unat (of_nat a :: lzma_vli) = a" "unat (of_nat b :: lzma_vli) = b" using assms(2,3) by (simp_all add: unat_of_nat)
  ultimately have "a \<le> unat l" "b \<le> unat (l - of_nat a)" "s = of_nat (a + b)" by (simp_all add: word_less_nat_alt not_less)
  moreover have "unat (l - of_nat a) = unat l - a"
    using \<open>a \<le> unat l\<close> \<open>unat (of_nat a :: lzma_vli) = a\<close> by (simp add: unat_sub word_le_nat_alt)
  ultimately show ?thesis using l by simp
qed

section \<open>The invariant\<close>

text \<open>
  What the filter chain, which started in \<open>n0\<close>, has done when it has ended: it read \<open>cin\<close> and wrote \<open>ys\<close>, whose lengths
  agree with the sizes in the Block Header \<open>b0\<close> and are now in the block \<open>b\<close>.
\<close>

definition data_done :: "'c lzma_code_function \<Rightarrow> 'c \<Rightarrow> lzma_block \<Rightarrow> u8 list \<Rightarrow> u8 list \<Rightarrow> lzma_block \<Rightarrow> bool" where
  "data_done code n0 b0 cin ys b \<longleftrightarrow> (\<exists>n. coder_calls code n0 cin ys n LZMA_STREAM_END) \<and> length cin < 2 ^ 63 \<and> length ys < 2 ^ 63
     \<and> b = b0\<lparr>compressed_size := of_nat (length cin), uncompressed_size := of_nat (length ys)\<rparr>
     \<and> is_size_valid (of_nat (length cin)) (compressed_size b0) \<and> is_size_valid (of_nat (length ys)) (uncompressed_size b0)"

text \<open>A whole Block: Compressed Data, Block Padding, Check.\<close>

definition block_done :: "'c lzma_code_function \<Rightarrow> 'c \<Rightarrow> bool \<Rightarrow> lzma_block \<Rightarrow> u8 list \<Rightarrow> u8 list \<Rightarrow> lzma_block \<Rightarrow> bool" where
  "block_done code n0 ig b0 xs ys b \<longleftrightarrow> (\<exists>cin chk. xs = cin @ replicate (pad4 (length cin)) 0 @ chk \<and> data_done code n0 b0 cin ys b
     \<and> length chk = unat (lzma_check_size (blk_check b0))
     \<and> (\<not> ig \<and> lzma_check_is_supported (blk_check b0) \<longrightarrow> chk = check_spec (blk_check b0) ys))"

definition block_inv ::
    "'c lzma_code_function \<Rightarrow> ('c \<Rightarrow> bool) \<Rightarrow> 'c \<Rightarrow> bool \<Rightarrow> lzma_block \<Rightarrow> lzma_check_state \<Rightarrow> u8 list \<Rightarrow> u8 list \<Rightarrow> 'c lzma_block_coder \<times> lzma_block \<Rightarrow> bool" where
  "block_inv code ok n0 ig b0 k0 xs ys = (\<lambda>(c, b).
     let type = blk_check b0; checked = (\<not> ig \<longrightarrow> bc_check c = lzma_check_update type 0 ys (lzma_check_init type k0))
     in length (bc_raw_check c) = 64 \<and> bc_ignore_check c = ig \<and>
     (case bc_sequence c of
        SEQ_CODE \<Rightarrow> b = b0 \<and> coder_calls code n0 xs ys (nx_coder (bc_next c)) LZMA_OK \<and> ok (nx_coder (bc_next c))
          \<and> bc_compressed_size c = of_nat (length xs) \<and> length xs < 2 ^ 63 \<and> bc_uncompressed_size c = of_nat (length ys) \<and> length ys < 2 ^ 63
          \<and> checked \<and> bc_check_pos c = 0
      | SEQ_PADDING \<Rightarrow> checked \<and> bc_check_pos c = 0
          \<and> (\<exists>cin k. xs = cin @ replicate k 0 \<and> k + pad4 (length cin + k) = pad4 (length cin) \<and> data_done code n0 b0 cin ys b
               \<and> bc_compressed_size c = of_nat (length cin + k))
      | SEQ_CHECK \<Rightarrow> (\<not> ig \<and> lzma_check_is_supported type \<longrightarrow> take (unat (lzma_check_size type)) (check_buffer (bc_check c)) = check_spec type ys)
          \<and> (\<exists>cin raw. xs = cin @ replicate (pad4 (length cin)) 0 @ raw \<and> data_done code n0 b0 cin ys b \<and> length raw = bc_check_pos c
               \<and> bc_check_pos c \<le> unat (lzma_check_size type) \<and> take (bc_check_pos c) (bc_raw_check c) = raw)))"

text \<open>What a call leaves: the invariant, or the whole Block.\<close>

definition after_block where
  "after_block code ok n0 ig b0 k0 xs ys ret c b \<longleftrightarrow> (ret = LZMA_OK \<longrightarrow> block_inv code ok n0 ig b0 k0 xs ys (c, b))
     \<and> (ret = LZMA_STREAM_END \<longrightarrow> block_done code n0 ig b0 xs ys b)"

lemma check_size_le:
  assumes "type \<le> LZMA_CHECK_ID_MAX"
  shows "unat (lzma_check_size type) \<le> 64"
proof -
  have "unat type < length check_sizes" using assms by (simp add: check_sizes_def word_le_nat_alt)
  moreover have "list_all (\<lambda>n. unat n \<le> 64) check_sizes" by (simp add: check_sizes_def)
  ultimately have "unat (check_sizes ! unat type) \<le> 64" by (simp add: list_all_length)
  then show ?thesis using assms by (simp add: lzma_check_size_def)
qed

lemma data_done_check: "data_done code n0 b0 cin ys b \<Longrightarrow> blk_check b = blk_check b0"
  by (auto simp: data_done_def)

lemma check_inv:
  "block_inv code ok n0 ig b0 k0 xs ys (c, b) \<longleftrightarrow> length (bc_raw_check c) = 64 \<and> bc_ignore_check c = ig
     \<and> (\<not> ig \<and> lzma_check_is_supported (blk_check b0) \<longrightarrow> take (unat (lzma_check_size (blk_check b0))) (check_buffer (bc_check c)) = check_spec (blk_check b0) ys)
     \<and> (\<exists>cin raw. xs = cin @ replicate (pad4 (length cin)) 0 @ raw \<and> data_done code n0 b0 cin ys b \<and> length raw = bc_check_pos c
          \<and> bc_check_pos c \<le> unat (lzma_check_size (blk_check b0)) \<and> take (bc_check_pos c) (bc_raw_check c) = raw)"
  if "bc_sequence c = SEQ_CHECK"
  using that by (simp add: block_inv_def Let_def)

lemma padding_inv:
  "block_inv code ok n0 ig b0 k0 xs ys (c, b) \<longleftrightarrow> length (bc_raw_check c) = 64 \<and> bc_ignore_check c = ig
     \<and> (\<not> ig \<longrightarrow> bc_check c = lzma_check_update (blk_check b0) 0 ys (lzma_check_init (blk_check b0) k0)) \<and> bc_check_pos c = 0
     \<and> (\<exists>cin k. xs = cin @ replicate k 0 \<and> k + pad4 (length cin + k) = pad4 (length cin) \<and> data_done code n0 b0 cin ys b
          \<and> bc_compressed_size c = of_nat (length cin + k))"
  if "bc_sequence c = SEQ_PADDING"
  using that by (simp add: block_inv_def Let_def)

lemma check_field_step:
  assumes inv: "block_inv code ok n0 ig b0 k0 xs ys (c, b)" "bc_sequence c = SEQ_CHECK" "p \<le> length inp" "blk_check b0 \<le> LZMA_CHECK_ID_MAX"
    and f: "block_check_field c b inp p = (ret, c', q)"
  shows "p \<le> q \<and> q \<le> length inp \<and> after_block code ok n0 ig b0 k0 (xs @ segment p q inp) ys ret c' b"
proof -
  let ?n = "unat (lzma_check_size (blk_check b0))"
  note i = inv(1) [unfolded check_inv [OF inv(2)]]
  obtain cin raw where x: "xs = cin @ replicate (pad4 (length cin)) 0 @ raw" "data_done code n0 b0 cin ys b" "length raw = bc_check_pos c"
    "bc_check_pos c \<le> ?n" "take (bc_check_pos c) (bc_raw_check c) = raw" using i by blast
  have n: "?n \<le> length (bc_raw_check c)" using i check_size_le [OF inv(4)] by simp
  obtain q1 r1 pos where cpy: "lzma_bufcpy inp p (take ?n (bc_raw_check c)) (bc_check_pos c) = (q1, r1, pos)" by (metis prod_cases3)
  have len: "length (take ?n (bc_raw_check c)) = ?n" using n by simp
  note io = lzma_bufcpy_segment [OF cpy inv(3), unfolded len, OF x(4)]
  then have io': "p \<le> q1" "q1 \<le> length inp" "bc_check_pos c \<le> pos" "pos \<le> ?n" "length r1 = ?n"
    "take (bc_check_pos c) r1 = take (bc_check_pos c) (take ?n (bc_raw_check c))" using len by (simp_all add: coder_io_def)
  have read: "take pos r1 = raw @ segment p q1 inp"
  proof -
    have "take pos r1 = take (bc_check_pos c) r1 @ segment (bc_check_pos c) pos r1"
      using io'(3) by (metis le_add_diff_inverse segment_def take_add)
    then show ?thesis using io'(6) io(2) x(4,5) by (simp add: min_def)
  qed
  define c1 where "c1 = c\<lparr>bc_raw_check := r1 @ drop ?n (bc_raw_check c), bc_check_pos := pos\<rparr>"
  have b: "blk_check b = blk_check b0" by (rule data_done_check [OF x(2)])
  have r: "(ret, c', q) = (if pos < ?n then (LZMA_OK, c1, q1)
      else if \<not> ig \<and> lzma_check_is_supported (blk_check b0) \<and> r1 \<noteq> take ?n (check_buffer (bc_check c)) then (LZMA_DATA_ERROR, c1, q1)
      else (LZMA_STREAM_END, c1, q1))"
    using f i io'(5) by (simp add: block_check_field_def b cpy Let_def c1_def cong: if_cong)
  have whole: "block_done code n0 ig b0 (xs @ segment p q1 inp) ys b"
    if "pos = ?n" "\<not> ig \<and> lzma_check_is_supported (blk_check b0) \<longrightarrow> r1 = take ?n (check_buffer (bc_check c))"
    using x(1,2) read that i io'(5) unfolding block_done_def
    by (intro exI [of _ cin] exI [of _ r1]) simp
  have "block_inv code ok n0 ig b0 k0 (xs @ segment p q1 inp) ys (c1, b)"
    using i inv(2) x(1,2) io' read n
    by (subst check_inv) (auto simp: c1_def intro!: exI [of _ cin] dest: arg_cong [where f = length])
  then show ?thesis using r io' whole by (auto simp: after_block_def split: if_splits)
qed

lemma end_fields_step:
  assumes inv: "block_inv code ok n0 ig b0 k0 xs ys (c, b)" "bc_sequence c = SEQ_PADDING" "p \<le> length inp" "blk_check b0 \<le> LZMA_CHECK_ID_MAX" "check_ok k0"
    and f: "block_end_fields c b inp p = (ret, c', q)"
  shows "p \<le> q \<and> q \<le> length inp \<and> after_block code ok n0 ig b0 k0 (xs @ segment p q inp) ys ret c' b"
proof -
  note i = inv(1) [unfolded padding_inv [OF inv(2)]]
  obtain cin k where x: "xs = cin @ replicate k 0" "k + pad4 (length cin + k) = pad4 (length cin)" "data_done code n0 b0 cin ys b"
    "bc_compressed_size c = of_nat (length cin + k)" using i by blast
  obtain pr s q1 where pad: "block_padding (of_nat (length cin + k)) inp p = (pr, s, q1)" by (metis prod_cases3)
  define z where "z = q1 - p"
  note sp = block_padding_spec [OF pad inv(3), folded z_def]
  then have q1: "p \<le> q1" "q1 \<le> length inp" "s = of_nat (length cin + (k + z))" by (simp_all add: add.assoc)
  have b: "blk_check b = blk_check b0" by (rule data_done_check [OF x(3)])
  define c1 where "c1 = c\<lparr>bc_compressed_size := s\<rparr>"
  have read: "xs @ segment p q1 inp = cin @ replicate (k + z) 0" "(k + z) + pad4 (length cin + (k + z)) = pad4 (length cin)"
    if "pr \<noteq> Some LZMA_DATA_ERROR" using sp that x(1,2) by (simp_all add: replicate_add add.assoc)
  have r: "(ret, c', q) = (case pr of Some ret \<Rightarrow> (ret, c1, q1)
      | None \<Rightarrow> if blk_check b0 = LZMA_CHECK_NONE then (LZMA_STREAM_END, c1, q1)
          else block_check_field ((if \<not> ig then c1\<lparr>bc_check := lzma_check_finish (blk_check b0) (bc_check c)\<rparr> else c1)\<lparr>bc_sequence := SEQ_CHECK\<rparr>) b inp q1)"
    using f i by (simp add: block_end_fields_def x(4) pad b Let_def c1_def cong: if_cong option.case_cong del: of_nat_add)
  consider "pr = Some LZMA_DATA_ERROR" | "pr = Some LZMA_OK" | "pr = None" using sp by blast
  then show ?thesis
  proof cases
    case 1
    then show ?thesis using r q1 by (simp add: after_block_def)
  next
    case 2
    have "block_inv code ok n0 ig b0 k0 (xs @ segment p q1 inp) ys (c1, b)"
      using i inv(2) q1(3) x(3) read 2 by (subst padding_inv) (simp_all add: c1_def del: of_nat_add, blast)
    then show ?thesis using 2 r q1 by (simp add: after_block_def)
  next
    case 3
    have all: "k + z = pad4 (length cin)" using sp 3 read(2) by (simp add: add.assoc)
    then have xs: "xs @ segment p q1 inp = cin @ replicate (pad4 (length cin)) 0" using read(1) 3 by simp
    show ?thesis
    proof (cases "blk_check b0 = LZMA_CHECK_NONE")
      case True
      then have "block_done code n0 ig b0 (xs @ segment p q1 inp) ys b" using xs x(3) unfolding block_done_def
        by (intro exI [of _ cin] exI [of _ "[]"]) (simp add: lzma_check_size_def check_sizes_def check_spec_def)
      then show ?thesis using 3 r q1 True by (simp add: after_block_def)
    next
      case False
      define c2 where "c2 = (if \<not> ig then c1\<lparr>bc_check := lzma_check_finish (blk_check b0) (bc_check c)\<rparr> else c1)\<lparr>bc_sequence := SEQ_CHECK\<rparr>"
      have c2: "bc_sequence c2 = SEQ_CHECK" "length (bc_raw_check c2) = 64" "bc_ignore_check c2 = ig" "bc_check_pos c2 = 0"
        using i by (simp_all add: c2_def c1_def)
      have "take (unat (lzma_check_size (blk_check b0))) (check_buffer (bc_check c2)) = check_spec (blk_check b0) ys"
        if "\<not> ig" "lzma_check_is_supported (blk_check b0)"
        using check_of_message [OF that(2) inv(5)] that(1) i by (simp add: c2_def)
      then have "block_inv code ok n0 ig b0 k0 (xs @ segment p q1 inp) ys (c2, b)"
        using c2 xs x(3) by (subst check_inv) auto
      moreover have "block_check_field c2 b inp q1 = (ret, c', q)" using r 3 False by (simp add: c2_def)
      ultimately have "q1 \<le> q \<and> q \<le> length inp \<and> after_block code ok n0 ig b0 k0 ((xs @ segment p q1 inp) @ segment q1 q inp) ys ret c' b"
        using c2(1) q1(2) inv(4) by (intro check_field_step)
      then show ?thesis using q1(1) segment_append [of p q1 q inp] by simp
    qed
  qed
qed

lemma code_inv:
  "block_inv code ok n0 ig b0 k0 xs ys (c, b) \<longleftrightarrow> length (bc_raw_check c) = 64 \<and> bc_ignore_check c = ig \<and> b = b0
     \<and> coder_calls code n0 xs ys (nx_coder (bc_next c)) LZMA_OK \<and> ok (nx_coder (bc_next c))
     \<and> bc_compressed_size c = of_nat (length xs) \<and> length xs < 2 ^ 63 \<and> bc_uncompressed_size c = of_nat (length ys) \<and> length ys < 2 ^ 63
     \<and> (\<not> ig \<longrightarrow> bc_check c = lzma_check_update (blk_check b0) 0 ys (lzma_check_init (blk_check b0) k0)) \<and> bc_check_pos c = 0"
  if "bc_sequence c = SEQ_CODE"
  using that by (auto simp: block_inv_def Let_def)

lemma check_update_more:
  assumes "check_ok k"
  shows "lzma_check_update type addr zs (lzma_check_update type 0 ys (lzma_check_init type k)) = lzma_check_update type 0 (ys @ zs) (lzma_check_init type k)"
  using check.upd_append [OF length_check_init [OF assms], of type 0 ys zs type]
  by (metis lzma_check_update_addr)

context raw_decoder
begin

lemma code_phase_step:
  assumes inv: "block_inv code ok n0 ig b0 k0 xs ys (c, b)" "bc_sequence c = SEQ_CODE" "p \<le> length inp" "op \<le> length out"
    and lens: "length inp < 2 ^ 64" "length out < 2 ^ 64" "blk_check b0 \<le> LZMA_CHECK_ID_MAX" "check_ok k0"
    and f: "block_decode code addr (c, b) inp p out op action = (ret, (c', b'), q, out', oq)"
  shows "coder_io inp p out op q out' oq \<and> after_block code ok n0 ig b0 k0 (xs @ segment p q inp) (ys @ segment op oq out') ret c' b'"
proof -
  note i = inv(1) [unfolded code_inv [OF inv(2)]]
  obtain r nx p1 out1 o1 where call: "code (nx_coder (bc_next c)) inp p out op action = (r, nx, p1, out1, o1)" by (metis prod_cases5)
  have io: "coder_io inp p out op p1 out1 o1" "r = LZMA_OK \<longrightarrow> ok nx" using code_io [OF _ inv(3,4) call] i by auto
  define xs1 ys1 where "xs1 = xs @ segment p p1 inp" and "ys1 = ys @ segment op o1 out1"
  have room: "p1 - p < 2 ^ 64" "o1 - op < 2 ^ 64" using io(1) lens(1,2) unfolding coder_io_def by linarith+
  have used: "length xs1 = length xs + (p1 - p)" "length ys1 = length ys + (o1 - op)"
    using io(1) by (simp_all add: coder_io_def xs1_def ys1_def length_segment)
  define c1 where "c1 = c\<lparr>bc_next := (bc_next c)\<lparr>nx_coder := nx\<rparr>\<rparr>"
  show ?thesis
  proof (cases "update_size (of_nat (length xs)) (of_nat (p1 - p)) (bc_compressed_limit c)")
    case None
    then have "(ret, c', b', q, out', oq) = (LZMA_DATA_ERROR, c1, b, p1, out1, o1)"
      using f i inv(2) by (simp add: block_decode_def call Let_def c1_def)
    then show ?thesis using io(1) by (simp add: after_block_def)
  next
    case x: (Some cs)
    have cs: "cs = of_nat (length xs1)" "length xs1 < 2 ^ 63" using update_size_nat [OF x _ room(1)] i used by simp_all
    show ?thesis
    proof (cases "update_size (of_nat (length ys)) (of_nat (o1 - op)) (uncompressed_size b0)")
      case None
      then have "(ret, c', b', q, out', oq) = (LZMA_DATA_ERROR, c1\<lparr>bc_compressed_size := cs\<rparr>, b, p1, out1, o1)"
        using f i inv(2) x by (simp add: block_decode_def call Let_def c1_def)
      then show ?thesis using io(1) by (simp add: after_block_def)
    next
      case y: (Some us)
      have us: "us = of_nat (length ys1)" "length ys1 < 2 ^ 63" using update_size_nat [OF y _ room(2)] i used by simp_all
      define c2 where "c2 = (if \<not> ig then c1\<lparr>bc_compressed_size := cs, bc_uncompressed_size := us,
          bc_check := lzma_check_update (blk_check b0) (addr + op) (segment op o1 out1) (bc_check c)\<rparr>
        else c1\<lparr>bc_compressed_size := cs, bc_uncompressed_size := us\<rparr>)"
      have c2: "length (bc_raw_check c2) = 64" "bc_ignore_check c2 = ig" "bc_sequence c2 = SEQ_CODE" "nx_coder (bc_next c2) = nx"
        "bc_compressed_size c2 = of_nat (length xs1)" "bc_uncompressed_size c2 = of_nat (length ys1)" "bc_check_pos c2 = 0"
        "\<not> ig \<longrightarrow> bc_check c2 = lzma_check_update (blk_check b0) 0 ys1 (lzma_check_init (blk_check b0) k0)"
        using i inv(2) cs(1) us(1) check_update_more [OF lens(4), of "blk_check b0" "addr + op" "segment op o1 out1" ys]
        by (simp_all add: c2_def c1_def ys1_def)
      have calls: "coder_calls code n0 xs1 ys1 nx r"
        unfolding xs1_def ys1_def by (rule Call [where code = code, OF _ call inv(3,4) lens(1,2)]) (use i in simp)
      have on: "block_inv code ok n0 ig b0 k0 xs1 ys1 (c2, b0)" if "r = LZMA_OK"
        unfolding code_inv [OF c2(3)] using that calls io(2) c2 cs(2) us(2) by simp
      have r: "(ret, (c', b'), q, out', oq) = (if r \<noteq> LZMA_STREAM_END then (r, (c2, b), p1, out1, o1)
          else if \<not> is_size_valid cs (compressed_size b) \<or> \<not> is_size_valid us (uncompressed_size b) then (LZMA_DATA_ERROR, (c2, b), p1, out1, o1)
          else let b = b\<lparr>compressed_size := cs, uncompressed_size := us\<rparr>;
                   (ret, c, q) = block_end_fields (c2\<lparr>bc_sequence := SEQ_PADDING\<rparr>) b inp p1
               in (ret, (c, b), q, out1, o1))"
        using f i inv(2) x y by (simp add: block_decode_def call Let_def c2_def c1_def cong: if_cong)
      show ?thesis
      proof (cases "r = LZMA_STREAM_END \<and> is_size_valid cs (compressed_size b0) \<and> is_size_valid us (uncompressed_size b0)")
        case False
        then have "(ret, c', b', q, out', oq) = (if r \<noteq> LZMA_STREAM_END then r else LZMA_DATA_ERROR, c2, b0, p1, out1, o1)"
          using r i by (simp split: if_splits)
        then show ?thesis using io(1) on False by (auto simp: after_block_def xs1_def ys1_def split: if_splits)
      next
        case True
        define b1 where "b1 = b0\<lparr>compressed_size := cs, uncompressed_size := us\<rparr>"
        have "data_done code n0 b0 xs1 ys1 b1" using calls True cs us by (auto simp: data_done_def b1_def)
        then have "block_inv code ok n0 ig b0 k0 xs1 ys1 (c2\<lparr>bc_sequence := SEQ_PADDING\<rparr>, b1)"
          using c2 by (subst padding_inv) (auto intro!: exI [of _ xs1] exI [of _ 0])
        moreover have e: "block_end_fields (c2\<lparr>bc_sequence := SEQ_PADDING\<rparr>) b1 inp p1 = (ret, c', q)" "b' = b1" "out' = out1" "oq = o1"
          using r True i by (simp_all add: b1_def Let_def split: prod.splits)
        ultimately have "p1 \<le> q \<and> q \<le> length inp \<and> after_block code ok n0 ig b0 k0 (xs1 @ segment p1 q inp) ys1 ret c' b1"
          using io(1) lens(3,4) by (intro end_fields_step [where c = "c2\<lparr>bc_sequence := SEQ_PADDING\<rparr>"]) (simp_all add: coder_io_def)
        then show ?thesis using io(1) e(2-4) segment_append [of p p1 q inp] by (auto simp: coder_io_def xs1_def ys1_def)
      qed
    qed
  qed
qed

lemma block_decode_step:
  assumes inv: "block_inv code ok n0 ig b0 k0 xs ys (c, b)" "p \<le> length inp" "op \<le> length out"
    and lens: "length inp < 2 ^ 64" "length out < 2 ^ 64" "blk_check b0 \<le> LZMA_CHECK_ID_MAX" "check_ok k0"
    and f: "block_decode code addr (c, b) inp p out op action = (ret, (c', b'), q, out', oq)"
  shows "coder_io inp p out op q out' oq \<and> after_block code ok n0 ig b0 k0 (xs @ segment p q inp) (ys @ segment op oq out') ret c' b'"
proof (cases "bc_sequence c")
  case SEQ_CODE
  then show ?thesis using code_phase_step [OF inv(1) _ inv(2,3) lens f] by simp
next
  case SEQ_PADDING
  then have e: "block_end_fields c b inp p = (ret, c', q)" "b' = b" "out' = out" "oq = op"
    using f by (simp_all add: block_decode_def Let_def split: prod.splits)
  show ?thesis using end_fields_step [OF inv(1) SEQ_PADDING inv(2) lens(3,4) e(1)] e(2-4) inv(3) by (simp add: coder_io_def)
next
  case SEQ_CHECK
  then have e: "block_check_field c b inp p = (ret, c', q)" "b' = b" "out' = out" "oq = op"
    using f by (simp_all add: block_decode_def Let_def split: prod.splits)
  show ?thesis using check_field_step [OF inv(1) SEQ_CHECK inv(2) lens(3) e(1)] e(2-4) inv(3) by (simp add: coder_io_def)
qed

lemma block_calls:
  assumes "coder_calls (block_decode code addr) cb xs ys cb' ret" "block_inv code ok n0 ig b0 k0 [] [] cb"
    "blk_check b0 \<le> LZMA_CHECK_ID_MAX" "check_ok k0"
  shows "after_block code ok n0 ig b0 k0 xs ys ret (fst cb') (snd cb')"
  using assms
proof (induction rule: coder_calls.induct)
  case Start
  then show ?case by (simp add: after_block_def)
next
  case (Call xs ys c1 inp in_pos out out_pos action ret c2 in_pos' out' out_pos')
  then have "block_inv code ok n0 ig b0 k0 xs ys (fst c1, snd c1)" by (simp add: after_block_def)
  moreover have "block_decode code addr (fst c1, snd c1) inp in_pos out out_pos action = (ret, (fst c2, snd c2), in_pos', out', out_pos')"
    using Call.hyps(2) by simp
  ultimately show ?case using block_decode_step Call.hyps(3-6) Call.prems(2,3) by blast
qed

end

section \<open>Blocks of LZMA2\<close>

text \<open>
  \<open>lz_decode\<close> of the last filter of a chain as a \<open>code\<close> function. Under the invariant of the decoder it returns from
  every call, so the second case does not occur.
\<close>

definition last_code :: "'c lz_code \<Rightarrow> ('c, 'n) lzma_coder lzma_code_function" where
  "last_code lz coder inp in_pos out out_pos action =
     (case lz_decode lz None coder inp in_pos out out_pos action of
        Some (Ret r) \<Rightarrow> r
      | _ \<Rightarrow> (LZMA_PROG_ERROR, coder, in_pos, out, out_pos))"

interpretation lzma2_raw: raw_decoder "last_code lzma2_decode" "\<lambda>c. \<exists>h. lz_ok lzma2_ok h c"
proof
  fix c :: "(lzma_lzma2_coder, 'n) lzma_coder" and c' inp in_pos out out_pos action ret in_pos' out' out_pos'
  assume a: "\<exists>h. lz_ok lzma2_ok h c" "in_pos \<le> length inp" "out_pos \<le> length out"
    "last_code lzma2_decode c inp in_pos out out_pos action = (ret, c', in_pos', out', out_pos')"
  then obtain h where "lz_ok lzma2_ok h c" by blast
  from lzma2.lz_decode_last [OF this a(2,3), of action]
  obtain ret1 c1 p1 bs k where r: "lz_decode lzma2_decode None c inp in_pos out out_pos action
      = Some (Ret (ret1, c1, p1, write_at out_pos bs out, out_pos + length bs))" "out_pos + length bs \<le> length out" "in_pos \<le> p1"
    "p1 \<le> length inp" "ret1 = LZMA_OK \<longrightarrow> lz_ok lzma2_ok (drop k (h @ bs)) c1"
    by blast
  have e: "ret = ret1" "c' = c1" "in_pos' = p1" "out' = write_at out_pos bs out" "out_pos' = out_pos + length bs"
    using a(4) r(1) by (simp_all add: last_code_def)
  show "coder_io inp in_pos out out_pos in_pos' out' out_pos' \<and> (ret = LZMA_OK \<longrightarrow> (\<exists>h. lz_ok lzma2_ok h c'))"
    using r(2-5) by (auto simp: e coder_io_def write_at_def)
qed

lemma block_init_inv:
  assumes "lzma_block_decoder_init nil run coder mem b = Ret (LZMA_OK, Some c)" "ok (nx_coder (bc_next c))"
    "length (bc_raw_check c) = 64" "check_ok (bc_check c)"
  shows "\<exists>k. check_ok k \<and> block_inv code ok (nx_coder (bc_next c)) (blk_version b \<ge> 1 \<and> ignore_check b) b k [] [] (c, b)"
    "blk_check b \<le> LZMA_CHECK_ID_MAX"
proof -
  have valid: "lzma_block_unpadded_size (Some b) \<noteq> 0" using assms(1) by (auto simp: lzma_block_decoder_init_def split: if_splits)
  then show "blk_check b \<le> LZMA_CHECK_ID_MAX" by (auto simp: lzma_block_unpadded_size_def not_less split: if_splits)
  have c: "bc_sequence c = SEQ_CODE \<and> bc_compressed_size c = 0 \<and> bc_uncompressed_size c = 0 \<and> bc_check_pos c = 0
      \<and> bc_ignore_check c = (blk_version b \<ge> 1 \<and> ignore_check b) \<and> (\<exists>k. bc_check c = lzma_check_init (blk_check b) k)"
    using assms(1) by (auto simp: lzma_block_decoder_init_def Let_def bindR_Ret_iff split: if_splits option.splits prod.splits)
  then obtain k where k: "bc_check c = lzma_check_init (blk_check b) k" by blast
  have "check_ok (lzma_check_init (blk_check b) k) = check_ok k" by (simp add: lzma_check_init_def lzma_sha256_init_def)
  then have "check_ok k" using assms(4) k by simp
  moreover have "block_inv code ok (nx_coder (bc_next c)) (blk_version b \<ge> 1 \<and> ignore_check b) b k [] [] (c, b)"
    using assms(2-4) c k Start [of code] by (subst code_inv) (simp_all add: check.upd_Nil)
  ultimately show "\<exists>k. check_ok k \<and> block_inv code ok (nx_coder (bc_next c)) (blk_version b \<ge> 1 \<and> ignore_check b) b k [] [] (c, b)" by blast
qed

text \<open>
  C38: what the Block decoder accepts. After a successful initialisation over an LZMA2 decoder, let any sequence of
  calls, with buffers of any size, read \<open>xs\<close>, write \<open>ys\<close> and end with \<open>LZMA_STREAM_END\<close>. Then \<open>xs\<close> is the
  compressed data, which the LZMA2 decoder decodes to \<open>ys\<close> from its initial state, followed by zeros up to a
  multiple of four bytes and by the Check field, and the Check field holds the check of \<open>ys\<close>, unless the check
  is to be ignored or is of an unknown type. The sizes agree with those in the Block Header where it has them, and
  they are stored in the block. The address of the output is immaterial (\<open>block_decode_addr\<close>).
\<close>

theorem block_decoder_accepts:
  fixes c :: "(lzma_lzma2_coder, 'n) lzma_coder lzma_block_coder"
  assumes "lzma_block_decoder_init nil run coder mem b = Ret (LZMA_OK, Some c)" "lz_ok lzma2_ok h (nx_coder (bc_next c))"
    and "length (bc_raw_check c) = 64" "check_ok (bc_check c)"
    and "coder_calls (block_decode (last_code lzma2_decode) addr) (c, b) xs ys (c', b') LZMA_STREAM_END"
  shows "block_done (last_code lzma2_decode) (nx_coder (bc_next c)) (blk_version b \<ge> 1 \<and> ignore_check b) b xs ys b'"
proof -
  let ?ok = "\<lambda>c. \<exists>h. lz_ok lzma2_ok h c"
  have "?ok (nx_coder (bc_next c))" using assms(2) by blast
  note i = block_init_inv [where ok = ?ok, OF assms(1) this assms(3,4)]
  obtain k where "check_ok k" "block_inv (last_code lzma2_decode) ?ok (nx_coder (bc_next c)) (blk_version b \<ge> 1 \<and> ignore_check b) b k [] [] (c, b)"
    using i(1) by blast
  from lzma2_raw.block_calls [OF assms(5) this(2) i(2) this(1)] show ?thesis by (simp add: after_block_def)
qed

text \<open>A Block of one chunk of plain bytes, with its padding and a CRC32.\<close>

definition example_lz2 :: "(lzma_lzma2_coder, unit) lzma_coder" where
  "example_lz2 = example_lzma2_mem\<lparr>lz_dict := \<lparr>dict_buf = replicate 16 0, dict_pos = 0, dict_full = 0, dict_limit = 0, dict_length = 16, need_reset = False\<rparr>,
     lz_lz := Some (example_lzma2\<lparr>l2_sequence := SEQ_CONTROL, need_properties := True, need_dictionary_reset := True, l2_lzma := Some example_decoder\<rparr>)\<rparr>"

definition example_state :: lzma_check_state where
  "example_state = \<lparr>check_buffer = replicate 64 0, crc32_state = 9, crc64_state = 9, sha256_state = [], sha256_size = 9\<rparr>"

definition example_bc :: "(lzma_lzma2_coder, unit) lzma_coder lzma_block_coder" where
  "example_bc = \<lparr>bc_sequence = SEQ_CHECK, bc_next = \<lparr>nx_coder = example_lzma2_mem, nx_id = 0, nx_init = None\<rparr>, bc_compressed_size = 9, bc_uncompressed_size = 9,
     bc_compressed_limit = 9, bc_check_pos = 9, bc_check = example_state, bc_ignore_check = True, bc_raw_check = replicate 64 0\<rparr>"

definition example_chain :: lzma_block where
  "example_chain = example_block 12 [\<lparr>filter_id = LZMA_FILTER_LZMA2, options = Some (Options_Lzma example_lzma_options)\<rparr>, no_filter]"

definition example_run where
  "example_run = (\<lambda>init filters nx. (LZMA_OK, nx\<lparr>nx_coder := example_lz2\<rparr>))"

definition example_data :: "u8 list" where
  "example_data = [1, 0, 2, 10, 20, 30, 0, 0, 0xF2, 0xB6, 0x77, 0x26]"

lemma example_lz2_code:
  "\<exists>c. last_code lzma2_decode example_lz2 example_data 0 (replicate 5 0) 0 LZMA_RUN = (LZMA_STREAM_END, c, 7, [10, 20, 30, 0, 0], 3)"
  unfolding last_code_def example_data_def
  by (simp add: lz_decode.simps lz_decode_buffer.simps example_lz2_def example_lzma2_mem_def example_lzma2_def lend_dict_def
      lzma2_decode_def lzma2_run.simps lzma2_step_def lzma2_control_def lzma2_chunk_def dict_reset_def lz_decoder_reset_def Let_def,
    subst lz_decode_buffer.simps,
    simp add: lend_dict_def lzma2_decode_def lzma2_run.simps lzma2_step_def lzma2_control_def lzma2_copy_def dict_write_def Let_def lzma_bufcpy_def,
    simp add: write_at_def segment_def numeral_eq_Suc)

lemma crc_eight: "(crc_bit p ^^ 8) r = crc_bit p (crc_bit p (crc_bit p (crc_bit p (crc_bit p (crc_bit p (crc_bit p (crc_bit p r)))))))"
  by (simp add: eval_nat_numeral)

lemma example_crc: "take 4 (check_buffer (lzma_check_finish 1 (lzma_check_update 1 0 [10, 20, 30] (lzma_check_init 1 example_state)))) = [0xF2, 0xB6, 0x77, 0x26]"
proof -
  have "check_spec 1 [10, 20, 30] = [0xF2, 0xB6, 0x77, 0x26]"
    by (simp add: check_spec_def crc_ref_def crc_eight crc_bit_def write32ne_def)
  then show ?thesis using check_of_message [of 1 example_state "[10, 20, 30]"]
    by (simp add: supported_types lzma_check_size_def check_sizes_def example_state_def)
qed

lemma example_bc_init:
  "\<exists>c. lzma_block_decoder_init example_lzma2_mem example_run None (Some example_bc) example_chain = Ret (LZMA_OK, Some c)
     \<and> bc_sequence c = SEQ_CODE \<and> nx_coder (bc_next c) = example_lz2 \<and> bc_compressed_size c = 0 \<and> bc_uncompressed_size c = 0
     \<and> bc_compressed_limit c = 0x7FFFFFFFFFFFFFEC \<and> bc_check c = lzma_check_init 1 example_state \<and> \<not> bc_ignore_check c
     \<and> bc_raw_check c = replicate 64 0 \<and> bc_check_pos c = 0"
  by (simp add: lzma_block_decoder_init_def lzma_raw_decoder_init_def lzma_raw_coder_init_def example_chain_def example_block_def
      lzma_block_unpadded_size_def lzma_vli_is_valid_def validate_chain_def find_features_def features_def chain_infos_def decoder_find_def
      decoders_def lzma_next_filter_init_def example_run_def example_bc_def lzma_check_size_def check_sizes_def Let_def)

lemma example_lz2_ok: "lz_ok lzma2_ok [] example_lz2"
  by (simp add: lz_ok_def example_lz2_def dict_rel_def hist_buf_def lzma2_ok_def)

lemma example_bc_code:
  assumes "bc_sequence c = SEQ_CODE" "nx_coder (bc_next c) = example_lz2" "bc_compressed_size c = 0" "bc_uncompressed_size c = 0"
    "bc_compressed_limit c = 0x7FFFFFFFFFFFFFEC" "bc_check c = lzma_check_init 1 example_state" "\<not> bc_ignore_check c"
    "bc_raw_check c = replicate 64 0" "bc_check_pos c = 0"
  shows "\<exists>cb. block_decode (last_code lzma2_decode) 0 (c, example_chain) example_data 0 (replicate 5 0) 0 LZMA_RUN
    = (LZMA_STREAM_END, cb, 12, [10, 20, 30, 0, 0], 3)"
proof -
  obtain c1 where c1: "last_code lzma2_decode example_lz2 example_data 0 (replicate 5 0) 0 LZMA_RUN = (LZMA_STREAM_END, c1, 7, [10, 20, 30, 0, 0], 3)"
    using example_lz2_code by blast
  have out: "segment 0 3 [10, 20, 30, 0, 0 :: u8] = [10, 20, 30]" by (simp add: segment_def)
  have pad: "block_padding 7 example_data 7 = (None, 8, 8)" 
    by (simp add: block_padding.simps [of 7] block_padding.simps [of 8] example_data_def)
  have copy: "lzma_bufcpy example_data 8 (replicate 4 0) 0 = (12, [0xF2, 0xB6, 0x77, 0x26], 4)"
    by (simp add: lzma_bufcpy_def example_data_def write_at_def)
  show ?thesis
    using assms c1 out pad copy example_crc
    by (simp add: block_decode_def example_chain_def example_block_def update_size_def is_size_valid_def block_end_fields_def block_check_field_def
        lzma_check_size_def check_sizes_def supported_types)
qed

theorem block_decoder_accepts_witness:
  "\<exists>c b'. lzma_block_decoder_init example_lzma2_mem example_run None (Some example_bc) example_chain = Ret (LZMA_OK, Some c)
     \<and> block_done (last_code lzma2_decode) example_lz2 False example_chain example_data [10, 20, 30] b'"
proof -
  obtain c where c: "lzma_block_decoder_init example_lzma2_mem example_run None (Some example_bc) example_chain = Ret (LZMA_OK, Some c)"
     "bc_sequence c = SEQ_CODE" "nx_coder (bc_next c) = example_lz2" "bc_compressed_size c = 0" "bc_uncompressed_size c = 0"
     "bc_compressed_limit c = 0x7FFFFFFFFFFFFFEC" "bc_check c = lzma_check_init 1 example_state" "\<not> bc_ignore_check c"
     "bc_raw_check c = replicate 64 0" "bc_check_pos c = 0" using example_bc_init by blast
  obtain c' b' where "block_decode (last_code lzma2_decode) 0 (c, example_chain) example_data 0 (replicate 5 0) 0 LZMA_RUN
      = (LZMA_STREAM_END, (c', b'), 12, [10, 20, 30, 0, 0], 3)" using example_bc_code [OF c(2-10)] by auto
  from Call [where code = "block_decode (last_code lzma2_decode) 0", OF Start this] have "coder_calls (block_decode (last_code lzma2_decode) 0) (c, example_chain) example_data [10, 20, 30] (c', b') LZMA_STREAM_END"
    by (simp add: example_data_def segment_def)
  from block_decoder_accepts [OF c(1) _ _ _ this, of "[]"] c(1) show ?thesis
    using example_lz2_ok by (auto simp: c(3,7,9) example_state_def length_check_init example_chain_def example_block_def)
qed
end
