(* ===== verification/Spec2Isabelle.thy ===== *)
theory Spec2Isabelle
  imports Mutex_Threads Semaphores Cond_Threads Rwlock Barrier Once Threads Vli Stream_Flags Simple_Streams Index_Hash Block_Decoder
begin

text \<open>
  \<^bold>\<open>Biosphere: the thread library and liblzma.\<close>

  Biosphere is a tool chain for console programs: a run time (\<open>libbio\<close>, C++), a POSIX thread library
  ported from OpenBSD (\<open>src/pthread\<close>) and a few libraries that are built with it, of which the
  compression library (\<open>src/xz/src/liblzma\<close>) is the one whose sources are in the repository in C. This
  development models the thread library completely and, of liblzma, the path of the \<open>.xz\<close> decoder from the
  container headers over filter chains down to the range decoder, with the checks and the Index at its
  end, and the interface of the coders.

  \<^bold>\<open>How C is modelled.\<close> A structure is a \<^theory_text>\<open>record\<close> with the members that the code uses, a
  pointer to it an option (\<open>None\<close> is null), a pointer to a handle \<open>'a handlep\<close> (\<open>Prelude\<close>). An unsigned
  integer is a word of its width, an \<open>int\<close> is an \<open>int\<close> in its range with \<open>to_int\<close> where it can
  overflow; sizes and indices are natural numbers. A buffer is the list of its bytes; a function that
  writes into a buffer returns it. A function that may crash or abort returns \<open>'a res\<close>; error numbers
  and \<open>lzma_ret\<close> codes are values. The outcome of an allocation is an argument (\<open>alloc\<close>), as is the
  address of a buffer where the code looks at its alignment. A call that sleeps is cut at the wait: one
  definition for the code up to the wait, one for the code after it. A struct of function pointers is
  a record of functions.

  \<^bold>\<open>The thread library\<close> (\<open>src/pthread\<close>).

  \<^item> \<open>Prelude\<close>: C types, error numbers, reachable states, the locales \<open>transition_system\<close> and
    \<open>exclusion\<close> that the step relations interpret.
  \<^item> \<open>Spinlock\<close>: the atomic lock of \<open>rthread_internal.c\<close> and \<open>rthread_spin_lock.c\<close>, one caller and many
    threads; mutual exclusion.
  \<^item> \<open>Attributes\<close>: every attribute object (\<open>rthread_attr.c\<close>, \<open>rthread_sched.c\<close>, \<open>sched_prio.c\<close>, the
    \<open>*attr.c\<close> files); setters and getters, and the refusal of every stack size.
  \<^item> \<open>Semaphore_Core\<close>, \<open>Semaphores\<close>: \<open>rthread_sem.c\<close> over the wait queue that \<open>phal.h\<close> promises; the
    value is exact and no wake-up is lost.
  \<^item> \<open>Rthread\<close>, \<open>Tls\<close>, \<open>Threads\<close>: the state of the library, thread-specific storage (\<open>rthread_tls.c\<close>)
    and the life of threads (\<open>rthread_thread.c\<close>, \<open>rthread_internal.c\<close>): create, exit, join, detach,
    release, reaper, cleanup handlers, key destructors.
  \<^item> \<open>Mutex\<close>, \<open>Mutex_Threads\<close>: \<open>rthread_mutex.c\<close> as one caller sees it, refining an abstract mutex
    with every outcome of a call and the lock word, and at the granularity of its atomic operations
    with any number of threads; mutual exclusion, the lost wake-up.
  \<^item> \<open>Cond\<close>, \<open>Cond_Threads\<close>: \<open>rthread_cond.c\<close>, its calls and the protocol of the two locks: a signal
    misses no thread that has given up the mutex, and two threads can block each other.
  \<^item> \<open>Rwlock\<close>, \<open>Barrier\<close>, \<open>Once\<close>: \<open>rthread_rwlock.c\<close>, \<open>rthread_barrier.c\<close>, \<open>rthread_once.c\<close>. The
    counting of a barrier holds also when waits fail; the routine of \<open>pthread_once\<close> runs once however
    the calls overlap, as long as the mutex can be allocated.

  \<^bold>\<open>liblzma\<close> (\<open>src/xz/src/liblzma\<close>), on a little-endian machine as the target is.

  \<^item> \<open>Lzma_Base\<close>: return codes, buffers, the locales \<open>byte_codec\<close> (an encoder and a decoder that undoes
    it) and \<open>streaming_check\<close> (a check that takes a message in pieces).
  \<^item> \<open>Vli\<close>: variable-length integers; the decoder undoes the encoder, accepts nothing else, and can be
    interrupted anywhere.
  \<^item> \<open>Tuklib_Integer\<close>: byte order (\<open>src/common/tuklib_integer.h\<close>).
  \<^item> \<open>Crc\<close>: the CRCs, small and slicing-by-eight, with the table generators, equal to a bit-by-bit
    reference at every alignment.
  \<^item> \<open>Sha256_Compress\<close>, \<open>Sha256\<close>: SHA-256, equal to a transcription of FIPS 180-4.
  \<^item> \<open>Check\<close>: the common interface; checking pieces checks the whole.
  \<^item> \<open>Stream_Flags\<close>: Stream Header and Footer; round trips.
  \<^item> \<open>Coder\<close>: \<open>lzma_code\<close>, its protocol of actions, sequences and return codes, and the contract of a
    coder (locale \<open>coder_fn\<close>); the application's loop around it ends. \<open>coder_run\<close> is any sequence of calls
    of a coder, with what it read and wrote.
  \<^item> \<open>Delta\<close>: the delta filter in both directions; over any sequence of calls and any next coder it
    subtracts, or adds, the byte a distance before.
  \<^item> \<open>Bcj_Block\<close>, \<open>Bcj_Sparc_Thumb\<close>, \<open>Bcj_Ia64\<close>, \<open>Bcj\<close>: the branch converters for ARM, PowerPC, SPARC,
    ARM-Thumb and IA-64, with the contract that the coder around them relies on (locales
    \<open>block_filter\<close> and \<open>simple_filter\<close>).
  \<^item> \<open>Simple_Coder\<close>, \<open>Simple_Streams\<close>: that coder. Over any sequence of calls with buffers of any size its
    output is the converter applied to all that the next coder supplied, and it stays in its buffers.
  \<^item> \<open>Lzma_Props\<close>, \<open>Filters\<close>, \<open>Block_Header\<close>: the properties of LZMA1 and LZMA2 filters, the tables of
    filters with the validation of chains and the Filter Flags, and the Block Header: round trip, and
    every filter that comes out of a header has options of the kind that its ID asks for.
  \<^item> \<open>Lz_Dict\<close>: the circular dictionary of the LZ decoders (\<open>lz/lz_decoder.h\<close>); it implements the history of
    all bytes decoded so far.
  \<^item> \<open>Range_Decoder\<close>, \<open>Lzma_Decoder\<close>, \<open>Lzma_Safe\<close>: the range decoder, the state machine of \<open>lzma_decode\<close>
    with a program counter for each label it can be resumed at, and its safety on arbitrary input: it
    returns, every probability it uses is in range and initialised, every distance is in the dictionary.
  \<^item> \<open>Lz_Decoder\<close>: \<open>lz/lz_decoder.c\<close>, the loop that lends the dictionary to an LZ-based decoder, for any
    decoder that keeps the contract of the locale \<open>lz_decoder\<close>; \<open>lzma_decode\<close> keeps it. A failed
    initialisation leaves a coder that crashes when it is initialised again.
  \<^item> \<open>Lzma2_Decoder\<close>: the chunks of LZMA2 around the LZMA decoder; it keeps the same contract, so an
    initialised LZMA2 decoder is safe for any sequence of calls and writes only what it reports.
  \<^item> \<open>Block_Decoder\<close>: \<open>common/block_decoder.c\<close>, over any filter chain that stays in its buffers (locale
    \<open>raw_decoder\<close>, kept by LZMA2): what it accepts is compressed data, padding and a correct check.
  \<^item> \<open>Index_Hash\<close>: \<open>common/index_hash.c\<close>; an Index is accepted exactly when its Records agree with the
    Blocks that were decoded, in their sums and their SHA-256.

  \<^bold>\<open>Bounds and fuel.\<close> Two definitions take fuel. \<open>code_loop\<close> counts the calls of \<open>lzma_code\<close>; the
  property about it gives the number of calls that is enough. The spin loops of \<open>Spinlock\<close> return
  \<open>None\<close> when another thread would have to release the lock; the interleaved models decide who does.
  The loops of the LZ decoders (\<open>decoder_run\<close>, \<open>lz_decode_buffer\<close>, \<open>lz_decode\<close>, \<open>lzma2_run\<close>) are partial functions
  with \<open>None\<close> for a loop that does not end; that they return is part of the safety properties. All other
  loops are total functions. The number of threads is not bounded in any model.

  \<^bold>\<open>Not modelled.\<close> \<open>libbio\<close> and the functions behind \<open>phal.h\<close> (C++ around supervisor calls; the contract
  that the header states is modelled); debug output and the stubs that only return \<open>ENOSYS\<close>. Of
  liblzma: the x86 converter, the tree of Indexes (\<open>index.c\<close>) and the decoders of whole
  files that string the parts above together, and the release of memory. The encoders and the threaded coder are not built
  (\<open>mk/liblzma.mk\<close> disables them), apart from the small ones whose inverse is modelled. The command-line
  tools, the vendored JavaScript engine and the host tools are outside the libraries.
\<close>

end
